(* ===== verification/Prelude.thy ===== *)
theory Prelude
  imports Main "HOL-Library.AList"
begin

text \<open>
  Shared vocabulary of the development.

  \<^item> Fallible code returns a value of a sum type, \<open>Inl\<close> for what the source throws.
    \<open>bind_result\<close> is the sequencing of two fallible steps and \<open>map_result\<close> a fallible
    \<open>Array.map\<close>, which stops at the first throw as the source does.
  \<^item> A JavaScript \<open>Map\<close> keeps insertion order: setting a present key replaces its value
    in place, setting an absent one appends. That is an association list with
    \<open>AList.update\<close> and \<open>AList.delete\<close> over distinct keys. The locale \<open>js_map\<close> states
    what the components rely on and is interpreted on these two operations.
  \<^item> \<open>log_simps\<close> collects the rewrite rules about position-ordered logs and
    \<open>throw_simps\<close> those about fallible steps.
\<close>

named_theorems log_simps
named_theorems throw_simps

section \<open>Fallible steps\<close>

definition bind_result :: "'e + 'a \<Rightarrow> ('a \<Rightarrow> 'e + 'b) \<Rightarrow> 'e + 'b" where
  "bind_result r f = (case r of Inl e \<Rightarrow> Inl e | Inr a \<Rightarrow> f a)"

lemma bind_result_simps [simp]:
  "bind_result (Inl e) f = Inl e"
  "bind_result (Inr a) f = f a"
  by (simp_all add: bind_result_def)

lemma bind_result_Inr_iff [throw_simps]:
  "bind_result r f = Inr b \<longleftrightarrow> (\<exists>a. r = Inr a \<and> f a = Inr b)"
  by (cases r) auto

lemma bind_result_Inl_iff [throw_simps]:
  "bind_result r f = Inl e \<longleftrightarrow> r = Inl e \<or> (\<exists>a. r = Inr a \<and> f a = Inl e)"
  by (cases r) auto

fun map_result :: "('a \<Rightarrow> 'e + 'b) \<Rightarrow> 'a list \<Rightarrow> 'e + 'b list" where
  "map_result f [] = Inr []"
| "map_result f (x # xs) =
     (case f x of Inl e \<Rightarrow> Inl e
      | Inr y \<Rightarrow> (case map_result f xs of Inl e \<Rightarrow> Inl e | Inr ys \<Rightarrow> Inr (y # ys)))"

lemma map_result_Inr_iff [throw_simps]:
  "map_result f xs = Inr ys \<longleftrightarrow> list_all2 (\<lambda>x y. f x = Inr y) xs ys"
proof (induction xs arbitrary: ys)
  case (Cons x xs)
  show ?case
    by (cases ys; cases "f x"; cases "map_result f xs") (auto simp flip: Cons.IH)
qed auto

lemma map_result_total: "(\<And>x. x \<in> set xs \<Longrightarrow> f x = Inr (g x)) \<Longrightarrow> map_result f xs = Inr (map g xs)"
  by (induction xs) auto

lemma map_result_Inr_map:
  assumes "map_result f xs = Inr ys"
  shows "ys = map (\<lambda>x. projr (f x)) xs"
  using assms by (induction xs arbitrary: ys) (auto split: sum.splits)

section \<open>Insertion-ordered maps\<close>

type_synonym ('k, 'v) jsmap = "('k \<times> 'v) list"

abbreviation map_get :: "('k, 'v) jsmap \<Rightarrow> 'k \<Rightarrow> 'v option" where
  "map_get m k \<equiv> map_of m k"

abbreviation map_set :: "'k \<Rightarrow> 'v \<Rightarrow> ('k, 'v) jsmap \<Rightarrow> ('k, 'v) jsmap" where
  "map_set \<equiv> AList.update"

abbreviation map_delete :: "'k \<Rightarrow> ('k, 'v) jsmap \<Rightarrow> ('k, 'v) jsmap" where
  "map_delete \<equiv> AList.delete"

abbreviation map_keys :: "('k, 'v) jsmap \<Rightarrow> 'k list" where
  "map_keys m \<equiv> map fst m"

abbreviation wf_map :: "('k, 'v) jsmap \<Rightarrow> bool" where
  "wf_map m \<equiv> distinct (map fst m)"

text \<open>What a client of a \<open>Map\<close> relies on, and what follows from it.\<close>

locale js_map =
  fixes get :: "'m \<Rightarrow> 'k \<Rightarrow> 'v option"
    and set_key :: "'k \<Rightarrow> 'v \<Rightarrow> 'm \<Rightarrow> 'm"
    and del :: "'k \<Rightarrow> 'm \<Rightarrow> 'm"
    and keys :: "'m \<Rightarrow> 'k list"
    and wf :: "'m \<Rightarrow> bool"
  assumes get_set: "get (set_key k v m) k' = (if k' = k then Some v else get m k')"
    and get_del: "get (del k m) k' = (if k' = k then None else get m k')"
    and wf_set: "wf m \<Longrightarrow> wf (set_key k v m)"
    and wf_del: "wf m \<Longrightarrow> wf (del k m)"
    and keys_get: "k \<in> set (keys m) \<longleftrightarrow> get m k \<noteq> None"
    and keys_set: "keys (set_key k v m) = (if k \<in> set (keys m) then keys m else keys m @ [k])"
    and keys_distinct: "wf m \<Longrightarrow> distinct (keys m)"
begin

lemma set_set: "get (set_key k v (set_key k w m)) = get (set_key k v m)"
  by (rule ext) (simp add: get_set)

lemma set_del: "get (del k (set_key k v m)) = get (del k m)"
  by (rule ext) (simp add: get_set get_del)

lemma set_commute: "k \<noteq> l \<Longrightarrow> get (set_key k v (set_key l w m)) = get (set_key l w (set_key k v m))"
  by (rule ext) (simp add: get_set)

lemma keys_del: "set (keys (del k m)) = set (keys m) - {k}"
  by (auto simp: keys_get get_del split: if_splits)

lemma length_keys_set:
  "length (keys (set_key k v m)) = (if get m k = None then Suc (length (keys m)) else length (keys m))"
  using keys_get [of k m] by (simp add: keys_set)

end

interpretation alist: js_map map_get map_set map_delete map_keys wf_map
  by unfold_locales
    (auto simp: update_conv' delete_conv' distinct_update distinct_delete update_keys
       map_of_eq_None_iff)

lemma map_get_set [simp]: "map_get (map_set k v m) k' = (if k' = k then Some v else map_get m k')"
  by (rule alist.get_set)

lemma map_get_delete [simp]: "map_get (map_delete k m) k' = (if k' = k then None else map_get m k')"
  by (rule alist.get_del)

lemma map_get_Some_in: "map_get m k = Some v \<Longrightarrow> (k, v) \<in> set m"
  by (rule map_of_SomeD)

section \<open>Lists\<close>

text \<open>\<open>pop_while p xs\<close> is the loop that pops the last element while it satisfies \<open>p\<close>.\<close>

definition pop_while :: "('a \<Rightarrow> bool) \<Rightarrow> 'a list \<Rightarrow> 'a list" where
  "pop_while p xs = rev (dropWhile p (rev xs))"

lemma pop_while_Nil [simp]: "pop_while p [] = []"
  by (simp add: pop_while_def)

lemma pop_while_snoc [simp]:
  "pop_while p (xs @ [x]) = (if p x then pop_while p xs else xs @ [x])"
  by (simp add: pop_while_def)

lemma pop_while_append_all: "(\<And>x. x \<in> set ys \<Longrightarrow> p x) \<Longrightarrow> pop_while p (xs @ ys) = pop_while p xs"
  by (induction ys rule: rev_induct) (simp_all flip: append_assoc)

lemma pop_while_id: "(\<And>x. x \<in> set xs \<Longrightarrow> \<not> p x) \<Longrightarrow> pop_while p xs = xs"
  by (cases xs rule: rev_cases) auto

lemma set_pop_while: "set (pop_while p xs) \<subseteq> set xs"
  by (auto simp: pop_while_def dest: set_dropWhileD)

lemma pop_while_prefix: "\<exists>ys. xs = pop_while p xs @ ys \<and> (\<forall>y \<in> set ys. p y)"
proof (induction xs rule: rev_induct)
  case Nil
  then show ?case by simp
next
  case (snoc x xs)
  then obtain ys where ys: "xs = pop_while p xs @ ys" "\<forall>y \<in> set ys. p y" by blast
  show ?case
  proof (cases "p x")
    case True
    with ys have "xs @ [x] = pop_while p (xs @ [x]) @ (ys @ [x]) \<and> (\<forall>y \<in> set (ys @ [x]). p y)"
      by simp
    then show ?thesis by blast
  qed auto
qed

end
