(* ===== verification/Messages.thy ===== *)
theory Messages
  imports Prelude
begin

text \<open>
  The declaration vocabulary of \<open>packages/core/src/messaging\<close>: qualified names, metadata,
  tags, event messages and event descriptors (\<open>messages.ts\<close>, \<open>tag.ts\<close>).

  Payloads, metadata values, state values and ids are values of one universe \<open>js\<close> of plain
  data. JavaScript numbers are kept as integers (nothing here does arithmetic on a payload);
  functions and symbols are not data and do not occur. Strings are lists of 8-bit code units,
  which is enough for every operation of this theory: they compare, concatenate and search.
  An object or a \<open>Record\<close> is an association list in key order, as \<open>Object.entries\<close> gives it.
\<close>

section \<open>Values\<close>

datatype js =
    JUndefined
  | JNull
  | JBool bool
  | JNumber int
  | JBigint int
  | JString string
  | JArray "js list"
  | JObject "(string \<times> js) list"

datatype js_error = JsError string

section \<open>Qualified names\<close>

record qualified_name =
  qn_namespace :: string
  qn_name :: string

definition qn :: "string \<Rightarrow> string \<Rightarrow> qualified_name" where
  "qn ns n = \<lparr>qn_namespace = ns, qn_name = n\<rparr>"

definition qualifiedNameToString :: "qualified_name \<Rightarrow> string" where
  "qualifiedNameToString q = qn_namespace q @ ''.'' @ qn_name q"

text \<open>\<open>lastIndexOf\<close>: the greatest index of the character, \<open>None\<close> for the source's \<open>-1\<close>.\<close>

fun lastIndexOf :: "char \<Rightarrow> string \<Rightarrow> nat option" where
  "lastIndexOf c [] = None"
| "lastIndexOf c (x # xs) =
     (case lastIndexOf c xs of Some i \<Rightarrow> Some (Suc i) | None \<Rightarrow> if x = c then Some 0 else None)"

definition qualifiedNameFromString :: "string \<Rightarrow> qualified_name" where
  "qualifiedNameFromString fqn =
     (case lastIndexOf CHR ''.'' fqn of
        None \<Rightarrow> qn '''' fqn
      | Some i \<Rightarrow> qn (take i fqn) (drop (Suc i) fqn))"

definition qualifiedNamesEqual :: "qualified_name \<Rightarrow> qualified_name \<Rightarrow> bool" where
  "qualifiedNamesEqual a b \<longleftrightarrow> qn_namespace a = qn_namespace b \<and> qn_name a = qn_name b"

section \<open>Metadata\<close>

type_synonym metadata = "(string, js) jsmap"

text \<open>Object spread: later entries replace in place, new keys go to the end.\<close>

definition spread :: "(string, 'v) jsmap \<Rightarrow> (string, 'v) jsmap \<Rightarrow> (string, 'v) jsmap" where
  "spread base ext = fold (\<lambda>(k, v) m. map_set k v m) ext base"

definition emptyMetadata :: metadata where
  "emptyMetadata = []"

definition metadataWith :: "string \<Rightarrow> js \<Rightarrow> metadata" where
  "metadataWith k v = [(k, v)]"

definition mergeMetadata :: "metadata \<Rightarrow> metadata \<Rightarrow> metadata" where
  "mergeMetadata base over = spread (spread [] base) over"

definition metadataAnd :: "metadata \<Rightarrow> string \<Rightarrow> js \<Rightarrow> metadata" where
  "metadataAnd m k v = map_set k v (spread [] m)"

definition metadataContains :: "metadata \<Rightarrow> string \<Rightarrow> bool" where
  "metadataContains m k \<longleftrightarrow> map_get m k \<noteq> None"

definition metadataAndIfNotPresent :: "metadata \<Rightarrow> string \<Rightarrow> (unit \<Rightarrow> js) \<Rightarrow> metadata" where
  "metadataAndIfNotPresent m k supplier =
     (if map_get m k \<noteq> None then m else map_set k (supplier ()) (spread [] m))"

definition metadataWithoutKeys :: "metadata \<Rightarrow> string list \<Rightarrow> metadata" where
  "metadataWithoutKeys m ks = fold map_delete ks (spread [] m)"

definition metadataSubset :: "metadata \<Rightarrow> string list \<Rightarrow> metadata" where
  "metadataSubset m ks =
     fold (\<lambda>k r. case map_get m k of Some v \<Rightarrow> map_set k v r | None \<Rightarrow> r) ks []"

section \<open>Tags\<close>

record tag =
  tag_key :: string
  tag_value :: string

definition mk_tag :: "string \<Rightarrow> string \<Rightarrow> js_error + tag" where
  "mk_tag k v =
     (if k = [] then Inl (JsError ''Tag key must not be empty'')
      else if v = [] then Inl (JsError ''Tag value must not be empty'')
      else Inr \<lparr>tag_key = k, tag_value = v\<rparr>)"

definition tagsFromRecord :: "(string, string) jsmap \<Rightarrow> js_error + tag list" where
  "tagsFromRecord r = map_result (\<lambda>(k, v). mk_tag k v) r"

section \<open>Events and their descriptors\<close>

record event_message =
  em_identifier :: string
  em_name :: qualified_name
  em_payload :: js
  em_metadata :: metadata
  em_version :: string
  em_timestamp :: int
  em_tags :: "tag list"

text \<open>What a tag lambda answers: \<open>undefined\<close>, one string, or several.\<close>

datatype tag_answer = NoTag | OneTag string | ManyTags "string list"

record event_descriptor =
  ed_name :: qualified_name
  ed_version :: string
  ed_tags :: "(string \<times> (js \<Rightarrow> metadata \<Rightarrow> tag_answer)) list option"

definition event_descriptor_of ::
  "qualified_name \<Rightarrow> string option \<Rightarrow> (string \<times> (js \<Rightarrow> metadata \<Rightarrow> tag_answer)) list option \<Rightarrow> event_descriptor" where
  "event_descriptor_of n v ts =
     \<lparr>ed_name = n, ed_version = (case v of None \<Rightarrow> ''1.0'' | Some x \<Rightarrow> x), ed_tags = ts\<rparr>"

definition tagKeysOf :: "event_descriptor \<Rightarrow> string list" where
  "tagKeysOf d = (case ed_tags d of None \<Rightarrow> [] | Some ts \<Rightarrow> map fst ts)"

fun answer_values :: "tag_answer \<Rightarrow> string list" where
  "answer_values NoTag = []"
| "answer_values (OneTag v) = [v]"
| "answer_values (ManyTags vs) = vs"

text \<open>
  \<open>tagsOf\<close> with its two loops: the outer one over the record's entries, the inner one over the
  values under a key. The set of composite strings \<open>key NUL value\<close> that have been seen is
  threaded through; \<open>tag\<close> throws after the pair was marked seen, which ends the whole call.
\<close>

definition tag_id :: "string \<Rightarrow> string \<Rightarrow> string" where
  "tag_id k v = k @ [CHR 0x00] @ v"

fun tagsOf_values ::
  "string \<Rightarrow> string list \<Rightarrow> string set \<Rightarrow> tag list \<Rightarrow> js_error + (string set \<times> tag list)" where
  "tagsOf_values k [] seen out = Inr (seen, out)"
| "tagsOf_values k (v # vs) seen out =
     (if tag_id k v \<in> seen then tagsOf_values k vs seen out
      else (case mk_tag k v of
              Inl e \<Rightarrow> Inl e
            | Inr t \<Rightarrow> tagsOf_values k vs (insert (tag_id k v) seen) (out @ [t])))"

fun tagsOf_entries ::
  "(string \<times> (js \<Rightarrow> metadata \<Rightarrow> tag_answer)) list \<Rightarrow> js \<Rightarrow> metadata \<Rightarrow> string set \<Rightarrow> tag list
     \<Rightarrow> js_error + tag list" where
  "tagsOf_entries [] p m seen out = Inr out"
| "tagsOf_entries ((k, extract) # es) p m seen out =
     (case tagsOf_values k (answer_values (extract p m)) seen out of
        Inl e \<Rightarrow> Inl e
      | Inr (seen', out') \<Rightarrow> tagsOf_entries es p m seen' out')"

definition tagsOf :: "event_descriptor \<Rightarrow> js \<Rightarrow> metadata \<Rightarrow> js_error + tag list" where
  "tagsOf d p m = tagsOf_entries (case ed_tags d of None \<Rightarrow> [] | Some ts \<Rightarrow> ts) p m {} []"

text \<open>\<open>is\<close> on an event and an event descriptor: name and version.\<close>

definition is_event :: "event_message \<Rightarrow> event_descriptor \<Rightarrow> bool" where
  "is_event e d \<longleftrightarrow> qualifiedNamesEqual (em_name e) (ed_name d) \<and> em_version e = ed_version d"

abbreviation event_type :: "event_message \<Rightarrow> string" where
  "event_type e \<equiv> qualifiedNameToString (em_name e)"

abbreviation descriptor_type :: "event_descriptor \<Rightarrow> string" where
  "descriptor_type d \<equiv> qualifiedNameToString (ed_name d)"

section \<open>Names: print and parse\<close>

lemma qualifiedNamesEqual_iff [simp]: "qualifiedNamesEqual a b \<longleftrightarrow> a = b"
  by (auto simp: qualifiedNamesEqual_def)

lemma lastIndexOf_None: "lastIndexOf c xs = None \<longleftrightarrow> c \<notin> set xs"
  by (induction xs) (auto split: option.splits)

lemma lastIndexOf_append:
  "lastIndexOf c (xs @ ys) =
     (case lastIndexOf c ys of Some i \<Rightarrow> Some (length xs + i) | None \<Rightarrow> lastIndexOf c xs)"
  by (induction xs) (auto split: option.splits)

lemma lastIndexOf_Some:
  "lastIndexOf c xs = Some i \<Longrightarrow> i < length xs \<and> xs ! i = c \<and> c \<notin> set (drop (Suc i) xs)"
  by (induction xs arbitrary: i) (auto split: option.splits if_splits simp: lastIndexOf_None)

lemma lastIndexOf_dot: "CHR ''.'' \<notin> set n \<Longrightarrow> lastIndexOf CHR ''.'' (ns @ ''.'' @ n) = Some (length ns)"
  by (simp add: lastIndexOf_append lastIndexOf_None [THEN iffD2])

lemma parse_print_name:
  assumes "CHR ''.'' \<notin> set (qn_name q)"
  shows "qualifiedNameFromString (qualifiedNameToString q) = q"
  using lastIndexOf_dot [OF assms, of "qn_namespace q"]
  by (simp add: qualifiedNameFromString_def qualifiedNameToString_def qn_def)

lemma print_parse_name:
  assumes "CHR ''.'' \<in> set s"
  shows "qualifiedNameToString (qualifiedNameFromString s) = s"
proof -
  obtain i where i: "lastIndexOf CHR ''.'' s = Some i"
    using assms lastIndexOf_None by fastforce
  note * = lastIndexOf_Some [OF i]
  then have "take i s @ s ! i # drop (Suc i) s = s"
    by (metis id_take_nth_drop)
  with i * show ?thesis
    by (simp add: qualifiedNameFromString_def qualifiedNameToString_def qn_def)
qed

lemma qualifiedNameToString_inj:
  assumes "qualifiedNameToString a = qualifiedNameToString b"
    and "CHR ''.'' \<notin> set (qn_name a)" and "CHR ''.'' \<notin> set (qn_name b)"
  shows "a = b"
  using assms by (metis parse_print_name)

section \<open>Metadata laws\<close>

lemma fold_set_get:
  "map_get (fold (\<lambda>(k, v) m. map_set k v m) ext base) k =
     (case map_get (rev ext) k of Some v \<Rightarrow> Some v | None \<Rightarrow> map_get base k)"
  by (induction ext arbitrary: base) (auto simp: map_of_append map_add_def split: option.splits)

lemma map_get_spread:
  assumes "wf_map ext"
  shows "map_get (spread base ext) k = (case map_get ext k of Some v \<Rightarrow> Some v | None \<Rightarrow> map_get base k)"
proof -
  from assms have "map_get (rev ext) = map_get ext"
    by (intro map_of_eqI) (auto simp flip: rev_map intro!: map_of_is_SomeI)
  then show ?thesis by (simp add: spread_def fold_set_get)
qed

section \<open>The tags of an event\<close>

text \<open>
  The pairs a descriptor extracts. The composite strings tell pairs apart as long as no tag key
  contains the separator character.
\<close>

definition extracted :: "event_descriptor \<Rightarrow> js \<Rightarrow> metadata \<Rightarrow> (string \<times> string) set" where
  "extracted d p m =
     (\<Union>(k, extract) \<in> set (case ed_tags d of None \<Rightarrow> [] | Some ts \<Rightarrow> ts). Pair k ` set (answer_values (extract p m)))"

abbreviation nul_free :: "string \<Rightarrow> bool" where
  "nul_free k \<equiv> CHR 0x00 \<notin> set k"

abbreviation pair_of :: "tag \<Rightarrow> string \<times> string" where
  "pair_of t \<equiv> (tag_key t, tag_value t)"

definition tags_so_far :: "string set \<Rightarrow> tag list \<Rightarrow> bool" where
  "tags_so_far seen out \<longleftrightarrow>
     distinct (map pair_of out) \<and> seen = (\<lambda>(k, v). tag_id k v) ` set (map pair_of out) \<and>
     (\<forall>t \<in> set out. nul_free (tag_key t))"

lemma tag_id_inj: "nul_free k \<Longrightarrow> nul_free k' \<Longrightarrow> tag_id k v = tag_id k' v' \<longleftrightarrow> k = k' \<and> v = v'"
  by (auto simp: tag_id_def append_eq_append_conv2 Cons_eq_append_conv append_eq_Cons_conv)

lemma tag_seen:
  assumes "tags_so_far seen out" "nul_free k"
  shows "tag_id k v \<in> seen \<longleftrightarrow> (k, v) \<in> set (map pair_of out)"
  using assms by (auto simp: tags_so_far_def tag_id_inj)

lemma tagsOf_values_ok:
  assumes "tags_so_far seen out" "nul_free k" "tagsOf_values k vs seen out = Inr (seen', out')"
  shows "tags_so_far seen' out' \<and> set (map pair_of out') = set (map pair_of out) \<union> Pair k ` set vs"
  using assms
proof (induction vs arbitrary: seen out)
  case (Cons v vs)
  show ?case
  proof (cases "tag_id k v \<in> seen")
    case True
    with tag_seen [OF Cons.prems(1,2)] have "(k, v) \<in> set (map pair_of out)" by blast
    with Cons True show ?thesis by auto
  next
    case False
    with Cons.prems(3) obtain t where t: "mk_tag k v = Inr t"
      "tagsOf_values k vs (insert (tag_id k v) seen) (out @ [t]) = Inr (seen', out')"
      by (auto split: sum.splits)
    then have "pair_of t = (k, v)" by (auto simp: mk_tag_def split: if_splits)
    moreover from this have "tags_so_far (insert (tag_id k v) seen) (out @ [t])"
      using Cons.prems(1,2) False tag_seen [OF Cons.prems(1,2), of v] by (auto simp: tags_so_far_def)
    ultimately show ?thesis using Cons.IH [OF _ Cons.prems(2) t(2)] by auto
  qed
qed auto

lemma tagsOf_entries_ok:
  assumes "tags_so_far seen out" "\<forall>(k, f) \<in> set es. nul_free k" "tagsOf_entries es p m seen out = Inr ts"
  shows "distinct (map pair_of ts) \<and>
         set (map pair_of ts) = set (map pair_of out) \<union> (\<Union>(k, f) \<in> set es. Pair k ` set (answer_values (f p m)))"
  using assms
proof (induction es arbitrary: seen out)
  case Nil
  then show ?case by (auto simp: tags_so_far_def)
next
  case (Cons e es)
  obtain k f where e: "e = (k, f)" by force
  with Cons.prems(3) obtain seen' out' where
    step: "tagsOf_values k (answer_values (f p m)) seen out = Inr (seen', out')"
      "tagsOf_entries es p m seen' out' = Inr ts"
    by (auto split: sum.splits)
  with Cons.prems e tagsOf_values_ok [OF Cons.prems(1) _ step(1)]
  have "tags_so_far seen' out'"
    "set (map pair_of out') = set (map pair_of out) \<union> Pair k ` set (answer_values (f p m))"
    by auto
  with Cons.IH [OF this(1) _ step(2)] Cons.prems(2) e show ?case by auto
qed

section \<open>Properties\<close>

text \<open>
  a qualified name whose local part has no dot survives printing and parsing, and a text
  with a dot survives parsing and printing.
\<close>

theorem qualified_name_roundtrip:
  "(CHR ''.'' \<notin> set (qn_name q) \<longrightarrow> qualifiedNameFromString (qualifiedNameToString q) = q) \<and>
   (CHR ''.'' \<in> set s \<longrightarrow> qualifiedNameToString (qualifiedNameFromString s) = s)"
  by (simp add: parse_print_name print_parse_name)

theorem qualified_name_roundtrip_witness:
  "qualifiedNameFromString (qualifiedNameToString (qn ''shop.orders'' ''Placed'')) = qn ''shop.orders'' ''Placed'' \<and>
   qualifiedNameToString (qualifiedNameFromString ''shop.orders.Placed'') = ''shop.orders.Placed''"
  using qualified_name_roundtrip [of "qn ''shop.orders'' ''Placed''" "''shop.orders.Placed''"]
  by (simp add: qn_def)

text \<open>
  when no tag key contains the separator, the tags an event is given are exactly the pairs
  its descriptor's tag functions produce, each once.
\<close>

theorem tagsOf_exact:
  assumes "tagsOf d p m = Inr ts" and "\<forall>k \<in> set (tagKeysOf d). nul_free k"
  shows "distinct ts \<and> set (map pair_of ts) = extracted d p m"
proof -
  let ?es = "case ed_tags d of None \<Rightarrow> [] | Some ts \<Rightarrow> ts"
  have "\<forall>(k, f) \<in> set ?es. nul_free k" using assms(2) by (cases "ed_tags d") (auto simp: tagKeysOf_def)
  moreover have "tags_so_far {} []" by (simp add: tags_so_far_def)
  ultimately have "distinct (map pair_of ts) \<and> set (map pair_of ts) = extracted d p m"
    using tagsOf_entries_ok [of "{}" "[]" ?es p m ts] assms(1) by (simp add: tagsOf_def extracted_def)
  then show ?thesis by (auto simp: distinct_map)
qed

definition seats_example :: event_descriptor where
  "seats_example =
     event_descriptor_of (qn ''shop'' ''Booked'') None
       (Some [(''seat'', \<lambda>p m. ManyTags [''1A'', ''1B'', ''1A'']), (''show'', \<lambda>p m. OneTag ''x''),
              (''note'', \<lambda>p m. NoTag)])"

lemma seats_example_tags:
  "tagsOf seats_example JNull [] =
     Inr [\<lparr>tag_key = ''seat'', tag_value = ''1A''\<rparr>, \<lparr>tag_key = ''seat'', tag_value = ''1B''\<rparr>,
          \<lparr>tag_key = ''show'', tag_value = ''x''\<rparr>]"
  by (simp add: seats_example_def event_descriptor_of_def tagsOf_def mk_tag_def tag_id_def)

theorem tagsOf_exact_witness:
  "\<exists>ts. tagsOf seats_example JNull [] = Inr ts \<and> set (map pair_of ts) = extracted seats_example JNull []"
  using tagsOf_exact [OF seats_example_tags] seats_example_tags
  by (auto simp: tagKeysOf_def seats_example_def event_descriptor_of_def)

end
