(* ===== verification/Dcb_Query.thy ===== *)
theory Dcb_Query
  imports Messages
begin

text \<open>
  Event queries (\<open>event-sourcing/dcb-query.ts\<close>) and the matcher that reads what they compile
  to (\<open>matchesCriteria\<close> and its helpers in \<open>event-sourcing/in-memory.ts\<close>).

  A query is the JavaScript value a caller passes: one item, an array, or something that is
  neither, which \<open>queryItems\<close> refuses. \<open>item_matches\<close> is the specification the source's
  comments give, item by item: \<open>types\<close> any-of and \<open>tags\<close> all-of; the items of a query are
  ORed. \<open>compile_correct\<close> relates the compiler and the matcher to it.
\<close>

section \<open>Queries\<close>

datatype type_ref =
    TypeName string
  | TypeDescriptor event_descriptor
  | TypeQualified qualified_name
  | TypeOther string \<comment> \<open>any other value, by what \<open>String(t)\<close> gives\<close>

record query_item =
  qi_tags :: "(string, string) jsmap option"
  qi_types :: "type_ref list option"

text \<open>A value in query position; \<open>QPrimitive\<close> carries its \<open>typeof\<close>.\<close>

datatype query_value =
    QItem query_item
  | QArray "query_value list"
  | QNull
  | QPrimitive string

type_synonym event_query = query_value

datatype query_error =
    NotAQuery string
  | EmptyQuery
  | BadItem nat string
  | BadTag js_error

fun describe :: "query_value \<Rightarrow> string" where
  "describe QNull = ''null''"
| "describe (QArray _) = ''an array''"
| "describe (QPrimitive t) = t"
| "describe (QItem _) = ''object''"

fun check_items :: "nat \<Rightarrow> query_value list \<Rightarrow> query_error + query_item list" where
  "check_items i [] = Inr []"
| "check_items i (QItem it # vs) =
     (case check_items (Suc i) vs of Inl e \<Rightarrow> Inl e | Inr its \<Rightarrow> Inr (it # its))"
| "check_items i (v # vs) = Inl (BadItem i (describe v))"

fun queryItems :: "event_query \<Rightarrow> query_error + query_item list" where
  "queryItems (QItem it) = Inr [it]"
| "queryItems (QArray vs) = (if vs = [] then Inl EmptyQuery else check_items 0 vs)"
| "queryItems v = Inl (NotAQuery (describe v))"

fun resolveTypeName :: "type_ref \<Rightarrow> string" where
  "resolveTypeName (TypeName s) = s"
| "resolveTypeName (TypeDescriptor d) = qualifiedNameToString (ed_name d)"
| "resolveTypeName (TypeQualified q) = qualifiedNameToString q"
| "resolveTypeName (TypeOther s) = s"

section \<open>Compiled criteria\<close>

datatype event_criteria =
    TagCriteria "tag list"
  | TypeRestrictedCriteria event_criteria "string list"
  | EitherCriteria "event_criteria list"
  | AnyTagCriteria

definition compileItem :: "query_item \<Rightarrow> query_error + event_criteria" where
  "compileItem it =
     (case tagsFromRecord (case qi_tags it of None \<Rightarrow> [] | Some r \<Rightarrow> r) of
        Inl e \<Rightarrow> Inl (BadTag e)
      | Inr ts \<Rightarrow>
          (case qi_types it of
             None \<Rightarrow> Inr (TagCriteria ts)
           | Some tys \<Rightarrow>
               if tys = [] then Inr (TagCriteria ts)
               else Inr (TypeRestrictedCriteria (TagCriteria ts) (map resolveTypeName tys))))"

definition compileQuery :: "event_query \<Rightarrow> query_error + event_criteria" where
  "compileQuery q =
     (case queryItems q of
        Inl e \<Rightarrow> Inl e
      | Inr items \<Rightarrow>
          (case items of
             [it] \<Rightarrow> compileItem it
           | _ \<Rightarrow> (case map_result compileItem items of
                      Inl e \<Rightarrow> Inl e
                    | Inr cs \<Rightarrow> Inr (EitherCriteria cs))))"

section \<open>Matching\<close>

definition matchesTags :: "event_message \<Rightarrow> tag list \<Rightarrow> bool" where
  "matchesTags e required =
     list_all (\<lambda>r. list_ex (\<lambda>t. tag_key t = tag_key r \<and> tag_value t = tag_value r) (em_tags e)) required"

fun matchesCriteria :: "event_message \<Rightarrow> event_criteria \<Rightarrow> bool" where
  "matchesCriteria e (TagCriteria ts) = matchesTags e ts"
| "matchesCriteria e AnyTagCriteria = (em_tags e \<noteq> [])"
| "matchesCriteria e (TypeRestrictedCriteria inner tys) =
     (matchesCriteria e inner \<and> List.member tys (qualifiedNameToString (em_name e)))"
| "matchesCriteria e (EitherCriteria cs) = list_ex (matchesCriteria e) cs"

section \<open>What a query means\<close>

definition item_matches :: "query_item \<Rightarrow> event_message \<Rightarrow> bool" where
  "item_matches it e \<longleftrightarrow>
     (case qi_types it of
        None \<Rightarrow> True
      | Some tys \<Rightarrow> tys = [] \<or> event_type e \<in> resolveTypeName ` set tys) \<and>
     (\<forall>(k, v) \<in> set (case qi_tags it of None \<Rightarrow> [] | Some r \<Rightarrow> r).
        \<lparr>tag_key = k, tag_value = v\<rparr> \<in> set (em_tags e))"

definition query_matches :: "event_query \<Rightarrow> event_message \<Rightarrow> bool" where
  "query_matches q e \<longleftrightarrow> (case queryItems q of Inl _ \<Rightarrow> False | Inr items \<Rightarrow> \<exists>it \<in> set items. item_matches it e)"

lemma matchesTags_iff: "matchesTags e ts \<longleftrightarrow> set ts \<subseteq> set (em_tags e)"
proof -
  have "(\<exists>t \<in> set (em_tags e). tag_key t = tag_key r \<and> tag_value t = tag_value r) \<longleftrightarrow> r \<in> set (em_tags e)"
    for r :: tag
    by (metis (full_types) tag.equality unit.exhaust old.unit.exhaust)
  then show ?thesis
    by (auto simp: matchesTags_def list_all_iff list_ex_iff)
qed

lemma tagsFromRecord_set:
  assumes "tagsFromRecord r = Inr ts"
  shows "set ts = (\<lambda>(k, v). \<lparr>tag_key = k, tag_value = v\<rparr>) ` set r"
  using assms
  by (induction r arbitrary: ts) (auto simp: tagsFromRecord_def mk_tag_def split: sum.splits if_splits)

lemma compileItem_correct:
  assumes "compileItem it = Inr c"
  shows "matchesCriteria e c \<longleftrightarrow> item_matches it e"
  using assms
  by (fastforce simp: compileItem_def item_matches_def matchesTags_iff dest!: tagsFromRecord_set
      split: sum.splits option.splits if_splits)

lemma compileItems_correct:
  assumes "map_result compileItem items = Inr cs"
  shows "list_ex (matchesCriteria e) cs \<longleftrightarrow> (\<exists>it \<in> set items. item_matches it e)"
  using assms
  by (induction items arbitrary: cs) (auto split: sum.splits simp: compileItem_correct)

lemma queryItems_nonempty: "queryItems q = Inr items \<Longrightarrow> items \<noteq> []"
proof (induction q rule: queryItems.induct)
  case (2 vs)
  then show ?case by (cases vs rule: list.exhaust; cases "hd vs") (auto split: sum.splits if_splits)
qed auto

lemma compile_correct:
  assumes "compileQuery q = Inr c"
  shows "matchesCriteria e c \<longleftrightarrow> query_matches q e"
proof -
  obtain items where items: "queryItems q = Inr items"
    using assms by (auto simp: compileQuery_def split: sum.splits)
  show ?thesis
  proof (cases "length items = 1")
    case True
    then obtain it where "items = [it]" by (cases items) auto
    with assms items show ?thesis
      by (simp add: compileQuery_def query_matches_def compileItem_correct)
  next
    case False
    then have "compileQuery q = (case map_result compileItem items of
        Inl e \<Rightarrow> Inl e | Inr cs \<Rightarrow> Inr (EitherCriteria cs))"
      using items by (auto simp: compileQuery_def split: list.splits)
    with assms items show ?thesis
      by (auto simp: query_matches_def compileItems_correct split: sum.splits)
  qed
qed

lemma check_items_QItem [simp]: "check_items i (map QItem its) = Inr its"
  by (induction its arbitrary: i) auto

lemma queryItems_array: "its \<noteq> [] \<Longrightarrow> queryItems (QArray (map QItem its)) = Inr its"
  by simp

text \<open>Concatenating the items of queries is their union, which is how reads are combined.\<close>

lemma query_matches_concat:
  assumes "itss \<noteq> []" and "\<And>its. its \<in> set itss \<Longrightarrow> its \<noteq> []"
  shows "query_matches (QArray (map QItem (concat itss))) e \<longleftrightarrow>
           (\<exists>its \<in> set itss. \<exists>it \<in> set its. item_matches it e)"
proof -
  from assms have "concat itss \<noteq> []" by (cases itss) auto
  then show ?thesis by (auto simp: query_matches_def)
qed

section \<open>Properties\<close>

text \<open>
  the matcher on a compiled query decides exactly what the query means: some item matches,
  where an item matches when one of its types (any, if it names none) and all of its tags do.
\<close>

theorem compiled_query_matches:
  assumes "compileQuery q = Inr c"
  shows "matchesCriteria e c \<longleftrightarrow> query_matches q e"
  using assms by (rule compile_correct)

definition tag_query :: "string \<Rightarrow> string \<Rightarrow> string list \<Rightarrow> event_query" where
  "tag_query k v tys = QItem \<lparr>qi_tags = Some [(k, v)], qi_types = Some (map TypeName tys)\<rparr>"

definition tagged_event :: "string \<Rightarrow> string \<Rightarrow> string \<Rightarrow> string \<Rightarrow> event_message" where
  "tagged_event ns n k v =
     \<lparr>em_identifier = ''id'', em_name = qn ns n, em_payload = JNull, em_metadata = [], em_version = ''1.0'',
      em_timestamp = 0, em_tags = [\<lparr>tag_key = k, tag_value = v\<rparr>]\<rparr>"

lemma compile_tag_query:
  "k \<noteq> [] \<Longrightarrow> v \<noteq> [] \<Longrightarrow> compileQuery (tag_query k v (t # ts)) =
     Inr (TypeRestrictedCriteria (TagCriteria [\<lparr>tag_key = k, tag_value = v\<rparr>]) (t # ts))"
  by (simp add: tag_query_def compileQuery_def compileItem_def tagsFromRecord_def mk_tag_def o_def)

theorem compiled_query_matches_witness:
  "\<exists>c. compileQuery (tag_query ''order'' ''1'' [''shop.Placed'']) = Inr c \<and>
       matchesCriteria (tagged_event ''shop'' ''Placed'' ''order'' ''1'') c \<and>
       query_matches (tag_query ''order'' ''1'' [''shop.Placed'']) (tagged_event ''shop'' ''Placed'' ''order'' ''1'')"
  using compiled_query_matches [OF compile_tag_query [of "''order''" "''1''" "''shop.Placed''" "[]"],
      of "tagged_event ''shop'' ''Placed'' ''order'' ''1''"] compile_tag_query [of "''order''" "''1''" "''shop.Placed''" "[]"]
  by (simp add: tagged_event_def matchesTags_def qn_def qualifiedNameToString_def)

end
