(* ===== verification/State_Query.thy ===== *)
theory State_Query
  imports Dcb_Query
begin

text \<open>
  States and the query a state derives (\<open>event-sourcing/state.ts\<close>).

  A state module is a record of data and functions: the id is a plain value, \<open>tags\<close> and the
  evolvers are the host's code and may throw. The derivation is modelled step by step as the
  source numbers it: shared keys per folded type, distinct candidate key lists, items, and the
  minimisation. \<open>derived_matches\<close> is what the derived query means before it is minimised;
  the theory shows that minimising changes nothing, that the query is never match-all and that
  it misses no event of a folded type carrying the shared tags.
\<close>

section \<open>State modules\<close>

type_synonym tag_record = "(string, string) jsmap"

datatype state_tags = OneRecord tag_record | Records "tag_record list"

datatype state_error =
    NeitherTagsNorEvolvers string
  | SharesNoTagKey string string
  | TagsThrew js_error

type_synonym evolver_entry = "event_descriptor \<times> (js \<Rightarrow> event_message \<Rightarrow> js_error + js)"

record evolution_result =
  er_eventsApplied :: nat
  er_sourcingTimeMs :: int

record snapshot_config =
  sg_key :: string
  sg_when :: "evolution_result \<Rightarrow> bool"

record state_module =
  sm_identity :: string
  sm_idSchema :: "string list"
  sm_initial :: "js \<Rightarrow> js"
  sm_tags :: "js \<Rightarrow> js_error + state_tags"
  sm_query :: "js \<Rightarrow> state_error + event_query"
  sm_evolvers :: "evolver_entry list"
  sm_snapshot :: "snapshot_config option"

section \<open>The derivation\<close>

definition sameKeys :: "string list \<Rightarrow> string list \<Rightarrow> bool" where
  "sameKeys a b \<longleftrightarrow> length a = length b \<and> list_all (\<lambda>i. a ! i = b ! i) [0 ..< length a]"

definition isSubset :: "string list \<Rightarrow> string list \<Rightarrow> bool" where
  "isSubset sub whole = list_all (List.member whole) sub"

record fold_entry =
  fe_type :: string
  fe_shared :: "string list"

text \<open>Step 1: what a folded type can be matched on.\<close>

definition fold_of :: "string \<Rightarrow> string list \<Rightarrow> event_descriptor \<Rightarrow> state_error + fold_entry" where
  "fold_of label stateKeys d =
     (let type = qualifiedNameToString (ed_name d);
          shared = filter (List.member (tagKeysOf d)) stateKeys
      in if shared = [] then Inl (SharesNoTagKey label type)
         else Inr \<lparr>fe_type = type, fe_shared = shared\<rparr>)"

text \<open>Step 2: the distinct intersections, in first-seen order.\<close>

fun add_candidates :: "string list list \<Rightarrow> fold_entry list \<Rightarrow> string list list" where
  "add_candidates cs [] = cs"
| "add_candidates cs (f # fs) =
     (if list_ex (\<lambda>c. sameKeys c (fe_shared f)) cs then add_candidates cs fs
      else add_candidates (cs @ [fe_shared f]) fs)"

text \<open>\<open>[...new Set(xs)]\<close>: each element once, in first-seen order.\<close>

definition js_set :: "'a list \<Rightarrow> 'a list" where
  "js_set xs = rev (remdups (rev xs))"

text \<open>Step 3: a type joins every item whose tag set it declares in full.\<close>

definition item_for :: "tag_record \<Rightarrow> fold_entry list \<Rightarrow> string list \<Rightarrow> query_item" where
  "item_for record folds keys =
     \<lparr>qi_tags = Some (map (\<lambda>k. (k, the (map_get record k))) keys),
      qi_types = Some (map TypeName (js_set (map fe_type (filter (\<lambda>f. isSubset keys (fe_shared f)) folds))))\<rparr>"

text \<open>Step 4: an item is dropped when a sibling with fewer keys covers all of its types.\<close>

definition item_type_names :: "query_item \<Rightarrow> string list" where
  "item_type_names it = (case qi_types it of None \<Rightarrow> [] | Some tys \<Rightarrow> map resolveTypeName tys)"

definition covered_by :: "query_item list \<Rightarrow> string list list \<Rightarrow> nat \<Rightarrow> nat \<Rightarrow> bool" where
  "covered_by items candidates i j \<longleftrightarrow>
     i \<noteq> j \<and> length (candidates ! j) < length (candidates ! i) \<and>
     isSubset (candidates ! j) (candidates ! i) \<and>
     list_all (List.member (item_type_names (items ! j))) (item_type_names (items ! i))"

definition minimise :: "query_item list \<Rightarrow> string list list \<Rightarrow> query_item list" where
  "minimise items candidates =
     map (\<lambda>i. items ! i)
       (filter (\<lambda>i. \<not> list_ex (covered_by items candidates i) [0 ..< length items]) [0 ..< length items])"

definition deriveGranularQuery ::
  "string \<Rightarrow> tag_record \<Rightarrow> evolver_entry list \<Rightarrow> state_error + event_query" where
  "deriveGranularQuery label record evolvers =
     (let stateKeys = map_keys record
      in if evolvers = [] then
           if stateKeys = [] then Inl (NeitherTagsNorEvolvers label)
           else Inr (QItem \<lparr>qi_tags = Some record, qi_types = None\<rparr>)
         else
           bind_result (map_result (fold_of label stateKeys \<circ> fst) evolvers) (\<lambda>folds.
             let candidates = add_candidates [] folds;
                 items = map (item_for record folds) candidates;
                 kept = minimise items candidates
             in Inr (case kept of [it] \<Rightarrow> QItem it | _ \<Rightarrow> QArray (map QItem kept))))"

definition deriveQuery :: "string \<Rightarrow> state_tags \<Rightarrow> evolver_entry list \<Rightarrow> state_error + event_query" where
  "deriveQuery label scope evolvers =
     (case scope of
        OneRecord record \<Rightarrow> deriveGranularQuery label record evolvers
      | Records records \<Rightarrow>
          let foldedTypes = map (\<lambda>(d, _). qualifiedNameToString (ed_name d)) evolvers
          in Inr (QArray (map (\<lambda>tags. QItem \<lparr>qi_tags = Some tags, qi_types = Some (map TypeName foldedTypes)\<rparr>)
                            records)))"

section \<open>Defining a state\<close>

fun show_digits :: "nat \<Rightarrow> nat \<Rightarrow> string" where
  "show_digits 0 n = ''''"
| "show_digits (Suc fuel) n =
     (if n < 10 then [''0123456789'' ! n] else show_digits fuel (n div 10) @ [''0123456789'' ! (n mod 10)])"

text \<open>Decimal text of a number; a number has no more digits than one more than its value.\<close>

definition show_nat :: "nat \<Rightarrow> string" where
  "show_nat n = show_digits (Suc n) n"

fun join :: "string \<Rightarrow> string list \<Rightarrow> string" where
  "join sep [] = ''''"
| "join sep [x] = x"
| "join sep (x # y # xs) = x @ sep @ join sep (y # xs)"

definition BOOT_PROBE_ID_VALUE :: string where
  "BOOT_PROBE_ID_VALUE = ''kronos:boot-probe''"

text \<open>The label a diagnostic names a state by.\<close>

definition state_label :: "string \<Rightarrow> evolver_entry list \<Rightarrow> string" where
  "state_label identity evolvers =
     (let foldedTypes = map (\<lambda>(d, _). qualifiedNameToString (ed_name d) @ ''@'' @ ed_version d) evolvers
      in if foldedTypes = [] then identity
         else identity @ '' (folds '' @ join '', '' (map (takeWhile (\<lambda>c. c \<noteq> CHR ''@'')) foldedTypes) @ '')'')"

text \<open>
  \<open>state\<close> takes and returns the process-wide counter, which is advanced even when the boot
  check refuses the definition. A \<open>tags\<close> function that does not survive the probe id is not an
  error of the definition.
\<close>

definition state ::
  "nat \<Rightarrow> string list \<Rightarrow> (js \<Rightarrow> js_error + state_tags) \<Rightarrow> (js \<Rightarrow> js) \<Rightarrow> evolver_entry list
     \<Rightarrow> (state_error + state_module) \<times> nat" where
  "state stateSequence idFields tags initial evolvers =
     (let sq = stateSequence + 1;
          identity = ''state#'' @ show_nat sq;
          label = state_label identity evolvers;
          probeId = JObject (map (\<lambda>field. (field, JString BOOT_PROBE_ID_VALUE)) idFields);
          probe = (case tags probeId of
                     Inl _ \<Rightarrow> Inr ()
                   | Inr scope \<Rightarrow> (case deriveQuery label scope evolvers of Inl e \<Rightarrow> Inl e | Inr _ \<Rightarrow> Inr ()))
      in (bind_result probe (\<lambda>_.
            Inr \<lparr>sm_identity = identity, sm_idSchema = idFields, sm_initial = initial, sm_tags = tags,
                 sm_query = (\<lambda>id. case tags id of
                               Inl e \<Rightarrow> Inl (TagsThrew e)
                             | Inr scope \<Rightarrow> deriveQuery label scope evolvers),
                 sm_evolvers = evolvers, sm_snapshot = None\<rparr>), sq))"

section \<open>What the derived query means\<close>

definition shared_keys :: "tag_record \<Rightarrow> event_descriptor \<Rightarrow> string list" where
  "shared_keys record d = filter (List.member (tagKeysOf d)) (map_keys record)"

definition carries :: "tag_record \<Rightarrow> string list \<Rightarrow> event_message \<Rightarrow> bool" where
  "carries record keys e \<longleftrightarrow>
     (\<forall>k \<in> set keys. \<lparr>tag_key = k, tag_value = the (map_get record k)\<rparr> \<in> set (em_tags e))"

text \<open>
  An event matches when its type is folded by some evolver and it carries the tags of some
  evolver's shared keys that the former's shared keys include.
\<close>

definition derived_matches :: "tag_record \<Rightarrow> evolver_entry list \<Rightarrow> event_message \<Rightarrow> bool" where
  "derived_matches record evolvers e \<longleftrightarrow>
     (\<exists>(d, _) \<in> set evolvers. \<exists>(d', _) \<in> set evolvers.
        descriptor_type d = event_type e \<and>
        set (shared_keys record d') \<subseteq> set (shared_keys record d) \<and>
        carries record (shared_keys record d') e)"

lemma sameKeys_iff [simp]: "sameKeys a b \<longleftrightarrow> a = b"
  unfolding sameKeys_def list_eq_iff_nth_eq [of a b] by (auto simp: list_all_iff)

lemma isSubset_iff [simp]: "isSubset a b \<longleftrightarrow> set a \<subseteq> set b"
  by (auto simp: isSubset_def list_all_iff)

lemma set_js_set [simp]: "set (js_set xs) = set xs"
  by (simp add: js_set_def)

lemma distinct_js_set: "distinct (js_set xs)"
  by (simp add: js_set_def)

lemma set_add_candidates: "set (add_candidates cs fs) = set cs \<union> fe_shared ` set fs"
  by (induction cs fs rule: add_candidates.induct) (auto simp: list_ex_iff)

lemma item_type_names_for [simp]:
  "t \<in> set (item_type_names (item_for record folds keys)) \<longleftrightarrow>
     (\<exists>f \<in> set folds. fe_type f = t \<and> set keys \<subseteq> set (fe_shared f))"
  by (auto simp: item_type_names_def item_for_def image_iff)

lemma item_for_matches:
  assumes "\<exists>f \<in> set folds. set keys \<subseteq> set (fe_shared f)"
  shows "item_matches (item_for record folds keys) e \<longleftrightarrow>
     (\<exists>f \<in> set folds. fe_type f = event_type e \<and> set keys \<subseteq> set (fe_shared f)) \<and> carries record keys e"
proof -
  have "js_set (map fe_type (filter (\<lambda>f. isSubset keys (fe_shared f)) folds)) \<noteq> []"
    using assms set_js_set [of "map fe_type (filter (\<lambda>f. isSubset keys (fe_shared f)) folds)"]
    by (metis (mono_tags, lifting) isSubset_iff filter_empty_conv list.map_disc_iff set_empty)
  then show ?thesis
    by (auto simp: item_matches_def item_for_def carries_def image_iff)
qed

text \<open>Minimising keeps, for each item, one that covers it.\<close>

lemma minimise_keeps_cover:
  assumes "length items = length candidates" "i < length items"
  shows "\<exists>j < length items. items ! j \<in> set (minimise items candidates) \<and>
           set (candidates ! j) \<subseteq> set (candidates ! i) \<and>
           set (item_type_names (items ! i)) \<subseteq> set (item_type_names (items ! j))"
  using assms(2)
proof (induction "length (candidates ! i)" arbitrary: i rule: less_induct)
  case less
  show ?case
  proof (cases "\<exists>j < length items. covered_by items candidates i j")
    case True
    then obtain j where j: "j < length items" "length (candidates ! j) < length (candidates ! i)"
      "set (candidates ! j) \<subseteq> set (candidates ! i)"
      "set (item_type_names (items ! i)) \<subseteq> set (item_type_names (items ! j))"
      by (auto simp: covered_by_def list_all_iff)
    from less.hyps [OF j(2,1)] j(3,4) show ?thesis by blast
  next
    case False
    with less.prems have "items ! i \<in> set (minimise items candidates)"
      by (auto simp: minimise_def list_ex_iff)
    with less.prems show ?thesis by blast
  qed
qed

lemma minimise_subset: "set (minimise items candidates) \<subseteq> set items"
  by (auto simp: minimise_def)

lemma minimise_matches:
  assumes "\<And>c. c \<in> set candidates \<Longrightarrow> \<exists>f \<in> set folds. set c \<subseteq> set (fe_shared f)"
  shows "(\<exists>it \<in> set (minimise (map (item_for record folds) candidates) candidates). item_matches it e) \<longleftrightarrow>
           (\<exists>c \<in> set candidates. item_matches (item_for record folds c) e)"
proof
  show "\<exists>c \<in> set candidates. item_matches (item_for record folds c) e"
    if "\<exists>it \<in> set (minimise (map (item_for record folds) candidates) candidates). item_matches it e"
    using that minimise_subset by fastforce
next
  assume "\<exists>c \<in> set candidates. item_matches (item_for record folds c) e"
  then obtain i where i: "i < length candidates" "item_matches (item_for record folds (candidates ! i)) e"
    by (auto simp: in_set_conv_nth)
  let ?items = "map (item_for record folds) candidates"
  from i(1) obtain j where j: "j < length candidates" "?items ! j \<in> set (minimise ?items candidates)"
    "set (candidates ! j) \<subseteq> set (candidates ! i)"
    "set (item_type_names (?items ! i)) \<subseteq> set (item_type_names (?items ! j))"
    using minimise_keeps_cover [of ?items candidates i] by auto
  have ok: "\<exists>f \<in> set folds. set (candidates ! l) \<subseteq> set (fe_shared f)" if "l < length candidates" for l
    using assms that by simp
  from i have "event_type e \<in> set (item_type_names (?items ! i))" "carries record (candidates ! i) e"
    unfolding item_for_matches [OF ok [OF i(1)]] by auto
  then have "event_type e \<in> set (item_type_names (?items ! j))" "carries record (candidates ! j) e"
    using j(3,4) by (auto simp: carries_def)
  then have "item_matches (?items ! j) e"
    using j(1) by (auto simp: item_for_matches [OF ok [OF j(1)]])
  with j(2) show "\<exists>it \<in> set (minimise ?items candidates). item_matches it e" by blast
qed

lemma folds_of_evolvers:
  assumes "map_result (fold_of label (map_keys record) \<circ> fst) evolvers = Inr folds"
  shows "folds = map (\<lambda>(d, _). \<lparr>fe_type = descriptor_type d, fe_shared = shared_keys record d\<rparr>) evolvers"
    and "\<forall>f \<in> set folds. fe_shared f \<noteq> []"
  using assms
  by (induction evolvers arbitrary: folds)
     (auto simp: fold_of_def shared_keys_def Let_def split: sum.splits if_splits)

lemma derived_items:
  assumes "evolvers \<noteq> []" "deriveGranularQuery label record evolvers = Inr q"
  obtains folds where "map_result (fold_of label (map_keys record) \<circ> fst) evolvers = Inr folds"
    "queryItems q = Inr (minimise (map (item_for record folds) (add_candidates [] folds)) (add_candidates [] folds))"
proof -
  from assms obtain folds where folds: "map_result (fold_of label (map_keys record) \<circ> fst) evolvers = Inr folds"
    by (auto simp: deriveGranularQuery_def throw_simps Let_def)
  let ?cs = "add_candidates [] folds"
  let ?kept = "minimise (map (item_for record folds) ?cs) ?cs"
  have q: "q = (case ?kept of [it] \<Rightarrow> QItem it | _ \<Rightarrow> QArray (map QItem ?kept))"
    using assms folds by (simp add: deriveGranularQuery_def Let_def)
  have "folds \<noteq> []" using folds_of_evolvers(1) [OF folds] assms(1) by simp
  then have "set ?cs \<noteq> {}" by (simp add: set_add_candidates)
  then have "?cs \<noteq> []" by auto
  then have "?kept \<noteq> []"
    using minimise_keeps_cover [of "map (item_for record folds) ?cs" ?cs 0] by auto
  with q have "queryItems q = Inr ?kept" by (auto split: list.splits)
  with folds show thesis by (rule that)
qed

lemma granular_matches:
  assumes "evolvers \<noteq> []" "deriveGranularQuery label record evolvers = Inr q"
  shows "query_matches q e \<longleftrightarrow> derived_matches record evolvers e"
proof -
  obtain folds where folds: "map_result (fold_of label (map_keys record) \<circ> fst) evolvers = Inr folds"
    and items: "queryItems q = Inr (minimise (map (item_for record folds) (add_candidates [] folds)) (add_candidates [] folds))"
    using derived_items [OF assms] by blast
  have ok: "\<exists>f \<in> set folds. set c \<subseteq> set (fe_shared f)" if "c \<in> set (add_candidates [] folds)" for c
    using that by (auto simp: set_add_candidates)
  have "query_matches q e \<longleftrightarrow> (\<exists>c \<in> set (add_candidates [] folds). item_matches (item_for record folds c) e)"
    by (simp add: query_matches_def items minimise_matches [OF ok])
  also have "\<dots> \<longleftrightarrow> (\<exists>c \<in> set (add_candidates [] folds).
      (\<exists>f \<in> set folds. fe_type f = event_type e \<and> set c \<subseteq> set (fe_shared f)) \<and> carries record c e)"
    by (intro bex_cong refl item_for_matches ok)
  also have "\<dots> \<longleftrightarrow> (\<exists>g \<in> set folds. \<exists>f \<in> set folds. fe_type f = event_type e \<and>
      set (fe_shared g) \<subseteq> set (fe_shared f) \<and> carries record (fe_shared g) e)"
    by (auto simp: set_add_candidates)
  also have "\<dots> \<longleftrightarrow> derived_matches record evolvers e"
    unfolding folds_of_evolvers(1) [OF folds] derived_matches_def by (simp add: split_beta) blast
  finally show ?thesis .
qed

lemma shared_nonempty:
  assumes "deriveGranularQuery label record evolvers = Inr q" "evolvers \<noteq> []" "d \<in> fst ` set evolvers"
  shows "shared_keys record d \<noteq> []"
proof -
  obtain folds where folds: "map_result (fold_of label (map_keys record) \<circ> fst) evolvers = Inr folds"
    using derived_items [OF assms(2,1)] by blast
  from assms(3) have "\<lparr>fe_type = descriptor_type d, fe_shared = shared_keys record d\<rparr> \<in> set folds"
    unfolding folds_of_evolvers(1) [OF folds] by force
  with folds_of_evolvers(2) [OF folds] show ?thesis by fastforce
qed

section \<open>Properties\<close>

text \<open>
  C10: the query a state with at least one evolver derives from one tag record means what the fold needs: it matches an
  event exactly when the event's type is folded and the event carries the tags of some folded
  type's shared keys that its own shared keys include. Dropping covered items changes nothing,
  every matching event carries at least one of the state's tags, and no event of a folded type
  that carries all the tags it shares with the state is missed.
\<close>

theorem derived_query_exact:
  assumes "evolvers \<noteq> []" "deriveQuery label (OneRecord record) evolvers = Inr q"
  shows "(query_matches q e \<longleftrightarrow> derived_matches record evolvers e) \<and>
         (query_matches q e \<longrightarrow>
            (\<exists>k \<in> set (map_keys record). \<lparr>tag_key = k, tag_value = the (map_get record k)\<rparr> \<in> set (em_tags e))) \<and>
         (\<forall>(d, f) \<in> set evolvers. descriptor_type d = event_type e \<and> carries record (shared_keys record d) e \<longrightarrow>
            query_matches q e)"
proof -
  have g: "deriveGranularQuery label record evolvers = Inr q" using assms(2) by (simp add: deriveQuery_def)
  note m = granular_matches [OF assms(1) g, of e]
  have bounded: "\<exists>k \<in> set (map_keys record). \<lparr>tag_key = k, tag_value = the (map_get record k)\<rparr> \<in> set (em_tags e)"
    if "derived_matches record evolvers e"
  proof -
    from that obtain d where d: "d \<in> fst ` set evolvers" "carries record (shared_keys record d) e"
      by (force simp: derived_matches_def)
    from shared_nonempty [OF g assms(1) d(1)] obtain k where "k \<in> set (shared_keys record d)"
      by (cases "shared_keys record d") auto
    with d(2) show ?thesis by (auto simp: carries_def shared_keys_def)
  qed
  have "query_matches q e"
    if "(d, f) \<in> set evolvers" "descriptor_type d = event_type e" "carries record (shared_keys record d) e" for d f
    unfolding m derived_matches_def using that by blast
  with m bounded show ?thesis by auto
qed

definition course_created :: event_descriptor where
  "course_created = event_descriptor_of (qn ''uni'' ''Created'') None (Some [(''course'', \<lambda>p m. OneTag ''c1'')])"

definition student_subscribed :: event_descriptor where
  "student_subscribed = event_descriptor_of (qn ''uni'' ''Subscribed'') None
     (Some [(''course'', \<lambda>p m. OneTag ''c1''), (''student'', \<lambda>p m. OneTag ''s1'')])"

definition subscription_evolvers :: "evolver_entry list" where
  "subscription_evolvers = [(course_created, \<lambda>s e. Inr s), (student_subscribed, \<lambda>s e. Inr s)]"

lemma subscription_query:
  "deriveQuery ''subscription'' (OneRecord [(''course'', ''c1''), (''student'', ''s1'')]) subscription_evolvers =
     Inr (QItem \<lparr>qi_tags = Some [(''course'', ''c1'')],
                 qi_types = Some [TypeName ''uni.Created'', TypeName ''uni.Subscribed'']\<rparr>)"
  by (simp add: deriveQuery_def deriveGranularQuery_def subscription_evolvers_def course_created_def
      student_subscribed_def event_descriptor_of_def fold_of_def tagKeysOf_def qn_def qualifiedNameToString_def
      item_for_def js_set_def minimise_def covered_by_def item_type_names_def Let_def)

theorem derived_query_exact_witness:
  "query_matches (QItem \<lparr>qi_tags = Some [(''course'', ''c1'')],
       qi_types = Some [TypeName ''uni.Created'', TypeName ''uni.Subscribed'']\<rparr>)
     (tagged_event ''uni'' ''Subscribed'' ''course'' ''c1'') =
   derived_matches [(''course'', ''c1''), (''student'', ''s1'')] subscription_evolvers
     (tagged_event ''uni'' ''Subscribed'' ''course'' ''c1'')"
  using derived_query_exact [OF _ subscription_query, of "tagged_event ''uni'' ''Subscribed'' ''course'' ''c1''"]
  by (simp add: subscription_evolvers_def)

end
