(* ===== verification/Segment.thy ===== *)
theory Segment
  imports Prelude "HOL-Library.Word"
begin

unbundle bit_operations_syntax

text \<open>
  Segments of an event processor (\<open>event-processing/segment.ts\<close>).

  Segment ids and masks are JavaScript numbers that are never negative, so they are natural
  numbers here; \<open>hash & mask\<close> is JavaScript's 32-bit operation, whose result is a signed
  number (\<open>js_and\<close>), and \<open>>>>\<close> and \<open>^\<close> are the corresponding operations (\<open>js_shr\<close>, \<open>js_xor\<close>).
  \<open>wf_segment\<close> is the shape every segment of the tree has. The theory shows that the segments
  worked out from any set of token rows partition the sequences, that splitting a segment
  refines this partition and that merging undoes splitting.
\<close>

section \<open>JavaScript's bitwise operations\<close>

definition js_and :: "nat \<Rightarrow> nat \<Rightarrow> int" where
  "js_and a b = signed_take_bit 31 (int a AND int b)"

definition js_xor :: "int \<Rightarrow> int \<Rightarrow> int" where
  "js_xor a b = signed_take_bit 31 (a XOR b)"

definition js_shr :: "int \<Rightarrow> nat \<Rightarrow> int" where
  "js_shr a n = drop_bit n (take_bit 32 a)"

section \<open>Segments\<close>

record segment =
  seg_id :: nat
  seg_mask :: nat

definition WHOLE :: segment where
  "WHOLE = \<lparr>seg_id = 0, seg_mask = 0\<rparr>"

definition splitSegment :: "segment \<Rightarrow> segment \<times> segment" where
  "splitSegment s =
     (let m = seg_mask s * 2 + 1
      in (\<lparr>seg_id = seg_id s, seg_mask = m\<rparr>, \<lparr>seg_id = seg_id s + seg_mask s + 1, seg_mask = m\<rparr>))"

definition mergeableSegmentId :: "segment \<Rightarrow> int" where
  "mergeableSegmentId s =
     (let parent = js_shr (int (seg_mask s)) 1
      in js_xor (int (seg_id s)) (js_xor (int (seg_mask s)) parent))"

text \<open>
  The walk of \<open>segmentsOf\<close>: split while the second half is one of the ids. \<open>found.push\<close> of the
  recursive calls, in order, is concatenation.
\<close>

function walk :: "nat set \<Rightarrow> segment \<Rightarrow> segment list" where
  "walk present s =
     (let (first, second) = splitSegment s
      in if seg_mask s < 2 ^ 30 \<and> seg_id second \<in> present
         then walk present first @ walk present second
         else [s])"
  by pat_completeness auto
termination
  by (relation "measure (\<lambda>(present, s). 2 ^ 31 - seg_mask s)") (auto simp: splitSegment_def Let_def)

declare walk.simps [simp del]

definition segmentsOf :: "nat list \<Rightarrow> segment list" where
  "segmentsOf ids = (if ids = [] then [] else sort_key seg_id (walk (set ids) WHOLE))"

definition inSegment :: "segment \<Rightarrow> nat \<Rightarrow> bool" where
  "inSegment s hash \<longleftrightarrow> seg_mask s = 0 \<or> js_and hash (seg_mask s) = int (seg_id s)"

text \<open>32-bit FNV-1a over the UTF-16 code units; \<open>Math.imul\<close> is multiplication modulo 2^32.\<close>

fun fnv1a :: "32 word \<Rightarrow> 16 word list \<Rightarrow> 32 word" where
  "fnv1a hash [] = hash"
| "fnv1a hash (c # cs) = fnv1a ((hash XOR ucast c) * 0x01000193) cs"

definition sequenceHash :: "16 word list \<Rightarrow> nat" where
  "sequenceHash codeUnits = unat (fnv1a 0x811c9dc5 codeUnits)"

section \<open>The tree\<close>

definition wf_segment :: "segment \<Rightarrow> bool" where
  "wf_segment s \<longleftrightarrow> (\<exists>k \<le> 31. seg_mask s = 2 ^ k - 1 \<and> seg_id s < 2 ^ k)"

lemma wf_segmentE:
  assumes "wf_segment s"
  obtains k where "k \<le> 31" "seg_mask s = 2 ^ k - 1" "seg_id s < 2 ^ k"
  using assms by (auto simp: wf_segment_def)

lemma wf_WHOLE [simp]: "wf_segment WHOLE"
  by (auto simp: wf_segment_def WHOLE_def intro: exI [of _ 0])

lemma js_and_mask:
  assumes "k \<le> 31"
  shows "js_and h (2 ^ k - 1) = int (h mod 2 ^ k)"
proof -
  have "int h AND int (2 ^ k - 1) = take_bit k (int h)"
    by (simp add: take_bit_eq_mask mask_eq_exp_minus_1 of_nat_diff)
  also have "\<dots> = int (h mod 2 ^ k)"
    by (simp add: take_bit_eq_mod zmod_int)
  finally have 1: "int h AND int (2 ^ k - 1) = int (h mod 2 ^ k)" .
  have "h mod 2 ^ k < 2 ^ k" by simp
  also have "(2::nat) ^ k \<le> 2 ^ 31" using assms by (intro power_increasing) auto
  finally have "int (h mod 2 ^ k) < 2 ^ 31" by (metis of_nat_less_iff of_nat_numeral of_nat_power)
  then show ?thesis
    unfolding js_and_def 1 by (intro signed_take_bit_int_eq_self) auto
qed

lemma inSegment_mod:
  assumes "k \<le> 31" "seg_mask s = 2 ^ k - 1" "seg_id s < 2 ^ k"
  shows "inSegment s h \<longleftrightarrow> h mod 2 ^ k = seg_id s"
proof (cases "k = 0")
  case False
  then have "(2::nat) ^ 1 \<le> 2 ^ k" by (intro power_increasing) auto
  then have "seg_mask s \<noteq> 0" using assms(2) by simp
  then show ?thesis
    unfolding inSegment_def assms(2) js_and_mask [OF assms(1)] by simp
qed (use assms in \<open>simp add: inSegment_def\<close>)

lemma splitSegment_shape:
  assumes "seg_mask s = 2 ^ k - 1"
  shows "splitSegment s =
     (\<lparr>seg_id = seg_id s, seg_mask = 2 ^ Suc k - 1\<rparr>, \<lparr>seg_id = seg_id s + 2 ^ k, seg_mask = 2 ^ Suc k - 1\<rparr>)"
proof -
  have ge: "(1::nat) \<le> 2 ^ k" by simp
  then have "(2 ^ k - 1) * 2 + 1 = (2::nat) ^ Suc k - 1"
    unfolding power_Suc by linarith
  moreover have "i + (2 ^ k - 1) + 1 = i + (2::nat) ^ k" for i
    using ge by linarith
  ultimately show ?thesis by (simp only: splitSegment_def Let_def assms)
qed

lemma mod_double: "h mod 2 ^ Suc k = h mod 2 ^ k + (if odd (h div 2 ^ k) then (2::nat) ^ k else 0)"
  by (simp add: mod_mult2_eq mult.commute [of 2] odd_iff_mod_2_eq_one)

lemma split_wf:
  assumes "wf_segment s" "seg_mask s < 2 ^ 30" "splitSegment s = (a, b)"
  shows "wf_segment a" "wf_segment b"
    and "inSegment s h \<longleftrightarrow> inSegment a h \<or> inSegment b h"
    and "\<not> (inSegment a h \<and> inSegment b h)"
proof -
  from assms(1) obtain k where k: "k \<le> 31" "seg_mask s = 2 ^ k - 1" "seg_id s < 2 ^ k"
    by (rule wf_segmentE)
  have k': "Suc k \<le> 31"
  proof (rule ccontr)
    assume "\<not> Suc k \<le> 31"
    with k(1) have "k = 31" by simp
    with k(2) assms(2) show False by simp
  qed
  note ab = splitSegment_shape [OF k(2)]
  with assms(3) have a: "a = \<lparr>seg_id = seg_id s, seg_mask = 2 ^ Suc k - 1\<rparr>"
    and b: "b = \<lparr>seg_id = seg_id s + 2 ^ k, seg_mask = 2 ^ Suc k - 1\<rparr>" by simp_all
  have ida: "seg_id a < 2 ^ Suc k" and idb: "seg_id b < 2 ^ Suc k" using k(3) by (simp_all add: a b)
  show "wf_segment a" "wf_segment b"
    using k' ida idb by (auto simp: wf_segment_def a b intro!: exI [of _ "Suc k"])
  have ina: "inSegment a h \<longleftrightarrow> h mod 2 ^ Suc k = seg_id s"
    and inb: "inSegment b h \<longleftrightarrow> h mod 2 ^ Suc k = seg_id s + 2 ^ k"
    using inSegment_mod [OF k' _ ida] inSegment_mod [OF k' _ idb] by (simp_all add: a b)
  have ins: "inSegment s h \<longleftrightarrow> h mod 2 ^ k = seg_id s"
    by (rule inSegment_mod [OF k])
  have "h mod 2 ^ k < 2 ^ k" by simp
  with k(3) have "h mod 2 ^ k \<noteq> seg_id s + 2 ^ k" "h mod 2 ^ k + 2 ^ k \<noteq> seg_id s" by linarith+
  then show "inSegment s h \<longleftrightarrow> inSegment a h \<or> inSegment b h"
    unfolding ins ina inb mod_double by auto
  show "\<not> (inSegment a h \<and> inSegment b h)"
    unfolding ina inb by simp
qed

section \<open>The segments of a processor partition its sequences\<close>

lemma walk_splits:
  assumes "splitSegment s = (a, b)" "seg_mask s < 2 ^ 30" "seg_id b \<in> P"
  shows "walk P s = walk P a @ walk P b"
  by (subst walk.simps) (use assms in \<open>simp add: Let_def\<close>)

lemma walk_stops:
  assumes "splitSegment s = (a, b)" "\<not> (seg_mask s < 2 ^ 30 \<and> seg_id b \<in> P)"
  shows "walk P s = [s]"
  by (subst walk.simps) (use assms in \<open>auto simp: Let_def\<close>)

text \<open>Induction along the walk, with the split of the current segment at hand.\<close>

lemma walk_induct [case_names split stop]:
  assumes "\<And>s a b. splitSegment s = (a, b) \<Longrightarrow> seg_mask s < 2 ^ 30 \<Longrightarrow> seg_id b \<in> P \<Longrightarrow>
      walk P s = walk P a @ walk P b \<Longrightarrow> Q a \<Longrightarrow> Q b \<Longrightarrow> Q s"
    and "\<And>s a b. splitSegment s = (a, b) \<Longrightarrow> \<not> (seg_mask s < 2 ^ 30 \<and> seg_id b \<in> P) \<Longrightarrow>
      walk P s = [s] \<Longrightarrow> Q s"
  shows "Q s"
proof (induction "2 ^ 31 - seg_mask s" arbitrary: s rule: less_induct)
  case less
  obtain a b where ab: "splitSegment s = (a, b)" by fastforce
  show ?case
  proof (cases "seg_mask s < 2 ^ 30 \<and> seg_id b \<in> P")
    case True
    moreover from ab have "seg_mask a = seg_mask s * 2 + 1" "seg_mask b = seg_mask s * 2 + 1"
      by (auto simp: splitSegment_def Let_def)
    ultimately have "Q a" "Q b" by (auto intro!: less)
    with True show ?thesis
      using assms(1) [OF ab _ _ walk_splits [OF ab]] by blast
  next
    case False
    from assms(2) [OF ab False walk_stops [OF ab False]] show ?thesis .
  qed
qed

lemma walk_leaf: "t \<in> set (walk P s) \<Longrightarrow> \<not> (seg_mask t < 2 ^ 30 \<and> seg_id (snd (splitSegment t)) \<in> P)"
  by (induction s rule: walk_induct [where P = P]) auto

lemma walk_partition:
  "wf_segment s \<Longrightarrow> list_all wf_segment (walk P s) \<and>
     length (filter (\<lambda>t. inSegment t h) (walk P s)) = (if inSegment s h then 1 else 0)"
proof (induction s rule: walk_induct [where P = P])
  case (split s a b)
  note sw = split_wf [OF split.prems split.hyps(2,1)]
  with split.IH show ?case unfolding split.hyps(4) by auto
qed simp

lemma walk_unique:
  assumes "wf_segment s" "t \<in> set (walk P s)" "u \<in> set (walk P s)" "inSegment t h" "inSegment u h"
  shows "t = u"
proof -
  from assms(1) have "length (filter (\<lambda>t. inSegment t h) (walk P s)) \<le> 1"
    using walk_partition by simp
  moreover have "t \<in> set (filter (\<lambda>t. inSegment t h) (walk P s))"
    and "u \<in> set (filter (\<lambda>t. inSegment t h) (walk P s))" using assms by auto
  ultimately show ?thesis
    by (cases "filter (\<lambda>t. inSegment t h) (walk P s)") auto
qed

lemma set_segmentsOf: "ids \<noteq> [] \<Longrightarrow> set (segmentsOf ids) = set (walk (set ids) WHOLE)"
  by (simp add: segmentsOf_def)

lemma segmentsOf_wf: "s \<in> set (segmentsOf ids) \<Longrightarrow> wf_segment s"
  using walk_partition [OF wf_WHOLE, of "set ids" 0]
  by (auto simp: segmentsOf_def list_all_iff split: if_splits)

lemma filter_sort_key_length: "length (filter p (sort_key f xs)) = length (filter p xs)"
  by (metis filter_sort length_sort)

lemma segments_partition:
  assumes "ids \<noteq> []"
  shows "length (filter (\<lambda>s. inSegment s h) (segmentsOf ids)) = 1"
proof -
  have "inSegment WHOLE h" by (simp add: inSegment_def WHOLE_def)
  with walk_partition [OF wf_WHOLE, of "set ids" h] assms show ?thesis
    by (simp add: segmentsOf_def filter_sort_key_length)
qed

lemma segment_contains_own_id: "wf_segment s \<Longrightarrow> inSegment s (seg_id s)"
  by (erule wf_segmentE) (simp add: inSegment_mod)

lemma segments_unique:
  assumes "s \<in> set (segmentsOf ids)" "t \<in> set (segmentsOf ids)" "inSegment s h" "inSegment t h"
  shows "s = t"
  using assms walk_unique [OF wf_WHOLE] by (auto simp: segmentsOf_def split: if_splits)

lemma segments_id_inj: "inj_on seg_id (set (segmentsOf ids))"
  by (rule inj_onI) (metis segment_contains_own_id segments_unique segmentsOf_wf)

lemma halves_not_segments:
  assumes "s \<in> set (segmentsOf ids)" "seg_mask s < 2 ^ 30" "splitSegment s = (a, b)"
  shows "a \<notin> set (segmentsOf ids)" "b \<notin> set (segmentsOf ids)"
proof -
  note sw = split_wf [OF segmentsOf_wf [OF assms(1)] assms(2,3)]
  have "seg_mask a = seg_mask s * 2 + 1" "seg_mask b = seg_mask s * 2 + 1"
    using assms(3) by (auto simp: splitSegment_def Let_def)
  then have "a \<noteq> s" "b \<noteq> s" by auto
  then show "a \<notin> set (segmentsOf ids)" "b \<notin> set (segmentsOf ids)"
    using sw segment_contains_own_id segments_unique assms(1) by blast+
qed

section \<open>Splitting and merging\<close>

text \<open>
  The token rows are \<^emph>\<open>complete\<close> when every row is a segment: the ids of the segments worked
  out from them are exactly the rows.
\<close>

definition complete_ids :: "nat list \<Rightarrow> bool" where
  "complete_ids ids \<longleftrightarrow> ids \<noteq> [] \<and> seg_id ` set (segmentsOf ids) = set ids"

lemma walk_refine: "P \<subseteq> P' \<Longrightarrow> walk P' s = concat (map (walk P') (walk P s))"
proof (induction s rule: walk_induct [where P = P])
  case (split s a b)
  then have "walk P' s = walk P' a @ walk P' b"
    by (intro walk_splits) auto
  with split show ?case by simp
qed simp

text \<open>The id of a second half determines the segment it was split from.\<close>

lemma second_id_inj:
  assumes "wf_segment s" "wf_segment t"
    and "seg_id (snd (splitSegment s)) = seg_id (snd (splitSegment t))"
  shows "s = t"
proof -
  from assms(1) obtain k where k: "seg_mask s = 2 ^ k - 1" "seg_id s < 2 ^ k" by (rule wf_segmentE)
  from assms(2) obtain l where l: "seg_mask t = 2 ^ l - 1" "seg_id t < 2 ^ l" by (rule wf_segmentE)
  from assms(3) have eq: "seg_id s + 2 ^ k = seg_id t + 2 ^ l"
    by (simp add: splitSegment_shape [OF k(1)] splitSegment_shape [OF l(1)])
  have lt: "2 ^ k < (2::nat) ^ Suc l" "2 ^ l < (2::nat) ^ Suc k"
    using eq k(2) l(2) by simp_all
  have "k < Suc l" "l < Suc k"
    by (rule power_less_imp_less_exp [OF _ lt(1)], simp) (rule power_less_imp_less_exp [OF _ lt(2)], simp)
  then have "k = l" by simp
  with eq k l show ?thesis by (metis add_right_cancel old.unit.exhaust segment.equality)
qed

lemma split_ids:
  assumes "wf_segment s" "splitSegment s = (a, b)"
  shows "seg_id a = seg_id s" "seg_id s < seg_id b" "inSegment s (seg_id b)"
    "inSegment s (seg_id (snd (splitSegment a)))" "inSegment s (seg_id (snd (splitSegment b)))"
    "seg_id b < seg_id (snd (splitSegment a))" "seg_id b < seg_id (snd (splitSegment b))"
proof -
  from assms(1) obtain k where k: "k \<le> 31" "seg_mask s = 2 ^ k - 1" "seg_id s < 2 ^ k" by (rule wf_segmentE)
  with assms(2) have a: "a = \<lparr>seg_id = seg_id s, seg_mask = 2 ^ Suc k - 1\<rparr>"
    and b: "b = \<lparr>seg_id = seg_id s + 2 ^ k, seg_mask = 2 ^ Suc k - 1\<rparr>"
    by (simp_all add: splitSegment_shape [OF k(2)])
  have sa: "seg_id (snd (splitSegment a)) = seg_id s + 2 ^ Suc k"
    and sb: "seg_id (snd (splitSegment b)) = seg_id s + 2 ^ k + 2 ^ Suc k"
    using splitSegment_shape [of a "Suc k"] splitSegment_shape [of b "Suc k"] by (simp_all add: a b)
  show "seg_id a = seg_id s" "seg_id s < seg_id b" "seg_id b < seg_id (snd (splitSegment a))"
      "seg_id b < seg_id (snd (splitSegment b))"
    using k(3) unfolding sa sb by (simp_all add: a b)
  show "inSegment s (seg_id b)" "inSegment s (seg_id (snd (splitSegment a)))"
      "inSegment s (seg_id (snd (splitSegment b)))"
    using k(3) unfolding sa sb inSegment_mod [OF k] by (simp_all add: b mod_add_eq)
qed

lemma segment_rows:
  assumes "complete_ids ids" "s \<in> set (segmentsOf ids)" "x \<in> set ids" "inSegment s x"
  shows "x = seg_id s"
proof -
  from assms obtain t where "t \<in> set (segmentsOf ids)" "x = seg_id t"
    by (auto simp: complete_ids_def)
  with assms(2,4) show ?thesis
    using segments_unique segment_contains_own_id segmentsOf_wf by metis
qed

lemma split_walk:
  assumes c: "complete_ids ids" and s: "s \<in> set (segmentsOf ids)"
    and m: "seg_mask s < 2 ^ 30" and ab: "splitSegment s = (a, b)"
    and P': "P' = insert (seg_id b) (set ids)" and t: "t \<in> set (segmentsOf ids)"
  shows "walk P' t = (if t = s then [a, b] else [t])"
proof (cases "t = s")
  case True
  have ws: "wf_segment s" using s by (rule segmentsOf_wf)
  note ids = split_ids [OF ws ab]
  have "seg_id (snd (splitSegment u)) \<notin> P'" if "u = a \<or> u = b" for u
    using segment_rows [OF c s, of "seg_id (snd (splitSegment u))"] ids that P' by auto
  then have "walk P' a = [a]" "walk P' b = [b]"
    by (metis prod.collapse walk_stops)+
  moreover have "walk P' s = walk P' a @ walk P' b"
    by (rule walk_splits [OF ab m]) (simp add: P')
  ultimately show ?thesis using True by simp
next
  case False
  then have "seg_id (snd (splitSegment t)) \<noteq> seg_id b"
    using second_id_inj [OF segmentsOf_wf [OF t] segmentsOf_wf [OF s]] ab by auto
  moreover have "\<not> (seg_mask t < 2 ^ 30 \<and> seg_id (snd (splitSegment t)) \<in> set ids)"
    using t by (intro walk_leaf [of t _ WHOLE]) (auto simp: segmentsOf_def split: if_splits)
  ultimately have "walk P' t = [t]"
    by (metis P' insert_iff prod.collapse walk_stops)
  with False show ?thesis by simp
qed

lemma split_segments:
  assumes "complete_ids ids" "s \<in> set (segmentsOf ids)" "seg_mask s < 2 ^ 30"
    and "splitSegment s = (a, b)" "set ids' = insert (seg_id b) (set ids)"
  shows "set (segmentsOf ids') = set (segmentsOf ids) - {s} \<union> {a, b} \<and> complete_ids ids'"
proof -
  note sw = split_walk [OF assms(1-4) assms(5)]
  have ne: "ids \<noteq> []" "ids' \<noteq> []" using assms(1,5) by (auto simp: complete_ids_def)
  have "set (segmentsOf ids') = set (concat (map (walk (set ids')) (walk (set ids) WHOLE)))"
    using walk_refine [of "set ids" "set ids'" WHOLE] assms(5) ne by (simp add: set_segmentsOf subset_insertI)
  also have "\<dots> = (\<Union>t \<in> set (segmentsOf ids). set (walk (set ids') t))"
    using ne by (simp add: set_segmentsOf)
  also have "\<dots> = (\<Union>t \<in> set (segmentsOf ids). if t = s then {a, b} else {t})"
    by (rule SUP_cong) (simp_all add: sw)
  also have "\<dots> = set (segmentsOf ids) - {s} \<union> {a, b}"
    using assms(2) by (auto split: if_splits)
  finally have 1: "set (segmentsOf ids') = set (segmentsOf ids) - {s} \<union> {a, b}" .
  have "seg_id ` (set (segmentsOf ids) - {s}) = set ids - {seg_id s}"
    using assms(1,2) segments_id_inj [of ids] by (auto simp: complete_ids_def dest: inj_onD)
  moreover have "seg_id a = seg_id s" by (rule split_ids [OF segmentsOf_wf [OF assms(2)] assms(4)])
  moreover have "seg_id s \<in> set ids" using assms(1,2) by (auto simp: complete_ids_def)
  ultimately have "seg_id ` set (segmentsOf ids') = set ids'"
    unfolding 1 assms(5) by auto
  with 1 ne show ?thesis by (simp add: complete_ids_def)
qed

lemma walk_origin:
  assumes "t \<in> set (walk P s)" "t \<noteq> s" "wf_segment s"
  shows "\<exists>u a b. wf_segment u \<and> splitSegment u = (a, b) \<and> seg_id b \<in> P \<and> (t = a \<or> t = b)"
  using assms
proof (induction s rule: walk_induct [where P = P])
  case (split s a b)
  note sw = split_wf [OF split.prems(3) split.hyps(2,1)]
  from split show ?case using sw(1,2) by auto
qed auto

lemma split_first_not_second:
  assumes "wf_segment s" "wf_segment u" "splitSegment s = (a, b)" "splitSegment u = (c, d)"
  shows "b \<noteq> c" "a \<noteq> s" "b \<noteq> s"
proof -
  from assms(1) obtain k where k: "seg_mask s = 2 ^ k - 1" "seg_id s < 2 ^ k" by (rule wf_segmentE)
  from assms(2) obtain l where l: "seg_mask u = 2 ^ l - 1" "seg_id u < 2 ^ l" by (rule wf_segmentE)
  have a: "seg_mask a = seg_mask s * 2 + 1" and b: "seg_mask b = seg_mask s * 2 + 1" "seg_id b = seg_id s + seg_mask s + 1"
    using assms(3) by (auto simp: splitSegment_def Let_def)
  have c: "seg_mask c = seg_mask u * 2 + 1" "seg_id c = seg_id u"
    using assms(4) by (auto simp: splitSegment_def Let_def)
  show "b \<noteq> c"
  proof
    assume "b = c"
    with b c have m: "seg_mask s = seg_mask u" and "seg_id u = seg_id s + seg_mask s + 1" by simp_all
    then have "seg_id u > seg_mask u" by simp
    with l show False by linarith
  qed
  show "a \<noteq> s" "b \<noteq> s" using a b(1) by auto
qed

lemma merge_leaf:
  assumes "ids' \<noteq> []" "wf_segment s" "splitSegment s = (a, b)" "b \<in> set (segmentsOf ids)"
    and "set ids' = set ids - {seg_id b}"
  shows "s \<in> set (segmentsOf ids')"
proof (rule ccontr)
  assume notin: "s \<notin> set (segmentsOf ids')"
  have ne: "ids \<noteq> []" using assms(4) by (auto simp: segmentsOf_def)
  have stay: "walk (set ids) t = [t]" if "t \<in> set (walk (set ids') WHOLE)" for t
  proof -
    have "wf_segment t" "t \<noteq> s" using that notin assms(1) walk_partition [OF wf_WHOLE, of "set ids'" 0]
      by (auto simp: list_all_iff set_segmentsOf)
    then have "seg_id (snd (splitSegment t)) \<noteq> seg_id b"
      using second_id_inj [OF _ assms(2), of t] assms(3) by auto
    then have "\<not> (seg_mask t < 2 ^ 30 \<and> seg_id (snd (splitSegment t)) \<in> set ids)"
      using walk_leaf [OF that] assms(5) by auto
    then show ?thesis by (metis prod.collapse walk_stops)
  qed
  have "walk (set ids) WHOLE = concat (map (\<lambda>t. [t]) (walk (set ids') WHOLE))"
    using walk_refine [of "set ids'" "set ids" WHOLE] assms(5) stay by (simp cong: map_cong)
  then have b: "b \<in> set (walk (set ids') WHOLE)" using assms(4) ne by (simp add: set_segmentsOf)
  have "b \<noteq> WHOLE" using assms(3) by (auto simp: splitSegment_def WHOLE_def Let_def)
  from walk_origin [OF b this wf_WHOLE] obtain u c d where
    u: "wf_segment u" "splitSegment u = (c, d)" "seg_id d \<in> set ids'" "b = c \<or> b = d" by blast
  with split_first_not_second [OF assms(2) u(1) assms(3) u(2)] have "b = d" by blast
  with u(3) assms(5) show False by simp
qed

lemma merge_segments:
  assumes c: "complete_ids ids" and s: "wf_segment s" and ab: "splitSegment s = (a, b)"
    and a: "a \<in> set (segmentsOf ids)" and b: "b \<in> set (segmentsOf ids)"
    and ids': "set ids' = set ids - {seg_id b}"
  shows "set (segmentsOf ids') = set (segmentsOf ids) - {a, b} \<union> {s} \<and> complete_ids ids'"
proof -
  note sid = split_ids [OF s ab] and sne = split_first_not_second [OF s s ab ab]
  have rows: "seg_id ` set (segmentsOf ids) = set ids" and ne: "ids \<noteq> []"
    using c by (auto simp: complete_ids_def)
  have "seg_id a \<in> set ids" using rows a by blast
  then have "seg_id a \<in> set ids'" using ids' sid(1,2) by auto
  then have ne': "ids' \<noteq> []" by auto
  have leaf: "s \<in> set (segmentsOf ids')" by (rule merge_leaf [OF ne' s ab b ids'])
  have other: "walk (set ids) t = [t]" if "t \<in> set (segmentsOf ids')" "t \<noteq> s" for t
  proof -
    have "seg_id (snd (splitSegment t)) \<noteq> seg_id b"
      using second_id_inj [OF segmentsOf_wf [OF that(1)] s] that(2) ab by auto
    moreover have "t \<in> set (walk (set ids') WHOLE)" using that(1) ne' by (simp add: set_segmentsOf)
    ultimately have "\<not> (seg_mask t < 2 ^ 30 \<and> seg_id (snd (splitSegment t)) \<in> set ids)"
      using walk_leaf [of t "set ids'" WHOLE] ids' by auto
    then show ?thesis by (metis prod.collapse walk_stops)
  qed
  have lt: "seg_mask s < 2 ^ 30"
  proof (rule ccontr)
    assume "\<not> seg_mask s < 2 ^ 30"
    moreover have "seg_mask a = seg_mask s * 2 + 1" using ab by (auto simp: splitSegment_def Let_def)
    moreover have "seg_mask a < 2 ^ 31" using segmentsOf_wf [OF a]
      by (elim wf_segmentE) (metis (no_types, lifting) diff_less less_le_trans less_one one_le_numeral power_increasing zero_less_numeral zero_less_power)
    ultimately show False by simp
  qed
  have ends: "walk (set ids) a = [a]" "walk (set ids) b = [b]"
    using walk_leaf [of a "set ids" WHOLE] walk_leaf [of b "set ids" WHOLE] a b ne
    by (metis prod.collapse set_segmentsOf walk_stops)+
  have "seg_id b \<in> set ids" using rows b by auto
  then have ws: "walk (set ids) s = [a, b]" using walk_splits [OF ab lt] ends by simp
  have "set (segmentsOf ids) = (\<Union>t \<in> set (segmentsOf ids'). set (walk (set ids) t))"
    using walk_refine [of "set ids'" "set ids" WHOLE] ids' ne ne' by (simp add: set_segmentsOf)
  also have "\<dots> = (\<Union>t \<in> set (segmentsOf ids'). if t = s then {a, b} else {t})"
    by (rule SUP_cong) (auto simp: other ws)
  also have "\<dots> = set (segmentsOf ids') - {s} \<union> {a, b}"
    using leaf by (auto split: if_splits)
  finally have S: "set (segmentsOf ids) = set (segmentsOf ids') - {s} \<union> {a, b}" .
  have "a \<notin> set (segmentsOf ids')" "b \<notin> set (segmentsOf ids')"
    using segments_unique [OF leaf] segment_contains_own_id [OF segmentsOf_wf] sid(1,3) sne(2,3)
      segment_contains_own_id [OF s] by metis+
  with S leaf have S': "set (segmentsOf ids') = set (segmentsOf ids) - {a, b} \<union> {s}" by auto
  have "seg_id ` (set (segmentsOf ids) - {a, b}) = set ids - {seg_id a, seg_id b}"
    using a b rows segments_id_inj [of ids] by (auto dest: inj_onD)
  then have "seg_id ` set (segmentsOf ids') = insert (seg_id s) (set ids - {seg_id a, seg_id b})"
    unfolding S' by simp
  also have "\<dots> = set ids'"
    unfolding ids' using sid(1,2) \<open>seg_id a \<in> set ids\<close> by auto
  finally have "seg_id ` set (segmentsOf ids') = set ids'" .
  with S' ne' show ?thesis by (simp add: complete_ids_def)
qed

lemma xor_top:
  assumes "i < 2 ^ k" "Suc k \<le> 31"
  shows "js_xor (int i) (2 ^ k) = int (i + 2 ^ k)" "js_xor (int (i + 2 ^ k)) (2 ^ k) = int i"
proof -
  have le: "(2::int) ^ Suc k \<le> 2 ^ 31" using assms(2) by (intro power_increasing) auto
  have i: "int i < 2 ^ k" using assms(1) by (metis of_nat_less_iff of_nat_numeral of_nat_power)
  then have "take_bit k (int i) = int i" by (simp add: take_bit_int_eq_self)
  then have nb: "\<not> bit (int i) k" by (metis bit_take_bit_iff less_irrefl)
  then have "int i AND 2 ^ k = 0" by (simp add: and_exp_eq_0_iff_not_bit)
  then have x: "int i XOR 2 ^ k = int i + 2 ^ k"
    by (simp add: disjunctive_xor_eq_or disjunctive_add_eq_or)
  then have y: "(int i + 2 ^ k) XOR 2 ^ k = int i"
    by (metis xor.assoc xor.right_neutral xor_self_eq)
  have pos: "(0::int) < 2 ^ k" by simp
  have bounds: "- (2 ^ 31) \<le> int i + 2 ^ k" "int i + 2 ^ k < 2 ^ 31" "- (2 ^ 31) \<le> int i" "int i < 2 ^ 31"
    using i le pos unfolding power_Suc [of _ k] by linarith+
  show "js_xor (int i) (2 ^ k) = int (i + 2 ^ k)" "js_xor (int (i + 2 ^ k)) (2 ^ k) = int i"
    unfolding js_xor_def of_nat_add of_nat_power of_nat_numeral x y
    by (simp_all only: signed_take_bit_int_eq_self_iff bounds)
qed

lemma mergeable_halves:
  assumes "wf_segment a" "splitSegment s = (a, b)" "wf_segment s"
  shows "mergeableSegmentId a = int (seg_id b)" "mergeableSegmentId b = int (seg_id a)"
    "js_shr (int (seg_mask a)) 1 = int (seg_mask s)"
proof -
  from assms(3) obtain k where k: "seg_mask s = 2 ^ k - 1" "seg_id s < 2 ^ k" by (rule wf_segmentE)
  have ab: "a = \<lparr>seg_id = seg_id s, seg_mask = 2 ^ Suc k - 1\<rparr>"
    "b = \<lparr>seg_id = seg_id s + 2 ^ k, seg_mask = 2 ^ Suc k - 1\<rparr>"
    using splitSegment_shape [OF k(1)] assms(2) by simp_all
  from assms(1) obtain l where "l \<le> 31" "2 ^ Suc k - 1 = (2::nat) ^ l - 1" by (auto simp: ab wf_segment_def)
  then have k31: "Suc k \<le> 31"
    by (metis Suc_diff_1 power_inject_exp one_less_numeral_iff semiring_norm(76) zero_less_numeral zero_less_power)
  have m: "int (2 ^ Suc k - 1) = mask (Suc k)" by (simp add: mask_eq_exp_minus_1 of_nat_diff)
  have t: "take_bit 32 (mask (Suc k) :: int) = mask (Suc k)" using k31 by (intro bit_eqI) (auto simp: bit_take_bit_iff bit_mask_iff)
  have p: "js_shr (mask (Suc k)) 1 = mask k"
    unfolding js_shr_def t by (rule bit_eqI) (simp add: bit_drop_bit_eq bit_mask_iff)
  have x: "mask (Suc k) XOR mask k = (2 :: int) ^ k"
    by (rule bit_eqI) (auto simp: bit_xor_iff bit_mask_iff bit_exp_iff)
  have pos: "(0::int) < 2 ^ k" and lt: "(2::int) ^ k < 2 ^ 31"
    using k31 by (simp, intro power_strict_increasing) auto
  have "js_xor (mask (Suc k)) (mask k) = 2 ^ k"
    unfolding js_xor_def x by (rule signed_take_bit_int_eq_self [OF order.trans [OF _ less_imp_le [OF pos]] lt]) simp
  then show "mergeableSegmentId a = int (seg_id b)" "mergeableSegmentId b = int (seg_id a)"
    using xor_top [OF k(2) k31] by (simp_all only: mergeableSegmentId_def ab m p Let_def segment.simps)
  show "js_shr (int (seg_mask a)) 1 = int (seg_mask s)"
    unfolding ab k(1) segment.simps m p by (simp add: mask_eq_exp_minus_1 of_nat_diff)
qed

text \<open>The rows a fresh processor starts with are complete, whatever power of two was asked for.\<close>

lemma walk_level:
  assumes "t \<in> set (walk P s)" "wf_segment s" "t \<noteq> s"
  shows "\<exists>x \<in> P. seg_mask t \<le> 2 * x"
proof -
  from walk_origin [OF assms(1,3,2)] obtain u a b where
    u: "wf_segment u" "splitSegment u = (a, b)" "seg_id b \<in> P" "t = a \<or> t = b" by blast
  then have "seg_mask t \<le> 2 * seg_id b" by (auto simp: splitSegment_def Let_def)
  with u(3) show ?thesis by blast
qed

lemma initial_level:
  assumes "n \<le> 30" "t \<in> set (segmentsOf [0 ..< 2 ^ n])"
  shows "seg_mask t = 2 ^ n - 1"
proof -
  have t: "t \<in> set (walk {0 ..< 2 ^ n} WHOLE)" using assms(2) by (simp add: segmentsOf_def split: if_splits)
  from segmentsOf_wf [OF assms(2)] obtain k where k: "seg_mask t = 2 ^ k - 1" "seg_id t < 2 ^ k"
    by (rule wf_segmentE)
  have "k = n"
  proof (rule linorder_cases [of k n])
    assume "k < n"
    then have "(2::nat) ^ Suc k \<le> 2 ^ n" and "(2::nat) ^ k \<le> 2 ^ 30"
      using assms(1) by (intro power_increasing; simp)+
    moreover have "seg_id (snd (splitSegment t)) = seg_id t + 2 ^ k" by (simp add: splitSegment_shape [OF k(1)])
    moreover have "(0::nat) < 2 ^ k" by simp
    ultimately have "seg_mask t < 2 ^ 30 \<and> seg_id (snd (splitSegment t)) \<in> {0 ..< 2 ^ n}"
      using k by auto
    with walk_leaf [OF t] show ?thesis by blast
  next
    assume "n < k"
    then have "(2::nat) ^ 1 \<le> 2 ^ k" by (intro power_increasing) auto
    then have "seg_mask t \<noteq> 0" using k(1) by simp
    then have "t \<noteq> WHOLE" by (auto simp: WHOLE_def)
    then obtain x where "x < 2 ^ n" "seg_mask t \<le> 2 * x" using walk_level [OF t wf_WHOLE] by auto
    moreover have "(2::nat) ^ Suc n \<le> 2 ^ k" using \<open>n < k\<close> by (intro power_increasing) auto
    ultimately show ?thesis using k(1) by simp
  qed
  with k show ?thesis by simp
qed

lemma initial_segments:
  assumes "n \<le> 30"
  shows "set (segmentsOf [0 ..< 2 ^ n]) = (\<lambda>i. \<lparr>seg_id = i, seg_mask = 2 ^ n - 1\<rparr>) ` {0 ..< 2 ^ n}"
    and "complete_ids [0 ..< 2 ^ n]"
proof -
  let ?S = "set (segmentsOf [0 ..< 2 ^ n])"
  have shape: "s = \<lparr>seg_id = seg_id s, seg_mask = 2 ^ n - 1\<rparr> \<and> seg_id s < 2 ^ n" if "s \<in> ?S" for s
  proof -
    have m: "seg_mask s = 2 ^ n - 1" by (rule initial_level [OF assms that])
    from segmentsOf_wf [OF that] obtain k where "seg_mask s = 2 ^ k - 1" "seg_id s < 2 ^ k" by (rule wf_segmentE)
    moreover from this(1) m have "k = n"
      by (metis Suc_diff_1 power_inject_exp one_less_numeral_iff semiring_norm(76) zero_less_numeral zero_less_power)
    ultimately show ?thesis using m by simp
  qed
  have "\<lparr>seg_id = i, seg_mask = 2 ^ n - 1\<rparr> \<in> ?S" if "i < 2 ^ n" for i
  proof -
    have "[0 ..< 2 ^ n] \<noteq> ([] :: nat list)" by simp
    from segments_partition [OF this, of i] obtain s where s: "s \<in> ?S" "inSegment s i"
      by (metis (no_types, lifting) filter_empty_conv length_0_conv zero_neq_one)
    have "inSegment s i \<longleftrightarrow> i mod 2 ^ n = seg_id s"
      using assms shape [OF s(1)] initial_level [OF assms s(1)] by (intro inSegment_mod) auto
    with s(2) that have "seg_id s = i" by simp
    with shape [OF s(1)] s(1) show ?thesis by metis
  qed
  with shape show S: "?S = (\<lambda>i. \<lparr>seg_id = i, seg_mask = 2 ^ n - 1\<rparr>) ` {0 ..< 2 ^ n}"
    by (intro subset_antisym subsetI) (metis atLeast0LessThan image_eqI lessThan_iff, auto)
  show "complete_ids [0 ..< 2 ^ n]"
    unfolding complete_ids_def S by (simp add: image_image)
qed

section \<open>Properties\<close>

text \<open>
  C11: whatever token rows exist, every sequence belongs to exactly one of the segments worked
  out from them, so no event is delivered by two workers and none is left out.
\<close>

theorem segments_cover_each_sequence_once:
  assumes "ids \<noteq> []"
  shows "\<exists>!s. s \<in> set (segmentsOf ids) \<and> inSegment s hash"
proof -
  from segments_partition [OF assms, of hash] have "filter (\<lambda>s. inSegment s hash) (segmentsOf ids) \<noteq> []"
    by auto
  then obtain s where "s \<in> set (segmentsOf ids)" "inSegment s hash" by (auto simp: filter_empty_conv)
  then show ?thesis using segments_unique by blast
qed

theorem segments_cover_each_sequence_once_witness:
  "\<exists>!s. s \<in> set (segmentsOf [0, 1, 2]) \<and> inSegment s (sequenceHash [104, 105])"
  by (rule segments_cover_each_sequence_once) simp

text \<open>
  adding the row of a segment's second half replaces that segment by its two halves in the
  partition and changes no other segment; removing it again puts the segment back.
\<close>

theorem split_then_merge:
  assumes "complete_ids ids" "s \<in> set (segmentsOf ids)" "seg_mask s < 2 ^ 30"
    and "splitSegment s = (a, b)"
    and "set ids' = insert (seg_id b) (set ids)" "set ids'' = set ids' - {seg_id b}"
  shows "set (segmentsOf ids') = set (segmentsOf ids) - {s} \<union> {a, b} \<and>
         set (segmentsOf ids'') = set (segmentsOf ids) \<and>
         mergeableSegmentId a = int (seg_id b) \<and> mergeableSegmentId b = int (seg_id a)"
proof -
  have s: "wf_segment s" using assms(2) by (rule segmentsOf_wf)
  note sp = split_segments [OF assms(1-5)]
  then have a: "a \<in> set (segmentsOf ids')" and b: "b \<in> set (segmentsOf ids')" by auto
  note mg = merge_segments [OF conjunct2 [OF sp] s assms(4) a b assms(6)]
  have "a \<notin> set (segmentsOf ids)" "b \<notin> set (segmentsOf ids)"
    using halves_not_segments [OF assms(2-4)] by auto
  with sp mg assms(2) mergeable_halves [OF segmentsOf_wf [OF a] assms(4) s] show ?thesis by auto
qed

lemma complete_single: "complete_ids [0]"
  using initial_segments(2) [of 0] by simp

lemma segmentsOf_single: "set (segmentsOf [0]) = {WHOLE}"
  using initial_segments(1) [of 0] by (simp add: WHOLE_def)

theorem split_then_merge_witness:
  "set (segmentsOf [0, 1]) = {\<lparr>seg_id = 0, seg_mask = 1\<rparr>, \<lparr>seg_id = 1, seg_mask = 1\<rparr>} \<and>
   mergeableSegmentId \<lparr>seg_id = 0, seg_mask = 1\<rparr> = 1"
  using split_then_merge [OF complete_single, of WHOLE "\<lparr>seg_id = 0, seg_mask = 1\<rparr>" "\<lparr>seg_id = 1, seg_mask = 1\<rparr>"
      "[0, 1]" "[0]"]
  by (auto simp: segmentsOf_single WHOLE_def splitSegment_def)

text \<open>
  A processor initialised with a power of two of segments gets that many, of equal size.
\<close>

theorem initial_segments_equal:
  assumes "n \<le> 30"
  shows "set (segmentsOf [0 ..< 2 ^ n]) = (\<lambda>i. \<lparr>seg_id = i, seg_mask = 2 ^ n - 1\<rparr>) ` {0 ..< 2 ^ n}"
  using assms by (rule initial_segments(1))

theorem initial_segments_equal_witness:
  "set (segmentsOf [0 ..< 4]) = (\<lambda>i. \<lparr>seg_id = i, seg_mask = 3\<rparr>) ` {0 ..< 4}"
  using initial_segments_equal [of 2] by (simp del: upt_Suc)

end
