(* ===== verification/Tracking_Token.thy ===== *)
theory Tracking_Token
  imports Segment
begin

text \<open>
  Tracking tokens (\<open>event-processing/tracking-token.ts\<close>).

  A token of the source is a record of closures discriminated by \<open>kind\<close>; here it is a datatype
  with one constructor per kind, and each closure of the record is one function defined by
  cases on the kind. \<open>MergedToken\<close> is only ever built by \<open>mergedToken\<close>; the half that is behind,
  which its closures delegate to, is the one at the lower position. Positions are \<open>bigint\<close>s. A persisted token is the JSON
  body the source writes, as a record: \<open>JSON.stringify\<close> and \<open>JSON.parse\<close>, and the decimal text of
  a \<open>bigint\<close>, are inverse pairs of the standard library and are not spelled out.

  The theory shows the order the tokens form (\<open>token_order\<close>), what advancing does, that a replay
  ends exactly at the reset point and that the tokens a processor stores survive storage.
\<close>

section \<open>Tokens\<close>

datatype tracking_token =
    GlobalSequenceToken int
  | GapAwareToken int string
  | LatestToken
  | ReplayToken (tokenAtReset: tracking_token) (currentToken: tracking_token)
  | MergedToken nat nat tracking_token nat tracking_token
      \<comment> \<open>mask, then the two halves: segment id and token\<close>

definition MAX_SAFE_INTEGER :: int where
  "MAX_SAFE_INTEGER = 2 ^ 53 - 1"

fun position :: "tracking_token \<Rightarrow> int" where
  "position (GlobalSequenceToken s) = s"
| "position (GapAwareToken s k) = s"
| "position LatestToken = MAX_SAFE_INTEGER"
| "position (ReplayToken r c) = position c"
| "position (MergedToken m sa ta sb tb) =
     (if position ta \<le> position tb then position ta else position tb)"

fun covers :: "tracking_token \<Rightarrow> tracking_token \<Rightarrow> bool" where
  "covers (GlobalSequenceToken s) other = (s \<ge> position other)"
| "covers (GapAwareToken s k) other = (s \<ge> position other)"
| "covers LatestToken other = True"
| "covers (ReplayToken r c) other = covers c other"
| "covers (MergedToken m sa ta sb tb) other =
     (if position ta \<le> position tb then covers ta other else covers tb other)"

fun lowerBound :: "tracking_token \<Rightarrow> tracking_token \<Rightarrow> tracking_token" where
  "lowerBound (GlobalSequenceToken s) other =
     GlobalSequenceToken (if s < position other then s else position other)"
| "lowerBound (GapAwareToken s k) other =
     (if s \<le> position other then GapAwareToken s k else GlobalSequenceToken (position other))"
| "lowerBound LatestToken other = other"
| "lowerBound (ReplayToken r c) other =
     (let inner = lowerBound c other in if \<not> covers inner r then ReplayToken r inner else inner)"
| "lowerBound (MergedToken m sa ta sb tb) other =
     (if position ta \<le> position tb then lowerBound ta other else lowerBound tb other)"

fun upperBound :: "tracking_token \<Rightarrow> tracking_token \<Rightarrow> tracking_token" where
  "upperBound (GlobalSequenceToken s) other =
     GlobalSequenceToken (if s > position other then s else position other)"
| "upperBound (GapAwareToken s k) other =
     (if s \<ge> position other then GapAwareToken s k else GlobalSequenceToken (position other))"
| "upperBound LatestToken other = LatestToken"
| "upperBound (ReplayToken r c) other =
     (let inner = upperBound c other in if covers inner r then inner else ReplayToken r inner)"
| "upperBound (MergedToken m sa ta sb tb) other =
     (if position ta \<le> position tb then upperBound ta other else upperBound tb other)"

fun samePositionAs :: "tracking_token \<Rightarrow> tracking_token \<Rightarrow> bool" where
  "samePositionAs (GlobalSequenceToken s) other = (s = position other)"
| "samePositionAs (GapAwareToken s k) other = (s = position other)"
| "samePositionAs LatestToken other = (other = LatestToken)"
| "samePositionAs (ReplayToken r c) other = samePositionAs c other"
| "samePositionAs (MergedToken m sa ta sb tb) other =
     (if position ta \<le> position tb then samePositionAs ta other else samePositionAs tb other)"

definition FIRST_TOKEN :: tracking_token where
  "FIRST_TOKEN = GlobalSequenceToken 0"

definition mergedToken :: "nat \<Rightarrow> nat \<times> tracking_token \<Rightarrow> nat \<times> tracking_token \<Rightarrow> tracking_token" where
  "mergedToken mk a b =
     (if samePositionAs (snd a) (snd b) then snd a
      else MergedToken mk (fst a) (snd a) (fst b) (snd b))"

fun isReplayToken :: "tracking_token \<Rightarrow> bool" where
  "isReplayToken (ReplayToken _ _) = True"
| "isReplayToken _ = False"

fun isMergedToken :: "tracking_token \<Rightarrow> bool" where
  "isMergedToken (MergedToken _ _ _ _ _) = True"
| "isMergedToken _ = False"

fun isGapAwareToken :: "tracking_token \<Rightarrow> bool" where
  "isGapAwareToken (GapAwareToken _ _) = True"
| "isGapAwareToken _ = False"

fun isGlobalSequenceToken :: "tracking_token \<Rightarrow> bool" where
  "isGlobalSequenceToken (GlobalSequenceToken _) = True"
| "isGlobalSequenceToken _ = False"

text \<open>Defined on merged tokens; the source's parameter type admits no other.\<close>

fun handledByMergedHalf :: "tracking_token \<Rightarrow> nat \<Rightarrow> tracking_token \<Rightarrow> bool" where
  "handledByMergedHalf (MergedToken mk sa ta sb tb) hash past =
     (let h = js_and hash mk
      in if h = int sa then covers ta past
         else if h = int sb then covers tb past
         else False)"
| "handledByMergedHalf _ hash past = False"

fun reachedBy :: "tracking_token \<Rightarrow> tracking_token" where
  "reachedBy (ReplayToken r c) = r"
| "reachedBy (MergedToken mk sa ta sb tb) = (if position ta \<ge> position tb then ta else tb)"
| "reachedBy t = t"

fun advanceTokenTo :: "tracking_token \<Rightarrow> tracking_token \<Rightarrow> tracking_token" where
  "advanceTokenTo (MergedToken mk sa ta sb tb) nxt =
     mergedToken mk (sa, if covers ta nxt then ta else nxt) (sb, if covers tb nxt then tb else nxt)"
| "advanceTokenTo (ReplayToken r c) nxt = (if covers nxt r then nxt else ReplayToken r nxt)"
| "advanceTokenTo t nxt = nxt"

definition advanceToken :: "tracking_token \<Rightarrow> int \<Rightarrow> tracking_token" where
  "advanceToken t newPosition = advanceTokenTo t (GlobalSequenceToken newPosition)"

fun unwrapToken :: "tracking_token \<Rightarrow> tracking_token" where
  "unwrapToken (ReplayToken r c) = unwrapToken c"
| "unwrapToken t = t"

definition isReplaying :: "tracking_token \<Rightarrow> bool" where
  "isReplaying t = isReplayToken t"

fun wasProcessedBeforeReset :: "tracking_token \<Rightarrow> int \<Rightarrow> bool" where
  "wasProcessedBeforeReset (ReplayToken r c) p = covers r (GlobalSequenceToken p)"
| "wasProcessedBeforeReset _ p = False"

section \<open>Storage\<close>

record token_body =
  tb_position :: int
  tb_gapKey :: "string option"

record token_data =
  td_body :: token_body
  td_merged :: "(nat \<times> (nat \<times> token_body) \<times> (nat \<times> token_body)) option"
  td_tokenAtReset :: "token_body option"

record serialized_token =
  st_type :: string
  st_data :: token_data

definition bodyOf :: "tracking_token \<Rightarrow> token_body" where
  "bodyOf t =
     (case unwrapToken t of
        GapAwareToken s k \<Rightarrow> \<lparr>tb_position = s, tb_gapKey = Some k\<rparr>
      | inner \<Rightarrow> \<lparr>tb_position = position inner, tb_gapKey = None\<rparr>)"

definition tokenOf :: "token_body \<Rightarrow> tracking_token" where
  "tokenOf b =
     (case tb_gapKey b of
        Some k \<Rightarrow> GapAwareToken (tb_position b) k
      | None \<Rightarrow> GlobalSequenceToken (tb_position b))"

fun serializeToken :: "tracking_token \<Rightarrow> serialized_token" where
  "serializeToken (MergedToken mk sa ta sb tb) =
     \<lparr>st_type = ''MergedToken'',
      st_data = \<lparr>td_body = bodyOf (MergedToken mk sa ta sb tb),
                 td_merged = Some (mk, (sa, bodyOf ta), (sb, bodyOf tb)), td_tokenAtReset = None\<rparr>\<rparr>"
| "serializeToken (ReplayToken r c) =
     \<lparr>st_type = ''ReplayToken'',
      st_data = \<lparr>td_body = bodyOf (ReplayToken r c), td_merged = None, td_tokenAtReset = Some (bodyOf r)\<rparr>\<rparr>"
| "serializeToken t =
     \<lparr>st_type = (if tb_gapKey (bodyOf t) \<noteq> None then ''GapAwareToken'' else ''GlobalSequenceToken''),
      st_data = \<lparr>td_body = bodyOf t, td_merged = None, td_tokenAtReset = None\<rparr>\<rparr>"

definition deserializeToken :: "string option \<Rightarrow> token_data option \<Rightarrow> tracking_token option" where
  "deserializeToken type dat =
     (case dat of
        None \<Rightarrow> None
      | Some d \<Rightarrow>
          (case td_merged d of
             Some (mk, (sa, ba), (sb, bb)) \<Rightarrow> Some (mergedToken mk (sa, tokenOf ba) (sb, tokenOf bb))
           | None \<Rightarrow>
               (let current = tokenOf (td_body d)
                in case td_tokenAtReset d of
                     Some r \<Rightarrow> Some (ReplayToken (tokenOf r) current)
                   | None \<Rightarrow> Some current)))"

section \<open>The order of tokens\<close>

text \<open>
  A plain token is one a store hands out: a position, with or without a commit-order key. The
  tokens a processor keeps for a segment are plain, a replay of a plain token towards a plain
  reset point it has not reached, or two plain halves at different positions.
\<close>

fun plain_token :: "tracking_token \<Rightarrow> bool" where
  "plain_token (GlobalSequenceToken _) = True"
| "plain_token (GapAwareToken _ _) = True"
| "plain_token _ = False"

fun wf_token :: "tracking_token \<Rightarrow> bool" where
  "wf_token (ReplayToken r c) \<longleftrightarrow> plain_token r \<and> plain_token c \<and> position c < position r"
| "wf_token (MergedToken mk sa ta sb tb) \<longleftrightarrow> plain_token ta \<and> plain_token tb \<and> position ta \<noteq> position tb"
| "wf_token t \<longleftrightarrow> plain_token t"

lemma plain_covers: "plain_token t \<Longrightarrow> covers t u \<longleftrightarrow> position u \<le> position t"
  by (cases t) auto

lemma plain_samePosition: "plain_token t \<Longrightarrow> samePositionAs t u \<longleftrightarrow> position t = position u"
  by (cases t) auto

lemma wf_covers: "wf_token t \<Longrightarrow> covers t u \<longleftrightarrow> position u \<le> position t"
  by (cases t) (auto simp: plain_covers)

lemma plain_wf: "plain_token t \<Longrightarrow> wf_token t"
  by (cases t) auto

lemma position_behind: "position (MergedToken m sa ta sb tb) = min (position ta) (position tb)"
  by simp

lemma plain_lowerBound: "plain_token t \<Longrightarrow> position (lowerBound t u) = min (position t) (position u)"
  by (cases t) auto

lemma plain_upperBound: "plain_token t \<Longrightarrow> position (upperBound t u) = max (position t) (position u)"
  by (cases t) auto

lemma position_lowerBound: "wf_token t \<Longrightarrow> position (lowerBound t u) = min (position t) (position u)"
  by (cases t) (auto simp: plain_lowerBound Let_def min_def)

lemma position_upperBound: "wf_token t \<Longrightarrow> position (upperBound t u) = max (position t) (position u)"
  by (cases t) (auto simp: plain_upperBound Let_def max_def)

text \<open>
  The interface the processor relies on, stated once: \<open>covers\<close> is the order of positions and
  advancing reaches the position asked for.
\<close>

locale token_order =
  fixes pos :: "'t \<Rightarrow> int" and cov :: "'t \<Rightarrow> 't \<Rightarrow> bool" and adv :: "'t \<Rightarrow> 't \<Rightarrow> 't"
    and kept :: "'t \<Rightarrow> bool" and handed_out :: "'t \<Rightarrow> bool"
  assumes cov_pos: "kept t \<Longrightarrow> cov t u \<longleftrightarrow> pos u \<le> pos t"
    and handed_kept: "handed_out t \<Longrightarrow> kept t"
    and adv_pos: "kept t \<Longrightarrow> handed_out u \<Longrightarrow> pos t \<le> pos u \<Longrightarrow> pos (adv t u) = pos u"
    and adv_kept: "kept t \<Longrightarrow> handed_out u \<Longrightarrow> kept (adv t u)"
begin

lemma cov_refl: "kept t \<Longrightarrow> cov t t"
  by (simp add: cov_pos)

lemma cov_trans: "kept t \<Longrightarrow> kept u \<Longrightarrow> cov t u \<Longrightarrow> cov u v \<Longrightarrow> cov t v"
  by (simp add: cov_pos)

lemma cov_total: "kept t \<Longrightarrow> kept u \<Longrightarrow> cov t u \<or> cov u t"
  by (auto simp: cov_pos)

lemma adv_covers: "kept t \<Longrightarrow> handed_out u \<Longrightarrow> pos t \<le> pos u \<Longrightarrow> cov (adv t u) u \<and> cov (adv t u) t"
  by (simp add: cov_pos adv_pos adv_kept)

text \<open>Advancing along a run of ascending tokens ends at the last one.\<close>

lemma fold_adv:
  assumes "kept t" "list_all handed_out us" "sorted (map pos us)" "us \<noteq> [] \<Longrightarrow> pos t \<le> pos (hd us)"
  shows "kept (foldl adv t us)" "pos (foldl adv t us) = (if us = [] then pos t else pos (last us))"
proof -
  have "kept (foldl adv t us) \<and> pos (foldl adv t us) = (if us = [] then pos t else pos (last us))"
    using assms
  proof (induction us arbitrary: t)
    case (Cons u us)
    have k: "kept (adv t u)" "pos (adv t u) = pos u"
      using Cons.prems by (auto simp: adv_kept adv_pos)
    moreover have "pos (adv t u) \<le> pos (hd us)" if "us \<noteq> []"
      using Cons.prems(3) that k(2) by (cases us) auto
    ultimately show ?case using Cons.IH [of "adv t u"] Cons.prems by auto
  qed simp
  then show "kept (foldl adv t us)" "pos (foldl adv t us) = (if us = [] then pos t else pos (last us))"
    by blast+
qed

end

lemma wf_mergedToken:
  "plain_token (snd a) \<Longrightarrow> plain_token (snd b) \<Longrightarrow> wf_token (mergedToken m a b)"
  by (auto simp: mergedToken_def plain_samePosition plain_wf)

lemma position_mergedToken:
  "plain_token (snd a) \<Longrightarrow> plain_token (snd b) \<Longrightarrow>
     position (mergedToken m a b) = min (position (snd a)) (position (snd b))"
  by (auto simp: mergedToken_def plain_samePosition)

lemma advance_wf: "wf_token t \<Longrightarrow> plain_token u \<Longrightarrow> wf_token (advanceTokenTo t u)"
  by (cases t) (auto simp: plain_wf plain_covers wf_mergedToken)

lemma advance_position:
  "wf_token t \<Longrightarrow> plain_token u \<Longrightarrow> position t \<le> position u \<Longrightarrow> position (advanceTokenTo t u) = position u"
  by (cases t) (auto simp: plain_covers position_mergedToken min_def split: if_splits)

interpretation tok: token_order position covers advanceTokenTo wf_token plain_token
  by unfold_locales (simp_all add: wf_covers plain_wf advance_wf advance_position)

section \<open>Replays\<close>

lemma replay_ends:
  "wf_token (ReplayToken r c) \<Longrightarrow> plain_token u \<Longrightarrow>
     isReplaying (advanceTokenTo (ReplayToken r c) u) \<longleftrightarrow> position u < position r"
  by (auto simp: isReplaying_def plain_covers not_le) (cases u; auto)+

lemma fold_advance_plain:
  "plain_token t \<Longrightarrow> list_all plain_token us \<Longrightarrow> plain_token (foldl advanceTokenTo t us)"
proof (induction us arbitrary: t)
  case (Cons u us)
  moreover have "advanceTokenTo t u = u" using Cons.prems(1) by (cases t) auto
  ultimately show ?case by simp
qed simp

lemma plain_not_replaying: "plain_token t \<Longrightarrow> \<not> isReplaying t"
  by (cases t) (auto simp: isReplaying_def)

lemma replay_run:
  assumes "wf_token (ReplayToken r c)" "list_all plain_token us" "sorted (map position us)" "us \<noteq> []"
  shows "isReplaying (foldl advanceTokenTo (ReplayToken r c) us) \<longleftrightarrow> position (last us) < position r"
  using assms
proof (induction us arbitrary: c)
  case (Cons u us)
  have last: "position u \<le> position (last (u # us))" using Cons.prems(3) by auto
  show ?case
  proof (cases "position u < position r")
    case True
    then have step: "advanceTokenTo (ReplayToken r c) u = ReplayToken r u"
      using Cons.prems(2) by (simp add: plain_covers)
    show ?thesis
    proof (cases "us = []")
      case False
      with Cons.IH [of u] Cons.prems True step show ?thesis by simp
    qed (use step True in \<open>simp add: isReplaying_def\<close>)
  next
    case False
    then have "advanceTokenTo (ReplayToken r c) u = u" using Cons.prems(2) by (simp add: plain_covers)
    with Cons.prems(2) False last show ?thesis
      using plain_not_replaying [OF fold_advance_plain [of u us]] by simp
  qed
qed simp

lemma reachedBy_plain: "wf_token t \<Longrightarrow> plain_token (reachedBy t)"
  by (cases t) auto

lemma reachedBy_position: "wf_token t \<Longrightarrow> position t \<le> position (reachedBy t)"
  by (cases t) auto

section \<open>Stored tokens\<close>

lemma tokenOf_bodyOf: "plain_token t \<Longrightarrow> tokenOf (bodyOf t) = t"
  by (cases t) (auto simp: tokenOf_def bodyOf_def)

lemma position_bodyOf: "plain_token (tokenOf b)"
  by (auto simp: tokenOf_def split: option.splits)

lemma unwrap_plain: "plain_token t \<Longrightarrow> unwrapToken t = t"
  by (cases t) auto

lemma bodyOf_Replay: "bodyOf (ReplayToken r c) = bodyOf c"
  by (simp add: bodyOf_def)

lemma deserialize_serialize:
  "wf_token t \<Longrightarrow> deserializeToken ty (Some (st_data (serializeToken t))) = Some t"
  by (cases t)
    (auto simp: deserializeToken_def tokenOf_bodyOf bodyOf_Replay mergedToken_def plain_samePosition Let_def)

lemma unwrap_not_replay: "unwrapToken t \<noteq> ReplayToken r c"
  by (induction t) auto

lemma position_unwrap: "position (unwrapToken t) = position t"
  by (induction t) auto

lemma position_tokenOf_bodyOf: "position (tokenOf (bodyOf t)) = position t"
  by (subst position_unwrap [of t, symmetric])
     (auto simp: tokenOf_def bodyOf_def split: tracking_token.splits)

lemma deserialize_wf:
  assumes "deserializeToken ty (Some (st_data (serializeToken t))) = Some t'"
  shows "position t' = position t"
  using assms
  by (cases t)
    (auto simp: deserializeToken_def mergedToken_def position_tokenOf_bodyOf plain_samePosition position_bodyOf Let_def
      split: if_splits)

section \<open>Properties\<close>

text \<open>
  C31: a token a processor keeps, written to a token store and read back, is the same token:
  replay state and the two halves of a merge survive a restart.
\<close>

theorem stored_token_roundtrip:
  assumes "wf_token t"
  shows "deserializeToken (Some (st_type (serializeToken t))) (Some (st_data (serializeToken t))) = Some t"
  using assms by (rule deserialize_serialize)

theorem stored_token_roundtrip_witness:
  "deserializeToken (Some (st_type (serializeToken (ReplayToken (GapAwareToken 9 ''k'') (GlobalSequenceToken 2)))))
     (Some (st_data (serializeToken (ReplayToken (GapAwareToken 9 ''k'') (GlobalSequenceToken 2))))) =
   Some (ReplayToken (GapAwareToken 9 ''k'') (GlobalSequenceToken 2))"
  by (rule stored_token_roundtrip) simp

text \<open>
  advancing a kept token along any ascending run of tokens a store hands out ends at the last
  of them and gives a kept token; for a replay, the run leaves the replay exactly when it reaches
  the reset point.
\<close>

theorem advance_along_run:
  assumes "wf_token t" "list_all plain_token us" "sorted (map position us)" "us \<noteq> []"
    and "position t \<le> position (hd us)"
  shows "wf_token (foldl advanceTokenTo t us) \<and>
         position (foldl advanceTokenTo t us) = position (last us) \<and>
         (\<forall>r c. t = ReplayToken r c \<longrightarrow>
            isReplaying (foldl advanceTokenTo t us) = (position (last us) < position r))"
  using tok.fold_adv [OF assms(1-3)] assms replay_run by auto

theorem advance_along_run_witness:
  "isReplaying (foldl advanceTokenTo (ReplayToken (GlobalSequenceToken 5) (GlobalSequenceToken 0))
     [GlobalSequenceToken 2, GlobalSequenceToken 4]) \<and>
   \<not> isReplaying (foldl advanceTokenTo (ReplayToken (GlobalSequenceToken 5) (GlobalSequenceToken 0))
     [GlobalSequenceToken 2, GlobalSequenceToken 5])"
  using advance_along_run [of "ReplayToken (GlobalSequenceToken 5) (GlobalSequenceToken 0)" "[GlobalSequenceToken 2, GlobalSequenceToken 4]"]
    advance_along_run [of "ReplayToken (GlobalSequenceToken 5) (GlobalSequenceToken 0)" "[GlobalSequenceToken 2, GlobalSequenceToken 5]"]
  by simp

end
