(* ===== verification/Event_Store.thy ===== *)
theory Event_Store
  imports Dcb_Query Tracking_Token
begin

text \<open>
  The in-memory event store (\<open>event-sourcing/in-memory.ts\<close>) with the condition types it takes
  (\<open>consistency-marker.ts\<close>, \<open>append-condition.ts\<close>, \<open>sourcing-condition.ts\<close>, \<open>event-store.ts\<close>).

  The store is a record: the array of events with their positions, the next position, and the
  open streams. None of its methods awaits anything between its first and last statement, so
  each is one atomic step of whatever interleaving the tasks of a process run in; a method is a
  function from store to result and new store. The closures of an append transaction are the
  functions \<open>tx_commit\<close>, \<open>tx_afterCommit\<close> and \<open>tx_rollback\<close> on its record. A stream's callback is the
  consumer's code: \<open>es_woken\<close> records which callbacks were called, in order.

  The locale \<open>dcb_log\<close> is the contract a decision relies on: a read returns the matching events
  and a marker, and a conditional append is refused exactly when a later event matches.
\<close>

section \<open>Markers and conditions\<close>

record consistency_marker =
  cm_position :: int

definition ORIGIN :: consistency_marker where
  "ORIGIN = \<lparr>cm_position = -1\<rparr>"

definition INFINITY :: consistency_marker where
  "INFINITY = \<lparr>cm_position = MAX_SAFE_INTEGER\<rparr>"

definition noMarker :: consistency_marker where
  "noMarker = ORIGIN"

definition markerAt :: "int \<Rightarrow> consistency_marker" where
  "markerAt p = \<lparr>cm_position = p\<rparr>"

definition markerLowerBound :: "consistency_marker \<Rightarrow> consistency_marker \<Rightarrow> consistency_marker" where
  "markerLowerBound a b = (if cm_position a < cm_position b then a else b)"

definition markerUpperBound :: "consistency_marker \<Rightarrow> consistency_marker \<Rightarrow> consistency_marker" where
  "markerUpperBound a b = (if cm_position a > cm_position b then a else b)"

record append_read =
  ar_query :: event_query
  ar_marker :: consistency_marker

record append_condition =
  ac_query :: event_query
  ac_marker :: consistency_marker
  ac_reads :: "append_read list option"

definition appendCondition :: "event_query \<Rightarrow> consistency_marker \<Rightarrow> append_condition" where
  "appendCondition q m = \<lparr>ac_query = q, ac_marker = m, ac_reads = None\<rparr>"

record sourcing_condition =
  sc_query :: event_query
  sc_start :: "int option"
  sc_snapshot :: "string option"

definition sourcingCondition :: "event_query \<Rightarrow> int option \<Rightarrow> string option \<Rightarrow> sourcing_condition" where
  "sourcingCondition q start key = \<lparr>sc_query = q, sc_start = start, sc_snapshot = key\<rparr>"

definition withoutSnapshotKey :: "sourcing_condition \<Rightarrow> sourcing_condition" where
  "withoutSnapshotKey c = \<lparr>sc_query = sc_query c, sc_start = sc_start c, sc_snapshot = None\<rparr>"

record snapshot =
  snap_state :: js
  snap_position :: int

record sourcing_result =
  sr_events :: "event_message list"
  sr_marker :: consistency_marker
  sr_snapshot :: "snapshot option"

record streaming_condition =
  str_position :: int
  str_query :: "event_query option"

record sequenced_event =
  sq_sequence :: int
  sq_event :: event_message
  sq_token :: "tracking_token option"

section \<open>The store\<close>

datatype store_error =
    AppendConditionError nat int \<comment> \<open>number of conflicting events, marker position\<close>
  | QueryRefused query_error

record store_entry =
  se_position :: int
  se_event :: event_message

record mem_stream =
  ms_cursor :: int
  ms_criteria :: "event_criteria option"
  ms_callback :: bool
  ms_closed :: bool

record event_store =
  es_events :: "store_entry list"
  es_nextPosition :: int
  es_streams :: "(nat, mem_stream) jsmap"
  es_listeners :: "nat list"
  es_woken :: "nat list"

definition inMemoryEventStore :: event_store where
  "inMemoryEventStore =
     \<lparr>es_events = [], es_nextPosition = 0, es_streams = [], es_listeners = [], es_woken = []\<rparr>"

definition compile_check :: "append_read \<Rightarrow> store_error + (event_criteria \<times> int)" where
  "compile_check r =
     (case compileQuery (ar_query r) of
        Inl e \<Rightarrow> Inl (QueryRefused e)
      | Inr c \<Rightarrow> Inr (c, cm_position (ar_marker r)))"

definition condition_reads :: "append_condition \<Rightarrow> append_read list" where
  "condition_reads c =
     (case ac_reads c of Some rs \<Rightarrow> rs | None \<Rightarrow> [\<lparr>ar_query = ac_query c, ar_marker = ac_marker c\<rparr>])"

definition refuseConflicts :: "event_store \<Rightarrow> append_condition \<Rightarrow> store_error + unit" where
  "refuseConflicts s c =
     bind_result (map_result compile_check (condition_reads c)) (\<lambda>checks.
       let conflicting = filter (\<lambda>entry.
             list_ex (\<lambda>(criteria, after). se_position entry > after \<and> matchesCriteria (se_event entry) criteria)
               checks) (es_events s)
       in if conflicting \<noteq> []
          then Inl (AppendConditionError (length conflicting) (cm_position (ac_marker c)))
          else Inr ())"

text \<open>Calling a listener runs the stream's callback unless the stream is closed or has none.\<close>

definition notifyListeners :: "event_store \<Rightarrow> event_store" where
  "notifyListeners s =
     s\<lparr>es_woken := es_woken s @ filter (\<lambda>i.
         case map_get (es_streams s) i of
           Some st \<Rightarrow> \<not> ms_closed st \<and> ms_callback st
         | None \<Rightarrow> False) (es_listeners s)\<rparr>"

definition source :: "event_store \<Rightarrow> sourcing_condition \<Rightarrow> store_error + sourcing_result" where
  "source s c =
     (let start = (case sc_start c of Some p \<Rightarrow> p | None \<Rightarrow> 0)
      in case compileQuery (sc_query c) of
           Inl e \<Rightarrow> Inl (QueryRefused e)
         | Inr criteria \<Rightarrow>
             let matching = filter (\<lambda>entry. matchesCriteria (se_event entry) criteria)
                              (filter (\<lambda>entry. se_position entry \<ge> start) (es_events s));
                 globalMarker = (if es_events s \<noteq> [] then se_position (last (es_events s)) else -1)
             in Inr \<lparr>sr_events = map se_event matching, sr_marker = markerAt globalMarker, sr_snapshot = None\<rparr>)"

fun push_events :: "event_store \<Rightarrow> event_message list \<Rightarrow> event_store" where
  "push_events s [] = s"
| "push_events s (e # es) =
     push_events (s\<lparr>es_events := es_events s @ [\<lparr>se_position = es_nextPosition s, se_event = e\<rparr>],
                    es_nextPosition := es_nextPosition s + 1\<rparr>) es"

definition check_condition :: "event_store \<Rightarrow> append_condition option \<Rightarrow> store_error + unit" where
  "check_condition s c = (case c of None \<Rightarrow> Inr () | Some c \<Rightarrow> refuseConflicts s c)"

definition append ::
  "event_store \<Rightarrow> event_message list \<Rightarrow> append_condition option \<Rightarrow> store_error + (consistency_marker \<times> event_store)" where
  "append s es c =
     bind_result (check_condition s c) (\<lambda>_.
       let s' = notifyListeners (push_events s es)
       in Inr (markerAt (es_nextPosition s' - 1), s'))"

record append_tx =
  tx_start :: int
  tx_end :: int
  tx_committed :: bool

definition appendEvents ::
  "event_store \<Rightarrow> event_message list \<Rightarrow> append_condition option \<Rightarrow> store_error + (append_tx \<times> event_store)" where
  "appendEvents s es c =
     bind_result (check_condition s c) (\<lambda>_.
       let s' = push_events s es
       in Inr (\<lparr>tx_start = es_nextPosition s, tx_end = es_nextPosition s' - 1, tx_committed = False\<rparr>, s'))"

definition tx_commit :: "append_tx \<Rightarrow> event_store \<Rightarrow> append_tx \<times> event_store" where
  "tx_commit tx s = (tx\<lparr>tx_committed := True\<rparr>, notifyListeners s)"

definition tx_afterCommit :: "append_tx \<Rightarrow> consistency_marker" where
  "tx_afterCommit tx = markerAt (tx_end tx)"

definition tx_rollback :: "append_tx \<Rightarrow> event_store \<Rightarrow> event_store" where
  "tx_rollback tx s =
     (if \<not> tx_committed tx
      then s\<lparr>es_events := pop_while (\<lambda>entry. se_position entry \<ge> tx_start tx) (es_events s),
             es_nextPosition := tx_start tx\<rparr>
      else s)"

section \<open>Streams\<close>

definition open_stream :: "event_store \<Rightarrow> streaming_condition \<Rightarrow> store_error + (nat \<times> event_store)" where
  "open_stream s c =
     bind_result
       (case str_query c of
          None \<Rightarrow> Inr None
        | Some q \<Rightarrow> (case compileQuery q of Inl e \<Rightarrow> Inl (QueryRefused e) | Inr cr \<Rightarrow> Inr (Some cr)))
       (\<lambda>criteria.
          let i = length (es_streams s);
              st = \<lparr>ms_cursor = str_position c, ms_criteria = criteria, ms_callback = False, ms_closed = False\<rparr>
          in Inr (i, s\<lparr>es_streams := map_set i st (es_streams s), es_listeners := es_listeners s @ [i]\<rparr>))"

definition stream_accepts :: "mem_stream \<Rightarrow> store_entry \<Rightarrow> bool" where
  "stream_accepts st entry \<longleftrightarrow>
     \<not> se_position entry < ms_cursor st \<and>
     (case ms_criteria st of None \<Rightarrow> True | Some cr \<Rightarrow> matchesCriteria (se_event entry) cr)"

definition findNext :: "event_store \<Rightarrow> mem_stream \<Rightarrow> sequenced_event option" where
  "findNext s st =
     (if ms_closed st then None
      else map_option (\<lambda>entry. \<lparr>sq_sequence = se_position entry, sq_event = se_event entry, sq_token = None\<rparr>)
             (find (stream_accepts st) (es_events s)))"

definition update_stream :: "nat \<Rightarrow> (mem_stream \<Rightarrow> mem_stream) \<Rightarrow> event_store \<Rightarrow> event_store" where
  "update_stream i f s =
     (case map_get (es_streams s) i of
        None \<Rightarrow> s
      | Some st \<Rightarrow> s\<lparr>es_streams := map_set i (f st) (es_streams s)\<rparr>)"

definition stream_peek :: "nat \<Rightarrow> event_store \<Rightarrow> sequenced_event option" where
  "stream_peek i s = Option.bind (map_get (es_streams s) i) (findNext s)"

definition stream_next :: "nat \<Rightarrow> event_store \<Rightarrow> sequenced_event option \<times> event_store" where
  "stream_next i s =
     (case stream_peek i s of
        None \<Rightarrow> (None, s)
      | Some item \<Rightarrow> (Some item, update_stream i (\<lambda>st. st\<lparr>ms_cursor := sq_sequence item + 1\<rparr>) s))"

definition stream_hasNextAvailable :: "nat \<Rightarrow> event_store \<Rightarrow> bool" where
  "stream_hasNextAvailable i s \<longleftrightarrow> stream_peek i s \<noteq> None"

definition stream_setCallback :: "nat \<Rightarrow> event_store \<Rightarrow> event_store" where
  "stream_setCallback i s = update_stream i (\<lambda>st. st\<lparr>ms_callback := True\<rparr>) s"

definition stream_isCompleted :: "nat \<Rightarrow> event_store \<Rightarrow> bool" where
  "stream_isCompleted i s \<longleftrightarrow> (case map_get (es_streams s) i of None \<Rightarrow> False | Some st \<Rightarrow> ms_closed st)"

definition stream_close :: "nat \<Rightarrow> event_store \<Rightarrow> event_store" where
  "stream_close i s =
     (update_stream i (\<lambda>st. st\<lparr>ms_closed := True, ms_callback := False\<rparr>) s)
       \<lparr>es_listeners := removeAll i (es_listeners s)\<rparr>"

definition stream_progressToken :: "nat \<Rightarrow> event_store \<Rightarrow> tracking_token option" where
  "stream_progressToken i s =
     (case map_get (es_streams s) i of
        None \<Rightarrow> None
      | Some st \<Rightarrow>
          if ms_criteria st \<noteq> None \<and> findNext s st = None \<and> \<not> ms_closed st
          then Some (GlobalSequenceToken (es_nextPosition s)) else None)"

definition getHeadPosition :: "event_store \<Rightarrow> int" where
  "getHeadPosition s = es_nextPosition s"

definition firstToken :: "event_store \<Rightarrow> tracking_token" where
  "firstToken s = FIRST_TOKEN"

definition latestToken :: "event_store \<Rightarrow> tracking_token" where
  "latestToken s = GlobalSequenceToken (es_nextPosition s)"

section \<open>The log invariant\<close>

text \<open>Positions ascend strictly and stay below the next one to be given out.\<close>

definition wf_store :: "event_store \<Rightarrow> bool" where
  "wf_store s \<longleftrightarrow>
     sorted_wrt (<) (map se_position (es_events s)) \<and>
     (\<forall>entry \<in> set (es_events s). 0 \<le> se_position entry \<and> se_position entry < es_nextPosition s) \<and>
     0 \<le> es_nextPosition s"

fun number_from :: "int \<Rightarrow> event_message list \<Rightarrow> store_entry list" where
  "number_from p [] = []"
| "number_from p (e # es) = \<lparr>se_position = p, se_event = e\<rparr> # number_from (p + 1) es"

lemma map_event_number_from [simp]: "map se_event (number_from p es) = es"
  by (induction es arbitrary: p) auto

lemma length_number_from [simp]: "length (number_from p es) = length es"
  by (induction es arbitrary: p) auto

lemma set_number_from: "entry \<in> set (number_from p es) \<Longrightarrow> p \<le> se_position entry \<and> se_position entry < p + int (length es)"
  by (induction es arbitrary: p) fastforce+

lemma sorted_number_from: "sorted_wrt (<) (map se_position (number_from p es))"
  by (induction es arbitrary: p) (use set_number_from in fastforce)+

lemma push_events_fields [log_simps]:
  "es_events (push_events s es) = es_events s @ number_from (es_nextPosition s) es"
  "es_nextPosition (push_events s es) = es_nextPosition s + int (length es)"
  "es_streams (push_events s es) = es_streams s"
  "es_listeners (push_events s es) = es_listeners s"
  "es_woken (push_events s es) = es_woken s"
  by (induction es arbitrary: s) auto

lemma notify_fields [log_simps]:
  "es_events (notifyListeners s) = es_events s"
  "es_nextPosition (notifyListeners s) = es_nextPosition s"
  "es_streams (notifyListeners s) = es_streams s"
  "es_listeners (notifyListeners s) = es_listeners s"
  by (simp_all add: notifyListeners_def)

lemma wf_store_init: "wf_store inMemoryEventStore"
  by (simp add: wf_store_def inMemoryEventStore_def)

lemma wf_store_log: "es_events s' = es_events s \<Longrightarrow> es_nextPosition s' = es_nextPosition s \<Longrightarrow> wf_store s' = wf_store s"
  by (simp add: wf_store_def)

lemma wf_push: "wf_store s \<Longrightarrow> wf_store (push_events s es)"
  using sorted_number_from [of "es_nextPosition s" es]
  by (fastforce simp: wf_store_def log_simps sorted_wrt_append dest!: set_number_from)

lemma wf_append: "wf_store s \<Longrightarrow> append s es c = Inr (m, s') \<Longrightarrow> wf_store s'"
  by (auto simp: append_def throw_simps Let_def log_simps wf_push wf_store_log [OF notify_fields(1,2)])

lemma wf_appendEvents: "wf_store s \<Longrightarrow> appendEvents s es c = Inr (tx, s') \<Longrightarrow> wf_store s'"
  by (auto simp: appendEvents_def throw_simps Let_def wf_push)

lemma wf_commit: "wf_store s \<Longrightarrow> wf_store (snd (tx_commit tx s))"
  by (simp add: tx_commit_def wf_store_log [OF notify_fields(1,2)])

lemma pop_while_sorted:
  assumes "sorted_wrt (<) (map se_position xs)"
  shows "pop_while (\<lambda>e. se_position e \<ge> p) xs = filter (\<lambda>e. se_position e < p) xs"
  using assms
proof (induction xs rule: rev_induct)
  case (snoc x xs)
  then have IH: "pop_while (\<lambda>e. se_position e \<ge> p) xs = filter (\<lambda>e. se_position e < p) xs"
    and lt: "\<forall>y \<in> set xs. se_position y < se_position x"
    by (auto simp: sorted_wrt_append)
  show ?case
  proof (cases "se_position x \<ge> p")
    case False
    with lt have "filter (\<lambda>e. se_position e < p) xs = xs" by (auto intro!: filter_True)
    with False show ?thesis by simp
  qed (use IH in simp)
qed simp

lemma wf_rollback: "wf_store s \<Longrightarrow> 0 \<le> tx_start tx \<Longrightarrow> wf_store (tx_rollback tx s)"
  by (auto simp: tx_rollback_def wf_store_def pop_while_sorted sorted_wrt_map intro: sorted_wrt_filter)

section \<open>The contract of a log\<close>

text \<open>
  \<open>entries\<close> abstracts a store to its log. A read of a well-formed query returns the matching
  events of the whole log and the head it reached; a conditional write is refused exactly when
  some read it is conditioned on has a match beyond that read's marker, and otherwise extends
  the log past its head.
\<close>

abbreviation valid_query :: "event_query \<Rightarrow> bool" where
  "valid_query q \<equiv> \<exists>c. compileQuery q = Inr c"

locale dcb_log =
  fixes entries :: "'s \<Rightarrow> (int \<times> event_message) list"
    and log_head :: "'s \<Rightarrow> int"
    and read :: "'s \<Rightarrow> event_query \<Rightarrow> (event_message list \<times> int) option"
    and cwrite :: "'s \<Rightarrow> event_message list \<Rightarrow> 'c \<Rightarrow> 's option"
    and reads_of :: "'c \<Rightarrow> (event_query \<times> int) list"
    and inv :: "'s \<Rightarrow> bool"
  assumes head_law: "inv s \<Longrightarrow> log_head s = (if entries s = [] then -1 else fst (last (entries s)))"
    and head_max: "inv s \<Longrightarrow> (p, e) \<in> set (entries s) \<Longrightarrow> p \<le> log_head s"
    and read_law: "inv s \<Longrightarrow> valid_query q \<Longrightarrow>
      read s q = Some (map snd (filter (\<lambda>(p, e). query_matches q e) (entries s)), log_head s)"
    and write_refused: "inv s \<Longrightarrow> \<forall>(q, m) \<in> set (reads_of c). valid_query q \<Longrightarrow>
      cwrite s es c = None \<longleftrightarrow>
        (\<exists>(q, m) \<in> set (reads_of c). \<exists>(p, e) \<in> set (entries s). p > m \<and> query_matches q e)"
    and write_extends: "inv s \<Longrightarrow> cwrite s es c = Some s' \<Longrightarrow>
      inv s' \<and> (\<exists>new. entries s' = entries s @ new \<and> map snd new = es \<and> (\<forall>(p, e) \<in> set new. log_head s < p))"
begin

definition extends :: "'s \<Rightarrow> 's \<Rightarrow> bool" where
  "extends s s' \<longleftrightarrow> (\<exists>new. entries s' = entries s @ new \<and> (\<forall>(p, e) \<in> set new. log_head s < p))"

lemma extends_refl: "extends s s"
  by (simp add: extends_def)

lemma extends_head: "inv s \<Longrightarrow> inv s' \<Longrightarrow> extends s s' \<Longrightarrow> log_head s \<le> log_head s'"
proof -
  assume inv: "inv s" "inv s'" and "extends s s'"
  then obtain new where new: "entries s' = entries s @ new" "\<forall>(p, e) \<in> set new. log_head s < p"
    by (auto simp: extends_def)
  show ?thesis
  proof (cases new)
    case Nil
    with new inv show ?thesis by (simp add: head_law)
  next
    case (Cons x xs)
    with new have "log_head s < fst x" "fst x \<le> log_head s'"
      using head_max [OF inv(2), of "fst x" "snd x"] by auto
    then show ?thesis by simp
  qed
qed

lemma extends_trans:
  assumes "inv s" "inv s'" "extends s s'" "extends s' s''"
  shows "extends s s''"
proof -
  from assms(3) obtain a where a: "entries s' = entries s @ a" "\<forall>(p, e) \<in> set a. log_head s < p"
    by (auto simp: extends_def)
  from assms(4) obtain b where b: "entries s'' = entries s' @ b" "\<forall>(p, e) \<in> set b. log_head s' < p"
    by (auto simp: extends_def)
  have "\<forall>(p, e) \<in> set b. log_head s < p" using b(2) extends_head [OF assms(1-3)] by fastforce
  with a b show ?thesis unfolding extends_def by (intro exI [of _ "a @ b"]) auto
qed

lemma write_is_extension: "inv s \<Longrightarrow> cwrite s es c = Some s' \<Longrightarrow> inv s' \<and> extends s s'"
  using write_extends [of s es c s'] by (auto simp: extends_def)

text \<open>A read sees something new exactly when a later event matches beyond its marker.\<close>

lemma read_changed_iff:
  assumes "inv s" "inv s'" "extends s s'" "valid_query q" "read s q = Some (es, m)"
  shows "read s' q = Some (es, log_head s') \<longleftrightarrow>
           \<not> (\<exists>(p, e) \<in> set (entries s'). p > m \<and> query_matches q e)"
proof -
  from assms(3) obtain a where a: "entries s' = entries s @ a" "\<forall>(p, e) \<in> set a. log_head s < p"
    by (auto simp: extends_def)
  let ?f = "filter (\<lambda>(p, e). query_matches q e)"
  from read_law [OF assms(1,4)] assms(5) have m: "m = log_head s" and es: "es = map snd (?f (entries s))"
    by auto
  have "read s' q = Some (es, log_head s') \<longleftrightarrow> ?f a = []"
    unfolding read_law [OF assms(2,4)] a(1) es by simp
  also have "\<dots> \<longleftrightarrow> \<not> (\<exists>(p, e) \<in> set (entries s'). p > m \<and> query_matches q e)"
    using a head_max [OF assms(1)] unfolding m filter_empty_conv by fastforce
  finally show ?thesis .
qed

text \<open>
  The optimistic-concurrency guarantee: at whatever points of the run the reads were made, the
  write goes through exactly if every one of them would still return what it returned.
\<close>

lemma write_iff_reads_current:
  assumes inv: "inv s'"
    and cond: "reads_of c = map (\<lambda>(s, q, es, m). (q, m)) recorded"
    and recorded: "\<And>s q es m. (s, q, es, m) \<in> set recorded \<Longrightarrow>
      inv s \<and> extends s s' \<and> valid_query q \<and> read s q = Some (es, m)"
  shows "cwrite s' new c \<noteq> None \<longleftrightarrow>
           (\<forall>(s, q, es, m) \<in> set recorded. read s' q = Some (es, log_head s'))"
proof -
  have "\<forall>(q, m) \<in> set (reads_of c). valid_query q" using cond recorded by auto
  then have "cwrite s' new c \<noteq> None \<longleftrightarrow>
      (\<forall>(s, q, es, m) \<in> set recorded. \<not> (\<exists>(p, e) \<in> set (entries s'). p > m \<and> query_matches q e))"
    using write_refused [OF inv, of c new] by (auto simp: cond split_beta)
  also have "\<dots> \<longleftrightarrow> (\<forall>(s, q, es, m) \<in> set recorded. read s' q = Some (es, log_head s'))"
  proof (intro ball_cong refl, clarify)
    fix s q es m assume "(s, q, es, m) \<in> set recorded"
    from recorded [OF this] show "(\<not> (\<exists>(p, e) \<in> set (entries s'). p > m \<and> query_matches q e)) =
        (read s' q = Some (es, log_head s'))"
      using read_changed_iff [OF _ inv] by blast
  qed
  finally show ?thesis .
qed

end

section \<open>The in-memory store is a log\<close>

definition store_entries :: "event_store \<Rightarrow> (int \<times> event_message) list" where
  "store_entries s = map (\<lambda>entry. (se_position entry, se_event entry)) (es_events s)"

definition store_head :: "event_store \<Rightarrow> int" where
  "store_head s = (if es_events s = [] then -1 else se_position (last (es_events s)))"

definition store_read :: "event_store \<Rightarrow> event_query \<Rightarrow> (event_message list \<times> int) option" where
  "store_read s q =
     (case source s (sourcingCondition q None None) of
        Inl _ \<Rightarrow> None
      | Inr r \<Rightarrow> Some (sr_events r, cm_position (sr_marker r)))"

definition store_write :: "event_store \<Rightarrow> event_message list \<Rightarrow> append_condition option \<Rightarrow> event_store option" where
  "store_write s es c = (case append s es c of Inl _ \<Rightarrow> None | Inr (m, s') \<Rightarrow> Some s')"

definition reads_of_condition :: "append_condition option \<Rightarrow> (event_query \<times> int) list" where
  "reads_of_condition c =
     (case c of None \<Rightarrow> []
      | Some c \<Rightarrow> map (\<lambda>r. (ar_query r, cm_position (ar_marker r))) (condition_reads c))"

lemma store_head_max: "wf_store s \<Longrightarrow> entry \<in> set (es_events s) \<Longrightarrow> se_position entry \<le> store_head s"
  by (cases "es_events s" rule: rev_cases) (auto simp: wf_store_def store_head_def sorted_wrt_append)

lemma store_head_next: "wf_store s \<Longrightarrow> store_head s < es_nextPosition s"
  by (cases "es_events s" rule: rev_cases) (auto simp: wf_store_def store_head_def)

lemma source_full:
  assumes "wf_store s" "compileQuery q = Inr c"
  shows "source s (sourcingCondition q None key) =
    Inr \<lparr>sr_events = map snd (filter (\<lambda>(p, e). query_matches q e) (store_entries s)),
         sr_marker = markerAt (store_head s), sr_snapshot = None\<rparr>"
proof -
  have "filter (\<lambda>entry. se_position entry \<ge> 0) (es_events s) = es_events s"
    using assms(1) by (auto simp: wf_store_def intro!: filter_True)
  then show ?thesis
    using assms(2)
    by (simp add: source_def sourcingCondition_def store_entries_def store_head_def compile_correct
        filter_map o_def Let_def del: filter_filter)
qed

lemma checks_conflict:
  assumes "map_result compile_check rs = Inr checks"
  shows "list_ex (\<lambda>(cr, after). p > after \<and> matchesCriteria e cr) checks \<longleftrightarrow>
           (\<exists>r \<in> set rs. p > cm_position (ar_marker r) \<and> query_matches (ar_query r) e)"
  using assms
  by (induction rs arbitrary: checks)
     (auto simp: compile_check_def compile_correct split: sum.splits)

lemma refuseConflicts_iff:
  assumes "\<forall>r \<in> set (condition_reads c). valid_query (ar_query r)"
  shows "(\<exists>e. refuseConflicts s c = Inl e) \<longleftrightarrow>
     (\<exists>r \<in> set (condition_reads c). \<exists>entry \<in> set (es_events s).
        se_position entry > cm_position (ar_marker r) \<and> query_matches (ar_query r) (se_event entry))"
proof -
  have "\<exists>checks. map_result compile_check rs = Inr checks"
    if "\<forall>r \<in> set rs. valid_query (ar_query r)" for rs
    using that by (induction rs) (auto simp: compile_check_def)
  with assms obtain checks where checks: "map_result compile_check (condition_reads c) = Inr checks" by blast
  then show ?thesis
    unfolding refuseConflicts_def checks bind_result_simps Let_def checks_conflict [OF checks]
    by (auto simp: filter_empty_conv)
qed

lemma refuseConflicts_cases: "refuseConflicts s c = Inr () \<or> (\<exists>e. refuseConflicts s c = Inl e)"
  by (cases "refuseConflicts s c") auto

lemma append_Inr_iff:
  "append s es c = Inr (m, s') \<longleftrightarrow>
     check_condition s c = Inr () \<and> s' = notifyListeners (push_events s es) \<and>
     m = markerAt (es_nextPosition s + int (length es) - 1)"
  by (auto simp: append_def throw_simps Let_def log_simps)

lemma store_write_None: "store_write s es c = None \<longleftrightarrow> (\<exists>e. check_condition s c = Inl e)"
  by (cases "check_condition s c") (auto simp: store_write_def append_def Let_def)

lemma store_write_ok: "store_write s es c \<noteq> None \<longleftrightarrow> (\<exists>m s'. append s es c = Inr (m, s'))"
  by (cases "append s es c") (auto simp: store_write_def)

interpretation mem: dcb_log store_entries store_head store_read store_write reads_of_condition wf_store
proof unfold_locales
  fix s :: event_store and q c es s' p e
  assume wf: "wf_store s"
  show "store_head s = (if store_entries s = [] then -1 else fst (last (store_entries s)))"
    by (simp add: store_head_def store_entries_def last_map)
  show "(p, e) \<in> set (store_entries s) \<Longrightarrow> p \<le> store_head s"
    using store_head_max [OF wf] by (auto simp: store_entries_def)
  show "valid_query q \<Longrightarrow>
      store_read s q = Some (map snd (filter (\<lambda>(p, e). query_matches q e) (store_entries s)), store_head s)"
    using source_full [OF wf] by (auto simp: store_read_def markerAt_def)
  show "\<forall>(q, m) \<in> set (reads_of_condition c). valid_query q \<Longrightarrow>
      (store_write s es c = None) =
        (\<exists>(q, m) \<in> set (reads_of_condition c). \<exists>(p, e) \<in> set (store_entries s). p > m \<and> query_matches q e)"
    unfolding store_write_None
    by (cases c) (auto simp: check_condition_def reads_of_condition_def store_entries_def refuseConflicts_iff)
  show "store_write s es c = Some s' \<Longrightarrow>
      wf_store s' \<and> (\<exists>new. store_entries s' = store_entries s @ new \<and> map snd new = es \<and>
        (\<forall>(p, e) \<in> set new. store_head s < p))"
    using wf_append [OF wf, of es c _ s'] store_head_next [OF wf]
    by (fastforce simp: store_write_def append_Inr_iff store_entries_def log_simps o_def
        dest!: set_number_from split: sum.splits)
qed

section \<open>Interleavings\<close>

text \<open>
  What the tasks of a process can do to the log between two points, one atomic method at a time,
  except for rolling back a staging. That is the one step that shrinks the log and hands positions
  out again, so \<open>grows\<close> leaves it out and \<open>reachable_store\<close> adds it.
\<close>

inductive grow_step :: "event_store \<Rightarrow> event_store \<Rightarrow> bool" where
  step_append: "append s es c = Inr (m, s') \<Longrightarrow> grow_step s s'"
| step_stage: "appendEvents s es c = Inr (tx, s') \<Longrightarrow> grow_step s s'"
| step_commit: "tx_commit tx s = (tx', s') \<Longrightarrow> grow_step s s'"
| step_open: "open_stream s c = Inr (i, s') \<Longrightarrow> grow_step s s'"
| step_next: "stream_next i s = (r, s') \<Longrightarrow> grow_step s s'"
| step_callback: "s' = stream_setCallback i s \<Longrightarrow> grow_step s s'"
| step_close: "s' = stream_close i s \<Longrightarrow> grow_step s s'"

inductive grows :: "event_store \<Rightarrow> event_store \<Rightarrow> bool" where
  grows_refl: "grows s s"
| grows_step: "grows s s' \<Longrightarrow> grow_step s' s'' \<Longrightarrow> grows s s''"

inductive reachable_store :: "event_store \<Rightarrow> bool" where
  reach_init: "reachable_store inMemoryEventStore"
| reach_grow: "reachable_store s \<Longrightarrow> grow_step s s' \<Longrightarrow> reachable_store s'"
| reach_rollback: "reachable_store s \<Longrightarrow> 0 \<le> tx_start tx \<Longrightarrow> reachable_store (tx_rollback tx s)"

inductive_cases grow_stepE: "grow_step s s'"

lemma same_log_extends: "es_events s' = es_events s \<Longrightarrow> mem.extends s s'"
  by (simp add: mem.extends_def store_entries_def)

lemma update_stream_log [simp]:
  "es_events (update_stream i f s) = es_events s"
  "es_nextPosition (update_stream i f s) = es_nextPosition s"
  by (simp_all add: update_stream_def split: option.splits)

lemma stream_ops_log:
  "open_stream s c = Inr (i, s') \<Longrightarrow> es_events s' = es_events s \<and> es_nextPosition s' = es_nextPosition s"
  "stream_next i s = (r, s') \<Longrightarrow> es_events s' = es_events s \<and> es_nextPosition s' = es_nextPosition s"
  "es_events (stream_setCallback i s) = es_events s" "es_nextPosition (stream_setCallback i s) = es_nextPosition s"
  "es_events (stream_close i s) = es_events s" "es_nextPosition (stream_close i s) = es_nextPosition s"
  by (auto simp: open_stream_def stream_next_def stream_setCallback_def stream_close_def throw_simps Let_def
      split: option.splits)

lemma push_extends: "wf_store s \<Longrightarrow> mem.extends s (push_events s es)"
  using store_head_next [of s]
  by (fastforce simp: mem.extends_def store_entries_def log_simps dest!: set_number_from)

lemma append_fields:
  assumes "append s es c = Inr (m, s')"
  shows "es_events s' = es_events s @ number_from (es_nextPosition s) es"
    and "es_nextPosition s' = es_nextPosition s + int (length es)"
    and "m = markerAt (es_nextPosition s' - 1)"
  using assms by (auto simp: append_Inr_iff log_simps)

lemma grow_step_inv:
  assumes "grow_step s s'" "wf_store s"
  shows "wf_store s' \<and> mem.extends s s'"
  using assms
proof (cases rule: grow_step.cases)
  case (step_append es c m)
  then have "store_write s es c = Some s'" by (simp add: store_write_def)
  then show ?thesis by (rule mem.write_is_extension [OF assms(2)])
next
  case (step_stage es c tx)
  then have "s' = push_events s es" by (auto simp: appendEvents_def throw_simps Let_def)
  then show ?thesis using assms(2) by (simp add: wf_push push_extends)
next
  case (step_commit tx tx')
  then have "es_events s' = es_events s \<and> es_nextPosition s' = es_nextPosition s"
    by (auto simp: tx_commit_def log_simps)
  then show ?thesis using assms(2) wf_store_log [of s' s] same_log_extends by blast
next
  case (step_open c i)
  then show ?thesis using assms(2) stream_ops_log(1) wf_store_log [of s' s] same_log_extends by blast
next
  case (step_next i r)
  then show ?thesis using assms(2) stream_ops_log(2) wf_store_log [of s' s] same_log_extends by blast
next
  case (step_callback i)
  then show ?thesis
    using assms(2) stream_ops_log(3,4) wf_store_log [of s' s] same_log_extends by simp
next
  case (step_close i)
  then show ?thesis
    using assms(2) stream_ops_log(5,6) wf_store_log [of s' s] same_log_extends by simp
qed

lemma grows_inv: "grows s s' \<Longrightarrow> wf_store s \<Longrightarrow> wf_store s' \<and> mem.extends s s'"
proof (induction rule: grows.induct)
  case (grows_refl s)
  then show ?case by (simp add: mem.extends_refl)
next
  case (grows_step s s' s'')
  then have "wf_store s'" "mem.extends s s'" by auto
  with grow_step_inv [OF grows_step.hyps(2)] mem.extends_trans grows_step.prems show ?case by blast
qed

lemma reachable_wf: "reachable_store s \<Longrightarrow> wf_store s"
  by (induction rule: reachable_store.induct) (blast intro: wf_store_init wf_rollback dest: grow_step_inv)+

section \<open>Staging and rolling back\<close>

lemma number_from_append: "number_from p (xs @ ys) = number_from p xs @ number_from (p + int (length xs)) ys"
  by (induction xs arbitrary: p) (simp_all add: algebra_simps)

text \<open>A step that does not roll back adds events at the next positions and does nothing else to the log.\<close>

lemma grow_step_log:
  assumes "grow_step s s'"
  shows "\<exists>es. es_events s' = es_events s @ number_from (es_nextPosition s) es \<and> es_nextPosition s' = es_nextPosition s + int (length es)"
  using assms
proof (cases rule: grow_step.cases)
  case (step_append es c m)
  then show ?thesis using append_fields [of s es c m s'] by blast
next
  case (step_stage es c tx)
  then have "s' = push_events s es" by (auto simp: appendEvents_def throw_simps Let_def)
  then show ?thesis by (auto simp: log_simps)
next
  case (step_commit tx tx')
  then show ?thesis by (intro exI [of _ "[]"]) (auto simp: tx_commit_def log_simps)
qed (intro exI [of _ "[]"], use stream_ops_log in auto)+

lemma grows_log:
  assumes "grows s s'"
  shows "\<exists>es. es_events s' = es_events s @ number_from (es_nextPosition s) es \<and> es_nextPosition s' = es_nextPosition s + int (length es)"
  using assms
proof (induction rule: grows.induct)
  case (grows_refl s)
  show ?case by (intro exI [of _ "[]"]) simp
next
  case (grows_step s s' s'')
  from grows_step.IH obtain a where a: "es_events s' = es_events s @ number_from (es_nextPosition s) a"
    "es_nextPosition s' = es_nextPosition s + int (length a)" by blast
  from grow_step_log [OF grows_step.hyps(2)] obtain b where "es_events s'' = es_events s' @ number_from (es_nextPosition s') b"
    "es_nextPosition s'' = es_nextPosition s' + int (length b)" by blast
  with a show ?case by (intro exI [of _ "a @ b"]) (simp add: number_from_append)
qed

lemma grows_trans: "grows s' s'' \<Longrightarrow> grows s s' \<Longrightarrow> grows s s''"
  by (induction rule: grows.induct) (auto intro: grows.intros)

text \<open>Rolling back a staging pops everything written since, whoever wrote it.\<close>

lemma rollback_pops_all:
  assumes "wf_store s" "appendEvents s es c = Inr (tx, s1)" "grows s1 s2"
  shows "es_events (tx_rollback tx s2) = es_events s" "es_nextPosition (tx_rollback tx s2) = es_nextPosition s"
proof -
  have tx: "tx_start tx = es_nextPosition s" "\<not> tx_committed tx"
    using assms(2) by (auto simp: appendEvents_def throw_simps Let_def)
  have "grows s s2" by (rule grows_trans [OF assms(3)]) (rule grows_step [OF grows_refl step_stage [OF assms(2)]])
  from grows_log [OF this] obtain a where a: "es_events s2 = es_events s @ number_from (es_nextPosition s) a" by blast
  have "pop_while (\<lambda>entry. se_position entry \<ge> es_nextPosition s) (es_events s @ number_from (es_nextPosition s) a) = es_events s"
    using assms(1) by (subst pop_while_append_all) (auto dest: set_number_from intro!: pop_while_id simp: wf_store_def)
  then show "es_events (tx_rollback tx s2) = es_events s" "es_nextPosition (tx_rollback tx s2) = es_nextPosition s"
    using tx a by (simp_all add: tx_rollback_def)
qed

lemma stage_rollback:
  assumes "wf_store s" "appendEvents s es c = Inr (tx, s')"
  shows "tx_rollback tx s' = s"
proof -
  from assms(2) have s': "s' = push_events s es" and tx: "tx_start tx = es_nextPosition s" "\<not> tx_committed tx"
    by (auto simp: appendEvents_def throw_simps Let_def)
  have "pop_while (\<lambda>entry. se_position entry \<ge> es_nextPosition s) (es_events s @ number_from (es_nextPosition s) es) =
        es_events s"
    using assms(1)
    by (subst pop_while_append_all) (auto dest: set_number_from intro!: pop_while_id simp: wf_store_def)
  then show ?thesis
    unfolding tx_rollback_def s' using tx by (simp add: log_simps)
qed

section \<open>Reading a stream\<close>

fun drain :: "nat \<Rightarrow> nat \<Rightarrow> event_store \<Rightarrow> sequenced_event list \<times> event_store" where
  "drain 0 i s = ([], s)"
| "drain (Suc n) i s =
     (case stream_next i s of
        (None, s') \<Rightarrow> ([], s')
      | (Some e, s') \<Rightarrow> (let (es, s'') = drain n i s' in (e # es, s'')))"

definition sequenced :: "store_entry \<Rightarrow> sequenced_event" where
  "sequenced entry = \<lparr>sq_sequence = se_position entry, sq_event = se_event entry, sq_token = None\<rparr>"

lemma find_filter: "find p xs = (case filter p xs of [] \<Rightarrow> None | x # _ \<Rightarrow> Some x)"
  by (induction xs) auto

lemma accepts_after:
  assumes "sorted_wrt (<) (map se_position xs)" "filter (stream_accepts st) xs = y # ys"
  shows "filter (stream_accepts (st\<lparr>ms_cursor := se_position y + 1\<rparr>)) xs = ys"
  using assms
proof (induction xs)
  case (Cons x xs)
  show ?case
  proof (cases "stream_accepts st x")
    case True
    with Cons.prems have y: "y = x" "ys = filter (stream_accepts st) xs" by auto
    have "filter (stream_accepts (st\<lparr>ms_cursor := se_position x + 1\<rparr>)) xs = filter (stream_accepts st) xs"
      using Cons.prems(1) True by (intro filter_cong) (auto simp: stream_accepts_def)
    moreover have "\<not> stream_accepts (st\<lparr>ms_cursor := se_position x + 1\<rparr>) x" by (simp add: stream_accepts_def)
    ultimately show ?thesis using y by simp
  next
    case False
    with Cons.prems have "filter (stream_accepts st) xs = y # ys" by simp
    moreover from this have "y \<in> set (filter (stream_accepts st) xs)" by simp
    then have "se_position x < se_position y" using Cons.prems(1) by auto
    then have "\<not> stream_accepts (st\<lparr>ms_cursor := se_position y + 1\<rparr>) x" by (simp add: stream_accepts_def)
    ultimately show ?thesis using Cons by simp
  qed
qed simp

lemma stream_next_open:
  assumes "map_get (es_streams s) i = Some st" "\<not> ms_closed st"
  shows "stream_next i s =
    (case filter (stream_accepts st) (es_events s) of
       [] \<Rightarrow> (None, s)
     | y # ys \<Rightarrow> (Some (sequenced y), s\<lparr>es_streams := map_set i (st\<lparr>ms_cursor := se_position y + 1\<rparr>) (es_streams s)\<rparr>))"
  using assms
  by (simp add: stream_next_def stream_peek_def findNext_def update_stream_def find_filter sequenced_def
      split: list.splits)

lemma drain_stream:
  assumes "wf_store s" "map_get (es_streams s) i = Some st" "\<not> ms_closed st"
  shows "fst (drain n i s) = map sequenced (take n (filter (stream_accepts st) (es_events s)))"
  using assms
proof (induction n arbitrary: s st)
  case (Suc n)
  show ?case
  proof (cases "filter (stream_accepts st) (es_events s)")
    case Nil
    then show ?thesis by (simp add: stream_next_open [OF Suc.prems(2,3)])
  next
    case (Cons y ys)
    let ?st = "st\<lparr>ms_cursor := se_position y + 1\<rparr>"
    let ?s = "s\<lparr>es_streams := map_set i ?st (es_streams s)\<rparr>"
    have "filter (stream_accepts ?st) (es_events s) = ys"
      using accepts_after [OF _ Cons] Suc.prems(1) by (simp add: wf_store_def)
    moreover have "wf_store ?s" using Suc.prems(1) by (simp add: wf_store_def)
    ultimately have "fst (drain n i ?s) = map sequenced (take n ys)"
      using Suc.IH [of ?s ?st] Suc.prems(3) by simp
    then show ?thesis
      by (simp add: stream_next_open [OF Suc.prems(2,3)] Cons Let_def split_beta)
  qed
qed simp

text \<open>When a filtered stream reports its progress, nothing it would accept lies at or after its cursor.\<close>

lemma progress_exhausted:
  assumes "stream_progressToken i s = Some t" "map_get (es_streams s) i = Some st"
  shows "t = GlobalSequenceToken (es_nextPosition s)" "filter (stream_accepts st) (es_events s) = []"
  using assms
  by (auto simp: stream_progressToken_def findNext_def find_filter split: if_splits list.splits)

section \<open>Properties\<close>

text \<open>
  C3: a conditional append decides on current data. Whatever appends, stagings, commits and stream
  operations the tasks of the process make between the reads and the append, as long as no staging
  is rolled back, the append goes through exactly when every read it is conditioned on would still
  return the events it returned.
\<close>

theorem append_decides_on_current_data:
  assumes "wf_store now"
    and "\<forall>(s, q, es, m) \<in> set recorded. wf_store s \<and> grows s now \<and> valid_query q \<and> store_read s q = Some (es, m)"
    and "condition_reads c = map (\<lambda>(s, q, es, m). \<lparr>ar_query = q, ar_marker = markerAt m\<rparr>) recorded"
  shows "(\<exists>m s'. append now new (Some c) = Inr (m, s')) \<longleftrightarrow>
           (\<forall>(s, q, es, m) \<in> set recorded. store_read now q = Some (es, store_head now))"
proof -
  have "reads_of_condition (Some c) = map (\<lambda>(s, q, es, m). (q, m)) recorded"
    using assms(3) by (auto simp: reads_of_condition_def markerAt_def)
  moreover have "wf_store s \<and> mem.extends s now \<and> valid_query q \<and> store_read s q = Some (es, m)"
    if "(s, q, es, m) \<in> set recorded" for s q es m
    using assms(2) that grows_inv by blast
  ultimately have "store_write now new (Some c) \<noteq> None \<longleftrightarrow>
      (\<forall>(s, q, es, m) \<in> set recorded. store_read now q = Some (es, store_head now))"
    by (rule mem.write_iff_reads_current [OF assms(1)])
  then show ?thesis unfolding store_write_ok .
qed

definition order_query :: event_query where
  "order_query = tag_query ''order'' ''1'' [''shop.Placed'']"

definition order_event :: event_message where
  "order_event = tagged_event ''shop'' ''Placed'' ''order'' ''1''"

definition one_event_store :: event_store where
  "one_event_store = push_events inMemoryEventStore [order_event]"

lemma compile_order_query:
  "compileQuery order_query = Inr (TypeRestrictedCriteria (TagCriteria [\<lparr>tag_key = ''order'', tag_value = ''1''\<rparr>]) [''shop.Placed''])"
  by (simp add: order_query_def compile_tag_query)

lemma order_event_matches:
  "matchesCriteria order_event (TypeRestrictedCriteria (TagCriteria [\<lparr>tag_key = ''order'', tag_value = ''1''\<rparr>]) [''shop.Placed''])"
  by (simp add: order_event_def tagged_event_def matchesTags_def qn_def qualifiedNameToString_def)

lemma example_reads:
  "store_read inMemoryEventStore order_query = Some ([], -1)"
  "store_read one_event_store order_query = Some ([order_event], 0)"
  by (simp_all add: store_read_def source_def sourcingCondition_def compile_order_query inMemoryEventStore_def
      one_event_store_def order_event_matches [simplified] markerAt_def)

lemma append_notifies: "es_listeners s = [] \<Longrightarrow> notifyListeners s = s"
  by (simp add: notifyListeners_def)

lemma example_grows: "grows inMemoryEventStore one_event_store"
proof (rule grows_step [OF grows_refl], rule step_append)
  show "append inMemoryEventStore [order_event] None = Inr (markerAt 0, one_event_store)"
    by (auto simp: append_Inr_iff check_condition_def one_event_store_def append_notifies log_simps
        inMemoryEventStore_def)
qed

theorem append_decides_on_current_data_witness:
  "(\<exists>m s'. append inMemoryEventStore [order_event] (Some (appendCondition order_query ORIGIN)) = Inr (m, s')) \<and>
   \<not> (\<exists>m s'. append one_event_store [order_event] (Some (appendCondition order_query ORIGIN)) = Inr (m, s'))"
proof -
  let ?r = "[(inMemoryEventStore, order_query, [] :: event_message list, - 1 :: int)]"
  have c: "condition_reads (appendCondition order_query ORIGIN) =
      map (\<lambda>(s, q, es, m). \<lparr>ar_query = q, ar_marker = markerAt m\<rparr>) ?r"
    by (simp add: condition_reads_def appendCondition_def ORIGIN_def markerAt_def)
  have one: "wf_store one_event_store" using grows_inv [OF example_grows wf_store_init] ..
  have head: "store_head inMemoryEventStore = -1" by (simp add: store_head_def inMemoryEventStore_def)
  show ?thesis
    using append_decides_on_current_data [OF wf_store_init _ c, of "[order_event]"]
      append_decides_on_current_data [OF one _ c, of "[order_event]"]
    by (simp add: wf_store_init grows_refl example_grows example_reads compile_order_query head)
qed

text \<open>
  in every store that opening, reading, appending, staging, committing and rolling back can
  reach, positions ascend strictly and stay below the next position.
\<close>

theorem reachable_store_ordered:
  assumes "reachable_store s"
  shows "wf_store s"
  using assms by (rule reachable_wf)

lemma reachable_one: "reachable_store one_event_store"
  using example_grows reach_init
  by (induction rule: grows.induct) (blast intro: reach_grow)+

theorem reachable_store_ordered_witness:
  "wf_store one_event_store"
  by (rule reachable_store_ordered [OF reachable_one])

text \<open>
  rolling back a staged append before anything else is written leaves the store as it was
  before the staging, streams and listeners included.
\<close>

theorem rollback_undoes_stage:
  assumes "wf_store s" "appendEvents s es c = Inr (tx, s')"
  shows "tx_rollback tx s' = s"
  using assms by (rule stage_rollback)

theorem rollback_undoes_stage_witness:
  "\<exists>tx s'. appendEvents one_event_store [order_event] None = Inr (tx, s') \<and>
     length (es_events s') = 2 \<and> tx_rollback tx s' = one_event_store"
proof -
  have wf: "wf_store one_event_store" using grows_inv [OF example_grows wf_store_init] ..
  have "appendEvents one_event_store [order_event] None =
      Inr (\<lparr>tx_start = 1, tx_end = 1, tx_committed = False\<rparr>, push_events one_event_store [order_event])"
    by (simp add: appendEvents_def check_condition_def one_event_store_def inMemoryEventStore_def)
  then show ?thesis using rollback_undoes_stage [OF wf]
    by (simp add: log_simps one_event_store_def inMemoryEventStore_def)
qed

text \<open>
  reading an open stream to its end delivers every matching event from its cursor on, once
  each, in position order.
\<close>

theorem stream_delivers_every_match_in_order:
  assumes "wf_store s" "map_get (es_streams s) i = Some st" "\<not> ms_closed st"
    and "length (es_events s) \<le> n"
  shows "fst (drain n i s) = map sequenced (filter (stream_accepts st) (es_events s))"
proof -
  have "length (filter (stream_accepts st) (es_events s)) \<le> n"
    using assms(4) length_filter_le [of "stream_accepts st" "es_events s"] by (rule order_trans [rotated])
  then show ?thesis using drain_stream [OF assms(1-3), of n] by simp
qed

definition streaming_store :: event_store where
  "streaming_store =
     one_event_store\<lparr>es_streams := [(0, \<lparr>ms_cursor = 0, ms_criteria = Some (TagCriteria []), ms_callback = False, ms_closed = False\<rparr>),
                                    (1, \<lparr>ms_cursor = 1, ms_criteria = Some AnyTagCriteria, ms_callback = False, ms_closed = False\<rparr>)]\<rparr>"

theorem stream_delivers_every_match_in_order_witness:
  "fst (drain 1 0 streaming_store) = [sequenced \<lparr>se_position = 0, se_event = order_event\<rparr>]"
  using stream_delivers_every_match_in_order [of streaming_store 0
      "\<lparr>ms_cursor = 0, ms_criteria = Some (TagCriteria []), ms_callback = False, ms_closed = False\<rparr>" 1]
  by (simp add: streaming_store_def one_event_store_def inMemoryEventStore_def wf_store_def stream_accepts_def
      matchesTags_def)

text \<open>
  A filtered stream reports progress only when no event at or past its cursor matches, and
  then reports the position the next event will get.
\<close>

theorem progress_skips_nothing:
  assumes "stream_progressToken i s = Some t" "map_get (es_streams s) i = Some st"
  shows "position t = getHeadPosition s \<and> \<not> (\<exists>entry \<in> set (es_events s). stream_accepts st entry)"
  using progress_exhausted [OF assms] by (simp add: getHeadPosition_def filter_empty_conv)

theorem progress_skips_nothing_witness:
  "\<exists>t. stream_progressToken 1 streaming_store = Some t \<and> position t = 1"
proof -
  have st: "map_get (es_streams streaming_store) 1 =
      Some \<lparr>ms_cursor = 1, ms_criteria = Some AnyTagCriteria, ms_callback = False, ms_closed = False\<rparr>"
    and pt: "stream_progressToken 1 streaming_store = Some (GlobalSequenceToken 1)"
    by (simp_all add: streaming_store_def one_event_store_def inMemoryEventStore_def stream_progressToken_def
        findNext_def stream_accepts_def)
  from progress_skips_nothing [OF pt st] pt show ?thesis
    by (simp add: getHeadPosition_def streaming_store_def one_event_store_def inMemoryEventStore_def)
qed

text \<open>
  C35: what rolling back a staging does when another writer has appended in between. Whatever was
  staged, whatever else happened to the store before and after that append, other rollbacks apart:
  the rollback takes the log back to what it was before the staging. The events of the other
  writer, which were in the log, are gone from it, and their positions are handed out again.
\<close>

theorem rollback_discards_later_commit:
  assumes "wf_store s" "appendEvents s staged c = Inr (tx, s1)"
    and "grows s1 s2" "append s2 es c' = Inr (m, s3)" "grows s3 s4"
  shows "es_events (tx_rollback tx s4) = es_events s \<and> getHeadPosition (tx_rollback tx s4) = getHeadPosition s \<and>
    (\<exists>written. map se_event written = es \<and> set written \<subseteq> set (es_events s4) \<and>
       set written \<inter> set (es_events (tx_rollback tx s4)) = {})"
proof -
  have g3: "grows s1 s3" by (rule grows_step [OF assms(3) step_append [OF assms(4)]])
  note popped = rollback_pops_all [OF assms(1,2) grows_trans [OF assms(5) g3]]
  have g2: "grows s s2" by (rule grows_trans [OF assms(3)]) (rule grows_step [OF grows_refl step_stage [OF assms(2)]])
  from grows_log [OF g2] have "es_nextPosition s \<le> es_nextPosition s2" by auto
  then have fresh: "set (number_from (es_nextPosition s2) es) \<inter> set (es_events s) = {}"
    using assms(1) by (fastforce simp: wf_store_def dest: set_number_from)
  have "set (number_from (es_nextPosition s2) es) \<subseteq> set (es_events s4)"
    using append_fields(1) [OF assms(4)] grows_log [OF assms(5)] by auto
  with fresh popped show ?thesis
    by (intro conjI exI [of _ "number_from (es_nextPosition s2) es"]) (simp_all add: getHeadPosition_def)
qed

theorem rollback_discards_later_commit_witness:
  "\<exists>tx s1 m s2. appendEvents inMemoryEventStore [order_event] None = Inr (tx, s1) \<and>
     append s1 [order_event] None = Inr (m, s2) \<and> length (es_events s2) = 2 \<and> es_events (tx_rollback tx s2) = []"
proof -
  obtain tx s1 where st: "appendEvents inMemoryEventStore [order_event] None = Inr (tx, s1)" "length (es_events s1) = 1"
    by (simp add: appendEvents_def check_condition_def inMemoryEventStore_def Let_def)
  obtain m s2 where ap: "append s1 [order_event] None = Inr (m, s2)" "length (es_events s2) = 2"
    using st(2) by (auto simp: append_def check_condition_def Let_def log_simps)
  from rollback_discards_later_commit [OF wf_store_init st(1) grows_refl ap(1) grows_refl] st ap show ?thesis
    by (auto simp: inMemoryEventStore_def)
qed

end
