(* ===== verification/Snapshotting.thy ===== *)
theory Snapshotting
  imports State_Query Event_Store "HOL-Library.List_Lexorder" "HOL-Library.Char_ord"
begin

text \<open>
  Cached folds: policies and identifiers (\<open>event-sourcing/snapshot.ts\<close>), the structural check
  (\<open>structural-fitness.ts\<close>) and the in-memory snapshotting wrapper
  (\<open>in-memory-snapshotting-event-store.ts\<close>).

  \<open>stringify\<close> is \<open>JSON.stringify\<close> with the replacer the source passes; \<open>None\<close> is the
  \<open>undefined\<close> it returns for \<open>undefined\<close>. Field names are taken not to look like array
  indices, which JavaScript would enumerate first. A log site is the store of an entry: a bare
  one, or one wrapped by the snapshotting wrapper, whose spread leaves every other operation the
  inner store's.
\<close>

section \<open>Policies and wrapping\<close>

definition afterEvents :: "nat \<Rightarrow> evolution_result \<Rightarrow> bool" where
  "afterEvents threshold r \<longleftrightarrow> er_eventsApplied r > threshold"

definition whenSourcingTimeExceeds :: "int \<Rightarrow> evolution_result \<Rightarrow> bool" where
  "whenSourcingTimeExceeds thresholdMs r \<longleftrightarrow> er_sourcingTimeMs r \<ge> thresholdMs"

definition snapshot_of :: "state_module \<Rightarrow> string \<Rightarrow> (evolution_result \<Rightarrow> bool) \<Rightarrow> state_module" where
  "snapshot_of m key when = m\<lparr>sm_snapshot := Some \<lparr>sg_key = key, sg_when = when\<rparr>\<rparr>"

section \<open>Identifiers\<close>

definition show_int :: "int \<Rightarrow> string" where
  "show_int i = (if i < 0 then ''-'' @ show_nat (nat (- i)) else show_nat (nat i))"

definition hex_digit :: "nat \<Rightarrow> char" where
  "hex_digit n = ''0123456789abcdef'' ! n"

definition escape_char :: "char \<Rightarrow> string" where
  "escape_char c =
     (let n = of_char c :: nat in
      if c = CHR 0x22 then [CHR 0x5C, CHR 0x22]
      else if c = CHR 0x5C then [CHR 0x5C, CHR 0x5C]
      else if n = 8 then [CHR 0x5C, CHR ''b'']
      else if n = 9 then [CHR 0x5C, CHR ''t'']
      else if n = 10 then [CHR 0x5C, CHR ''n'']
      else if n = 12 then [CHR 0x5C, CHR ''f'']
      else if n = 13 then [CHR 0x5C, CHR ''r'']
      else if n < 32 then [CHR 0x5C, CHR ''u'', CHR ''0'', CHR ''0'', hex_digit (n div 16), hex_digit (n mod 16)]
      else [c])"

definition quoted :: "string \<Rightarrow> string" where
  "quoted s = [CHR 0x22] @ concat (map escape_char s) @ [CHR 0x22]"

definition object_fields :: "(string \<times> string option) list \<Rightarrow> string list" where
  "object_fields kvs =
     concat (map (\<lambda>(k, t). case t of None \<Rightarrow> [] | Some t \<Rightarrow> [quoted k @ '':'' @ t]) (sort_key fst kvs))"

fun stringify :: "js \<Rightarrow> string option" where
  "stringify JUndefined = None"
| "stringify JNull = Some ''null''"
| "stringify (JBool b) = Some (if b then ''true'' else ''false'')"
| "stringify (JNumber i) = Some (show_int i)"
| "stringify (JBigint i) = Some (quoted (show_int i @ ''n''))"
| "stringify (JString s) = Some (quoted s)"
| "stringify (JArray xs) =
     Some (''['' @ join '','' (map (\<lambda>x. case stringify x of None \<Rightarrow> ''null'' | Some t \<Rightarrow> t) xs) @ '']'')"
| "stringify (JObject kvs) =
     Some (''{'' @ join '','' (object_fields (map (\<lambda>kv. (fst kv, stringify (snd kv))) kvs)) @ ''}'')"

definition snapshotIdentifier :: "js \<Rightarrow> string" where
  "snapshotIdentifier ident =
     (case ident of
        JString s \<Rightarrow> s
      | _ \<Rightarrow> (case stringify ident of Some encoded \<Rightarrow> encoded | None \<Rightarrow> ''undefined''))"

section \<open>Structural fitness\<close>

fun typeof :: "js \<Rightarrow> string" where
  "typeof JUndefined = ''undefined''"
| "typeof JNull = ''object''"
| "typeof (JBool _) = ''boolean''"
| "typeof (JNumber _) = ''number''"
| "typeof (JBigint _) = ''bigint''"
| "typeof (JString _) = ''string''"
| "typeof (JArray _) = ''object''"
| "typeof (JObject _) = ''object''"

fun matchesInitialStructure :: "js \<Rightarrow> js \<Rightarrow> bool" where
  "matchesInitialStructure JNull candidate = True"
| "matchesInitialStructure JUndefined candidate = True"
| "matchesInitialStructure (JArray specimen) candidate =
     (case candidate of
        JArray items \<Rightarrow>
          (case specimen of
             [] \<Rightarrow> True
           | element # _ \<Rightarrow>
               element = JNull \<or> element = JUndefined \<or> list_all (matchesInitialStructure element) items)
      | _ \<Rightarrow> False)"
| "matchesInitialStructure (JObject props) candidate =
     (case candidate of
        JObject candidateProps \<Rightarrow>
          list_all (\<lambda>kv. snd kv = JUndefined \<or>
            (case map_get candidateProps (fst kv) of
               None \<Rightarrow> False
             | Some v \<Rightarrow> matchesInitialStructure (snd kv) v)) props
      | _ \<Rightarrow> False)"
| "matchesInitialStructure specimen candidate = (typeof candidate = typeof specimen)"

section \<open>The wrapper\<close>

record snapshotting_store =
  sn_next :: event_store
  sn_snapshots :: "(string, snapshot) jsmap"

definition inMemorySnapshottingEventStore :: "event_store \<Rightarrow> snapshotting_store" where
  "inMemorySnapshottingEventStore inner = \<lparr>sn_next = inner, sn_snapshots = []\<rparr>"

definition storeSnapshot :: "string \<Rightarrow> snapshot \<Rightarrow> snapshotting_store \<Rightarrow> snapshotting_store" where
  "storeSnapshot key snap s = s\<lparr>sn_snapshots := map_set key snap (sn_snapshots s)\<rparr>"

definition snapshotting_source :: "snapshotting_store \<Rightarrow> sourcing_condition \<Rightarrow> store_error + sourcing_result" where
  "snapshotting_source s condition =
     (case sc_snapshot condition of
        None \<Rightarrow> source (sn_next s) condition
      | Some key \<Rightarrow>
          let plain = withoutSnapshotKey condition
          in case map_get (sn_snapshots s) key of
               None \<Rightarrow> source (sn_next s) plain
             | Some snap \<Rightarrow>
                 let resumeFrom = snap_position snap + 1;
                     start = (case sc_start plain of
                                Some p \<Rightarrow> if p > resumeFrom then p else resumeFrom
                              | None \<Rightarrow> resumeFrom)
                 in bind_result (source (sn_next s) (plain\<lparr>sc_start := Some start\<rparr>)) (\<lambda>result.
                      Inr (result\<lparr>sr_snapshot := Some snap\<rparr>)))"

datatype log_site = BareLog event_store | SnapshottingLog snapshotting_store

fun site_log :: "log_site \<Rightarrow> event_store" where
  "site_log (BareLog s) = s"
| "site_log (SnapshottingLog s) = sn_next s"

fun site_snapshots :: "log_site \<Rightarrow> (string, snapshot) jsmap" where
  "site_snapshots (BareLog s) = []"
| "site_snapshots (SnapshottingLog s) = sn_snapshots s"

fun site_source :: "log_site \<Rightarrow> sourcing_condition \<Rightarrow> store_error + sourcing_result" where
  "site_source (BareLog s) c = source s c"
| "site_source (SnapshottingLog s) c = snapshotting_source s c"

section \<open>Fitness says what a fold can read\<close>

text \<open>What is found by following field names through nested objects.\<close>

fun at_path :: "string list \<Rightarrow> js \<Rightarrow> js option" where
  "at_path [] v = Some v"
| "at_path (k # ks) (JObject props) = Option.bind (map_get props k) (at_path ks)"
| "at_path (k # ks) v = None"

lemma fit_typeof:
  "matchesInitialStructure specimen candidate \<Longrightarrow> specimen \<noteq> JNull \<Longrightarrow> specimen \<noteq> JUndefined \<Longrightarrow>
     typeof candidate = typeof specimen"
  by (cases specimen) (auto split: js.splits)

lemma fit_path:
  assumes "matchesInitialStructure specimen candidate" "at_path p specimen = Some v"
    and "v \<noteq> JNull" "v \<noteq> JUndefined"
  shows "\<exists>w. at_path p candidate = Some w \<and> typeof w = typeof v"
  using assms(1,2)
proof (induction p arbitrary: specimen candidate)
  case Nil
  then show ?case using fit_typeof assms(3,4) by fastforce
next
  case (Cons k ks)
  then obtain props where sp: "specimen = JObject props" by (cases specimen) auto
  with Cons.prems obtain u where u: "map_get props k = Some u" "at_path ks u = Some v"
    by (auto simp: bind_eq_Some_conv)
  have "u \<noteq> JUndefined" using u(2) assms(4) by (cases ks) auto
  moreover from Cons.prems(1) sp obtain cprops where c: "candidate = JObject cprops"
    by (auto split: js.splits)
  ultimately obtain w where "map_get cprops k = Some w" "matchesInitialStructure u w"
    using Cons.prems(1) sp map_get_Some_in [OF u(1)]
    by (fastforce simp: list_all_iff split: option.splits)
  with Cons.IH [OF _ u(2)] c show ?case by auto
qed

end
