(* ===== verification/Repository.thy ===== *)
theory Repository
  imports Snapshotting
begin

text \<open>
  Loading a state by folding its events (\<open>event-sourcing/repository.ts\<close>).

  A repository is the closure of \<open>eventSourcedRepository\<close>: the state module and whether the site
  was found able to cache folds when the repository was built. A load touches the site at three
  moments between which other tasks may run: the first read, the replay read it makes when the
  cached value is unfit, and the cache write. \<open>doLoad\<close> takes the site at each of them, and the
  time the load took, as \<open>performance.now\<close> reports it. The write's failure is swallowed by the
  source, and the in-memory wrapper's write cannot fail.

  The theory shows that a snapshot never changes what a load returns, as long as the entry
  under the st's key was written by this fold, and that every load keeps it so.
\<close>

section \<open>Folding\<close>

record sourcing_info =
  si_query :: event_query
  si_markerPosition :: int

record load_result =
  lr_state :: js
  lr_sourcingInfo :: sourcing_info

datatype load_error =
    QueryDerivation state_error
  | StoreRefused store_error
  | EvolverThrew js_error
  | CannotServeSnapshots string
  | NoLogAttached string

fun apply_evolvers :: "evolver_entry list \<Rightarrow> js \<Rightarrow> event_message \<Rightarrow> js_error + js" where
  "apply_evolvers [] st event = Inr st"
| "apply_evolvers ((descriptor, evolve) # rest) st event =
     (if qualifiedNameToString (ed_name descriptor) = qualifiedNameToString (em_name event)
      then evolve st event
      else apply_evolvers rest st event)"

definition applyEvent :: "state_module \<Rightarrow> js \<Rightarrow> event_message \<Rightarrow> js_error + js" where
  "applyEvent m st event = apply_evolvers (sm_evolvers m) st event"

fun fold_events :: "state_module \<Rightarrow> js \<Rightarrow> event_message list \<Rightarrow> js_error + js" where
  "fold_events m st [] = Inr st"
| "fold_events m st (e # es) = bind_result (applyEvent m st e) (\<lambda>st'. fold_events m st' es)"

section \<open>The repository\<close>

record repository =
  rp_module :: state_module
  rp_snapshots :: bool

definition capableOrThrow :: "state_module \<Rightarrow> log_site \<Rightarrow> load_error + unit" where
  "capableOrThrow m site =
     (case site of
        BareLog _ \<Rightarrow> Inl (CannotServeSnapshots (sm_identity m))
      | SnapshottingLog _ \<Rightarrow> Inr ())"

definition eventSourcedRepository :: "state_module \<Rightarrow> log_site \<Rightarrow> load_error + repository" where
  "eventSourcedRepository m site =
     (case sm_snapshot m of
        None \<Rightarrow> Inr \<lparr>rp_module = m, rp_snapshots = False\<rparr>
      | Some _ \<Rightarrow> bind_result (capableOrThrow m site) (\<lambda>_. Inr \<lparr>rp_module = m, rp_snapshots = True\<rparr>))"

text \<open>Only called where the module has a snapshot configuration.\<close>

definition keyFor :: "state_module \<Rightarrow> js \<Rightarrow> string" where
  "keyFor m ident = (case sm_snapshot m of None \<Rightarrow> '''' | Some cfg \<Rightarrow> sg_key cfg @ '':'' @ snapshotIdentifier ident)"

definition strategyFor :: "repository \<Rightarrow> js \<Rightarrow> string option" where
  "strategyFor r ident = (if \<not> rp_snapshots r then None else Some (keyFor (rp_module r) ident))"

definition cache_write :: "repository \<Rightarrow> js \<Rightarrow> evolution_result \<Rightarrow> snapshot \<Rightarrow> log_site \<Rightarrow> log_site" where
  "cache_write r ident result snap site =
     (case (sm_snapshot (rp_module r), site) of
        (Some cfg, SnapshottingLog s) \<Rightarrow>
          if rp_snapshots r \<and> er_eventsApplied result > 0 \<and> sg_when cfg result
          then SnapshottingLog (storeSnapshot (keyFor (rp_module r) ident) snap s)
          else site
      | _ \<Rightarrow> site)"

definition doLoad ::
  "repository \<Rightarrow> js \<Rightarrow> int \<Rightarrow> log_site \<Rightarrow> log_site \<Rightarrow> log_site \<Rightarrow> load_error + (load_result \<times> log_site)" where
  "doLoad r ident elapsed at_read at_replay at_write =
     (let m = rp_module r in
      case sm_query m ident of
        Inl e \<Rightarrow> Inl (QueryDerivation e)
      | Inr query \<Rightarrow>
          (case site_source at_read (sourcingCondition query None (strategyFor r ident)) of
             Inl e \<Rightarrow> Inl (StoreRefused e)
           | Inr first \<Rightarrow>
               let zeroth = sm_initial m ident;
                   unfit = (case sr_snapshot first of
                              None \<Rightarrow> False
                            | Some snap \<Rightarrow> \<not> matchesInitialStructure zeroth (snap_state snap))
               in case (if unfit then site_source at_replay (sourcingCondition query None None) else Inr first) of
                    Inl e \<Rightarrow> Inl (StoreRefused e)
                  | Inr result \<Rightarrow>
                      let start = (case if unfit then None else sr_snapshot result of
                                     None \<Rightarrow> zeroth
                                   | Some snap \<Rightarrow> snap_state snap);
                          marker = cm_position (sr_marker result)
                      in case fold_events m start (sr_events result) of
                           Inl e \<Rightarrow> Inl (EvolverThrew e)
                         | Inr st \<Rightarrow>
                             Inr (\<lparr>lr_state = st,
                                   lr_sourcingInfo = \<lparr>si_query = query, si_markerPosition = marker\<rparr>\<rparr>,
                                  cache_write r ident
                                    \<lparr>er_eventsApplied = length (sr_events result), er_sourcingTimeMs = elapsed\<rparr>
                                    \<lparr>snap_state = st, snap_position = marker\<rparr> at_write)))"

text \<open>The per-site cache of repositories; store objects are numbered.\<close>

type_synonym repositories = "(nat, (string, repository) jsmap) jsmap"

definition repositoryFor ::
  "repositories \<Rightarrow> state_module \<Rightarrow> nat \<Rightarrow> log_site \<Rightarrow> (load_error + repository) \<times> repositories" where
  "repositoryFor repos m store site =
     (let (byState, repos') =
            (case map_get repos store of
               Some byState \<Rightarrow> (byState, repos)
             | None \<Rightarrow> ([], map_set store [] repos))
      in case map_get byState (sm_identity m) of
           Some existing \<Rightarrow> (Inr existing, repos')
         | None \<Rightarrow>
             (case eventSourcedRepository m site of
                Inl e \<Rightarrow> (Inl e, repos')
              | Inr created \<Rightarrow>
                  (Inr created, map_set store (map_set (sm_identity m) created byState) repos')))"

section \<open>A cached fold is the fold\<close>

definition matching_upto :: "event_query \<Rightarrow> int \<Rightarrow> event_store \<Rightarrow> event_message list" where
  "matching_upto q p s =
     map se_event (filter (\<lambda>entry. se_position entry \<le> p \<and> query_matches q (se_event entry)) (es_events s))"

text \<open>The fold of everything the log holds, which is what a state is.\<close>

definition full_fold :: "state_module \<Rightarrow> js \<Rightarrow> event_query \<Rightarrow> event_store \<Rightarrow> js_error + js" where
  "full_fold m ident q s = fold_events m (sm_initial m ident) (matching_upto q (store_head s) s)"

definition valid_entry :: "state_module \<Rightarrow> js \<Rightarrow> log_site \<Rightarrow> bool" where
  "valid_entry m ident site \<longleftrightarrow>
     (\<forall>q snap. sm_query m ident = Inr q \<longrightarrow> map_get (site_snapshots site) (keyFor m ident) = Some snap \<longrightarrow>
        snap_position snap \<le> store_head (site_log site) \<and>
        fold_events m (sm_initial m ident) (matching_upto q (snap_position snap) (site_log site)) =
          Inr (snap_state snap))"

lemma fold_events_append:
  "fold_events m st (es @ es') = bind_result (fold_events m st es) (\<lambda>st'. fold_events m st' es')"
proof (induction es arbitrary: st)
  case (Cons e es)
  then show ?case by (cases "applyEvent m st e") auto
qed simp

lemma head_all: "wf_store s \<Longrightarrow> filter (\<lambda>entry. se_position entry \<le> store_head s \<and> P entry) (es_events s) = filter P (es_events s)"
  using store_head_max by (auto intro!: filter_cong)

lemma filter_le_split:
  assumes "sorted_wrt (<) (map se_position xs)"
  shows "filter P xs = filter (\<lambda>e. se_position e \<le> p \<and> P e) xs @ filter (\<lambda>e. p + 1 \<le> se_position e \<and> P e) xs"
  using assms
proof (induction xs)
  case (Cons x xs)
  show ?case
  proof (cases "se_position x \<le> p")
    case False
    then have "filter (\<lambda>e. se_position e \<le> p \<and> P e) xs = []"
      using Cons.prems by (force simp: filter_empty_conv)
    with False Cons show ?thesis by simp
  qed (use Cons in simp)
qed simp

lemma source_from:
  assumes "compileQuery q = Inr c"
  shows "source s (sourcingCondition q start key) =
    Inr \<lparr>sr_events = map se_event (filter (\<lambda>entry. (case start of None \<Rightarrow> 0 | Some p \<Rightarrow> p) \<le> se_position entry \<and>
           query_matches q (se_event entry)) (es_events s)),
         sr_marker = markerAt (store_head s), sr_snapshot = None\<rparr>"
  using assms
  by (auto simp: source_def sourcingCondition_def store_head_def compile_correct Let_def conj_commute
      intro!: filter_cong split: option.splits)

lemma source_all:
  assumes "wf_store s" "compileQuery q = Inr c"
  shows "source s (sourcingCondition q None key) =
    Inr \<lparr>sr_events = matching_upto q (store_head s) s, sr_marker = markerAt (store_head s), sr_snapshot = None\<rparr>"
proof -
  have "filter (\<lambda>entry. 0 \<le> se_position entry \<and> query_matches q (se_event entry)) (es_events s) =
        filter (\<lambda>entry. query_matches q (se_event entry)) (es_events s)"
    using assms(1) by (auto simp: wf_store_def intro!: filter_cong)
  then show ?thesis
    by (simp add: source_from [OF assms(2)] matching_upto_def head_all [OF assms(1)])
qed

lemma matching_split:
  assumes "wf_store s" "p \<le> store_head s"
  shows "matching_upto q (store_head s) s =
    matching_upto q p s @ map se_event (filter (\<lambda>entry. p + 1 \<le> se_position entry \<and> query_matches q (se_event entry)) (es_events s))"
  using filter_le_split [of "es_events s" "\<lambda>entry. query_matches q (se_event entry)" p] assms(1)
  by (simp add: matching_upto_def head_all [OF assms(1)] wf_store_def flip: map_append)

lemma site_source_cases:
  assumes wf: "wf_store (site_log site)" and q: "compileQuery q = Inr c"
  obtains (full) res where "site_source site (sourcingCondition q None key) = Inr res"
      "sr_marker res = markerAt (store_head (site_log site))" "sr_snapshot res = None"
      "sr_events res = matching_upto q (store_head (site_log site)) (site_log site)"
  | (resumed) res k snap where "site_source site (sourcingCondition q None key) = Inr res"
      "sr_marker res = markerAt (store_head (site_log site))" "key = Some k"
      "map_get (site_snapshots site) k = Some snap" "sr_snapshot res = Some snap"
      "sr_events res = map se_event (filter (\<lambda>entry. snap_position snap + 1 \<le> se_position entry \<and>
         query_matches q (se_event entry)) (es_events (site_log site)))"
proof (cases site)
  case (BareLog s)
  with source_all [of s q c key] wf q show thesis
    by (intro full [of "\<lparr>sr_events = matching_upto q (store_head s) s, sr_marker = markerAt (store_head s),
          sr_snapshot = None\<rparr>"]) simp_all
next
  case (SnapshottingLog s)
  note all = source_all [OF wf q] and from_p = source_from [OF q]
  show thesis
  proof (cases "\<exists>k snap. key = Some k \<and> map_get (sn_snapshots s) k = Some snap")
    case True
    then obtain k snap where k: "key = Some k" "map_get (sn_snapshots s) k = Some snap" by blast
    have "(withoutSnapshotKey (sourcingCondition q None key))\<lparr>sc_start := Some p\<rparr> = sourcingCondition q (Some p) None" for p
      by (simp add: withoutSnapshotKey_def sourcingCondition_def)
    with k from_p [of "sn_next s"] resumed SnapshottingLog show thesis
      by (simp add: snapshotting_source_def withoutSnapshotKey_def sourcingCondition_def Let_def)
  next
    case False
    have "withoutSnapshotKey (sourcingCondition q None key) = sourcingCondition q None None"
      by (simp add: withoutSnapshotKey_def sourcingCondition_def)
    with False all SnapshottingLog show thesis
      by (cases key; intro full [of "\<lparr>sr_events = matching_upto q (store_head (sn_next s)) (sn_next s),
            sr_marker = markerAt (store_head (sn_next s)), sr_snapshot = None\<rparr>"])
        (auto simp: snapshotting_source_def Let_def sourcingCondition_def split: option.splits)
  qed
qed

lemma resumed_fold:
  assumes "wf_store s" "p \<le> store_head s"
    and "fold_events m (sm_initial m ident) (matching_upto q p s) = Inr st"
  shows "fold_events m st (map se_event (filter (\<lambda>entry. p + 1 \<le> se_position entry \<and>
           query_matches q (se_event entry)) (es_events s))) = full_fold m ident q s"
  using assms(3) by (simp add: full_fold_def matching_split [OF assms(1,2)] fold_events_append)

text \<open>What a load returns, on every branch: the full fold of the log it read last, or that fold's failure.\<close>

lemma doLoad_full:
  assumes wf: "wf_store (site_log at_read)" "wf_store (site_log at_replay)"
    and valid: "valid_entry (rp_module r) ident at_read"
    and q: "sm_query (rp_module r) ident = Inr q" "compileQuery q = Inr c"
  obtains read_log where "read_log = site_log at_read \<or> read_log = site_log at_replay"
    "\<And>e. full_fold (rp_module r) ident q read_log = Inl e \<Longrightarrow>
       doLoad r ident elapsed at_read at_replay at_write = Inl (EvolverThrew e)"
    "\<And>st. full_fold (rp_module r) ident q read_log = Inr st \<Longrightarrow> \<exists>result.
       doLoad r ident elapsed at_read at_replay at_write =
         Inr (\<lparr>lr_state = st, lr_sourcingInfo = \<lparr>si_query = q, si_markerPosition = store_head read_log\<rparr>\<rparr>,
              cache_write r ident result \<lparr>snap_state = st, snap_position = store_head read_log\<rparr> at_write)"
proof (rule site_source_cases [OF wf(1) q(2), of "strategyFor r ident"])
  fix res
  assume "site_source at_read (sourcingCondition q None (strategyFor r ident)) = Inr res"
    "sr_marker res = markerAt (store_head (site_log at_read))" "sr_snapshot res = None"
    "sr_events res = matching_upto q (store_head (site_log at_read)) (site_log at_read)"
  with q(1) that [of "site_log at_read"] show thesis
    by (auto simp: doLoad_def full_fold_def markerAt_def Let_def)
next
  fix res k snap
  assume res: "site_source at_read (sourcingCondition q None (strategyFor r ident)) = Inr res"
      "sr_marker res = markerAt (store_head (site_log at_read))"
    and k: "strategyFor r ident = Some k" "map_get (site_snapshots at_read) k = Some snap"
    and snap: "sr_snapshot res = Some snap"
    and evs: "sr_events res = map se_event (filter (\<lambda>entry. snap_position snap + 1 \<le> se_position entry \<and>
         query_matches q (se_event entry)) (es_events (site_log at_read)))"
  show thesis
  proof (cases "matchesInitialStructure (sm_initial (rp_module r) ident) (snap_state snap)")
    case True
    from k have "k = keyFor (rp_module r) ident" by (auto simp: strategyFor_def split: if_splits)
    with valid q(1) k(2) have "fold_events (rp_module r) (snap_state snap) (sr_events res) =
        full_fold (rp_module r) ident q (site_log at_read)"
      unfolding evs by (intro resumed_fold [OF wf(1)]) (auto simp: valid_entry_def)
    with True res snap q(1) that [of "site_log at_read"] show thesis
      by (auto simp: doLoad_def markerAt_def Let_def)
  next
    case False
    have "site_source at_replay (sourcingCondition q None None) =
        Inr \<lparr>sr_events = matching_upto q (store_head (site_log at_replay)) (site_log at_replay),
             sr_marker = markerAt (store_head (site_log at_replay)), sr_snapshot = None\<rparr>"
      using source_all [OF wf(2) q(2), of None]
      by (cases at_replay) (simp_all add: snapshotting_source_def sourcingCondition_def)
    with False res snap q(1) that [of "site_log at_replay"] show thesis
      by (auto simp: doLoad_def full_fold_def markerAt_def Let_def)
  qed
qed

section \<open>Cached folds stay valid\<close>

lemma extends_matching:
  assumes "wf_store s" "mem.extends s s'" "p \<le> store_head s"
  shows "matching_upto q p s' = matching_upto q p s"
proof -
  have *: "matching_upto q p s = map snd (filter (\<lambda>(x, e). x \<le> p \<and> query_matches q e) (store_entries s))" for s
    by (simp add: matching_upto_def store_entries_def filter_map o_def)
  from assms(2) obtain new where new: "store_entries s' = store_entries s @ new" "\<forall>(x, e) \<in> set new. store_head s < x"
    by (auto simp: mem.extends_def)
  have "filter (\<lambda>(x, e). x \<le> p \<and> query_matches q e) new = []"
    using new(2) assms(3) by (fastforce simp: filter_empty_conv)
  with new(1) show ?thesis by (simp add: *)
qed

lemma valid_entry_grow:
  assumes "wf_store (site_log site)" "wf_store (site_log site')" "mem.extends (site_log site) (site_log site')"
    and "site_snapshots site' = site_snapshots site" "valid_entry m ident site"
  shows "valid_entry m ident site'"
  using assms extends_matching [OF assms(1,3)] mem.extends_head [OF assms(1-3)]
  by (fastforce simp: valid_entry_def)

lemma valid_entry_write:
  assumes wf: "wf_store read_log" "wf_store (site_log at_write)" "mem.extends read_log (site_log at_write)"
    and valid: "valid_entry (rp_module r) ident at_write"
    and q: "sm_query (rp_module r) ident = Inr q" "full_fold (rp_module r) ident q read_log = Inr st"
  shows "valid_entry (rp_module r) ident
           (cache_write r ident result \<lparr>snap_state = st, snap_position = store_head read_log\<rparr> at_write)"
proof (cases "cache_write r ident result \<lparr>snap_state = st, snap_position = store_head read_log\<rparr> at_write = at_write")
  case False
  then obtain s where s: "at_write = SnapshottingLog s"
    "cache_write r ident result \<lparr>snap_state = st, snap_position = store_head read_log\<rparr> at_write =
     SnapshottingLog (storeSnapshot (keyFor (rp_module r) ident) \<lparr>snap_state = st, snap_position = store_head read_log\<rparr> s)"
    by (auto simp: cache_write_def split: option.splits log_site.splits if_splits)
  have "matching_upto q (store_head read_log) (sn_next s) = matching_upto q (store_head read_log) read_log"
    using extends_matching [OF wf(1,3)] s(1) by simp
  then show ?thesis
    using q mem.extends_head [OF wf] s(1) unfolding s(2)
    by (simp add: valid_entry_def storeSnapshot_def full_fold_def)
qed (use valid in simp)

lemma cache_write_log: "site_log (cache_write r ident result snap site) = site_log site"
  by (auto simp: cache_write_def storeSnapshot_def split: option.splits log_site.splits)

lemma cache_write_other:
  "k \<noteq> keyFor (rp_module r) ident \<Longrightarrow>
     map_get (site_snapshots (cache_write r ident result snap site)) k = map_get (site_snapshots site) k"
  by (auto simp: cache_write_def storeSnapshot_def split: option.splits log_site.splits)

section \<open>Properties\<close>

text \<open>
  C8: caching never changes what a load means. With the entry under the state's key written by
  this fold, a load returns the fold of every matching event of the log at the moment of a read
  it made, with that log's head as its marker, and fails only when that fold fails; whatever it
  writes to the cache is again such an entry, and the log is not touched.
\<close>

theorem cached_load_is_full_fold:
  assumes wf: "wf_store (site_log at_read)" "wf_store (site_log at_replay)" "wf_store (site_log at_write)"
    and grown: "mem.extends (site_log at_read) (site_log at_replay)" "mem.extends (site_log at_replay) (site_log at_write)"
    and valid: "valid_entry (rp_module r) ident at_read" "valid_entry (rp_module r) ident at_write"
    and q: "sm_query (rp_module r) ident = Inr q" "compileQuery q = Inr c"
  shows "\<exists>read_log \<in> {site_log at_read, site_log at_replay}.
     case doLoad r ident elapsed at_read at_replay at_write of
       Inl e \<Rightarrow> (\<exists>e'. e = EvolverThrew e' \<and> full_fold (rp_module r) ident q read_log = Inl e')
     | Inr (result, site') \<Rightarrow>
         full_fold (rp_module r) ident q read_log = Inr (lr_state result) \<and>
         lr_sourcingInfo result = \<lparr>si_query = q, si_markerPosition = store_head read_log\<rparr> \<and>
         valid_entry (rp_module r) ident site' \<and> site_log site' = site_log at_write"
proof (rule doLoad_full [OF wf(1,2) valid(1) q, of elapsed at_write])
  fix read_log
  assume log: "read_log = site_log at_read \<or> read_log = site_log at_replay"
    and fails: "\<And>e. full_fold (rp_module r) ident q read_log = Inl e \<Longrightarrow>
       doLoad r ident elapsed at_read at_replay at_write = Inl (EvolverThrew e)"
    and returns: "\<And>st. full_fold (rp_module r) ident q read_log = Inr st \<Longrightarrow> \<exists>result.
       doLoad r ident elapsed at_read at_replay at_write =
         Inr (\<lparr>lr_state = st, lr_sourcingInfo = \<lparr>si_query = q, si_markerPosition = store_head read_log\<rparr>\<rparr>,
              cache_write r ident result \<lparr>snap_state = st, snap_position = store_head read_log\<rparr> at_write)"
  have ext: "wf_store read_log" "mem.extends read_log (site_log at_write)"
    using log wf grown mem.extends_trans [OF wf(1,2) grown] by auto
  show ?thesis
  proof (cases "full_fold (rp_module r) ident q read_log")
    case (Inl e)
    with fails log show ?thesis by auto
  next
    case (Inr st)
    with returns log valid_entry_write [OF ext(1) wf(3) ext(2) valid(2) q(1) Inr] cache_write_log show ?thesis
      by fastforce
  qed
qed

definition counter_evolver :: evolver_entry where
  "counter_evolver = (event_descriptor_of (qn ''shop'' ''Placed'') None None,
     \<lambda>st e. case st of JNumber n \<Rightarrow> Inr (JNumber (n + 1)) | _ \<Rightarrow> Inl (JsError ''not a number''))"

definition counter_module :: state_module where
  "counter_module =
     \<lparr>sm_identity = ''state#1'', sm_idSchema = [''order''], sm_initial = (\<lambda>_. JNumber 0),
      sm_tags = (\<lambda>_. Inr (OneRecord [(''order'', ''1'')])), sm_query = (\<lambda>_. Inr order_query),
      sm_evolvers = [counter_evolver], sm_snapshot = None\<rparr>"

definition cached_counter :: state_module where
  "cached_counter = snapshot_of counter_module ''orders-v1'' (afterEvents 0)"

definition counter_site :: log_site where
  "counter_site = SnapshottingLog
     \<lparr>sn_next = push_events inMemoryEventStore [order_event, order_event],
      sn_snapshots = [(''orders-v1:1'', \<lparr>snap_state = JNumber 1, snap_position = 0\<rparr>)]\<rparr>"

lemma counter_log: "wf_store (site_log counter_site)" "store_head (site_log counter_site) = 1"
  by (simp_all add: counter_site_def wf_store_def inMemoryEventStore_def store_head_def)

lemma order_event_query_matches: "query_matches order_query order_event"
  using compile_correct [OF compile_order_query, of order_event] order_event_matches by blast

lemma counter_apply: "applyEvent cached_counter (JNumber n) order_event = Inr (JNumber (n + 1))"
  by (simp add: applyEvent_def cached_counter_def snapshot_of_def counter_module_def counter_evolver_def
      event_descriptor_of_def order_event_def tagged_event_def)

lemma counter_valid: "valid_entry cached_counter (JString ''1'') counter_site"
  by (simp add: valid_entry_def counter_log counter_site_def keyFor_def cached_counter_def snapshot_of_def
      counter_module_def snapshotIdentifier_def)
    (simp add: matching_upto_def inMemoryEventStore_def order_event_query_matches store_head_def
      counter_apply [unfolded cached_counter_def snapshot_of_def counter_module_def, simplified])

theorem cached_load_is_full_fold_witness:
  "\<exists>result site'. doLoad \<lparr>rp_module = cached_counter, rp_snapshots = True\<rparr> (JString ''1'') 5 counter_site counter_site counter_site =
       Inr (result, site') \<and>
     full_fold cached_counter (JString ''1'') order_query (site_log counter_site) = Inr (lr_state result)"
proof -
  let ?r = "\<lparr>rp_module = cached_counter, rp_snapshots = True\<rparr>"
  have q: "sm_query (rp_module ?r) (JString ''1'') = Inr order_query"
    by (simp add: cached_counter_def snapshot_of_def counter_module_def)
  have f: "full_fold cached_counter (JString ''1'') order_query (site_log counter_site) = Inr (JNumber 2)"
    by (simp add: full_fold_def counter_log matching_upto_def)
      (simp add: counter_site_def inMemoryEventStore_def order_event_query_matches counter_apply,
       simp add: cached_counter_def snapshot_of_def counter_module_def counter_apply [unfolded cached_counter_def snapshot_of_def counter_module_def, simplified])
  from cached_load_is_full_fold [of counter_site counter_site counter_site ?r "JString ''1''" order_query _ 5]
  show ?thesis
    using counter_log counter_valid q f compile_order_query mem.extends_refl
    by (auto split: sum.splits)
qed

text \<open>
  C32: a cached value that passes the structural check has every field the initial state
  describes, however deep, with a value of the same JavaScript type. A field of the initial state
  that is null or undefined describes nothing and is not asked for.
\<close>

theorem fit_snapshot_has_every_field:
  assumes "matchesInitialStructure specimen candidate" "at_path p specimen = Some v"
    and "v \<noteq> JNull" "v \<noteq> JUndefined"
  shows "\<exists>w. at_path p candidate = Some w \<and> typeof w = typeof v"
  using assms by (rule fit_path)

theorem fit_snapshot_has_every_field_witness:
  "\<exists>w. at_path [''a'', ''b''] (JObject [(''a'', JObject [(''c'', JNull), (''b'', JNumber 7)])]) = Some w \<and>
     typeof w = typeof (JNumber 0)"
  using fit_snapshot_has_every_field [of "JObject [(''a'', JObject [(''b'', JNumber 0)])]"
      "JObject [(''a'', JObject [(''c'', JNull), (''b'', JNumber 7)])]" "[''a'', ''b'']" "JNumber 0"]
  by simp

text \<open>
  Repositories are remembered by the identity of a definition, which wrapping a state for
  caching does not change. Once the wrapped state has been loaded at a site, loading the state it
  was made from at that site uses the caching repository.
\<close>

theorem wrapped_state_shares_repository:
  "fst (repositoryFor (snd (repositoryFor [] (snapshot_of m key when) n (SnapshottingLog s))) m n (SnapshottingLog s)) =
     Inr \<lparr>rp_module = snapshot_of m key when, rp_snapshots = True\<rparr>"
  by (simp add: repositoryFor_def snapshot_of_def eventSourcedRepository_def capableOrThrow_def)

end
