(* ===== verification/Unit_Of_Work.thy ===== *)
theory Unit_Of_Work
  imports Repository
begin

text \<open>
  The unit of work (\<open>unit-of-work/unit-of-work.ts\<close>).

  The closed-over variables of \<open>unitOfWork\<close> and the buffers hanging off the handle are one record.
  Phase actions, error handlers and completion handlers are the host's code: values of types the
  record is polymorphic in, with interpreter functions as parameters of the operations that
  call them. An interpreter takes the whole unit of work, since an action may register further
  actions, append events or load states, and \<open>uw_world\<close> holds everything outside the task that
  the host's code may change. \<open>uw_calls\<close> and \<open>uw_notified\<close> are history: which action ran in which
  phase, and which error handler was told which phase.

  A phase drains its bucket until it is empty, which need not end; the loop is a partial function
  whose value is \<open>None\<close> when it does not. The locale \<open>task_code\<close> states what the closures cannot
  do: they have no way to reach the lifecycle variables, and registering only ever appends.
\<close>

section \<open>Phases and state\<close>

datatype phase = PRE_INVOCATION | INVOCATION | PREPARE_COMMIT | COMMIT | AFTER_COMMIT

datatype uow_status = NotStarted | Started | Completed | Errored

datatype uow_error =
    NoActiveUnitOfWork
  | WrongUoWPhase "phase option"
  | AlreadyExecuted

record uow_event_buffer =
  eb_buffered :: "event_message list"
  eb_sourcingInfos :: "sourcing_info list"
  eb_flushRegistered :: bool

text \<open>A cached promise is what it settles to: the result, or the failure every later \<open>await\<close> sees again.\<close>

record uow_state_cache =
  ca_entries :: "(string, load_error + load_result) jsmap"
  ca_modules :: "(string, state_module \<times> js) jsmap"

record ('a, 'h, 'w) uow =
  uw_phase :: "phase option"
  uw_closed :: bool
  uw_replaying :: bool
  uw_status :: uow_status
  uw_events :: uow_event_buffer
  uw_stateCache :: uow_state_cache
  uw_phaseActions :: "(phase, 'a list) jsmap"
  uw_errorHandlers :: "'h list"
  uw_completeHandlers :: "'h list"
  uw_world :: 'w
  uw_calls :: "(phase \<times> 'a) list"
  uw_notified :: "('h \<times> phase option) list"

definition unitOfWork :: "'w \<Rightarrow> ('a, 'h, 'w) uow" where
  "unitOfWork w =
     \<lparr>uw_phase = None, uw_closed = False, uw_replaying = False, uw_status = NotStarted,
      uw_events = \<lparr>eb_buffered = [], eb_sourcingInfos = [], eb_flushRegistered = False\<rparr>,
      uw_stateCache = \<lparr>ca_entries = [], ca_modules = []\<rparr>,
      uw_phaseActions = [], uw_errorHandlers = [], uw_completeHandlers = [],
      uw_world = w, uw_calls = [], uw_notified = []\<rparr>"

definition bucket :: "phase \<Rightarrow> ('a, 'h, 'w) uow \<Rightarrow> 'a list" where
  "bucket at u = (case map_get (uw_phaseActions u) at of None \<Rightarrow> [] | Some b \<Rightarrow> b)"

definition on_phase :: "phase \<Rightarrow> 'a \<Rightarrow> ('a, 'h, 'w) uow \<Rightarrow> ('a, 'h, 'w) uow" where
  "on_phase at a u = u\<lparr>uw_phaseActions := map_set at (bucket at u @ [a]) (uw_phaseActions u)\<rparr>"

definition onPrepareCommit :: "'a \<Rightarrow> ('a, 'h, 'w) uow \<Rightarrow> ('a, 'h, 'w) uow" where
  "onPrepareCommit a u = on_phase PREPARE_COMMIT a u"

definition onCommit :: "'a \<Rightarrow> ('a, 'h, 'w) uow \<Rightarrow> ('a, 'h, 'w) uow" where
  "onCommit a u = on_phase COMMIT a u"

definition onAfterCommit :: "'a \<Rightarrow> ('a, 'h, 'w) uow \<Rightarrow> ('a, 'h, 'w) uow" where
  "onAfterCommit a u = on_phase AFTER_COMMIT a u"

definition onError :: "'h \<Rightarrow> ('a, 'h, 'w) uow \<Rightarrow> ('a, 'h, 'w) uow" where
  "onError h u = u\<lparr>uw_errorHandlers := uw_errorHandlers u @ [h]\<rparr>"

definition whenComplete :: "'h \<Rightarrow> ('a, 'h, 'w) uow \<Rightarrow> ('a, 'h, 'w) uow" where
  "whenComplete h u = u\<lparr>uw_completeHandlers := uw_completeHandlers u @ [h]\<rparr>"

definition requireInvocation :: "('a, 'h, 'w) uow \<Rightarrow> uow_error + unit" where
  "requireInvocation u =
     (if uw_closed u then Inl NoActiveUnitOfWork
      else if uw_phase u \<noteq> Some INVOCATION then Inl (WrongUoWPhase (uw_phase u))
      else Inr ())"

definition requireLive :: "('a, 'h, 'w) uow \<Rightarrow> uow_error + unit" where
  "requireLive u = (if uw_closed u then Inl NoActiveUnitOfWork else Inr ())"

section \<open>Driving the phases\<close>

fun run_actions ::
  "('a \<Rightarrow> ('a, 'h, 'w) uow \<Rightarrow> 'e option \<times> ('a, 'h, 'w) uow) \<Rightarrow> phase \<Rightarrow> 'a list \<Rightarrow> ('a, 'h, 'w) uow
     \<Rightarrow> 'e option \<times> ('a, 'h, 'w) uow" where
  "run_actions act at [] u = (None, u)"
| "run_actions act at (a # rest) u =
     (case act a (u\<lparr>uw_calls := uw_calls u @ [(at, a)]\<rparr>) of
        (Some e, u') \<Rightarrow> (Some e, u')
      | (None, u') \<Rightarrow> run_actions act at rest u')"

partial_function (option) drain_bucket ::
  "('a \<Rightarrow> ('a, 'h, 'w) uow \<Rightarrow> 'e option \<times> ('a, 'h, 'w) uow) \<Rightarrow> phase \<Rightarrow> ('a, 'h, 'w) uow
     \<Rightarrow> ('e option \<times> ('a, 'h, 'w) uow) option" where
  "drain_bucket act at u =
     (if bucket at u = [] then Some (None, u)
      else (case run_actions act at (bucket at u) (u\<lparr>uw_phaseActions := map_set at [] (uw_phaseActions u)\<rparr>) of
              (Some e, u') \<Rightarrow> Some (Some e, u')
            | (None, u') \<Rightarrow> drain_bucket act at u'))"

definition runPhase ::
  "('a \<Rightarrow> ('a, 'h, 'w) uow \<Rightarrow> 'e option \<times> ('a, 'h, 'w) uow) \<Rightarrow> phase \<Rightarrow> ('a, 'h, 'w) uow
     \<Rightarrow> ('e option \<times> ('a, 'h, 'w) uow) option" where
  "runPhase act at u = drain_bucket act at (u\<lparr>uw_phase := Some at\<rparr>)"

text \<open>Sequencing of two steps that may not return or may throw.\<close>

definition and_then ::
  "('e option \<times> 'u) option \<Rightarrow> ('u \<Rightarrow> ('e option \<times> 'u) option) \<Rightarrow> ('e option \<times> 'u) option" where
  "and_then r f = (case r of None \<Rightarrow> None | Some (Some e, u) \<Rightarrow> Some (Some e, u) | Some (None, u) \<Rightarrow> f u)"

text \<open>The body of the \<open>try\<close>: the phases around the action.\<close>

definition try_phases ::
  "('a \<Rightarrow> ('a, 'h, 'w) uow \<Rightarrow> 'e option \<times> ('a, 'h, 'w) uow) \<Rightarrow>
   (('a, 'h, 'w) uow \<Rightarrow> ('e + 'r) \<times> ('a, 'h, 'w) uow) \<Rightarrow> ('a, 'h, 'w) uow
     \<Rightarrow> (('e + 'r) \<times> ('a, 'h, 'w) uow) option" where
  "try_phases act action u =
     (case and_then (runPhase act PRE_INVOCATION u) (runPhase act INVOCATION) of
        None \<Rightarrow> None
      | Some (Some e, u1) \<Rightarrow> Some (Inl e, u1)
      | Some (None, u1) \<Rightarrow>
          (case action u1 of
             (Inl e, u2) \<Rightarrow> Some (Inl e, u2)
           | (Inr result, u2) \<Rightarrow>
               (case and_then (runPhase act PREPARE_COMMIT u2) (\<lambda>u3.
                       and_then (runPhase act COMMIT u3) (runPhase act AFTER_COMMIT)) of
                  None \<Rightarrow> None
                | Some (Some e, u4) \<Rightarrow> Some (Inl e, u4)
                | Some (None, u4) \<Rightarrow> Some (Inr result, u4))))"

text \<open>
  \<open>for (const h of handlers)\<close> iterates over the live array, so a handler registered by a handler
  is called as well. What a handler throws is logged and swallowed: only its effect remains.
\<close>

partial_function (option) notify_errors ::
  "('h \<Rightarrow> 'e \<Rightarrow> phase option \<Rightarrow> ('a, 'h, 'w) uow \<Rightarrow> ('a, 'h, 'w) uow) \<Rightarrow> 'e \<Rightarrow> phase option \<Rightarrow> nat
     \<Rightarrow> ('a, 'h, 'w) uow \<Rightarrow> ('a, 'h, 'w) uow option" where
  "notify_errors onErr e failedPhase i u =
     (if i < length (uw_errorHandlers u) then
        (let h = uw_errorHandlers u ! i
         in notify_errors onErr e failedPhase (Suc i)
              (onErr h e failedPhase (u\<lparr>uw_notified := uw_notified u @ [(h, failedPhase)]\<rparr>)))
      else Some u)"

partial_function (option) notify_complete ::
  "('h \<Rightarrow> ('a, 'h, 'w) uow \<Rightarrow> ('a, 'h, 'w) uow) \<Rightarrow> nat \<Rightarrow> ('a, 'h, 'w) uow \<Rightarrow> ('a, 'h, 'w) uow option" where
  "notify_complete onDone i u =
     (if i < length (uw_completeHandlers u) then notify_complete onDone (Suc i) (onDone (uw_completeHandlers u ! i) u)
      else Some u)"

definition drivePhases ::
  "('a \<Rightarrow> ('a, 'h, 'w) uow \<Rightarrow> 'e option \<times> ('a, 'h, 'w) uow) \<Rightarrow>
   ('h \<Rightarrow> 'e \<Rightarrow> phase option \<Rightarrow> ('a, 'h, 'w) uow \<Rightarrow> ('a, 'h, 'w) uow) \<Rightarrow>
   ('h \<Rightarrow> ('a, 'h, 'w) uow \<Rightarrow> ('a, 'h, 'w) uow) \<Rightarrow>
   (('a, 'h, 'w) uow \<Rightarrow> ('e + 'r) \<times> ('a, 'h, 'w) uow) \<Rightarrow> ('a, 'h, 'w) uow
     \<Rightarrow> (('e + 'r) \<times> ('a, 'h, 'w) uow) option" where
  "drivePhases act onErr onDone action u =
     (case try_phases act action (u\<lparr>uw_status := Started\<rparr>) of
        None \<Rightarrow> None
      | Some (Inr result, u') \<Rightarrow>
          map_option (Pair (Inr result)) (notify_complete onDone 0 (u'\<lparr>uw_status := Completed, uw_closed := True\<rparr>))
      | Some (Inl e, u') \<Rightarrow>
          map_option (Pair (Inl e))
            (notify_errors onErr e (uw_phase u') 0 (u'\<lparr>uw_status := Errored, uw_closed := True\<rparr>)))"

definition execute ::
  "('a \<Rightarrow> ('a, 'h, 'w) uow \<Rightarrow> 'e option \<times> ('a, 'h, 'w) uow) \<Rightarrow>
   ('h \<Rightarrow> 'e \<Rightarrow> phase option \<Rightarrow> ('a, 'h, 'w) uow \<Rightarrow> ('a, 'h, 'w) uow) \<Rightarrow>
   ('h \<Rightarrow> ('a, 'h, 'w) uow \<Rightarrow> ('a, 'h, 'w) uow) \<Rightarrow>
   (('a, 'h, 'w) uow \<Rightarrow> ('e + 'r) \<times> ('a, 'h, 'w) uow) \<Rightarrow> ('a, 'h, 'w) uow
     \<Rightarrow> uow_error + (('e + 'r) \<times> ('a, 'h, 'w) uow) option" where
  "execute act onErr onDone action u =
     (if uw_status u \<noteq> NotStarted then Inl AlreadyExecuted
      else Inr (drivePhases act onErr onDone action u))"

section \<open>The order of phases\<close>

fun phase_index :: "phase \<Rightarrow> nat" where
  "phase_index PRE_INVOCATION = 0"
| "phase_index INVOCATION = 1"
| "phase_index PREPARE_COMMIT = 2"
| "phase_index COMMIT = 3"
| "phase_index AFTER_COMMIT = 4"

instantiation phase :: linorder
begin

definition less_eq_phase :: "phase \<Rightarrow> phase \<Rightarrow> bool" where
  "less_eq_phase a b \<longleftrightarrow> phase_index a \<le> phase_index b"

definition less_phase :: "phase \<Rightarrow> phase \<Rightarrow> bool" where
  "less_phase a b \<longleftrightarrow> phase_index a < phase_index b"

instance
proof
  fix x y :: phase
  show "x \<le> y \<Longrightarrow> y \<le> x \<Longrightarrow> x = y"
    by (cases x; cases y) (auto simp: less_eq_phase_def)
qed (auto simp: less_eq_phase_def less_phase_def)

end

section \<open>What the host's code cannot do\<close>

text \<open>The variables only the lifecycle reaches, and the history.\<close>

definition lifecycle :: "('a, 'h, 'w) uow \<Rightarrow> phase option \<times> bool \<times> uow_status \<times> (phase \<times> 'a) list \<times> ('h \<times> phase option) list" where
  "lifecycle u = (uw_phase u, uw_closed u, uw_status u, uw_calls u, uw_notified u)"

lemma bucket_update [simp]:
  "bucket p (u\<lparr>uw_calls := c\<rparr>) = bucket p u" "bucket p (u\<lparr>uw_phase := ph\<rparr>) = bucket p u"
  "bucket p (u\<lparr>uw_status := st\<rparr>) = bucket p u"
  "bucket p (u\<lparr>uw_phaseActions := map_set at as (uw_phaseActions u)\<rparr>) = (if p = at then as else bucket p u)"
  by (simp_all add: bucket_def)

lemma bucket_on_phase: "bucket p (on_phase at a u) = (if p = at then bucket p u @ [a] else bucket p u)"
  by (simp add: on_phase_def)

lemma lifecycle_on_phase: "lifecycle (on_phase at a u) = lifecycle u"
  by (simp add: on_phase_def lifecycle_def)

lemma drain_induct [consumes 1, case_names empty throw again]:
  assumes "drain_bucket act at u = Some y"
    and "\<And>u. bucket at u = [] \<Longrightarrow> y = (None, u) \<Longrightarrow> P u"
    and "\<And>u e u'. bucket at u \<noteq> [] \<Longrightarrow>
      run_actions act at (bucket at u) (u\<lparr>uw_phaseActions := map_set at [] (uw_phaseActions u)\<rparr>) = (Some e, u') \<Longrightarrow>
      y = (Some e, u') \<Longrightarrow> P u"
    and "\<And>u u'. bucket at u \<noteq> [] \<Longrightarrow>
      run_actions act at (bucket at u) (u\<lparr>uw_phaseActions := map_set at [] (uw_phaseActions u)\<rparr>) = (None, u') \<Longrightarrow>
      P u' \<Longrightarrow> P u"
  shows "P u"
proof -
  have "act' = act \<longrightarrow> at' = at \<longrightarrow> y' = y \<longrightarrow> P u'" if "drain_bucket act' at' u' = Some y'" for act' at' u' y'
  proof (rule drain_bucket.raw_induct [where P = "\<lambda>act' at' u' y'. act' = act \<longrightarrow> at' = at \<longrightarrow> y' = y \<longrightarrow> P u'", OF _ that],
      intro impI)
    fix dr act' at' u' y'
    assume IH: "\<And>act' at' u' y'. dr act' at' u' = Some y' \<Longrightarrow> act' = act \<longrightarrow> at' = at \<longrightarrow> y' = y \<longrightarrow> P u'"
      and step: "(if bucket at' u' = [] then Some (None, u')
        else case run_actions act' at' (bucket at' u') (u'\<lparr>uw_phaseActions := map_set at' [] (uw_phaseActions u')\<rparr>) of
               (None, v) \<Rightarrow> dr act' at' v | (Some e, v) \<Rightarrow> Some (Some e, v)) = Some y'"
      and eq: "act' = act" "at' = at" "y' = y"
    show "P u'"
    proof (cases "bucket at u' = []")
      case True
      with step eq assms(2) show ?thesis by auto
    next
      case False
      obtain r v where rv: "run_actions act at (bucket at u') (u'\<lparr>uw_phaseActions := map_set at [] (uw_phaseActions u')\<rparr>) = (r, v)"
        by fastforce
      with step False eq have "(case r of None \<Rightarrow> dr act at v | Some e \<Rightarrow> Some (Some e, v)) = Some y"
        by (auto split: option.splits)
      then show ?thesis
        using IH [of act at v y] assms(3) [OF False, of _ v] assms(4) [OF False, of v] rv by (cases r) auto
    qed
  qed
  with assms(1) show ?thesis by blast
qed

lemma and_then_simps [simp]:
  "and_then (Some (None, u)) f = f u" "and_then (Some (Some e, u)) f = Some (Some e, u)"
  by (simp_all add: and_then_def)

lemma runPhase_empty: "bucket at u = [] \<Longrightarrow> runPhase act at u = Some (None, u\<lparr>uw_phase := Some at\<rparr>)"
  unfolding runPhase_def by (subst drain_bucket.simps) simp

lemma runPhase_single:
  assumes "bucket at u = [a]"
    and "act a (u\<lparr>uw_phase := Some at, uw_phaseActions := map_set at [] (uw_phaseActions u), uw_calls := uw_calls u @ [(at, a)]\<rparr>) = (r, u')"
    and "bucket at u' = []"
  shows "runPhase act at u = Some (r, u')"
proof -
  have "drain_bucket act at u' = Some (None, u')" using assms(3) by (subst drain_bucket.simps) simp
  then show ?thesis using assms(1,2) unfolding runPhase_def by (subst drain_bucket.simps) (cases r; simp)
qed

locale task_code =
  fixes act :: "'a \<Rightarrow> ('a, 'h, 'w) uow \<Rightarrow> 'e option \<times> ('a, 'h, 'w) uow"
  assumes act_lifecycle: "act a u = (r, u') \<Longrightarrow> lifecycle u' = lifecycle u"
    and act_registers: "act a u = (r, u') \<Longrightarrow> \<exists>new. bucket p u' = bucket p u @ new"
begin

lemma run_actions_calls:
  assumes "run_actions act at as u = (r, u')"
  shows "\<exists>ran rest. as = ran @ rest \<and> lifecycle u' = lifecycle (u\<lparr>uw_calls := uw_calls u @ map (Pair at) ran\<rparr>) \<and>
           (r = None \<longrightarrow> rest = []) \<and> (\<forall>p. \<exists>new. bucket p u' = bucket p u @ new)"
  using assms
proof (induction as arbitrary: u)
  case Nil
  then show ?case by (auto simp: lifecycle_def)
next
  case (Cons a as)
  let ?u = "u\<lparr>uw_calls := uw_calls u @ [(at, a)]\<rparr>"
  obtain ra ua where a: "act a ?u = (ra, ua)" by fastforce
  note keep = act_lifecycle [OF a] and reg = act_registers [OF a]
  show ?case
  proof (cases ra)
    case (Some e)
    with Cons.prems a have "u' = ua" "r = Some e" by auto
    with keep reg show ?thesis by (intro exI [of _ "[a]"] exI [of _ as]) (auto simp: lifecycle_def)
  next
    case None
    with Cons.prems a have "run_actions act at as ua = (r, u')" by simp
    from Cons.IH [OF this] obtain ran rest where *: "as = ran @ rest"
      "lifecycle u' = lifecycle (ua\<lparr>uw_calls := uw_calls ua @ map (Pair at) ran\<rparr>)"
      "r = None \<longrightarrow> rest = []" "\<forall>p. \<exists>new. bucket p u' = bucket p ua @ new" by blast
    have "\<forall>p. \<exists>new. bucket p u' = bucket p u @ new" using *(4) reg by (metis append_assoc bucket_update(1))
    with * keep show ?thesis by (intro exI [of _ "a # ran"] exI [of _ rest]) (auto simp: lifecycle_def)
  qed
qed

lemma run_bucket_calls:
  assumes "run_actions act at (bucket at u) (u\<lparr>uw_phaseActions := map_set at [] (uw_phaseActions u)\<rparr>) = (r, u')"
  shows "\<exists>ran rest. bucket at u = ran @ rest \<and>
           lifecycle u' = lifecycle (u\<lparr>uw_calls := uw_calls u @ map (Pair at) ran\<rparr>) \<and>
           (r = None \<longrightarrow> rest = []) \<and> (\<forall>p. p \<noteq> at \<longrightarrow> (\<exists>new. bucket p u' = bucket p u @ new))"
proof -
  from run_actions_calls [OF assms] obtain ran rest where *: "bucket at u = ran @ rest"
    "lifecycle u' = lifecycle (u\<lparr>uw_phaseActions := map_set at [] (uw_phaseActions u), uw_calls := uw_calls u @ map (Pair at) ran\<rparr>)"
    "r = None \<longrightarrow> rest = []"
    "\<forall>p. \<exists>new. bucket p u' = bucket p (u\<lparr>uw_phaseActions := map_set at [] (uw_phaseActions u)\<rparr>) @ new"
    by auto
  have "\<exists>new. bucket p u' = bucket p u @ new" if "p \<noteq> at" for p
    using *(4) [rule_format, of p] that by simp
  with *(1-3) show ?thesis by (intro exI [of _ ran] exI [of _ rest]) (simp add: lifecycle_def)
qed

text \<open>
  A phase that ends calls, in order, what was in its bucket when it began and then what was
  registered for it while it ran; it leaves the bucket empty unless an action threw.
\<close>

lemma drain_calls:
  assumes "drain_bucket act at u = Some (r, u')"
  shows "\<exists>called. lifecycle u' = lifecycle (u\<lparr>uw_calls := uw_calls u @ map (Pair at) called\<rparr>) \<and>
           (r = None \<longrightarrow> bucket at u' = [] \<and> (\<exists>late. called = bucket at u @ late)) \<and>
           (\<forall>p. p \<noteq> at \<longrightarrow> (\<exists>new. bucket p u' = bucket p u @ new))"
  using assms
proof (induction rule: drain_induct)
  case (empty u)
  then show ?case by (auto simp: lifecycle_def)
next
  case (throw u e)
  from run_bucket_calls [OF throw(2)] throw(3) show ?case by blast
next
  case (again u u1)
  from run_bucket_calls [OF again(2)] have one:
    "lifecycle u1 = lifecycle (u\<lparr>uw_calls := uw_calls u @ map (Pair at) (bucket at u)\<rparr>)"
    "\<forall>p. p \<noteq> at \<longrightarrow> (\<exists>new. bucket p u1 = bucket p u @ new)"
    by auto
  from again(3) obtain called where two:
    "lifecycle u' = lifecycle (u1\<lparr>uw_calls := uw_calls u1 @ map (Pair at) called\<rparr>)"
    "r = None \<longrightarrow> bucket at u' = []" "\<forall>p. p \<noteq> at \<longrightarrow> (\<exists>new. bucket p u' = bucket p u1 @ new)" by blast
  have "\<forall>p. p \<noteq> at \<longrightarrow> (\<exists>new. bucket p u' = bucket p u @ new)" using one(2) two(3) by (metis append_assoc)
  with one two show ?case by (intro exI [of _ "bucket at u @ called"]) (auto simp: lifecycle_def)
qed

lemma runPhase_calls:
  assumes "runPhase act at u = Some (r, u')"
  shows "\<exists>called. lifecycle u' = lifecycle (u\<lparr>uw_phase := Some at, uw_calls := uw_calls u @ map (Pair at) called\<rparr>) \<and>
           (r = None \<longrightarrow> bucket at u' = [] \<and> (\<exists>late. called = bucket at u @ late)) \<and>
           (\<forall>p. p \<noteq> at \<longrightarrow> (\<exists>new. bucket p u' = bucket p u @ new))"
  using drain_calls [of at "u\<lparr>uw_phase := Some at\<rparr>" r u'] assms by (simp add: runPhase_def lifecycle_def)

text \<open>
  \<open>ran_upto called_all p u u'\<close>: from \<open>u\<close> to \<open>u'\<close> the phases up to \<open>p\<close> have run, their actions
  in phase order; with \<open>called_all\<close>, everything registered for them in \<open>u\<close> has been called.
\<close>

definition ran_upto :: "bool \<Rightarrow> phase \<Rightarrow> ('a, 'h, 'w) uow \<Rightarrow> ('a, 'h, 'w) uow \<Rightarrow> bool" where
  "ran_upto called_all p u u' \<longleftrightarrow>
     uw_closed u' = uw_closed u \<and> uw_status u' = uw_status u \<and> uw_notified u' = uw_notified u \<and> uw_phase u' = Some p \<and>
     (\<exists>new. uw_calls u' = uw_calls u @ new \<and> sorted (map fst new) \<and> (\<forall>c \<in> set new. fst c \<le> p) \<and>
        (called_all \<longrightarrow> (\<forall>q \<le> p. Pair q ` set (bucket q u) \<subseteq> set new))) \<and>
     (\<forall>q > p. \<exists>more. bucket q u' = bucket q u @ more)"

lemma ran_phase:
  assumes run: "runPhase act q u1 = Some (r, u2)"
    and same: "uw_closed u1 = uw_closed u" "uw_status u1 = uw_status u" "uw_notified u1 = uw_notified u"
    and new: "uw_calls u1 = uw_calls u @ new" "sorted (map fst new)" "\<And>c. c \<in> set new \<Longrightarrow> fst c \<le> q"
    and before: "\<And>x. x < q \<Longrightarrow> Pair x ` set (bucket x u) \<subseteq> set new"
    and later: "\<And>x. q \<le> x \<Longrightarrow> \<exists>more. bucket x u1 = bucket x u @ more"
  shows "ran_upto (r = None) q u u2"
proof -
  from runPhase_calls [OF run] obtain called where called:
    "lifecycle u2 = lifecycle (u1\<lparr>uw_phase := Some q, uw_calls := uw_calls u1 @ map (Pair q) called\<rparr>)"
    "r = None \<longrightarrow> (\<exists>late. called = bucket q u1 @ late)"
    "\<forall>x. x \<noteq> q \<longrightarrow> (\<exists>new. bucket x u2 = bucket x u1 @ new)" by blast
  let ?new = "new @ map (Pair q) called"
  have "Pair x ` set (bucket x u) \<subseteq> set ?new" if "r = None" "x \<le> q" for x
  proof (cases "x = q")
    case True
    from later [of q] have "set (bucket q u) \<subseteq> set (bucket q u1)" by auto
    moreover from called(2) that(1) have "set (bucket q u1) \<subseteq> set called" by auto
    ultimately show ?thesis using True by auto
  next
    case False
    with that(2) have "x < q" by simp
    with before [of x] show ?thesis by auto
  qed
  moreover have "sorted (map fst ?new)"
    using new(2,3) by (simp add: sorted_append o_def map_replicate_const)
  moreover have "\<forall>c \<in> set ?new. fst c \<le> q" using new(3) by auto
  moreover have "\<exists>more. bucket x u2 = bucket x u @ more" if "x > q" for x
  proof -
    from that have "x \<noteq> q" by simp
    with called(3) obtain a where "bucket x u2 = bucket x u1 @ a" by blast
    moreover from later [OF less_imp_le [OF that]] obtain b where "bucket x u1 = bucket x u @ b" by blast
    ultimately show ?thesis by simp
  qed
  moreover have "uw_calls u2 = uw_calls u @ ?new" "uw_closed u2 = uw_closed u" "uw_status u2 = uw_status u"
    "uw_notified u2 = uw_notified u" "uw_phase u2 = Some q"
    using called(1) new(1) same by (auto simp: lifecycle_def)
  ultimately show ?thesis unfolding ran_upto_def by blast
qed

lemma ran_first: "runPhase act PRE_INVOCATION u = Some (r, u') \<Longrightarrow> ran_upto (r = None) PRE_INVOCATION u u'"
  by (rule ran_phase [where new = "[]"]) (auto simp: less_phase_def)

lemma ran_next:
  assumes ran: "ran_upto True p u u1" and run: "runPhase act q u1 = Some (r, u2)" and pq: "phase_index q = Suc (phase_index p)"
  shows "ran_upto (r = None) q u u2"
proof -
  from ran obtain new where new: "uw_calls u1 = uw_calls u @ new" "sorted (map fst new)" "\<forall>c \<in> set new. fst c \<le> p"
    "\<forall>x \<le> p. Pair x ` set (bucket x u) \<subseteq> set new" and later: "\<forall>x > p. \<exists>more. bucket x u1 = bucket x u @ more"
    and same: "uw_closed u1 = uw_closed u" "uw_status u1 = uw_status u" "uw_notified u1 = uw_notified u"
    by (auto simp: ran_upto_def)
  show ?thesis
  proof (rule ran_phase [OF run same new(1,2)])
    fix c assume "c \<in> set new" with new(3) pq show "fst c \<le> q" by (auto simp: less_eq_phase_def)
  next
    fix x assume "x < q" then have "x \<le> p" using pq by (simp add: less_phase_def less_eq_phase_def)
    with new(4) show "Pair x ` set (bucket x u) \<subseteq> set new" by blast
  next
    fix x assume "q \<le> x" then have "p < x" using pq by (simp add: less_phase_def less_eq_phase_def)
    with later show "\<exists>more. bucket x u1 = bucket x u @ more" by blast
  qed
qed

lemma ran_through:
  assumes "ran_upto called_all p u u1" "lifecycle u2 = lifecycle u1" "\<And>q. \<exists>new. bucket q u2 = bucket q u1 @ new"
  shows "ran_upto called_all p u u2"
proof -
  have "\<forall>q > p. \<exists>more. bucket q u2 = bucket q u @ more"
    using assms(1,3) unfolding ran_upto_def by (metis append_assoc)
  then show ?thesis using assms(1,2) by (auto simp: ran_upto_def lifecycle_def)
qed

lemma ran_weaken: "ran_upto b p u u' \<Longrightarrow> ran_upto False p u u'"
  by (auto simp: ran_upto_def)

end

text \<open>The locale for a whole task: its phase actions and the action it wraps.\<close>

locale task = task_code act for act :: "'a \<Rightarrow> ('a, 'h, 'w) uow \<Rightarrow> 'e option \<times> ('a, 'h, 'w) uow" +
  fixes action :: "('a, 'h, 'w) uow \<Rightarrow> ('e + 'r) \<times> ('a, 'h, 'w) uow"
  assumes action_lifecycle: "action u = (r, u') \<Longrightarrow> lifecycle u' = lifecycle u"
    and action_registers: "action u = (r, u') \<Longrightarrow> \<exists>new. bucket p u' = bucket p u @ new"
begin

lemma try_phases_ran:
  assumes "try_phases act action u = Some (r, u')"
  shows "case r of Inr _ \<Rightarrow> ran_upto True AFTER_COMMIT u u' | Inl _ \<Rightarrow> \<exists>p. ran_upto False p u u'"
proof -
  have first: "ran_upto True PRE_INVOCATION u v" if "runPhase act PRE_INVOCATION u = Some (None, v)" for v
    using ran_first [OF that] by simp
  have first_fails: "\<exists>p. ran_upto False p u v" if "runPhase act PRE_INVOCATION u = Some (Some e, v)" for e v
    using ran_first [OF that] by auto
  have step: "ran_upto True q u w"
    if "runPhase act q v = Some (None, w)" "ran_upto True p u v" "phase_index q = Suc (phase_index p)" for p q v w
    using ran_next [OF that(2,1,3)] by simp
  have step_fails: "\<exists>p. ran_upto False p u w"
    if "runPhase act q v = Some (Some e, w)" "ran_upto True p u v" "phase_index q = Suc (phase_index p)" for p q v w e
    using ran_next [OF that(2,1,3)] by auto
  have through: "ran_upto True INVOCATION u w" if "action v = (x, w)" "ran_upto True INVOCATION u v" for x v w
    using ran_through [OF that(2) action_lifecycle [OF that(1)] action_registers [OF that(1)]] .
  note steps = step [where p = PRE_INVOCATION and q = INVOCATION, simplified]
    step [where p = INVOCATION and q = PREPARE_COMMIT, simplified]
    step [where p = PREPARE_COMMIT and q = COMMIT, simplified] step [where p = COMMIT and q = AFTER_COMMIT, simplified]
  note fails = step_fails [where p = PRE_INVOCATION and q = INVOCATION, simplified]
    step_fails [where p = INVOCATION and q = PREPARE_COMMIT, simplified]
    step_fails [where p = PREPARE_COMMIT and q = COMMIT, simplified] step_fails [where p = COMMIT and q = AFTER_COMMIT, simplified]
  from assms show ?thesis
    unfolding try_phases_def and_then_def
    by (auto split: option.split_asm prod.split_asm sum.split_asm dest!: first first_fails)
      (blast intro: steps fails through ran_weaken)+
qed

end

section \<open>Handlers of failures\<close>

text \<open>
  Error handlers that leave the list of error handlers and the lifecycle alone are each called once, in
  registration order, with the phase that failed.
\<close>

lemma notify_errors_all:
  assumes keeps: "\<And>h u. uw_errorHandlers (onErr h e ph u) = uw_errorHandlers u \<and> lifecycle (onErr h e ph u) = lifecycle u"
    and "i \<le> length (uw_errorHandlers u)"
  shows "\<exists>u'. notify_errors onErr e ph i u = Some u' \<and>
           lifecycle u' = lifecycle (u\<lparr>uw_notified := uw_notified u @ map (\<lambda>h. (h, ph)) (drop i (uw_errorHandlers u))\<rparr>)"
  using assms(2)
proof (induction "length (uw_errorHandlers u) - i" arbitrary: i u)
  case 0
  then show ?case by (subst notify_errors.simps) (simp add: lifecycle_def)
next
  case (Suc n)
  then have i: "i < length (uw_errorHandlers u)" by simp
  let ?h = "uw_errorHandlers u ! i"
  let ?u = "onErr ?h e ph (u\<lparr>uw_notified := uw_notified u @ [(?h, ph)]\<rparr>)"
  have h: "uw_errorHandlers ?u = uw_errorHandlers u" "lifecycle ?u = lifecycle (u\<lparr>uw_notified := uw_notified u @ [(?h, ph)]\<rparr>)"
    using keeps by simp_all
  have "n = length (uw_errorHandlers ?u) - Suc i" "Suc i \<le> length (uw_errorHandlers ?u)" using Suc.hyps(2) i h(1) by auto
  from Suc.hyps(1) [OF this] obtain u' where
    u': "notify_errors onErr e ph (Suc i) ?u = Some u'"
      "lifecycle u' = lifecycle (?u\<lparr>uw_notified := uw_notified ?u @ map (\<lambda>h. (h, ph)) (drop (Suc i) (uw_errorHandlers u))\<rparr>)"
    using h(1) by auto
  have "drop i (uw_errorHandlers u) = ?h # drop (Suc i) (uw_errorHandlers u)" using i by (simp add: Cons_nth_drop_Suc)
  then have "lifecycle u' = lifecycle (u\<lparr>uw_notified := uw_notified u @ map (\<lambda>h. (h, ph)) (drop i (uw_errorHandlers u))\<rparr>)"
    using u'(2) h(2) by (simp add: lifecycle_def)
  with u'(1) i show ?case by (subst notify_errors.simps) (simp add: Let_def)
qed

section \<open>Finite tasks\<close>

text \<open>
  Host code that ends: each action is a finite tree saying what it registers, for which phase,
  and whether it throws afterwards. Actions registered late are the subtrees.
\<close>

datatype 'e script = Script (sc_name: string) (sc_throws: "'e option") (sc_registers: "(phase \<times> 'e script) list")

definition register_all :: "(phase \<times> 'a) list \<Rightarrow> ('a, 'h, 'w) uow \<Rightarrow> ('a, 'h, 'w) uow" where
  "register_all rs u = fold (\<lambda>(p, a). on_phase p a) rs u"

definition script_act :: "'e script \<Rightarrow> ('e script, 'h, 'w) uow \<Rightarrow> 'e option \<times> ('e script, 'h, 'w) uow" where
  "script_act a u = (sc_throws a, register_all (sc_registers a) u)"

definition script_action ::
  "'e script \<Rightarrow> 'r \<Rightarrow> ('e script, 'h, 'w) uow \<Rightarrow> ('e + 'r) \<times> ('e script, 'h, 'w) uow" where
  "script_action body result u =
     (case sc_throws body of Some e \<Rightarrow> Inl e | None \<Rightarrow> Inr result, register_all (sc_registers body) u)"

lemma bucket_register_all:
  "bucket p (register_all rs u) = bucket p u @ map snd (filter (\<lambda>r. fst r = p) rs)"
  by (induction rs arbitrary: u) (auto simp: register_all_def bucket_on_phase)

lemma lifecycle_register_all: "lifecycle (register_all rs u) = lifecycle u"
  by (induction rs arbitrary: u) (auto simp: register_all_def lifecycle_on_phase)

lemma handlers_register_all: "uw_errorHandlers (register_all rs u) = uw_errorHandlers u"
  by (induction rs arbitrary: u) (auto simp: register_all_def on_phase_def)

interpretation scripts: task script_act "script_action body result"
  by unfold_locales
    (auto simp: script_act_def script_action_def bucket_register_all lifecycle_register_all)

fun weight :: "'e script \<Rightarrow> nat" where
  "weight (Script n t rs) = Suc (sum_list (map (\<lambda>r. weight (snd r)) rs))"

abbreviation total_weight :: "'e script list \<Rightarrow> nat" where
  "total_weight as \<equiv> sum_list (map weight as)"

lemma weight_registered: "total_weight (map snd (filter P (sc_registers a))) < weight a"
proof -
  have "sum_list (map (\<lambda>r. weight (snd r)) (filter P rs)) \<le> sum_list (map (\<lambda>r. weight (snd r)) rs)" for rs :: "(phase \<times> 'a script) list"
    by (induction rs) auto
  then show ?thesis by (cases a) (simp add: o_def less_Suc_eq_le)
qed

lemma run_actions_weight:
  assumes "run_actions script_act at as u = (None, u')"
  shows "total_weight (bucket at u') + length as \<le> total_weight (bucket at u) + total_weight as"
  using assms
proof (induction as arbitrary: u)
  case (Cons a as)
  let ?u = "register_all (sc_registers a) (u\<lparr>uw_calls := uw_calls u @ [(at, a)]\<rparr>)"
  from Cons.prems have "run_actions script_act at as ?u = (None, u')"
    by (auto simp: script_act_def [of a] split: option.splits)
  from Cons.IH [OF this] show ?case
    using weight_registered [of "\<lambda>r. fst r = at" a] by (simp add: bucket_register_all)
qed simp

lemma drain_returns: "\<exists>r u'. drain_bucket script_act at u = Some (r, u')"
proof (induction "total_weight (bucket at u)" arbitrary: u rule: less_induct)
  case less
  show ?case
  proof (cases "bucket at u = []")
    case False
    let ?u = "u\<lparr>uw_phaseActions := map_set at [] (uw_phaseActions u)\<rparr>"
    obtain r u1 where ru: "run_actions script_act at (bucket at u) ?u = (r, u1)" by fastforce
    show ?thesis
    proof (cases r)
      case None
      have "length (bucket at u) > 0" using False by simp
      moreover have "total_weight (bucket at u1) + length (bucket at u) \<le> total_weight (bucket at u)"
        using run_actions_weight [of at "bucket at u" ?u u1] ru None by simp
      ultimately have "total_weight (bucket at u1) < total_weight (bucket at u)" by linarith
      from less [OF this] ru None False show ?thesis by (subst drain_bucket.simps) simp
    next
      case (Some e)
      with ru False show ?thesis by (subst drain_bucket.simps) simp
    qed
  qed (subst drain_bucket.simps, simp)
qed

lemma runPhase_returns: "\<exists>r u'. runPhase script_act at u = Some (r, u')"
  by (simp add: runPhase_def drain_returns)

lemma and_then_returns:
  "\<exists>r u'. a = Some (r, u') \<Longrightarrow> (\<And>u. \<exists>r u'. f u = Some (r, u')) \<Longrightarrow> \<exists>r u'. and_then a f = Some (r, u')"
  by (auto simp: and_then_def split: option.splits)

lemma try_phases_returns:
  fixes u :: "('a script, 'b, 'c) uow"
  shows "\<exists>r u'. try_phases script_act action u = Some (r, u')"
proof -
  obtain r1 u1 where 1: "and_then (runPhase script_act PRE_INVOCATION u) (runPhase script_act INVOCATION) = Some (r1, u1)"
    using and_then_returns [of "runPhase script_act PRE_INVOCATION u" "runPhase script_act INVOCATION"] runPhase_returns
    by blast
  obtain x u2 where 2: "action u1 = (x, u2)" by fastforce
  have commits: "\<exists>r u'. and_then (runPhase script_act COMMIT v) (runPhase script_act AFTER_COMMIT) = Some (r, u')"
    for v :: "('a script, 'b, 'c) uow"
    by (rule and_then_returns [OF runPhase_returns]) (rule runPhase_returns)
  obtain r3 u3 where 3: "and_then (runPhase script_act PREPARE_COMMIT u2)
      (\<lambda>u3. and_then (runPhase script_act COMMIT u3) (runPhase script_act AFTER_COMMIT)) = Some (r3, u3)"
    using and_then_returns [OF runPhase_returns [of PREPARE_COMMIT u2], of "\<lambda>u3. and_then (runPhase script_act COMMIT u3) (runPhase script_act AFTER_COMMIT)"]
      commits by blast
  show ?thesis by (cases r1; cases x; cases r3) (simp_all add: try_phases_def 1 2 3)
qed

lemma run_actions_handlers:
  "run_actions script_act at as u = (r, u') \<Longrightarrow> uw_errorHandlers u' = uw_errorHandlers u"
proof (induction as arbitrary: u)
  case (Cons a as)
  then show ?case by (auto simp: script_act_def [of a] handlers_register_all split: option.splits)
qed simp

lemma runPhase_handlers:
  assumes "runPhase script_act at u = Some (r, u')"
  shows "uw_errorHandlers u' = uw_errorHandlers u"
proof -
  have "uw_errorHandlers u' = uw_errorHandlers v" if "drain_bucket script_act at v = Some (r, u')" for v
    using that by (induction rule: drain_induct) (auto dest: run_actions_handlers)
  from this [of "u\<lparr>uw_phase := Some at\<rparr>"] assms show ?thesis by (simp add: runPhase_def)
qed

lemma try_phases_handlers:
  assumes "try_phases script_act (script_action body result) u = Some (r, u')"
  shows "uw_errorHandlers u' = uw_errorHandlers u"
  using assms unfolding try_phases_def and_then_def
  by (auto simp: script_action_def handlers_register_all
      split: option.split_asm prod.split_asm sum.split_asm dest!: runPhase_handlers)

lemma try_phases_result:
  assumes "try_phases script_act (script_action body result) u = Some (Inr res, u')"
  shows "res = result"
  using assms unfolding try_phases_def
  by (auto simp: script_action_def split: option.split_asm prod.split_asm sum.split_asm)

text \<open>
  Who threw: a run that ends well has called nothing that throws; a run that ends with an error
  has it from the last action called, which was called in the phase given.
\<close>

definition threw_last :: "'e option \<Rightarrow> phase \<Rightarrow> (phase \<times> 'e script) list \<Rightarrow> bool" where
  "threw_last r p calls \<longleftrightarrow>
     (case r of
        None \<Rightarrow> (\<forall>c \<in> set calls. sc_throws (snd c) = None)
      | Some e \<Rightarrow> (\<exists>before a. calls = before @ [(p, a)] \<and> sc_throws a = Some e \<and>
                     (\<forall>c \<in> set before. sc_throws (snd c) = None)))"

lemma threw_last_append: "threw_last None p xs \<Longrightarrow> threw_last r q ys \<Longrightarrow> threw_last r q (xs @ ys)"
  by (cases r) (fastforce simp: threw_last_def)+

lemma run_actions_throws:
  assumes "run_actions script_act at as u = (r, u')"
  shows "\<exists>new. uw_calls u' = uw_calls u @ new \<and> threw_last r at new"
  using assms
proof (induction as arbitrary: u)
  case Nil
  then show ?case by (simp add: threw_last_def)
next
  case (Cons a as)
  let ?u = "register_all (sc_registers a) (u\<lparr>uw_calls := uw_calls u @ [(at, a)]\<rparr>)"
  have calls: "uw_calls ?u = uw_calls u @ [(at, a)]"
    using lifecycle_register_all [of "sc_registers a" "u\<lparr>uw_calls := uw_calls u @ [(at, a)]\<rparr>"] by (simp add: lifecycle_def)
  show ?case
  proof (cases "sc_throws a")
    case None
    with Cons.prems have "run_actions script_act at as ?u = (r, u')" by (simp add: script_act_def [of a])
    from Cons.IH [OF this] obtain new where "uw_calls u' = uw_calls ?u @ new" "threw_last r at new" by blast
    moreover have "threw_last None at [(at, a)]" using None by (simp add: threw_last_def)
    ultimately show ?thesis using calls threw_last_append by fastforce
  next
    case (Some e)
    with Cons.prems have "r = Some e" "u' = ?u" by (auto simp: script_act_def [of a] split: option.splits)
    moreover have "threw_last (Some e) at [(at, a)]" using Some by (simp add: threw_last_def)
    ultimately show ?thesis using calls by blast
  qed
qed

lemma runPhase_throws:
  assumes "runPhase script_act at u = Some (r, u')"
  shows "uw_phase u' = Some at" "\<exists>new. uw_calls u' = uw_calls u @ new \<and> threw_last r at new"
proof -
  show "uw_phase u' = Some at" using scripts.runPhase_calls [OF assms] by (auto simp: lifecycle_def)
  have "\<exists>new. uw_calls u' = uw_calls v @ new \<and> threw_last r at new" if "drain_bucket script_act at v = Some (r, u')" for v
    using that
  proof (induction rule: drain_induct)
    case (empty u)
    then show ?case by (simp add: threw_last_def)
  next
    case (throw u e)
    then show ?case using run_actions_throws by fastforce
  next
    case (again u u1)
    from run_actions_throws [OF again(2)] again(3) show ?case using threw_last_append by fastforce
  qed
  from this [of "u\<lparr>uw_phase := Some at\<rparr>"] assms
  show "\<exists>new. uw_calls u' = uw_calls u @ new \<and> threw_last r at new" by (simp add: runPhase_def)
qed

text \<open>The same of two phases one after the other.\<close>

definition threw_in :: "'e option \<Rightarrow> ('e script, 'h, 'w) uow \<Rightarrow> ('e script, 'h, 'w) uow \<Rightarrow> bool" where
  "threw_in r u u' \<longleftrightarrow>
     (\<exists>p new. uw_phase u' = Some p \<and> uw_calls u' = uw_calls u @ new \<and> threw_last r p new)"

lemma threw_in_phase: "runPhase script_act at u = Some (r, u') \<Longrightarrow> threw_in r u u'"
  using runPhase_throws unfolding threw_in_def by blast

lemma threw_in_then:
  assumes "and_then m f = Some (r, u')"
    and "\<And>r v. m = Some (r, v) \<Longrightarrow> threw_in r u v" "\<And>v. f v = Some (r, u') \<Longrightarrow> threw_in r v u'"
  shows "threw_in r u u'"
proof -
  obtain r1 v where m: "m = Some (r1, v)" using assms(1) by (cases m) (auto simp: and_then_def)
  note one = assms(2) [OF m]
  show ?thesis
  proof (cases r1)
    case None
    with m assms(1) have "f v = Some (r, u')" by simp
    from assms(3) [OF this] one None show ?thesis
      unfolding threw_in_def using threw_last_append by (metis append.assoc)
  qed (use m assms(1) one in simp)
qed

lemma try_phases_throws:
  assumes "try_phases script_act (script_action body result) u = Some (r, u')"
  shows "case r of
      Inr _ \<Rightarrow> sc_throws body = None \<and> threw_in None u u'
    | Inl e \<Rightarrow> threw_in (Some e) u u' \<and> (uw_phase u' \<in> {Some PRE_INVOCATION, Some INVOCATION} \<or> sc_throws body = None) \<or>
               sc_throws body = Some e \<and> threw_in None u u' \<and> uw_phase u' = Some INVOCATION"
proof -
  obtain r1 u1 where 1: "and_then (runPhase script_act PRE_INVOCATION u) (runPhase script_act INVOCATION) = Some (r1, u1)"
    using assms by (auto simp: try_phases_def split: option.splits)
  have t1: "threw_in r1 u u1" by (rule threw_in_then [OF 1]) (auto intro: threw_in_phase)
  have p1: "uw_phase u1 \<in> {Some PRE_INVOCATION, Some INVOCATION} \<and> (r1 = None \<longrightarrow> uw_phase u1 = Some INVOCATION)"
    using 1 by (auto simp: and_then_def split: option.split_asm prod.split_asm dest: runPhase_throws(1))
  show ?thesis
  proof (cases r1)
    case (Some e)
    with assms 1 t1 p1 show ?thesis by (auto simp: try_phases_def)
  next
    case None
    let ?u2 = "register_all (sc_registers body) u1"
    have same: "uw_phase ?u2 = uw_phase u1" "uw_calls ?u2 = uw_calls u1"
      using lifecycle_register_all [of "sc_registers body" u1] by (auto simp: lifecycle_def)
    have t2: "threw_in None u ?u2" using t1 None same by (simp add: threw_in_def)
    show ?thesis
    proof (cases "sc_throws body")
      case (Some e)
      with assms 1 None t2 p1 same show ?thesis by (auto simp: try_phases_def script_action_def)
    next
      case quiet: None
      with assms 1 None obtain r2 where 2: "and_then (runPhase script_act PREPARE_COMMIT ?u2) (\<lambda>u3.
          and_then (runPhase script_act COMMIT u3) (runPhase script_act AFTER_COMMIT)) = Some (r2, u')"
        "r = (case r2 of None \<Rightarrow> Inr result | Some e \<Rightarrow> Inl e)"
        by (auto simp: try_phases_def script_action_def split: option.splits)
      have "threw_in r2 ?u2 u'"
      proof (rule threw_in_then [OF 2(1)])
        fix v assume "and_then (runPhase script_act COMMIT v) (runPhase script_act AFTER_COMMIT) = Some (r2, u')"
        then show "threw_in r2 v u'" by (rule threw_in_then) (auto intro: threw_in_phase)
      qed (auto intro: threw_in_phase)
      then have "threw_in r2 u u'"
        using t2 unfolding threw_in_def using threw_last_append by (metis append.assoc)
      with 2(2) quiet show ?thesis by (cases r2) auto
    qed
  qed
qed

text \<open>A failed try: the phase it is in, and who threw.\<close>

lemma try_phases_failed:
  assumes tried: "try_phases script_act (script_action body result) u = Some (Inl e, v)"
    and fresh: "uw_calls u = []" "uw_notified u = []"
  obtains p where "uw_phase v = Some p" "sorted (map fst (uw_calls v))" "\<forall>c \<in> set (uw_calls v). fst c \<le> p" "uw_notified v = []"
    "sc_throws body = Some e \<and> p = INVOCATION \<and> (\<forall>c \<in> set (uw_calls v). sc_throws (snd c) = None) \<or>
     (p \<le> INVOCATION \<or> sc_throws body = None) \<and>
     (\<exists>before a. uw_calls v = before @ [(p, a)] \<and> sc_throws a = Some e \<and> (\<forall>c \<in> set before. sc_throws (snd c) = None))"
proof -
  obtain p where p: "uw_phase v = Some p" "sorted (map fst (uw_calls v))" "\<forall>c \<in> set (uw_calls v). fst c \<le> p" "uw_notified v = []"
    using scripts.try_phases_ran [OF tried] fresh by (auto simp: scripts.ran_upto_def)
  moreover have "sc_throws body = Some e \<and> p = INVOCATION \<and> (\<forall>c \<in> set (uw_calls v). sc_throws (snd c) = None) \<or>
      (p \<le> INVOCATION \<or> sc_throws body = None) \<and>
      (\<exists>before a. uw_calls v = before @ [(p, a)] \<and> sc_throws a = Some e \<and> (\<forall>c \<in> set before. sc_throws (snd c) = None))"
    using try_phases_throws [OF tried] fresh p(1) by (auto simp: threw_in_def threw_last_def less_eq_phase_def)
  ultimately show thesis by (rule that)
qed

lemma notify_complete_nothing: "notify_complete (\<lambda>h u. u) i u = Some u"
proof (induction "length (uw_completeHandlers u) - i" arbitrary: i)
  case 0
  then show ?case by (subst notify_complete.simps) simp
next
  case (Suc n)
  then have "notify_complete (\<lambda>h u. u) (Suc i) u = Some u" by simp
  then show ?case by (subst notify_complete.simps) simp
qed

section \<open>Properties\<close>

text \<open>
  C17: executing a unit of work whose actions each end always returns. Actions run in the order of
  the phases. It succeeds only if neither the body nor any action called threw; then everything
  registered beforehand has run and the unit of work is completed. It fails with what the body
  threw, and then the failed phase is INVOCATION, or with what the last action called threw, and
  then the failed phase is the one that action ran in; nothing called before it threw, no action
  of a later phase has run, and every error handler was told, once and in order, the failed
  phase. Either way the unit of work is closed: it cannot be executed again and no mutating
  capability works on it.
\<close>

theorem execute_runs_phases_in_order:
  assumes "uw_status u = NotStarted" "uw_calls u = []" "uw_notified u = []"
  shows "\<exists>r u'. execute script_act (\<lambda>h e p u. u) (\<lambda>h u. u) (script_action body result) u = Inr (Some (r, u')) \<and>
     sorted (map fst (uw_calls u')) \<and>
     (case r of
        Inr res \<Rightarrow> res = result \<and> uw_status u' = Completed \<and> uw_notified u' = [] \<and>
                   (\<forall>p. Pair p ` set (bucket p u) \<subseteq> set (uw_calls u')) \<and>
                   sc_throws body = None \<and> (\<forall>c \<in> set (uw_calls u'). sc_throws (snd c) = None)
      | Inl e \<Rightarrow> uw_status u' = Errored \<and>
                 (\<exists>p. (\<forall>c \<in> set (uw_calls u'). fst c \<le> p) \<and>
                      uw_notified u' = map (\<lambda>h. (h, Some p)) (uw_errorHandlers u) \<and>
                      (sc_throws body = Some e \<and> p = INVOCATION \<and> (\<forall>c \<in> set (uw_calls u'). sc_throws (snd c) = None) \<or>
                       (p \<le> INVOCATION \<or> sc_throws body = None) \<and>
                       (\<exists>before a. uw_calls u' = before @ [(p, a)] \<and> sc_throws a = Some e \<and>
                          (\<forall>c \<in> set before. sc_throws (snd c) = None))))) \<and>
     execute script_act (\<lambda>h e p u. u) (\<lambda>h u. u) (script_action body result) u' = Inl AlreadyExecuted \<and>
     requireInvocation u' = Inl NoActiveUnitOfWork"
proof -
  let ?u = "u\<lparr>uw_status := Started\<rparr>"
  obtain r v where tried: "try_phases script_act (script_action body result) ?u = Some (r, v)"
    using try_phases_returns by blast
  note ran = scripts.try_phases_ran [OF tried] and hs = try_phases_handlers [OF tried]
    and threw = try_phases_throws [OF tried]
  show ?thesis
  proof (cases r)
    case (Inr res)
    let ?v = "v\<lparr>uw_status := Completed, uw_closed := True\<rparr>"
    have "execute script_act (\<lambda>h e p u. u) (\<lambda>h u. u) (script_action body result) u = Inr (Some (Inr res, ?v))"
      using assms tried Inr by (simp add: execute_def drivePhases_def notify_complete_nothing)
    moreover have "\<forall>p. p \<le> AFTER_COMMIT" by (rule allI, rename_tac p, case_tac p) (simp_all add: less_eq_phase_def)
    moreover have "sc_throws body = None" "\<forall>c \<in> set (uw_calls v). sc_throws (snd c) = None"
      using threw Inr assms(2) by (auto simp: threw_in_def threw_last_def)
    ultimately show ?thesis
      using ran Inr assms try_phases_result tried
      by (intro exI [of _ "Inr res"] exI [of _ ?v])
        (auto simp: scripts.ran_upto_def execute_def requireInvocation_def)
  next
    case (Inl e)
    let ?v = "v\<lparr>uw_status := Errored, uw_closed := True\<rparr>"
    obtain w where w: "notify_errors (\<lambda>h e p u. u) e (uw_phase v) 0 ?v = Some w"
      "lifecycle w = lifecycle (?v\<lparr>uw_notified := uw_notified v @ map (\<lambda>h. (h, uw_phase v)) (uw_errorHandlers v)\<rparr>)"
      using notify_errors_all [of "\<lambda>h e p u. u" e "uw_phase v" 0 ?v] by auto
    have run: "execute script_act (\<lambda>h e p u. u) (\<lambda>h u. u) (script_action body result) u = Inr (Some (Inl e, w))"
      using assms tried Inl w(1) by (simp add: execute_def drivePhases_def)
    have fresh: "uw_calls ?u = []" "uw_notified ?u = []" using assms by simp_all
    from try_phases_failed [OF tried [unfolded Inl] fresh] obtain p where p: "uw_phase v = Some p"
      "sorted (map fst (uw_calls v))" "\<forall>c \<in> set (uw_calls v). fst c \<le> p" "uw_notified v = []"
      and who: "sc_throws body = Some e \<and> p = INVOCATION \<and> (\<forall>c \<in> set (uw_calls v). sc_throws (snd c) = None) \<or>
         (p \<le> INVOCATION \<or> sc_throws body = None) \<and>
         (\<exists>before a. uw_calls v = before @ [(p, a)] \<and> sc_throws a = Some e \<and> (\<forall>c \<in> set before. sc_throws (snd c) = None))" .
    have w': "uw_calls w = uw_calls v" "uw_notified w = map (\<lambda>h. (h, Some p)) (uw_errorHandlers u)" "uw_status w = Errored" "uw_closed w"
      using w(2) hs p(1,4) by (simp_all add: lifecycle_def)
    with p(3) who have "\<exists>p. (\<forall>c \<in> set (uw_calls w). fst c \<le> p) \<and> uw_notified w = map (\<lambda>h. (h, Some p)) (uw_errorHandlers u) \<and>
        (sc_throws body = Some e \<and> p = INVOCATION \<and> (\<forall>c \<in> set (uw_calls w). sc_throws (snd c) = None) \<or>
         (p \<le> INVOCATION \<or> sc_throws body = None) \<and>
         (\<exists>before a. uw_calls w = before @ [(p, a)] \<and> sc_throws a = Some e \<and> (\<forall>c \<in> set before. sc_throws (snd c) = None)))"
      by (intro exI [of _ p]) simp
    with run w' p(2) show ?thesis
      by (intro exI [of _ "Inl e"] exI [of _ w]) (simp add: execute_def requireInvocation_def)
  qed
qed

definition late_task :: "(string script, string, unit) uow" where
  "late_task = on_phase COMMIT (Script ''commit'' None [(COMMIT, Script ''late'' None []), (PRE_INVOCATION, Script ''dropped'' None [])])
     (on_phase PRE_INVOCATION (Script ''begin'' None []) (unitOfWork ()))"

definition failing_task :: "(string script, string, unit) uow" where
  "failing_task = onError ''undo'' (onAfterCommit (Script ''after'' None []) (onCommit (Script ''commit'' (Some ''boom'') []) late_task))"

theorem execute_runs_phases_in_order_witness:
  "\<exists>e u' p before a.
     execute script_act (\<lambda>h e p u. u) (\<lambda>h u. u) (script_action (Script ''body'' None []) (7::nat)) failing_task = Inr (Some (Inl e, u')) \<and>
     uw_notified u' = [(''undo'', Some p)] \<and> uw_calls u' = before @ [(p, a)] \<and> sc_throws a = Some e"
proof -
  have start: "uw_status failing_task = NotStarted" "uw_calls failing_task = []" "uw_notified failing_task = []"
    "uw_errorHandlers failing_task = [''undo'']"
    and bad: "Script ''commit'' (Some ''boom'') [] \<in> set (bucket COMMIT failing_task)"
    by (simp_all add: failing_task_def late_task_def unitOfWork_def onError_def onAfterCommit_def onCommit_def on_phase_def bucket_def)
  note ends = execute_runs_phases_in_order [OF start(1-3), of "Script ''body'' None []" "7::nat", unfolded start(4)]
  from ends obtain r u' where
    run: "execute script_act (\<lambda>h e p u. u) (\<lambda>h u. u) (script_action (Script ''body'' None []) (7::nat)) failing_task = Inr (Some (r, u'))"
    by blast
  show ?thesis
  proof (cases r)
    case (Inr res)
    with ends run have "Pair COMMIT ` set (bucket COMMIT failing_task) \<subseteq> set (uw_calls u')"
      "\<forall>c \<in> set (uw_calls u'). sc_throws (snd c) = None" by auto
    with bad show ?thesis by fastforce
  next
    case (Inl e)
    with ends run show ?thesis by auto
  qed
qed

end
