(* ===== verification/Handling.thy ===== *)
theory Handling
  imports Unit_Of_Work
begin

text \<open>
  Handling a command: the capabilities of a handler's context (\<open>event-sourcing/append.ts\<close>,
  \<open>event-sourcing/load.ts\<close>, \<open>command-handling/send.ts\<close>), the flush (\<open>unit-of-work/event-flush.ts\<close>), and the
  path from the bus to the handler (\<open>command-handling/local-bus.ts\<close>, \<open>subscribe.ts\<close>, \<open>handler.ts\<close>).

  \<open>world\<close> is what tasks share: the log sites by store object, the repositories built so far,
  the clock, and the identifiers the \<open>uuid\<close> package will hand out, which are a parameter. A
  handler is a \<open>program\<close>: a tree of capability calls in which the continuation sees each call's
  result or failure, so it may decide on what it read and may catch what was thrown. Between
  two steps of a task other tasks run: \<open>env\<close> is what they do to the world at each point where
  the source awaits, counted by \<open>w_awaits\<close>. The bus behind \<open>ctx.send\<close> is a parameter.

  \<open>answers\<close> is what the capabilities told a handler, computed apart from what the task records
  for its flush. The theory ends with the consistency of a whole command: what the handler
  appended is in the log only if every answer it got still held when the flush ran, and a flush is
  refused only if some answer did not.
\<close>

section \<open>The world of a task\<close>

record world =
  w_sites :: "(nat, log_site) jsmap"
  w_repositories :: repositories
  w_now :: int
  w_ids :: "nat \<Rightarrow> string"
  w_nextId :: nat
  w_awaits :: nat

datatype task_error =
    UowRefused uow_error
  | TagFailed js_error
  | LoadFailed load_error
  | FlushRefused store_error
  | FlushQuery query_error
  | HandlerThrew js_error
  | NoHandlerRegistered string
  | DifferentHandlerRegistered string
  | NoCommandBus

text \<open>The one phase action the library itself registers on a command's task.\<close>

datatype task_action = FlushEvents nat "(event_query \<Rightarrow> event_query) option"

type_synonym task_uow = "(task_action, unit, world) uow"

type_synonym environment = "nat \<Rightarrow> world \<Rightarrow> world"

definition await_world :: "environment \<Rightarrow> world \<Rightarrow> world" where
  "await_world env w = (env (w_awaits w) w)\<lparr>w_awaits := Suc (w_awaits w)\<rparr>"

definition await_task :: "environment \<Rightarrow> task_uow \<Rightarrow> task_uow" where
  "await_task env u = u\<lparr>uw_world := await_world env (uw_world u)\<rparr>"

definition generateIdentifier :: "world \<Rightarrow> string \<times> world" where
  "generateIdentifier w = (w_ids w (w_nextId w), w\<lparr>w_nextId := Suc (w_nextId w)\<rparr>)"

definition requireLog :: "nat option \<Rightarrow> string \<Rightarrow> world \<Rightarrow> task_error + (nat \<times> log_site)" where
  "requireLog store call w =
     (case store of
        None \<Rightarrow> Inl (LoadFailed (NoLogAttached call))
      | Some i \<Rightarrow> (case map_get (w_sites w) i of
                     None \<Rightarrow> Inl (LoadFailed (NoLogAttached call))
                   | Some site \<Rightarrow> Inr (i, site)))"

section \<open>Appending\<close>

text \<open>The first evolver whose event has the type, applied to one cached result.\<close>

definition evolve_cached :: "state_module \<Rightarrow> event_message \<Rightarrow> load_error + load_result \<Rightarrow> load_error + load_result" where
  "evolve_cached m e cached =
     (case find (\<lambda>(d, _). qualifiedNameToString (ed_name d) = qualifiedNameToString (em_name e)) (sm_evolvers m) of
        None \<Rightarrow> cached
      | Some (_, evolve) \<Rightarrow>
          bind_result cached (\<lambda>result.
            case evolve (lr_state result) e of
              Inl err \<Rightarrow> Inl (EvolverThrew err)
            | Inr st \<Rightarrow> Inr (result\<lparr>lr_state := st\<rparr>)))"

fun evolve_entries ::
  "event_message \<Rightarrow> (string, state_module \<times> js) jsmap \<Rightarrow> (string, load_error + load_result) jsmap
     \<Rightarrow> (string, load_error + load_result) jsmap" where
  "evolve_entries e [] entries = entries"
| "evolve_entries e ((cacheKey, m, _) # rest) entries =
     (case map_get entries cacheKey of
        None \<Rightarrow> evolve_entries e rest entries
      | Some cached \<Rightarrow> evolve_entries e rest (map_set cacheKey (evolve_cached m e cached) entries))"

definition append_one ::
  "event_descriptor \<Rightarrow> js \<Rightarrow> metadata option \<Rightarrow> task_uow \<Rightarrow> (task_error + unit) \<times> task_uow" where
  "append_one d payload md u =
     (case requireInvocation u of
        Inl e \<Rightarrow> (Inl (UowRefused e), u)
      | Inr () \<Rightarrow>
          let m = (case md of None \<Rightarrow> emptyMetadata | Some m \<Rightarrow> m)
          in case tagsOf d payload m of
               Inl e \<Rightarrow> (Inl (TagFailed e), u)
             | Inr tags \<Rightarrow>
                 let (ident, w) = generateIdentifier (uw_world u);
                     e = \<lparr>em_identifier = ident, em_name = ed_name d, em_payload = payload, em_metadata = m,
                          em_version = ed_version d, em_timestamp = w_now w, em_tags = tags\<rparr>;
                     cache = uw_stateCache u
                 in (Inr (), u\<lparr>uw_world := w,
                       uw_events := (uw_events u)\<lparr>eb_buffered := eb_buffered (uw_events u) @ [e]\<rparr>,
                       uw_stateCache := cache\<lparr>ca_entries := evolve_entries e (ca_modules cache) (ca_entries cache)\<rparr>\<rparr>))"

text \<open>\<open>ctx.append\<close>: the batch form fans out to the single one and stops at the first throw.\<close>

fun append_fn ::
  "(event_descriptor \<times> js \<times> metadata option) list \<Rightarrow> task_uow \<Rightarrow> (task_error + unit) \<times> task_uow" where
  "append_fn [] u = (Inr (), u)"
| "append_fn ((d, payload, md) # rest) u =
     (case append_one d payload md u of
        (Inl e, u') \<Rightarrow> (Inl e, u')
      | (Inr _, u') \<Rightarrow> append_fn rest u')"

section \<open>Reading\<close>

definition recordSourcing :: "sourcing_info \<Rightarrow> task_uow \<Rightarrow> task_uow" where
  "recordSourcing info u =
     u\<lparr>uw_events := (uw_events u)\<lparr>eb_sourcingInfos := eb_sourcingInfos (uw_events u) @ [info]\<rparr>\<rparr>"

definition stableIdKey :: "js \<Rightarrow> string" where
  "stableIdKey ident = (case stringify ident of Some t \<Rightarrow> t | None \<Rightarrow> ''undefined'')"

definition cache_key :: "state_module \<Rightarrow> js \<Rightarrow> string" where
  "cache_key m ident = sm_identity m @ '':'' @ stableIdKey ident"

text \<open>
  \<open>ctx.load\<close>. A repository that cannot be built throws before anything is cached; a load that
  fails is cached as its failure. Other tasks run while the first read, the replay read and the
  cached promise are awaited.
\<close>

definition load_uncached ::
  "environment \<Rightarrow> state_module \<Rightarrow> js \<Rightarrow> nat \<Rightarrow> log_site \<Rightarrow> task_uow \<Rightarrow> (load_error + unit) \<times> task_uow" where
  "load_uncached env m ident i site u =
     (let (repo, repos) = repositoryFor (w_repositories (uw_world u)) m i site;
          u1 = u\<lparr>uw_world := (uw_world u)\<lparr>w_repositories := repos\<rparr>\<rparr>
      in case repo of
           Inl e \<Rightarrow> (Inl e, u1)
         | Inr r \<Rightarrow>
             let u2 = await_task env u1;
                 at_replay = (case map_get (w_sites (uw_world u2)) i of Some s \<Rightarrow> s | None \<Rightarrow> site);
                 u3 = await_task env u2;
                 at_write = (case map_get (w_sites (uw_world u3)) i of Some s \<Rightarrow> s | None \<Rightarrow> site);
                 elapsed = w_now (uw_world u3) - w_now (uw_world u);
                 outcome = doLoad r ident elapsed site at_replay at_write;
                 w' = (case outcome of
                         Inl _ \<Rightarrow> uw_world u3
                       | Inr (_, site') \<Rightarrow> (uw_world u3)\<lparr>w_sites := map_set i site' (w_sites (uw_world u3))\<rparr>);
                 cache = uw_stateCache u
             in (Inr (), u3\<lparr>uw_world := w',
                   uw_stateCache := cache\<lparr>
                     ca_entries := map_set (cache_key m ident) (map_sum (\<lambda>e. e) fst outcome) (ca_entries cache),
                     ca_modules := map_set (cache_key m ident) (m, ident) (ca_modules cache)\<rparr>\<rparr>))"

definition load_fn ::
  "environment \<Rightarrow> nat option \<Rightarrow> state_module \<Rightarrow> js \<Rightarrow> task_uow \<Rightarrow> (task_error + js) \<times> task_uow" where
  "load_fn env store m ident u =
     (case requireLive u of
        Inl e \<Rightarrow> (Inl (UowRefused e), u)
      | Inr () \<Rightarrow>
          (case requireLog store (''ctx.load('' @ sm_identity m @ '')'') (uw_world u) of
             Inl e \<Rightarrow> (Inl e, u)
           | Inr (i, site) \<Rightarrow>
               (case (if map_get (ca_entries (uw_stateCache u)) (cache_key m ident) = None
                      then load_uncached env m ident i site u else (Inr (), u)) of
                  (Inl e, u') \<Rightarrow> (Inl (LoadFailed e), u')
                | (Inr (), u') \<Rightarrow>
                    (case map_get (ca_entries (uw_stateCache u')) (cache_key m ident) of
                       None \<Rightarrow> (Inl (LoadFailed (NoLogAttached '''')), u')
                     | Some (Inl e) \<Rightarrow> (Inl (LoadFailed e), await_task env u')
                     | Some (Inr result) \<Rightarrow>
                         (Inr (lr_state result), recordSourcing (lr_sourcingInfo result) (await_task env u'))))))"

text \<open>\<open>ctx.source\<close>: never cached.\<close>

definition source_fn ::
  "environment \<Rightarrow> nat option \<Rightarrow> event_query \<Rightarrow> task_uow \<Rightarrow> (task_error + event_message list) \<times> task_uow" where
  "source_fn env store q u =
     (case requireLive u of
        Inl e \<Rightarrow> (Inl (UowRefused e), u)
      | Inr () \<Rightarrow>
          (case requireLog store ''ctx.source()'' (uw_world u) of
             Inl e \<Rightarrow> (Inl e, u)
           | Inr (i, site) \<Rightarrow>
               (case site_source site (sourcingCondition q None None) of
                  Inl e \<Rightarrow> (Inl (LoadFailed (StoreRefused e)), await_task env u)
                | Inr r \<Rightarrow>
                    (Inr (sr_events r),
                     recordSourcing \<lparr>si_query = q, si_markerPosition = cm_position (sr_marker r)\<rparr> (await_task env u)))))"

section \<open>The flush\<close>

definition earliest_marker :: "sourcing_info list \<Rightarrow> int" where
  "earliest_marker infos =
     foldl (\<lambda>m s. if si_markerPosition s < m then si_markerPosition s else m) (si_markerPosition (hd infos)) infos"

definition flush_condition ::
  "sourcing_info list \<Rightarrow> (event_query \<Rightarrow> event_query) option \<Rightarrow> query_error + append_condition option" where
  "flush_condition infos override =
     (if infos = [] then Inr None
      else bind_result (map_result (queryItems \<circ> si_query) infos) (\<lambda>itemss.
             let combined = QArray (map QItem (concat itemss));
                 earliest = markerAt (earliest_marker infos)
             in Inr (Some (case override of
                  Some f \<Rightarrow> \<lparr>ac_query = f combined, ac_marker = earliest, ac_reads = None\<rparr>
                | None \<Rightarrow>
                    \<lparr>ac_query = combined, ac_marker = earliest,
                     ac_reads = Some (map (\<lambda>s. \<lparr>ar_query = si_query s, ar_marker = markerAt (si_markerPosition s)\<rparr>)
                                        infos)\<rparr>))))"

fun site_with_log :: "log_site \<Rightarrow> event_store \<Rightarrow> log_site" where
  "site_with_log (BareLog _) s = BareLog s"
| "site_with_log (SnapshottingLog ss) s = SnapshottingLog (ss\<lparr>sn_next := s\<rparr>)"

definition flush_events :: "nat \<Rightarrow> (event_query \<Rightarrow> event_query) option \<Rightarrow> task_uow \<Rightarrow> task_error option \<times> task_uow" where
  "flush_events i override u =
     (if eb_buffered (uw_events u) = [] then (None, u)
      else
        (case flush_condition (eb_sourcingInfos (uw_events u)) override of
           Inl e \<Rightarrow> (Some (FlushQuery e), u)
         | Inr condition \<Rightarrow>
             (case map_get (w_sites (uw_world u)) i of
                None \<Rightarrow> (Some (LoadFailed (NoLogAttached ''flush'')), u)
              | Some site \<Rightarrow>
                  (case append (site_log site) (eb_buffered (uw_events u)) condition of
                     Inl e \<Rightarrow> (Some (FlushRefused e), u)
                   | Inr (_, s') \<Rightarrow>
                       (None, u\<lparr>uw_world := (uw_world u)\<lparr>
                                 w_sites := map_set i (site_with_log site s') (w_sites (uw_world u))\<rparr>\<rparr>)))))"

definition task_act :: "environment \<Rightarrow> task_action \<Rightarrow> task_uow \<Rightarrow> task_error option \<times> task_uow" where
  "task_act env a u = (case a of FlushEvents i override \<Rightarrow> flush_events i override (await_task env u))"

definition registerEventFlush :: "nat \<Rightarrow> (event_query \<Rightarrow> event_query) option \<Rightarrow> task_uow \<Rightarrow> task_uow" where
  "registerEventFlush i override u =
     (if eb_flushRegistered (uw_events u) then u
      else onPrepareCommit (FlushEvents i override)
             (u\<lparr>uw_events := (uw_events u)\<lparr>eb_flushRegistered := True\<rparr>\<rparr>))"

section \<open>Commands\<close>

record command_message =
  cmd_identifier :: string
  cmd_name :: qualified_name
  cmd_payload :: js
  cmd_metadata :: metadata
  cmd_timestamp :: "int option"

definition withInstant :: "command_message \<Rightarrow> int \<Rightarrow> command_message" where
  "withInstant m instant = (if cmd_timestamp m = None then m\<lparr>cmd_timestamp := Some instant\<rparr> else m)"

text \<open>The body of a handler: what it asks of its context and what it does with the answers.\<close>

datatype program =
    Return js
  | Throw js_error
  | Append "(event_descriptor \<times> js \<times> metadata option) list" "task_error + unit \<Rightarrow> program"
  | Source event_query "task_error + event_message list \<Rightarrow> program"
  | Load state_module js "task_error + js \<Rightarrow> program"
  | Send qualified_name js "metadata option" "task_error + js \<Rightarrow> program"

type_synonym bus = "command_message \<Rightarrow> world \<Rightarrow> (task_error + js) \<times> world"

record command_handler =
  ch_name :: qualified_name
  ch_handler :: "command_message \<Rightarrow> program"
  ch_appendCondition :: "(command_message \<Rightarrow> event_query \<Rightarrow> event_query) option"

record invocation_deps =
  dp_commandBus :: "bus option"
  dp_eventStore :: "nat option"

text \<open>\<open>ctx.send\<close>: the command gets a message of its own and is handled in a task of its own.\<close>

definition send_fn ::
  "environment \<Rightarrow> bus option \<Rightarrow> qualified_name \<Rightarrow> js \<Rightarrow> metadata option \<Rightarrow> task_uow \<Rightarrow> (task_error + js) \<times> task_uow" where
  "send_fn env bus name payload md u =
     (case requireInvocation u of
        Inl e \<Rightarrow> (Inl (UowRefused e), u)
      | Inr () \<Rightarrow>
          (case bus of
             None \<Rightarrow> (Inl NoCommandBus, u)
           | Some dispatch \<Rightarrow>
               let (ident, w) = generateIdentifier (uw_world u);
                   (r, w') = dispatch \<lparr>cmd_identifier = ident, cmd_name = name, cmd_payload = payload,
                               cmd_metadata = (case md of None \<Rightarrow> emptyMetadata | Some m \<Rightarrow> m),
                               cmd_timestamp = Some (w_now w)\<rparr> w
               in (r, await_task env (u\<lparr>uw_world := w'\<rparr>))))"

text \<open>The edge verb: no task yet, so no instant.\<close>

definition send :: "bus \<Rightarrow> qualified_name \<Rightarrow> js \<Rightarrow> metadata option \<Rightarrow> world \<Rightarrow> (task_error + js) \<times> world" where
  "send bus name payload md w =
     (let (ident, w') = generateIdentifier w
      in bus \<lparr>cmd_identifier = ident, cmd_name = name, cmd_payload = payload,
              cmd_metadata = (case md of None \<Rightarrow> emptyMetadata | Some m \<Rightarrow> m), cmd_timestamp = None\<rparr> w')"

text \<open>Running a handler's program on the capabilities of its context.\<close>

primrec run_program :: "environment \<Rightarrow> invocation_deps \<Rightarrow> program \<Rightarrow> task_uow \<Rightarrow> (task_error + js) \<times> task_uow" where
  "run_program env deps (Return v) u = (Inr v, u)"
| "run_program env deps (Throw e) u = (Inl (HandlerThrew e), u)"
| "run_program env deps (Append events k) u =
     (let (r, u') = append_fn events u in run_program env deps (k r) u')"
| "run_program env deps (Source q k) u =
     (let (r, u') = source_fn env (dp_eventStore deps) q u in run_program env deps (k r) u')"
| "run_program env deps (Load m ident k) u =
     (let (r, u') = load_fn env (dp_eventStore deps) m ident u in run_program env deps (k r) u')"
| "run_program env deps (Send name payload md k) u =
     (let (r, u') = send_fn env (dp_commandBus deps) name payload md u in run_program env deps (k r) u')"

definition commandInvocation ::
  "environment \<Rightarrow> command_handler \<Rightarrow> invocation_deps \<Rightarrow> command_message \<Rightarrow> task_uow \<Rightarrow> (task_error + js) \<times> task_uow" where
  "commandInvocation env h deps message u =
     (let u' = (case dp_eventStore deps of
                  None \<Rightarrow> u
                | Some i \<Rightarrow> registerEventFlush i (map_option (\<lambda>f. f message) (ch_appendCondition h)) u)
      in run_program env deps (ch_handler h message) u')"

section \<open>The bus\<close>

text \<open>A subscribed handler is a closure; two are the same only if they are the same object, hence the number.\<close>

record command_bus =
  cb_handlers :: "(string, nat \<times> command_handler \<times> invocation_deps) jsmap"

definition bus_subscribe ::
  "string \<Rightarrow> nat \<times> command_handler \<times> invocation_deps \<Rightarrow> command_bus \<Rightarrow> task_error + command_bus" where
  "bus_subscribe commandName entry b =
     (case map_get (cb_handlers b) commandName of
        Some existing \<Rightarrow>
          if fst existing \<noteq> fst entry then Inl (DifferentHandlerRegistered commandName)
          else Inr (b\<lparr>cb_handlers := map_set commandName entry (cb_handlers b)\<rparr>)
      | None \<Rightarrow> Inr (b\<lparr>cb_handlers := map_set commandName entry (cb_handlers b)\<rparr>))"

fun subscribeCommandHandlers ::
  "(nat \<times> command_handler) list \<Rightarrow> invocation_deps \<Rightarrow> command_bus \<Rightarrow> task_error + command_bus" where
  "subscribeCommandHandlers [] deps b = Inr b"
| "subscribeCommandHandlers ((n, h) # rest) deps b =
     bind_result (bus_subscribe (qualifiedNameToString (ch_name h)) (n, h, deps) b)
       (subscribeCommandHandlers rest deps)"

definition execute_command ::
  "environment \<Rightarrow> command_handler \<Rightarrow> invocation_deps \<Rightarrow> command_message \<Rightarrow> world
     \<Rightarrow> uow_error + ((task_error + js) \<times> task_uow) option" where
  "execute_command env h deps message w =
     execute (task_act env) (\<lambda>_ _ _ u. u) (\<lambda>_ u. u)
       (\<lambda>u. commandInvocation env h deps (withInstant message (w_now (uw_world u))) u) (unitOfWork w)"

text \<open>\<open>dispatch\<close>; the outer \<open>None\<close> stands for a task that never ends.\<close>

definition dispatch :: "environment \<Rightarrow> command_bus \<Rightarrow> command_message \<Rightarrow> world \<Rightarrow> ((task_error + js) \<times> world) option" where
  "dispatch env b message w =
     (let key = qualifiedNameToString (cmd_name message)
      in case map_get (cb_handlers b) key of
           None \<Rightarrow> Some (Inl (NoHandlerRegistered key), w)
         | Some (_, h, deps) \<Rightarrow>
             (case execute_command env h deps message w of
                Inl e \<Rightarrow> Some (Inl (UowRefused e), w)
              | Inr outcome \<Rightarrow> map_option (\<lambda>(r, u). (r, uw_world u)) outcome))"

section \<open>What a handler leaves alone\<close>

text \<open>The parts of a unit of work that no capability of a context reaches.\<close>

definition frame :: "task_uow \<Rightarrow> task_uow \<Rightarrow> bool" where
  "frame u u' \<longleftrightarrow> lifecycle u' = lifecycle u \<and> uw_phaseActions u' = uw_phaseActions u"

lemma frame_refl [simp]: "frame u u"
  by (simp add: frame_def)

lemma frame_trans: "frame u u' \<Longrightarrow> frame u' u'' \<Longrightarrow> frame u u''"
  by (simp add: frame_def)

lemma frame_update [simp]:
  "frame u (u\<lparr>uw_world := w\<rparr>)" "frame u (u\<lparr>uw_events := ev\<rparr>)"
  "frame u (u\<lparr>uw_world := w, uw_events := ev, uw_stateCache := c\<rparr>)"
  "frame u (u\<lparr>uw_stateCache := c\<rparr>)" "frame u (u\<lparr>uw_stateCache := c, uw_world := w\<rparr>)"
  by (simp_all add: frame_def lifecycle_def)

lemma frame_await [simp]: "frame u (await_task env u)"
  by (simp add: await_task_def)

lemma frame_record: "frame u v \<Longrightarrow> frame u (recordSourcing info v)"
  by (simp add: recordSourcing_def frame_def lifecycle_def)

lemma frame_then_await: "frame u v \<Longrightarrow> frame u (await_task env v)"
  by (rule frame_trans [OF _ frame_await])

lemma frame_append_one: "append_one d p md u = (r, u') \<Longrightarrow> frame u u'"
  by (auto simp: append_one_def Let_def frame_def lifecycle_def split: sum.splits prod.splits unit.splits)

lemma frame_append_fn: "append_fn es u = (r, u') \<Longrightarrow> frame u u'"
proof (induction es arbitrary: u)
  case (Cons e es)
  then show ?case
    by (cases e) (auto split: prod.splits sum.splits dest!: frame_append_one intro: frame_trans)
qed simp

lemma frame_source_fn: "source_fn env st q u = (r, u') \<Longrightarrow> frame u u'"
  by (auto simp: source_fn_def split: sum.splits prod.splits unit.splits intro!: frame_record)

lemma frame_load_uncached: "load_uncached env m ident i site u = (r, u') \<Longrightarrow> frame u u'"
  by (auto simp: load_uncached_def Let_def await_task_def frame_def lifecycle_def split: sum.splits prod.splits)

lemma frame_load_fn: "load_fn env st m ident u = (r, u') \<Longrightarrow> frame u u'"
  by (auto simp: load_fn_def split: sum.splits prod.splits unit.splits if_splits option.splits
      dest!: frame_load_uncached intro!: frame_record frame_then_await)

lemma frame_send_fn: "send_fn env b n p md u = (r, u') \<Longrightarrow> frame u u'"
  by (auto simp: send_fn_def Let_def await_task_def frame_def lifecycle_def
      split: sum.splits prod.splits unit.splits option.splits)

lemma frame_run_program: "run_program env deps p u = (r, u') \<Longrightarrow> frame u u'"
proof (induction p arbitrary: u)
  case (Append es k)
  then show ?case by (auto split: prod.splits dest!: frame_append_fn) (blast intro: frame_trans)
next
  case (Source q k)
  then show ?case by (auto split: prod.splits dest!: frame_source_fn) (blast intro: frame_trans)
next
  case (Load m ident k)
  then show ?case by (auto split: prod.splits dest!: frame_load_fn) (blast intro: frame_trans)
next
  case (Send n p md k)
  then show ?case by (auto split: prod.splits dest!: frame_send_fn) (blast intro: frame_trans)
qed auto

lemma frame_flush: "flush_events i override u = (r, u') \<Longrightarrow> frame u u'"
  by (auto simp: flush_events_def frame_def lifecycle_def split: if_splits sum.splits option.splits prod.splits)

lemma frame_act: "task_act env a u = (r, u') \<Longrightarrow> frame u u'"
  by (cases a) (auto simp: task_act_def dest!: frame_flush intro: frame_trans [OF frame_await])

lemma frame_bucket: "frame u u' \<Longrightarrow> bucket p u' = bucket p u"
  by (simp add: frame_def bucket_def)

lemma register_flush_lifecycle: "lifecycle (registerEventFlush i override u) = lifecycle u"
  by (simp add: registerEventFlush_def onPrepareCommit_def lifecycle_on_phase) (simp add: lifecycle_def)

lemma register_flush_bucket: "\<exists>new. bucket p (registerEventFlush i override u) = bucket p u @ new"
  by (simp add: registerEventFlush_def onPrepareCommit_def bucket_on_phase) (simp add: bucket_def)

text \<open>So a command's task keeps the lifecycle's laws.\<close>

interpretation command: task "task_act env" "commandInvocation env h deps message"
proof unfold_locales
  fix a and u u' :: task_uow and r p
  show "task_act env a u = (r, u') \<Longrightarrow> lifecycle u' = lifecycle u" using frame_act by (auto simp: frame_def)
  show "task_act env a u = (r, u') \<Longrightarrow> \<exists>new. bucket p u' = bucket p u @ new" using frame_act frame_bucket by fastforce
next
  fix u u' :: task_uow and r p
  assume "commandInvocation env h deps message u = (r, u')"
  then obtain u1 where u1: "frame u1 u'" "u1 = u \<or> (\<exists>i override. u1 = registerEventFlush i override u)"
    by (auto simp: commandInvocation_def Let_def dest!: frame_run_program split: option.splits)
  then show "lifecycle u' = lifecycle u" by (auto simp: frame_def register_flush_lifecycle)
  show "\<exists>new. bucket p u' = bucket p u @ new"
    using frame_bucket [OF u1(1)] u1(2) register_flush_bucket by (metis append_Nil2)
qed

section \<open>What a task's reads are worth\<close>

definition log_at :: "nat \<Rightarrow> world \<Rightarrow> event_store option" where
  "log_at i w = map_option site_log (map_get (w_sites w) i)"

text \<open>Between two points of a run a log only grows.\<close>

definition grown :: "nat \<Rightarrow> world \<Rightarrow> world \<Rightarrow> bool" where
  "grown i w w' \<longleftrightarrow>
     (\<forall>s. log_at i w = Some s \<longrightarrow> wf_store s \<longrightarrow> (\<exists>s'. log_at i w' = Some s' \<and> wf_store s' \<and> mem.extends s s'))"

text \<open>A recorded read was made of a log the current one extends.\<close>

definition read_in :: "sourcing_info \<Rightarrow> event_store \<Rightarrow> bool" where
  "read_in info now \<longleftrightarrow>
     (\<exists>s es. wf_store s \<and> mem.extends s now \<and> valid_query (si_query info) \<and>
        store_read s (si_query info) = Some (es, si_markerPosition info))"

text \<open>Reading again now would return the same events.\<close>

definition still_current :: "sourcing_info \<Rightarrow> event_store \<Rightarrow> bool" where
  "still_current info now \<longleftrightarrow>
     (\<exists>s es. wf_store s \<and> mem.extends s now \<and> store_read s (si_query info) = Some (es, si_markerPosition info) \<and>
        store_read now (si_query info) = Some (es, store_head now))"

definition task_inv :: "nat \<Rightarrow> task_uow \<Rightarrow> bool" where
  "task_inv i u \<longleftrightarrow>
     (\<exists>now. log_at i (uw_world u) = Some now \<and> wf_store now \<and>
        (\<forall>info \<in> set (eb_sourcingInfos (uw_events u)). read_in info now) \<and>
        (\<forall>k r. map_get (ca_entries (uw_stateCache u)) k = Some (Inr r) \<longrightarrow> read_in (lr_sourcingInfo r) now))"

lemma grown_refl: "grown i w w"
  by (auto simp: grown_def mem.extends_refl)

lemma grown_trans: "grown i w w' \<Longrightarrow> grown i w' w'' \<Longrightarrow> grown i w w''"
  unfolding grown_def by (metis mem.extends_trans)

lemma grown_same: "w_sites w' = w_sites w \<Longrightarrow> grown i w w'"
  by (auto simp: grown_def log_at_def mem.extends_refl)

lemma read_in_mono: "wf_store s \<Longrightarrow> wf_store s' \<Longrightarrow> mem.extends s s' \<Longrightarrow> read_in info s \<Longrightarrow> read_in info s'"
  unfolding read_in_def by (metis mem.extends_trans)

text \<open>The world may move under a task without hurting what it has recorded.\<close>

lemma task_inv_world:
  assumes "task_inv i u" "grown i (uw_world u) (uw_world u')"
    and "uw_events u' = uw_events u" "ca_entries (uw_stateCache u') = ca_entries (uw_stateCache u)"
  shows "task_inv i u'"
  using assms unfolding task_inv_def grown_def by (metis read_in_mono)

text \<open>What other tasks do to a log: it only grows.\<close>

definition env_grows :: "nat \<Rightarrow> environment \<Rightarrow> bool" where
  "env_grows i env \<longleftrightarrow> (\<forall>k w. grown i w (env k w))"

lemma grown_await: "env_grows i env \<Longrightarrow> grown i w (await_world env w)"
  by (rule grown_trans [of i w "env (w_awaits w) w"]) (simp_all add: await_world_def grown_same env_grows_def)

lemma task_inv_await: "env_grows i env \<Longrightarrow> task_inv i u \<Longrightarrow> task_inv i (await_task env u)"
  by (rule task_inv_world [of i u]) (simp_all add: await_task_def grown_await)

lemma task_inv_record:
  assumes "task_inv i u" "\<And>now. log_at i (uw_world u) = Some now \<Longrightarrow> read_in info now"
  shows "task_inv i (recordSourcing info u)"
  using assms by (auto simp: task_inv_def recordSourcing_def)

lemma evolve_cached_info: "evolve_cached m e c = Inr r \<Longrightarrow> \<exists>r'. c = Inr r' \<and> lr_sourcingInfo r' = lr_sourcingInfo r"
  by (cases c) (auto simp: evolve_cached_def split: option.split_asm sum.split_asm)

lemma evolve_entries_info:
  "map_get (evolve_entries e ms entries) k = Some (Inr r) \<Longrightarrow>
     \<exists>r'. map_get entries k = Some (Inr r') \<and> lr_sourcingInfo r' = lr_sourcingInfo r"
proof (induction e ms entries arbitrary: r rule: evolve_entries.induct)
  case (2 e key m x rest entries)
  show ?case
  proof (cases "map_get entries key")
    case None
    with 2 show ?thesis by auto
  next
    case (Some c)
    with 2(2) [OF Some] 2(3) obtain r' where
      "map_get (map_set key (evolve_cached m e c) entries) k = Some (Inr r')" "lr_sourcingInfo r' = lr_sourcingInfo r"
      by auto
    with Some show ?thesis by (cases "k = key") (auto dest: evolve_cached_info)
  qed
qed auto

lemma evolve_entries_other: "k \<notin> set (map_keys ms) \<Longrightarrow> map_get (evolve_entries e ms entries) k = map_get entries k"
  by (induction e ms entries rule: evolve_entries.induct) (auto split: option.splits)

lemma evolve_entries_get:
  assumes "wf_map ms" "map_get ms k = Some (m, ident)" "map_get entries k = Some c"
  shows "map_get (evolve_entries e ms entries) k = Some (evolve_cached m e c)"
  using assms
proof (induction e ms entries rule: evolve_entries.induct)
  case (2 e key m' x rest entries)
  show ?case
  proof (cases "k = key")
    case True
    with 2 evolve_entries_other [of k rest e] show ?thesis by auto
  next
    case False
    with 2 show ?thesis by (auto split: option.splits)
  qed
qed simp

lemma task_inv_append_one: "append_one d p md u = (r, u') \<Longrightarrow> task_inv i u \<Longrightarrow> task_inv i u'"
  by (fastforce simp: append_one_def generateIdentifier_def task_inv_def log_at_def Let_def
      split: sum.splits prod.splits unit.splits dest: evolve_entries_info)

lemma task_inv_append_fn: "append_fn es u = (r, u') \<Longrightarrow> task_inv i u \<Longrightarrow> task_inv i u'"
proof (induction es arbitrary: u)
  case (Cons e es)
  then show ?case by (cases e) (auto split: prod.splits sum.splits dest!: task_inv_append_one)
qed simp

lemma source_valid: "source s (sourcingCondition q start key) = Inr r \<Longrightarrow> valid_query q"
  by (auto simp: source_def sourcingCondition_def Let_def split: sum.splits)

lemma site_source_valid: "site_source site (sourcingCondition q None key) = Inr r \<Longrightarrow> valid_query q"
proof (cases site)
  case (SnapshottingLog s)
  assume "site_source site (sourcingCondition q None key) = Inr r"
  with SnapshottingLog have "\<exists>start key' r'. source (sn_next s) \<lparr>sc_query = q, sc_start = start, sc_snapshot = key'\<rparr> = Inr r'"
    by (auto simp: snapshotting_source_def sourcingCondition_def withoutSnapshotKey_def throw_simps Let_def
        split: option.splits)
  then show ?thesis using source_valid by (fastforce simp: sourcingCondition_def)
qed (use source_valid in auto)

text \<open>A read of a log, at the moment it is made, is current.\<close>

lemma read_in_now:
  assumes "wf_store now" "valid_query (si_query info)" "si_markerPosition info = store_head now"
  shows "read_in info now"
  unfolding read_in_def using assms mem.read_law [OF assms(1,2)] mem.extends_refl by metis

lemma task_inv_source_fn:
  assumes "env_grows i env" "source_fn env (Some i) q u = (r, u')" "task_inv i u"
  shows "task_inv i u'"
proof -
  obtain now where now: "log_at i (uw_world u) = Some now" "wf_store now" using assms(3) by (auto simp: task_inv_def)
  have moved: "read_in info later" if "log_at i (uw_world (await_task env u)) = Some later" "read_in info now" for info later
    using grown_await [OF assms(1), of "uw_world u"] now that read_in_mono
    by (fastforce simp: grown_def await_task_def)
  show ?thesis
  proof (cases "u' = u \<or> u' = await_task env u")
    case True
    with assms(3) task_inv_await [OF assms(1,3)] show ?thesis by auto
  next
    case False
    with assms(2) now obtain site res where s: "map_get (w_sites (uw_world u)) i = Some site" "site_log site = now"
      "site_source site (sourcingCondition q None None) = Inr res"
      "u' = recordSourcing \<lparr>si_query = q, si_markerPosition = cm_position (sr_marker res)\<rparr> (await_task env u)"
      by (auto simp: source_fn_def requireLog_def log_at_def split: sum.splits prod.splits unit.splits option.splits)
    from site_source_valid [OF s(3)] obtain c where c: "compileQuery q = Inr c" by blast
    have "cm_position (sr_marker res) = store_head now"
      by (rule site_source_cases [of site q c None]) (use now s c in \<open>auto simp: markerAt_def\<close>)
    with now c have "read_in \<lparr>si_query = q, si_markerPosition = cm_position (sr_marker res)\<rparr> now"
      by (intro read_in_now) auto
    with moved s(4) task_inv_record [OF task_inv_await [OF assms(1,3)]] show ?thesis by blast
  qed
qed

text \<open>Whatever a load answers, its sourcing info is a read of the log at one of the moments it touched it.\<close>

lemma doLoad_read:
  assumes "doLoad r ident elapsed at_read at_replay at_write = Inr (result, site')"
    and wf: "wf_store (site_log at_read)" "wf_store (site_log at_replay)"
  shows "site_log site' = site_log at_write \<and>
    (read_in (lr_sourcingInfo result) (site_log at_read) \<or> read_in (lr_sourcingInfo result) (site_log at_replay))"
proof -
  from assms(1) obtain q first where q: "sm_query (rp_module r) ident = Inr q"
    and first: "site_source at_read (sourcingCondition q None (strategyFor r ident)) = Inr first"
    by (auto simp: doLoad_def Let_def split: sum.splits)
  from site_source_valid [OF first] obtain c where c: "compileQuery q = Inr c" by blast
  have m1: "cm_position (sr_marker first) = store_head (site_log at_read)"
    by (rule site_source_cases [OF wf(1) c, of "strategyFor r ident"]) (use first in \<open>auto simp: markerAt_def\<close>)
  have m2: "cm_position (sr_marker res) = store_head (site_log at_replay)"
    if "site_source at_replay (sourcingCondition q None None) = Inr res" for res
    by (rule site_source_cases [OF wf(2) c, of None]) (use that in \<open>auto simp: markerAt_def\<close>)
  obtain res where res: "res = first \<or> site_source at_replay (sourcingCondition q None None) = Inr res"
    "lr_sourcingInfo result = \<lparr>si_query = q, si_markerPosition = cm_position (sr_marker res)\<rparr>"
    "site_log site' = site_log at_write"
    using assms(1) q first
    by (fastforce simp: doLoad_def Let_def cache_write_log split: sum.splits if_splits option.splits)
  with m1 m2 c have "si_query (lr_sourcingInfo result) = q" and
    "si_markerPosition (lr_sourcingInfo result) = store_head (site_log at_read) \<or>
     si_markerPosition (lr_sourcingInfo result) = store_head (site_log at_replay)" by auto
  with c res(3) read_in_now [OF wf(1), of "lr_sourcingInfo result"] read_in_now [OF wf(2), of "lr_sourcingInfo result"]
  show ?thesis by auto
qed

lemma grown_log:
  assumes "env_grows i env" "log_at i w = Some s" "wf_store s"
  obtains s' where "log_at i (await_world env w) = Some s'" "wf_store s'" "mem.extends s s'"
  using grown_await [OF assms(1), of w] assms(2,3) by (auto simp: grown_def)

lemma task_inv_cached:
  assumes "log_at i w = Some now" "wf_store now" "\<forall>info \<in> set (eb_sourcingInfos (uw_events u)). read_in info now"
    and "\<forall>k r. map_get (ca_entries (uw_stateCache u)) k = Some (Inr r) \<longrightarrow> read_in (lr_sourcingInfo r) now"
    and "\<And>r. entry = Inr r \<Longrightarrow> read_in (lr_sourcingInfo r) now"
  shows "task_inv i (u\<lparr>uw_world := w, uw_stateCache := (uw_stateCache u)\<lparr>
           ca_entries := map_set key entry (ca_entries (uw_stateCache u)), ca_modules := ms\<rparr>\<rparr>)"
  using assms by (auto simp: task_inv_def)

lemma task_inv_load_uncached:
  assumes env: "env_grows i env" and load: "load_uncached env m ident i site u = (r, u')" and inv: "task_inv i u"
    and site: "map_get (w_sites (uw_world u)) i = Some site"
  shows "task_inv i u' \<and> grown i (uw_world u) (uw_world u') \<and> uw_events u' = uw_events u"
proof -
  obtain repo repos where repo: "repositoryFor (w_repositories (uw_world u)) m i site = (repo, repos)" by fastforce
  let ?u1 = "u\<lparr>uw_world := (uw_world u)\<lparr>w_repositories := repos\<rparr>\<rparr>"
  have inv1: "task_inv i ?u1" by (rule task_inv_world [OF inv]) (simp_all add: grown_same)
  show ?thesis
  proof (cases repo)
    case (Inl e)
    with load repo inv1 show ?thesis by (auto simp: load_uncached_def grown_same)
  next
    case (Inr rp)
    let ?w1 = "(uw_world u)\<lparr>w_repositories := repos\<rparr>"
    let ?w2 = "await_world env ?w1" and ?w3 = "await_world env (await_world env ?w1)"
    have l1: "log_at i ?w1 = Some (site_log site)" using site by (simp add: log_at_def)
    have wf1: "wf_store (site_log site)" using inv1 l1 by (auto simp: task_inv_def)
    obtain s2 where s2: "log_at i ?w2 = Some s2" "wf_store s2" "mem.extends (site_log site) s2"
      using grown_log [OF env l1 wf1] by blast
    obtain s3 where s3: "log_at i ?w3 = Some s3" "wf_store s3" "mem.extends s2 s3"
      using grown_log [OF env s2(1,2)] by blast
    have e13: "mem.extends (site_log site) s3" by (rule mem.extends_trans [OF wf1 s2(2,3) s3(3)])
    obtain at_replay at_write where sites: "map_get (w_sites ?w2) i = Some at_replay" "site_log at_replay = s2"
      "map_get (w_sites ?w3) i = Some at_write" "site_log at_write = s3"
      using s2(1) s3(1) by (auto simp: log_at_def)
    let ?o = "doLoad rp ident (w_now ?w3 - w_now (uw_world u)) site at_replay at_write"
    let ?w' = "case ?o of Inl _ \<Rightarrow> ?w3 | Inr (_, site') \<Rightarrow> ?w3\<lparr>w_sites := map_set i site' (w_sites ?w3)\<rparr>"
    have u': "u' = u\<lparr>uw_world := ?w', uw_stateCache := (uw_stateCache u)\<lparr>
        ca_entries := map_set (cache_key m ident) (map_sum (\<lambda>e. e) fst ?o) (ca_entries (uw_stateCache u)),
        ca_modules := map_set (cache_key m ident) (m, ident) (ca_modules (uw_stateCache u))\<rparr>\<rparr>"
      using load repo Inr sites(1,3) by (cases ?o) (auto simp: load_uncached_def Let_def await_task_def)
    have logw: "log_at i ?w' = Some s3"
      using doLoad_read [of rp ident _ site at_replay at_write] wf1 s2(2) sites s3(1)
      by (auto simp: log_at_def split: sum.splits)
    have entry: "read_in (lr_sourcingInfo x) s3" if "map_sum (\<lambda>e. e) fst ?o = Inr x" for x
    proof -
      from that obtain site' where "?o = Inr (x, site')" by (cases ?o) auto
      from doLoad_read [OF this] wf1 s2(2) sites have "read_in (lr_sourcingInfo x) (site_log site) \<or> read_in (lr_sourcingInfo x) s2"
        by simp
      then show ?thesis using read_in_mono [OF wf1 s3(2) e13] read_in_mono [OF s2(2) s3(2,3)] by blast
    qed
    have "\<forall>info \<in> set (eb_sourcingInfos (uw_events u)). read_in info s3"
      "\<forall>k r. map_get (ca_entries (uw_stateCache u)) k = Some (Inr r) \<longrightarrow> read_in (lr_sourcingInfo r) s3"
      using inv1 l1 read_in_mono [OF wf1 s3(2) e13] by (fastforce simp: task_inv_def)+
    then have "task_inv i u'" unfolding u' using logw s3(2) entry by (intro task_inv_cached) auto
    moreover have "grown i (uw_world u) ?w'" using logw site s3(2) e13 by (auto simp: grown_def log_at_def)
    ultimately show ?thesis unfolding u' by simp
  qed
qed

text \<open>A load either fails, leaving the log at most grown, or answers a cached state and records its sourcing info.\<close>

lemma load_fn_cases:
  assumes env: "env_grows i env" and load: "load_fn env (Some i) m ident u = (r, u')" and inv: "task_inv i u"
  obtains (failed) e where "r = Inl e" "task_inv i u'" "grown i (uw_world u) (uw_world u')" "uw_events u' = uw_events u"
  | (answered) v result where "r = Inr (lr_state result)" "task_inv i v" "grown i (uw_world u) (uw_world v)"
      "uw_events v = uw_events u" "map_get (ca_entries (uw_stateCache v)) (cache_key m ident) = Some (Inr result)"
      "u' = recordSourcing (lr_sourcingInfo result) (await_task env v)"
proof (cases "requireLive u = Inr () \<and> map_get (w_sites (uw_world u)) i \<noteq> None")
  case True
  then obtain site where site: "map_get (w_sites (uw_world u)) i = Some site" by blast
  obtain r1 v where v: "(if map_get (ca_entries (uw_stateCache u)) (cache_key m ident) = None
      then load_uncached env m ident i site u else (Inr (), u)) = (r1, v)" by fastforce
  then have vinv: "task_inv i v" "grown i (uw_world u) (uw_world v)" "uw_events v = uw_events u"
    using inv task_inv_load_uncached [OF env _ inv site] by (auto simp: grown_refl split: if_splits)
  have w: "task_inv i (await_task env v)" "grown i (uw_world u) (uw_world (await_task env v))"
    "uw_events (await_task env v) = uw_events u"
    using task_inv_await [OF env vinv(1)] grown_trans [OF vinv(2) grown_await [OF env]] vinv(3) by (simp_all add: await_task_def)
  let ?entry = "map_get (ca_entries (uw_stateCache v)) (cache_key m ident)"
  have "load_fn env (Some i) m ident u =
      (case r1 of Inl e \<Rightarrow> (Inl (LoadFailed e), v)
       | Inr () \<Rightarrow> (case ?entry of
           None \<Rightarrow> (Inl (LoadFailed (NoLogAttached '''')), v)
         | Some (Inl e) \<Rightarrow> (Inl (LoadFailed e), await_task env v)
         | Some (Inr result) \<Rightarrow> (Inr (lr_state result), recordSourcing (lr_sourcingInfo result) (await_task env v))))"
    by (simp only: load_fn_def requireLog_def conjunct1 [OF True] site v option.case sum.case prod.case unit.case)
  with load have ru: "(r, u') = \<dots>" by simp
  show thesis
  proof (cases "\<exists>result. r1 = Inr () \<and> ?entry = Some (Inr result)")
    case ok: True
    then obtain result where "r1 = Inr ()" "?entry = Some (Inr result)" by blast
    with ru show thesis using answered [of result v] vinv by (simp split: unit.splits)
  next
    case False
    with ru have "(u' = v \<or> u' = await_task env v) \<and> (\<exists>e. r = Inl e)"
      by (cases r1; cases ?entry) (auto split: sum.splits unit.splits)
    then show thesis using failed vinv w by blast
  qed
next
  case False
  with load have "u' = u" "\<exists>e. r = Inl e"
    by (auto simp: load_fn_def requireLog_def requireLive_def split: sum.splits option.splits unit.splits if_splits)
  then show thesis using failed inv grown_refl by auto
qed

lemma task_inv_load_fn:
  assumes env: "env_grows i env" and load: "load_fn env (Some i) m ident u = (r, u')" and inv: "task_inv i u"
  shows "task_inv i u'"
proof (rule load_fn_cases [OF assms])
  fix v result
  assume v: "task_inv i v" "map_get (ca_entries (uw_stateCache v)) (cache_key m ident) = Some (Inr result)"
    "u' = recordSourcing (lr_sourcingInfo result) (await_task env v)"
  note aw = task_inv_await [OF env v(1)]
  show ?thesis unfolding v(3)
  proof (rule task_inv_record [OF aw])
    fix now assume "log_at i (uw_world (await_task env v)) = Some now"
    with aw v(2) show "read_in (lr_sourcingInfo result) now" by (auto simp: task_inv_def await_task_def)
  qed
qed

definition bus_grows :: "nat \<Rightarrow> bus option \<Rightarrow> bool" where
  "bus_grows i b \<longleftrightarrow> (case b of None \<Rightarrow> True | Some disp \<Rightarrow> \<forall>m w. grown i w (snd (disp m w)))"

lemma grown_send_fn:
  assumes env: "env_grows i env" and bus: "bus_grows i b" and send: "send_fn env b n p md u = (r, u')"
  shows "grown i (uw_world u) (uw_world u') \<and> uw_events u' = uw_events u"
proof (cases "u' = u")
  case False
  with send obtain disp msg where d: "b = Some disp"
    "u' = await_task env (u\<lparr>uw_world := snd (disp msg (snd (generateIdentifier (uw_world u))))\<rparr>)"
    by (auto simp: send_fn_def generateIdentifier_def Let_def split: sum.splits unit.splits option.splits prod.splits)
      (metis snd_conv)+
  have "grown i (uw_world u) (snd (generateIdentifier (uw_world u)))" by (simp add: generateIdentifier_def grown_same)
  moreover have "grown i w (snd (disp msg w))" for w using bus d(1) by (simp add: bus_grows_def)
  ultimately have "grown i (uw_world u) (snd (disp msg (snd (generateIdentifier (uw_world u)))))"
    using grown_trans by blast
  with d(2) grown_trans grown_await [OF env] show ?thesis by (auto simp: await_task_def)
qed (simp add: grown_refl)

lemma task_inv_send_fn:
  assumes env: "env_grows i env" and bus: "bus_grows i b" and send: "send_fn env b n p md u = (r, u')" and inv: "task_inv i u"
  shows "task_inv i u'"
proof (rule task_inv_world [OF inv])
  show "grown i (uw_world u) (uw_world u')" "uw_events u' = uw_events u" using grown_send_fn [OF env bus send] by auto
  show "ca_entries (uw_stateCache u') = ca_entries (uw_stateCache u)"
    using send by (auto simp: send_fn_def Let_def await_task_def split: sum.splits unit.splits option.splits prod.splits)
qed

lemma task_inv_run_program:
  assumes "env_grows i env" "bus_grows i (dp_commandBus deps)" "dp_eventStore deps = Some i"
  shows "run_program env deps p u = (r, u') \<Longrightarrow> task_inv i u \<Longrightarrow> task_inv i u'"
proof (induction p arbitrary: u)
  case (Append es k)
  then show ?case by (auto split: prod.splits dest!: task_inv_append_fn)
next
  case (Source q k)
  then show ?case using task_inv_source_fn [OF assms(1)] assms(3) by (auto split: prod.splits) blast
next
  case (Load m ident k)
  then show ?case using task_inv_load_fn [OF assms(1)] assms(3) by (auto split: prod.splits) blast
next
  case (Send n p md k)
  then show ?case using task_inv_send_fn [OF assms(1,2)] by (auto split: prod.splits) blast
qed auto

section \<open>What a handler is answered\<close>

text \<open>
  The answers the capabilities gave a handler's program, in order: the events of a sourced read,
  the state of a load with the sourcing info of the cache entry it came from, and the events
  accepted by \<open>append\<close>. They are computed along the program from what it is told, with no regard
  to what the task records for its flush.
\<close>

datatype answer =
    ReadEvents event_query "event_message list"
  | ReadState sourcing_info js
  | Accepted event_descriptor js "metadata option"

fun is_read :: "answer \<Rightarrow> bool" where
  "is_read (Accepted _ _ _) = False"
| "is_read _ = True"

abbreviation is_accepted :: "answer \<Rightarrow> bool" where
  "is_accepted a \<equiv> \<not> is_read a"

fun accepted ::
  "(event_descriptor \<times> js \<times> metadata option) list \<Rightarrow> task_uow \<Rightarrow> answer list" where
  "accepted [] u = []"
| "accepted ((d, payload, md) # rest) u =
     (case append_one d payload md u of
        (Inl _, u') \<Rightarrow> []
      | (Inr _, u') \<Rightarrow> Accepted d payload md # accepted rest u')"

primrec answers :: "environment \<Rightarrow> invocation_deps \<Rightarrow> program \<Rightarrow> task_uow \<Rightarrow> answer list" where
  "answers env deps (Return v) u = []"
| "answers env deps (Throw e) u = []"
| "answers env deps (Append events k) u =
     (let (r, u') = append_fn events u in accepted events u @ answers env deps (k r) u')"
| "answers env deps (Source q k) u =
     (let (r, u') = source_fn env (dp_eventStore deps) q u
      in (case r of Inl _ \<Rightarrow> [] | Inr es \<Rightarrow> [ReadEvents q es]) @ answers env deps (k r) u')"
| "answers env deps (Load m ident k) u =
     (let (r, u') = load_fn env (dp_eventStore deps) m ident u
      in (case (r, map_get (ca_entries (uw_stateCache u')) (cache_key m ident)) of
            (Inr st, Some (Inr result)) \<Rightarrow> [ReadState (lr_sourcingInfo result) st]
          | _ \<Rightarrow> []) @ answers env deps (k r) u')"
| "answers env deps (Send name payload md k) u =
     (let (r, u') = send_fn env (dp_commandBus deps) name payload md u in answers env deps (k r) u')"

text \<open>The unit of work in which a command's handler starts, and the answers it gets.\<close>

definition invocation_start :: "nat \<Rightarrow> world \<Rightarrow> task_uow" where
  "invocation_start i w = registerEventFlush i None ((unitOfWork w)\<lparr>uw_status := Started, uw_phase := Some INVOCATION\<rparr>)"

definition command_answers ::
  "environment \<Rightarrow> command_handler \<Rightarrow> invocation_deps \<Rightarrow> nat \<Rightarrow> command_message \<Rightarrow> world \<Rightarrow> answer list" where
  "command_answers env h deps i message w =
     answers env deps (ch_handler h (withInstant message (w_now w))) (invocation_start i w)"

text \<open>An answer holds now: the same read would return the same events.\<close>

fun holds_now :: "answer \<Rightarrow> event_store \<Rightarrow> bool" where
  "holds_now (ReadEvents q es) now \<longleftrightarrow> store_read now q = Some (es, store_head now)"
| "holds_now (ReadState info st) now \<longleftrightarrow> still_current info now"
| "holds_now (Accepted _ _ _) now \<longleftrightarrow> True"

text \<open>The event an accepted append turns into.\<close>

fun event_of :: "answer \<Rightarrow> event_message \<Rightarrow> bool" where
  "event_of (Accepted d payload md) e \<longleftrightarrow>
     em_name e = ed_name d \<and> em_version e = ed_version d \<and> em_payload e = payload \<and>
     em_metadata e = (case md of None \<Rightarrow> emptyMetadata | Some m \<Rightarrow> m) \<and>
     tagsOf d payload (em_metadata e) = Inr (em_tags e)"
| "event_of _ e \<longleftrightarrow> False"

text \<open>The sourcing info recorded for an answer says what was read.\<close>

fun recorded_as :: "event_store \<Rightarrow> sourcing_info \<Rightarrow> answer \<Rightarrow> bool" where
  "recorded_as now info (ReadEvents q es) \<longleftrightarrow>
     si_query info = q \<and> (\<exists>s. wf_store s \<and> mem.extends s now \<and> valid_query q \<and>
       store_read s q = Some (es, si_markerPosition info))"
| "recorded_as now info (ReadState info' st) \<longleftrightarrow> info = info' \<and> read_in info now"
| "recorded_as now info (Accepted _ _ _) \<longleftrightarrow> False"

lemma recorded_as_mono:
  "recorded_as s info a \<Longrightarrow> wf_store s \<Longrightarrow> wf_store s' \<Longrightarrow> mem.extends s s' \<Longrightarrow> recorded_as s' info a"
  by (cases a) (auto intro: read_in_mono dest: mem.extends_trans)

definition answers_inv :: "nat \<Rightarrow> event_store \<Rightarrow> answer list \<Rightarrow> task_uow \<Rightarrow> bool" where
  "answers_inv i s as u \<longleftrightarrow>
     (\<exists>now. log_at i (uw_world u) = Some now \<and> wf_store now \<and> mem.extends s now \<and>
        list_all2 (recorded_as now) (eb_sourcingInfos (uw_events u)) (filter is_read as) \<and>
        list_all2 event_of (filter is_accepted as) (eb_buffered (uw_events u)))"

lemma answers_inv_world:
  assumes "answers_inv i s as u" "wf_store s" "grown i (uw_world u) (uw_world u')" "uw_events u' = uw_events u"
  shows "answers_inv i s as u'"
proof -
  from assms(1) obtain now where now: "log_at i (uw_world u) = Some now" "wf_store now" "mem.extends s now"
    and rec: "list_all2 (recorded_as now) (eb_sourcingInfos (uw_events u)) (filter is_read as)"
      "list_all2 event_of (filter is_accepted as) (eb_buffered (uw_events u))" by (auto simp: answers_inv_def)
  from assms(3) now obtain s' where s': "log_at i (uw_world u') = Some s'" "wf_store s'" "mem.extends now s'"
    by (auto simp: grown_def)
  have "list_all2 (recorded_as s') (eb_sourcingInfos (uw_events u)) (filter is_read as)"
    by (rule list_all2_mono [OF rec(1)]) (rule recorded_as_mono [OF _ now(2) s'(2,3)])
  with rec(2) s' assms(4) mem.extends_trans [OF assms(2) now(2,3) s'(3)] show ?thesis by (auto simp: answers_inv_def)
qed

lemma answers_inv_await:
  "env_grows i env \<Longrightarrow> wf_store s \<Longrightarrow> answers_inv i s as u \<Longrightarrow> answers_inv i s as (await_task env u)"
  by (rule answers_inv_world) (simp_all add: await_task_def grown_await)

lemma answers_inv_record:
  assumes "answers_inv i s as u" "is_read a" "\<And>now. log_at i (uw_world u) = Some now \<Longrightarrow> recorded_as now info a"
  shows "answers_inv i s (as @ [a]) (recordSourcing info u)"
  using assms by (auto simp: answers_inv_def recordSourcing_def list_all2_appendI)

lemma answers_inv_append_one:
  assumes "append_one d p md u = (r, u')" "answers_inv i s as u"
  shows "answers_inv i s (as @ (case r of Inl _ \<Rightarrow> [] | Inr _ \<Rightarrow> [Accepted d p md])) u'"
  using assms
  by (auto simp: append_one_def generateIdentifier_def answers_inv_def log_at_def Let_def list_all2_appendI
      split: sum.splits prod.splits unit.splits)

lemma answers_inv_append_fn:
  "append_fn es u = (r, u') \<Longrightarrow> answers_inv i s as u \<Longrightarrow> answers_inv i s (as @ accepted es u) u'"
proof (induction es arbitrary: u as)
  case (Cons e es)
  obtain d p md where e: "e = (d, p, md)" by (cases e)
  obtain r1 v where v: "append_one d p md u = (r1, v)" by fastforce
  note one = answers_inv_append_one [OF v Cons.prems(2)]
  show ?case
  proof (cases r1)
    case (Inl x)
    with one Cons.prems(1) v e show ?thesis by auto
  next
    case (Inr x)
    with one Cons.prems(1) v e Cons.IH [of v "as @ [Accepted d p md]"] show ?thesis by simp
  qed
qed simp

lemma site_source_read:
  "site_source site (sourcingCondition q None None) = Inr r \<Longrightarrow>
     store_read (site_log site) q = Some (sr_events r, cm_position (sr_marker r))"
  by (cases site) (auto simp: store_read_def snapshotting_source_def sourcingCondition_def)

lemma answers_inv_source_fn:
  assumes env: "env_grows i env" and src: "source_fn env (Some i) q u = (r, u')" and s: "wf_store s"
    and inv: "answers_inv i s as u"
  shows "answers_inv i s (as @ (case r of Inl _ \<Rightarrow> [] | Inr es \<Rightarrow> [ReadEvents q es])) u'"
proof -
  obtain now where now: "log_at i (uw_world u) = Some now" "wf_store now" using inv by (auto simp: answers_inv_def)
  note aw = answers_inv_await [OF env s inv]
  show ?thesis
  proof (cases r)
    case (Inl e)
    with src have "u' = u \<or> u' = await_task env u"
      by (auto simp: source_fn_def split: sum.splits prod.splits unit.splits)
    with Inl inv aw show ?thesis by auto
  next
    case (Inr es)
    with src now obtain site res where res: "site_log site = now"
      "site_source site (sourcingCondition q None None) = Inr res" "es = sr_events res"
      "u' = recordSourcing \<lparr>si_query = q, si_markerPosition = cm_position (sr_marker res)\<rparr> (await_task env u)"
      by (auto simp: source_fn_def requireLog_def log_at_def split: sum.splits prod.splits unit.splits option.splits)
    let ?info = "\<lparr>si_query = q, si_markerPosition = cm_position (sr_marker res)\<rparr>"
    have rec: "recorded_as now ?info (ReadEvents q es)"
      using site_source_read [OF res(2)] site_source_valid [OF res(2)] res(1,3) now(2) mem.extends_refl by auto
    have "answers_inv i s (as @ [ReadEvents q es]) (recordSourcing ?info (await_task env u))"
    proof (rule answers_inv_record [OF aw])
      fix later assume later: "log_at i (uw_world (await_task env u)) = Some later"
      obtain s' where "log_at i (await_world env (uw_world u)) = Some s'" "wf_store s'" "mem.extends now s'"
        by (rule grown_log [OF env now])
      with later recorded_as_mono [OF rec now(2)] show "recorded_as later ?info (ReadEvents q es)"
        by (simp add: await_task_def)
    qed simp
    with Inr res(4) show ?thesis by simp
  qed
qed

lemma answers_inv_load_fn:
  assumes env: "env_grows i env" and load: "load_fn env (Some i) m ident u = (r, u')" and s: "wf_store s"
    and inv: "task_inv i u" "answers_inv i s as u"
  shows "answers_inv i s (as @ (case (r, map_get (ca_entries (uw_stateCache u')) (cache_key m ident)) of
      (Inr st, Some (Inr result)) \<Rightarrow> [ReadState (lr_sourcingInfo result) st] | _ \<Rightarrow> [])) u'"
proof (rule load_fn_cases [OF env load inv(1)])
  fix e assume "r = Inl e" "grown i (uw_world u) (uw_world u')" "uw_events u' = uw_events u"
  then show ?thesis using answers_inv_world [OF inv(2) s] by simp
next
  fix v result
  assume v: "r = Inr (lr_state result)" "task_inv i v" "grown i (uw_world u) (uw_world v)" "uw_events v = uw_events u"
    "map_get (ca_entries (uw_stateCache v)) (cache_key m ident) = Some (Inr result)"
    "u' = recordSourcing (lr_sourcingInfo result) (await_task env v)"
  have entry: "map_get (ca_entries (uw_stateCache u')) (cache_key m ident) = Some (Inr result)"
    using v(5,6) by (simp add: recordSourcing_def await_task_def)
  have aw: "answers_inv i s as (await_task env v)"
    by (rule answers_inv_await [OF env s answers_inv_world [OF inv(2) s v(3,4)]])
  have "answers_inv i s (as @ [ReadState (lr_sourcingInfo result) (lr_state result)]) u'"
    unfolding v(6)
  proof (rule answers_inv_record [OF aw])
    fix now assume "log_at i (uw_world (await_task env v)) = Some now"
    with task_inv_await [OF env v(2)] v(5)
    show "recorded_as now (lr_sourcingInfo result) (ReadState (lr_sourcingInfo result) (lr_state result))"
      by (auto simp: task_inv_def await_task_def)
  qed simp
  with v(1) entry show ?thesis by simp
qed

lemma answers_inv_run_program:
  assumes env: "env_grows i env" and bus: "bus_grows i (dp_commandBus deps)" and dp: "dp_eventStore deps = Some i" and s: "wf_store s"
  shows "run_program env deps p u = (r, u') \<Longrightarrow> task_inv i u \<Longrightarrow> answers_inv i s as u \<Longrightarrow>
           answers_inv i s (as @ answers env deps p u) u'"
proof (induction p arbitrary: u as)
  case (Append es k)
  obtain x v where v: "append_fn es u = (x, v)" by fastforce
  from Append.IH [of "k x" v "as @ accepted es u"] Append.prems v task_inv_append_fn [OF v] answers_inv_append_fn [OF v]
  show ?case by simp
next
  case (Source q k)
  obtain x v where v: "source_fn env (Some i) q u = (x, v)" by fastforce
  from Source.IH [of "k x", OF _ _ task_inv_source_fn [OF env v Source.prems(2)] answers_inv_source_fn [OF env v s Source.prems(3)]]
    Source.prems(1) v dp show ?case by simp
next
  case (Load m ident k)
  obtain x v where v: "load_fn env (Some i) m ident u = (x, v)" by fastforce
  from Load.IH [of "k x", OF _ _ task_inv_load_fn [OF env v Load.prems(2)] answers_inv_load_fn [OF env v s Load.prems(2,3)]]
    Load.prems(1) v dp show ?case by simp
next
  case (Send n p md k)
  obtain x v where v: "send_fn env (dp_commandBus deps) n p md u = (x, v)" by fastforce
  from Send.IH [of "k x", OF _ _ task_inv_send_fn [OF env bus v Send.prems(2)], of as] Send.prems v
    answers_inv_world [OF Send.prems(3) s] grown_send_fn [OF env bus v] show ?case by auto
qed auto

section \<open>The flush decides on current data\<close>

lemma valid_items: "valid_query q \<Longrightarrow> \<exists>items. queryItems q = Inr items"
  by (auto simp: compileQuery_def split: sum.splits)

lemma flush_condition_reads:
  assumes "infos \<noteq> []" "\<forall>info \<in> set infos. valid_query (si_query info)"
  obtains c where "flush_condition infos None = Inr (Some c)"
    "condition_reads c = map (\<lambda>s. \<lparr>ar_query = si_query s, ar_marker = markerAt (si_markerPosition s)\<rparr>) infos"
proof -
  have "map_result (queryItems \<circ> si_query) infos = Inr (map (\<lambda>info. projr (queryItems (si_query info))) infos)"
    using assms(2) valid_items by (intro map_result_total) fastforce
  then show thesis using assms(1) that by (simp add: flush_condition_def condition_reads_def Let_def)
qed

lemma current_iff:
  assumes "wf_store now" "wf_store s" "mem.extends s now" "valid_query (si_query info)"
    and "store_read s (si_query info) = Some (es, si_markerPosition info)"
  shows "still_current info now \<longleftrightarrow> store_read now (si_query info) = Some (es, store_head now)"
proof
  assume "still_current info now"
  then obtain s' es' where s': "wf_store s'" "mem.extends s' now"
    "store_read s' (si_query info) = Some (es', si_markerPosition info)"
    "store_read now (si_query info) = Some (es', store_head now)" by (auto simp: still_current_def)
  note mem.read_changed_iff [OF s'(1) assms(1) s'(2) assms(4) s'(3)] mem.read_changed_iff [OF assms(2,1,3,4,5)]
  with s'(4) show "store_read now (si_query info) = Some (es, store_head now)" by simp
qed (use assms in \<open>auto simp: still_current_def\<close>)

lemma append_current:
  assumes wf: "wf_store now" and reads: "\<forall>info \<in> set infos. read_in info now"
    and c: "flush_condition infos None = Inr c"
  shows "(\<exists>m s'. append now es c = Inr (m, s')) \<longleftrightarrow> (\<forall>info \<in> set infos. still_current info now)"
proof (cases "infos = []")
  case True
  with c show ?thesis by (simp add: flush_condition_def append_def check_condition_def Let_def)
next
  case False
  have "\<forall>info \<in> set infos. \<exists>s es. wf_store s \<and> mem.extends s now \<and> valid_query (si_query info) \<and>
      store_read s (si_query info) = Some (es, si_markerPosition info)"
    using reads by (auto simp: read_in_def)
  then obtain S E where SE: "\<And>info. info \<in> set infos \<Longrightarrow> wf_store (S info) \<and> mem.extends (S info) now \<and>
      valid_query (si_query info) \<and> store_read (S info) (si_query info) = Some (E info, si_markerPosition info)"
    by metis
  then have "\<forall>info \<in> set infos. valid_query (si_query info)" by blast
  from flush_condition_reads [OF False this] c obtain ac where ac: "c = Some ac"
    "condition_reads ac = map (\<lambda>s. \<lparr>ar_query = si_query s, ar_marker = markerAt (si_markerPosition s)\<rparr>) infos" by auto
  let ?rec = "map (\<lambda>info. (S info, si_query info, E info, si_markerPosition info)) infos"
  have "reads_of_condition c = map (\<lambda>(s, q, es, m). (q, m)) ?rec"
    using ac by (simp add: reads_of_condition_def markerAt_def)
  from mem.write_iff_reads_current [OF wf this, of es] SE
  have "store_write now es c \<noteq> None \<longleftrightarrow> (\<forall>(s, q, es, m) \<in> set ?rec. store_read now q = Some (es, store_head now))"
    by auto
  also have "\<dots> \<longleftrightarrow> (\<forall>info \<in> set infos. store_read now (si_query info) = Some (E info, store_head now))" by auto
  also have "\<dots> \<longleftrightarrow> (\<forall>info \<in> set infos. still_current info now)"
    using current_iff [OF wf] SE by (intro ball_cong refl) blast
  finally show ?thesis unfolding store_write_ok .
qed

lemma flush_condition_ok:
  assumes "\<forall>info \<in> set infos. read_in info now"
  shows "\<exists>c. flush_condition infos None = Inr c"
proof (cases "infos = []")
  case False
  from assms have "\<forall>info \<in> set infos. valid_query (si_query info)" by (auto simp: read_in_def)
  then show ?thesis using flush_condition_reads [OF False] by metis
qed (simp add: flush_condition_def)

lemma site_log_with_log [simp]: "site_log (site_with_log site s) = s"
  by (cases site) auto

lemma append_entries:
  assumes "wf_store now" "append now es c = Inr (m, s')"
  shows "wf_store s' \<and> (\<exists>new. store_entries s' = store_entries now @ new \<and> map snd new = es)"
  using mem.write_extends [OF assms(1), of es c s'] assms(2) by (auto simp: store_write_def)

lemma flush_decides:
  assumes inv: "task_inv i u" and now: "log_at i (uw_world u) = Some now"
    and flush: "flush_events i None u = (r, u')"
  shows "uw_events u' = uw_events u"
    and "r = None \<Longrightarrow> (eb_buffered (uw_events u) \<noteq> [] \<longrightarrow> (\<forall>info \<in> set (eb_sourcingInfos (uw_events u)). still_current info now)) \<and>
      (\<exists>s' new. log_at i (uw_world u') = Some s' \<and> wf_store s' \<and> store_entries s' = store_entries now @ new \<and>
         map snd new = eb_buffered (uw_events u))"
    and "r = Some e \<Longrightarrow> u' = u \<and> \<not> (\<forall>info \<in> set (eb_sourcingInfos (uw_events u)). still_current info now)"
proof -
  let ?infos = "eb_sourcingInfos (uw_events u)" and ?new = "eb_buffered (uw_events u)"
  have wf: "wf_store now" and reads: "\<forall>info \<in> set ?infos. read_in info now" using inv now by (auto simp: task_inv_def)
  obtain c where c: "flush_condition ?infos None = Inr c" using flush_condition_ok [OF reads] by blast
  note cur = append_current [OF wf reads c, of ?new]
  obtain site where site: "map_get (w_sites (uw_world u)) i = Some site" "site_log site = now"
    using now by (auto simp: log_at_def)
  show "uw_events u' = uw_events u"
    using flush by (auto simp: flush_events_def split: if_splits sum.splits option.splits prod.splits)
  show "(?new \<noteq> [] \<longrightarrow> (\<forall>info \<in> set ?infos. still_current info now)) \<and>
      (\<exists>s' new. log_at i (uw_world u') = Some s' \<and> wf_store s' \<and> store_entries s' = store_entries now @ new \<and> map snd new = ?new)"
    if "r = None"
  proof (cases "?new = []")
    case True
    with flush now wf show ?thesis by (auto simp: flush_events_def)
  next
    case False
    with flush c site that obtain m s' where s': "append now ?new c = Inr (m, s')"
      "u' = u\<lparr>uw_world := (uw_world u)\<lparr>w_sites := map_set i (site_with_log site s') (w_sites (uw_world u))\<rparr>\<rparr>"
      by (auto simp: flush_events_def split: sum.splits prod.splits)
    with append_entries [OF wf s'(1)] cur show ?thesis by (auto simp: log_at_def)
  qed
  show "u' = u \<and> \<not> (\<forall>info \<in> set ?infos. still_current info now)" if "r = Some e"
    using flush c site that cur by (auto simp: flush_events_def split: if_splits sum.splits prod.splits)
qed

section \<open>A whole command\<close>

lemma fresh_bucket [simp]: "bucket p (unitOfWork w) = []"
  by (simp add: bucket_def unitOfWork_def)

lemma fresh_phases:
  "and_then (runPhase act PRE_INVOCATION ((unitOfWork w)\<lparr>uw_status := Started\<rparr>)) (runPhase act INVOCATION) =
     Some (None, (unitOfWork w)\<lparr>uw_status := Started, uw_phase := Some INVOCATION\<rparr>)"
  by (simp add: runPhase_empty and_then_def)

lemma notify_errors_none: "uw_errorHandlers u = [] \<Longrightarrow> notify_errors onErr e ph 0 u = Some u"
  by (subst notify_errors.simps) simp

lemma notify_complete_none: "uw_completeHandlers u = [] \<Longrightarrow> notify_complete onDone 0 u = Some u"
  by (subst notify_complete.simps) simp

text \<open>The handlers lists are empty throughout: nothing in a command's task registers one.\<close>

definition no_handlers :: "task_uow \<Rightarrow> bool" where
  "no_handlers u \<longleftrightarrow> uw_errorHandlers u = [] \<and> uw_completeHandlers u = []"

lemma no_handlers_append_one: "append_one d p md u = (r, u') \<Longrightarrow> no_handlers u' = no_handlers u"
  by (auto simp: append_one_def Let_def no_handlers_def split: sum.splits prod.splits unit.splits)

lemma no_handlers_append_fn: "append_fn es u = (r, u') \<Longrightarrow> no_handlers u' = no_handlers u"
proof (induction es arbitrary: u)
  case (Cons e es)
  then show ?case by (cases e) (auto split: prod.splits sum.splits dest!: no_handlers_append_one)
qed simp

lemma no_handlers_run_program: "run_program env deps p u = (r, u') \<Longrightarrow> no_handlers u' = no_handlers u"
proof (induction p arbitrary: u)
  case (Append es k)
  then show ?case by (auto split: prod.splits dest!: no_handlers_append_fn)
next
  case (Source q k)
  obtain x v where v: "source_fn env (dp_eventStore deps) q u = (x, v)" by fastforce
  then have "no_handlers v = no_handlers u"
    by (auto simp: source_fn_def no_handlers_def recordSourcing_def await_task_def split: sum.splits prod.splits unit.splits)
  with Source v show ?case by auto
next
  case (Load m ident k)
  obtain x v where v: "load_fn env (dp_eventStore deps) m ident u = (x, v)" by fastforce
  then have "no_handlers v = no_handlers u"
    by (auto simp: load_fn_def load_uncached_def Let_def no_handlers_def recordSourcing_def await_task_def
        split: sum.splits prod.splits unit.splits option.splits if_splits)
  with Load v show ?case by auto
next
  case (Send n p md k)
  obtain x v where v: "send_fn env (dp_commandBus deps) n p md u = (x, v)" by fastforce
  then have "no_handlers v = no_handlers u"
    by (auto simp: send_fn_def Let_def no_handlers_def await_task_def split: sum.splits prod.splits unit.splits option.splits)
  with Send v show ?case by auto
qed auto

lemma no_handlers_flush: "flush_events i override u = (r, u') \<Longrightarrow> no_handlers u' = no_handlers u"
  by (auto simp: flush_events_def no_handlers_def split: if_splits sum.splits option.splits prod.splits)

lemma handler_error: "run_program env deps p u = (Inl e, u') \<Longrightarrow> \<exists>x. e = HandlerThrew x"
  by (induction p arbitrary: u) (auto split: prod.splits, blast+)

text \<open>Whether a cached state is evolved goes by the type of the event alone.\<close>

lemma append_one_evolves:
  assumes ok: "append_one d payload md u = (Inr (), u1)"
    and cached: "map_get (ca_entries (uw_stateCache u)) k = Some (Inr result)"
      "map_get (ca_modules (uw_stateCache u)) k = Some (m, ident)" "wf_map (ca_modules (uw_stateCache u))"
    and fold: "find (\<lambda>(d', _). descriptor_type d' = descriptor_type d) (sm_evolvers m) = Some (d', evolve)"
      "evolve (lr_state result) (last (eb_buffered (uw_events u1))) = Inr st"
  shows "map_get (ca_entries (uw_stateCache u1)) k = Some (Inr (result\<lparr>lr_state := st\<rparr>)) \<and> \<not> uw_closed u1"
proof -
  let ?e = "last (eb_buffered (uw_events u1))"
  from ok have u1: "ca_entries (uw_stateCache u1) = evolve_entries ?e (ca_modules (uw_stateCache u)) (ca_entries (uw_stateCache u))"
    "em_name ?e = ed_name d" "\<not> uw_closed u1"
    by (auto simp: append_one_def requireInvocation_def Let_def split: sum.splits prod.splits if_splits unit.splits)
  have "map_get (ca_entries (uw_stateCache u1)) k = Some (evolve_cached m ?e (Inr result))"
    unfolding u1(1) by (rule evolve_entries_get [OF cached(3,2,1)])
  with fold u1(2,3) show ?thesis by (simp add: evolve_cached_def)
qed

text \<open>An event a query does not match leaves what the query reads as it was.\<close>

lemma unmatched_event_not_read:
  assumes "wf_store s" "append s [e] c = Inr (m, s')" "valid_query q" "\<not> query_matches q e"
  shows "map_option fst (store_read s' q) = map_option fst (store_read s q)"
proof -
  from append_entries [OF assms(1,2)] obtain new where s': "wf_store s'" "store_entries s' = store_entries s @ new" "map snd new = [e]"
    by (elim conjE exE) (rule that)
  then have "filter (\<lambda>(p, e). query_matches q e) new = []" using assms(4) by auto
  then show ?thesis
    unfolding mem.read_law [OF s'(1) assms(3)] mem.read_law [OF assms(1,3)] s'(2) by simp
qed

text \<open>What the invocation leaves behind for the flush.\<close>

lemma invocation_result:
  assumes deps: "dp_eventStore deps = Some i" "ch_appendCondition h = None"
    and w: "log_at i w = Some s" "wf_store s" and env: "env_grows i env" "bus_grows i (dp_commandBus deps)"
    and run: "commandInvocation env h deps message ((unitOfWork w)\<lparr>uw_status := Started, uw_phase := Some INVOCATION\<rparr>) = (r, u2)"
  shows "task_inv i u2" "bucket PREPARE_COMMIT u2 = [FlushEvents i None]"
    "\<And>p. p \<noteq> PREPARE_COMMIT \<Longrightarrow> bucket p u2 = []" "no_handlers u2"
    "run_program env deps (ch_handler h message) (invocation_start i w) = (r, u2)"
    "answers_inv i s (answers env deps (ch_handler h message) (invocation_start i w)) u2"
proof -
  let ?v = "invocation_start i w"
  show go: "run_program env deps (ch_handler h message) ?v = (r, u2)"
    using run deps by (simp add: commandInvocation_def invocation_start_def Let_def)
  have v: "task_inv i ?v" "bucket PREPARE_COMMIT ?v = [FlushEvents i None]" "no_handlers ?v" "answers_inv i s [] ?v"
    and vp: "\<And>p. p \<noteq> PREPARE_COMMIT \<Longrightarrow> bucket p ?v = []"
    using w by (auto simp: invocation_start_def task_inv_def answers_inv_def registerEventFlush_def onPrepareCommit_def on_phase_def
        unitOfWork_def no_handlers_def bucket_def mem.extends_refl)
  show "task_inv i u2" using task_inv_run_program [OF env deps(1) go v(1)] .
  show "bucket PREPARE_COMMIT u2 = [FlushEvents i None]" using frame_bucket [OF frame_run_program [OF go]] v(2) by simp
  show "bucket p u2 = []" if "p \<noteq> PREPARE_COMMIT" for p using frame_bucket [OF frame_run_program [OF go]] vp that by simp
  show "no_handlers u2" using no_handlers_run_program [OF go] v(3) by simp
  show "answers_inv i s (answers env deps (ch_handler h message) ?v) u2"
    using answers_inv_run_program [OF env deps(1) w(2) go v(1,4)] by simp
qed

text \<open>What the handler of a command returns or throws.\<close>

definition handler_result ::
  "environment \<Rightarrow> command_handler \<Rightarrow> invocation_deps \<Rightarrow> nat \<Rightarrow> command_message \<Rightarrow> world \<Rightarrow> task_error + js" where
  "handler_result env h deps i message w =
     fst (run_program env deps (ch_handler h (withInstant message (w_now w))) (invocation_start i w))"

lemma command_outcome:
  assumes deps: "dp_eventStore deps = Some i" "ch_appendCondition h = None"
    and w: "log_at i w = Some s" "wf_store s" and env: "env_grows i env" "bus_grows i (dp_commandBus deps)"
  obtains (threw) e u' where "execute_command env h deps message w = Inr (Some (Inl e, u'))"
      "uw_closed u'" "handler_result env h deps i message w = Inl e"
      "answers_inv i s (command_answers env h deps i message w) u'"
  | (flushed) r result u3 u4 u' where "execute_command env h deps message w =
        Inr (Some (case r of None \<Rightarrow> Inr result | Some e \<Rightarrow> Inl e, u'))" "handler_result env h deps i message w = Inr result"
      "task_inv i u3" "answers_inv i s (command_answers env h deps i message w) u3"
      "flush_events i None u3 = (r, u4)" "uw_closed u'" "uw_world u' = uw_world u4" "uw_events u' = uw_events u4"
proof -
  let ?u = "(unitOfWork w)\<lparr>uw_status := Started, uw_phase := Some INVOCATION\<rparr> :: task_uow"
  let ?m = "withInstant message (w_now w)" and ?as = "command_answers env h deps i message w"
  obtain x u2 where x: "commandInvocation env h deps ?m ?u = (x, u2)" by fastforce
  note inv = invocation_result [OF deps w env x]
  have as: "answers_inv i s ?as u2" and res: "handler_result env h deps i message w = x"
    using inv(5,6) by (simp_all add: command_answers_def handler_result_def)
  have now: "w_now (uw_world ?u) = w_now w" by (simp add: unitOfWork_def)
  have start: "uw_status (unitOfWork w :: task_uow) = NotStarted" by (simp add: unitOfWork_def)
  note unfolds = execute_command_def execute_def drivePhases_def try_phases_def fresh_phases
  show thesis
  proof (cases x)
    case (Inl e)
    have "answers_inv i s ?as (u2\<lparr>uw_status := Errored, uw_closed := True\<rparr>)"
      by (rule answers_inv_world [OF as w(2)]) (simp_all add: grown_refl)
    then show thesis
      by (intro threw [of e "u2\<lparr>uw_status := Errored, uw_closed := True\<rparr>"])
        (use x now start Inl res inv(4) in \<open>simp_all add: unfolds notify_errors_none no_handlers_def\<close>)
  next
    case (Inr result)
    let ?c = "u2\<lparr>uw_phase := Some PREPARE_COMMIT, uw_phaseActions := map_set PREPARE_COMMIT [] (uw_phaseActions u2),
                uw_calls := uw_calls u2 @ [(PREPARE_COMMIT, FlushEvents i None)]\<rparr>"
    let ?u3 = "await_task env ?c"
    obtain r u4 where f: "flush_events i None ?u3 = (r, u4)" by fastforce
    have inv3: "task_inv i ?u3"
      by (rule task_inv_await [OF env(1) task_inv_world [OF inv(1)]]) (simp_all add: grown_refl)
    have as3: "answers_inv i s ?as ?u3"
      by (rule answers_inv_await [OF env(1) w(2) answers_inv_world [OF as w(2)]]) (simp_all add: grown_refl)
    have fr: "frame ?c u4" using frame_trans [OF frame_await frame_flush [OF f]] .
    have b4: "bucket p u4 = []" for p
      using frame_bucket [OF fr, of p] inv(3) [of p] by (cases "p = PREPARE_COMMIT") (simp_all add: bucket_def)
    have prep: "runPhase (task_act env) PREPARE_COMMIT u2 = Some (r, u4)"
      by (rule runPhase_single [OF inv(2)]) (simp_all add: task_act_def f b4)
    have nh: "no_handlers u4" using no_handlers_flush [OF f] inv(4) by (simp add: no_handlers_def await_task_def)
    have rest: "and_then (runPhase (task_act env) COMMIT u4) (runPhase (task_act env) AFTER_COMMIT) =
        Some (None, u4\<lparr>uw_phase := Some AFTER_COMMIT\<rparr>)"
      by (simp add: and_then_def runPhase_empty b4)
    show thesis
    proof (cases r)
      case None
      show thesis
        by (rule flushed [where r = r and result = result and ?u3.0 = ?u3 and ?u4.0 = u4
              and u' = "u4\<lparr>uw_phase := Some AFTER_COMMIT, uw_status := Completed, uw_closed := True\<rparr>"])
          (use x now start Inr None prep rest nh inv3 as3 f res in
            \<open>simp_all add: unfolds notify_complete_none no_handlers_def\<close>)
    next
      case (Some e)
      show thesis
        by (rule flushed [where r = r and result = result and ?u3.0 = ?u3 and ?u4.0 = u4
              and u' = "u4\<lparr>uw_status := Errored, uw_closed := True\<rparr>"])
          (use x now start Inr Some prep nh inv3 as3 f res in
            \<open>simp_all add: unfolds notify_errors_none no_handlers_def\<close>)
    qed
  qed
qed

text \<open>An answer holds now exactly if the sourcing info recorded for it is current.\<close>

lemma holds_now_iff:
  assumes "wf_store now" "recorded_as now info a"
  shows "holds_now a now \<longleftrightarrow> still_current info now"
  using assms(2) current_iff [OF assms(1)] by (cases a) auto

lemma accepted_holds: "is_accepted a \<Longrightarrow> holds_now a now"
  by (cases a) auto

lemma all_hold_iff:
  assumes "wf_store now" "list_all2 (recorded_as now) infos (filter is_read as)"
  shows "(\<forall>a \<in> set as. holds_now a now) \<longleftrightarrow> (\<forall>info \<in> set infos. still_current info now)"
proof -
  have "(\<forall>a \<in> set rs. holds_now a now) \<longleftrightarrow> (\<forall>info \<in> set infos. still_current info now)"
    if "list_all2 (recorded_as now) infos rs" for rs
    using that by (induction rule: list_all2_induct) (auto dest: holds_now_iff [OF assms(1)])
  moreover have "(\<forall>a \<in> set as. holds_now a now) \<longleftrightarrow> (\<forall>a \<in> set (filter is_read as). holds_now a now)"
    using accepted_holds by auto
  ultimately show ?thesis using assms(2) by blast
qed

section \<open>Properties\<close>


definition place_once :: command_handler where
  "place_once =
     \<lparr>ch_name = qn ''shop'' ''Place'',
      ch_handler = (\<lambda>_. Source order_query (\<lambda>r. case r of
          Inr [] \<Rightarrow> Append [(event_descriptor_of (qn ''shop'' ''Placed'') None (Some [(''order'', \<lambda>p m. OneTag ''1'')]), JNull, None)]
                      (\<lambda>_. Return JNull)
        | _ \<Rightarrow> Throw (JsError ''already placed''))),
      ch_appendCondition = None\<rparr>"

definition example_world :: world where
  "example_world = \<lparr>w_sites = [(0, BareLog inMemoryEventStore)], w_repositories = [], w_now = 5,
     w_ids = (\<lambda>n. ''id''), w_nextId = 0, w_awaits = 0\<rparr>"

definition example_message :: command_message where
  "example_message = \<lparr>cmd_identifier = ''c'', cmd_name = qn ''shop'' ''Place'', cmd_payload = JNull,
     cmd_metadata = [], cmd_timestamp = None\<rparr>"

abbreviation example_deps :: invocation_deps where
  "example_deps \<equiv> \<lparr>dp_commandBus = None, dp_eventStore = Some 0\<rparr>"

lemma place_once_answers:
  "command_answers (\<lambda>_ w. w) place_once example_deps 0 example_message example_world =
     [ReadEvents order_query [],
      Accepted (event_descriptor_of (qn ''shop'' ''Placed'') None (Some [(''order'', \<lambda>p m. OneTag ''1'')])) JNull None]"
proof -
  have src: "source inMemoryEventStore (sourcingCondition order_query None None) =
      Inr \<lparr>sr_events = [], sr_marker = markerAt (-1), sr_snapshot = None\<rparr>"
    by code_simp
  show ?thesis
    by (simp add: command_answers_def place_once_def invocation_start_def registerEventFlush_def onPrepareCommit_def
        on_phase_def unitOfWork_def source_fn_def requireLive_def requireLog_def example_world_def src recordSourcing_def
        await_task_def await_world_def append_one_def requireInvocation_def tagsOf_def mk_tag_def event_descriptor_of_def
        generateIdentifier_def emptyMetadata_def Let_def split: unit.splits)
qed


text \<open>
  a handler reads its own writes: appending an event evolves every cached state that folds
  its type, and loading such a state again returns the evolved value without reading the log.
\<close>

theorem append_then_load_sees_write:
  assumes ok: "append_one d payload md u = (Inr (), u1)" "store = Some i" "map_get (w_sites (uw_world u1)) i = Some site"
    and cached: "map_get (ca_entries (uw_stateCache u)) (cache_key m ident) = Some (Inr result)"
      "map_get (ca_modules (uw_stateCache u)) (cache_key m ident) = Some (m, ident)" "wf_map (ca_modules (uw_stateCache u))"
    and fold: "find (\<lambda>(d', _). descriptor_type d' = descriptor_type d) (sm_evolvers m) = Some (d', evolve)"
      "evolve (lr_state result) (last (eb_buffered (uw_events u1))) = Inr st"
  shows "fst (load_fn env store m ident u1) = Inr st"
proof -
  note u1 = append_one_evolves [OF ok(1) cached fold]
  then have "requireLive u1 = Inr ()" "requireLog store call (uw_world u1) = Inr (i, site)" for call
    using ok(2,3) by (simp_all add: requireLive_def requireLog_def)
  with u1 show ?thesis by (simp add: load_fn_def split: unit.splits)
qed

definition cached_task :: task_uow where
  "cached_task = (unitOfWork example_world)\<lparr>uw_phase := Some INVOCATION,
     uw_stateCache := \<lparr>ca_entries = [(''state#1:1'', Inr \<lparr>lr_state = JNumber 0,
          lr_sourcingInfo = \<lparr>si_query = order_query, si_markerPosition = -1\<rparr>\<rparr>)],
        ca_modules = [(''state#1:1'', counter_module, JNumber 1)]\<rparr>\<rparr>"

definition placed_for :: "string \<Rightarrow> event_descriptor" where
  "placed_for order = event_descriptor_of (qn ''shop'' ''Placed'') None (Some [(''order'', \<lambda>p m. OneTag order)])"

lemma cache_key_counter: "cache_key counter_module (JNumber 1) = ''state#1:1''"
  by (simp add: cache_key_def counter_module_def stableIdKey_def show_int_def show_nat_def)

lemma append_cached_task:
  assumes "order \<noteq> []"
  shows "append_one (placed_for order) JNull None cached_task =
    (Inr (), cached_task\<lparr>
       uw_world := example_world\<lparr>w_nextId := 1\<rparr>,
       uw_events := (uw_events cached_task)\<lparr>eb_buffered := [\<lparr>em_identifier = ''id'', em_name = qn ''shop'' ''Placed'', em_payload = JNull,
           em_metadata = [], em_version = ''1.0'', em_timestamp = 5, em_tags = [\<lparr>tag_key = ''order'', tag_value = order\<rparr>]\<rparr>]\<rparr>,
       uw_stateCache := (uw_stateCache cached_task)\<lparr>ca_entries := [(''state#1:1'', Inr \<lparr>lr_state = JNumber 1,
          lr_sourcingInfo = \<lparr>si_query = order_query, si_markerPosition = -1\<rparr>\<rparr>)]\<rparr>\<rparr>)"
  using assms
  by (simp add: append_one_def cached_task_def requireInvocation_def unitOfWork_def placed_for_def event_descriptor_of_def
      tagsOf_def mk_tag_def generateIdentifier_def example_world_def emptyMetadata_def evolve_cached_def counter_module_def
      counter_evolver_def Let_def split: unit.splits)

theorem append_then_load_sees_write_witness:
  "\<exists>u1. append_one (placed_for ''1'') JNull None cached_task = (Inr (), u1) \<and>
     fst (load_fn (\<lambda>_ w. w) (Some 0) counter_module (JNumber 1) u1) = Inr (JNumber 1)"
proof -
  have "''1'' \<noteq> ''''" by simp
  note ap = append_cached_task [OF this]
  show ?thesis
    unfolding ap
    by (rule exI, rule conjI, rule refl,
        rule append_then_load_sees_write [OF ap refl, where site = "BareLog inMemoryEventStore" and
          result = "\<lparr>lr_state = JNumber 0, lr_sourcingInfo = \<lparr>si_query = order_query, si_markerPosition = -1\<rparr>\<rparr>" and
          d' = "fst counter_evolver" and evolve = "snd counter_evolver"])
      (simp_all add: cached_task_def cache_key_def stableIdKey_def show_int_def show_nat_def example_world_def
        counter_module_def counter_evolver_def placed_for_def event_descriptor_of_def)
qed

text \<open>
  C36: the evolution of cached states goes by event type alone. When a task appends an event whose
  type the module of a cached state folds, but which the query of that state does not match, an
  event of another instance, the cached state is evolved with it all the same. Loading the state
  again within the task returns the evolved value, while writing the event to any log leaves what
  the state's query reads as it was, so a load in a later task does not fold it.
\<close>

theorem append_evolves_other_instances:
  assumes ok: "append_one d payload md u = (Inr (), u1)" "eb_buffered (uw_events u1) = before @ [e]"
    and cached: "map_get (ca_entries (uw_stateCache u)) k = Some (Inr result)"
      "map_get (ca_modules (uw_stateCache u)) k = Some (m, ident)" "wf_map (ca_modules (uw_stateCache u))"
    and fold: "find (\<lambda>(d', _). descriptor_type d' = descriptor_type d) (sm_evolvers m) = Some (d', evolve)"
      "evolve (lr_state result) e = Inr st"
    and other: "valid_query (si_query (lr_sourcingInfo result))" "\<not> query_matches (si_query (lr_sourcingInfo result)) e"
  shows "map_get (ca_entries (uw_stateCache u1)) k = Some (Inr (result\<lparr>lr_state := st\<rparr>)) \<and>
    (\<forall>s c marker s'. wf_store s \<longrightarrow> append s [e] c = Inr (marker, s') \<longrightarrow>
       map_option fst (store_read s' (si_query (lr_sourcingInfo result))) =
       map_option fst (store_read s (si_query (lr_sourcingInfo result))))"
  using append_one_evolves [OF ok(1) cached fold(1)] ok(2) fold(2) unmatched_event_not_read [OF _ _ other] by simp

theorem append_evolves_other_instances_witness:
  "\<exists>u1 e r. append_one (placed_for ''2'') JNull None cached_task = (Inr (), u1) \<and> eb_buffered (uw_events u1) = [e] \<and>
     \<not> query_matches order_query e \<and>
     map_get (ca_entries (uw_stateCache u1)) (cache_key counter_module (JNumber 1)) = Some (Inr r) \<and> lr_state r = JNumber 1 \<and>
     (\<forall>s c marker s'. wf_store s \<longrightarrow> append s [e] c = Inr (marker, s') \<longrightarrow>
        map_option fst (store_read s' order_query) = map_option fst (store_read s order_query))"
proof -
  have "''2'' \<noteq> ''''" by simp
  note ap = append_cached_task [OF this]
  let ?e = "\<lparr>em_identifier = ''id'', em_name = qn ''shop'' ''Placed'', em_payload = JNull, em_metadata = [], em_version = ''1.0'',
    em_timestamp = 5, em_tags = [\<lparr>tag_key = ''order'', tag_value = ''2''\<rparr>]\<rparr>"
  have un: "\<not> query_matches order_query ?e"
    by (simp add: query_matches_def order_query_def tag_query_def item_matches_def)
  have vq: "valid_query order_query" by (simp add: compile_order_query)
  show ?thesis
    unfolding ap cache_key_counter
    using append_evolves_other_instances [OF ap, where before = "[]" and e = ?e and k = "''state#1:1''" and m = counter_module
        and ident = "JNumber 1" and st = "JNumber 1" and d' = "fst counter_evolver" and evolve = "snd counter_evolver" and
        result = "\<lparr>lr_state = JNumber 0, lr_sourcingInfo = \<lparr>si_query = order_query, si_markerPosition = -1\<rparr>\<rparr>"] un vq
    by (simp add: cached_task_def unitOfWork_def counter_module_def counter_evolver_def placed_for_def event_descriptor_of_def)
qed

text \<open>
  Two ids that differ as values can share a cache entry: a bigint and the text of its digits
  followed by the letter n are written alike.
\<close>

theorem bigint_id_collides_with_text: "stableIdKey (JBigint 1) = stableIdKey (JString ''1n'')"
  by (simp add: stableIdKey_def show_int_def show_nat_def)

end
