(* ===== verification/Token_Store.thy ===== *)
theory Token_Store
  imports Tracking_Token State_Query
begin

text \<open>
  The token store (\<open>event-processing/token-store.ts\<close>): where each segment of a processor has got to,
  and which node may work on it.

  The store is a \<open>Map\<close> from the text \<open>processor:segment\<close> to an entry; every operation takes the
  time \<open>Date.now()\<close> returns when it runs. Listing the segments of a processor goes through the
  keys' texts, so \<open>startsWith\<close>, \<open>slice\<close> and \<open>parseInt\<close> are modelled; \<open>None\<close> stands for \<open>NaN\<close>.
  The locale \<open>fenced_claims\<close> is the contract the workers of a processor rely on: a claim excludes other
  owners while it is fresh, and a fenced write lands only for the owner.
\<close>

section \<open>The store\<close>

record token_entry =
  te_token :: "tracking_token option"
  te_ownerId :: "string option"
  te_claimedAt :: int

record token_store =
  ts_claimTimeoutMs :: int
  ts_entries :: "(string, token_entry) jsmap"

datatype token_error = UnableToClaimTokenError string nat string

definition inMemoryTokenStore :: "int \<Rightarrow> token_store" where
  "inMemoryTokenStore claimTimeoutMs = \<lparr>ts_claimTimeoutMs = claimTimeoutMs, ts_entries = []\<rparr>"

definition token_key :: "string \<Rightarrow> nat \<Rightarrow> string" where
  "token_key processorName seg = processorName @ '':'' @ show_nat seg"

definition getEntry :: "string \<Rightarrow> nat \<Rightarrow> token_store \<Rightarrow> token_entry option" where
  "getEntry p seg s = map_get (ts_entries s) (token_key p seg)"

definition set_entry :: "string \<Rightarrow> nat \<Rightarrow> token_entry \<Rightarrow> token_store \<Rightarrow> token_store" where
  "set_entry p seg e s = s\<lparr>ts_entries := map_set (token_key p seg) e (ts_entries s)\<rparr>"

text \<open>\<open>!ownerId\<close> holds for \<open>null\<close> and for the empty string.\<close>

definition unowned :: "token_entry \<Rightarrow> bool" where
  "unowned e \<longleftrightarrow> te_ownerId e = None \<or> te_ownerId e = Some ''''"

definition isClaimExpired :: "int \<Rightarrow> int \<Rightarrow> token_entry \<Rightarrow> bool" where
  "isClaimExpired timeout now e \<longleftrightarrow> unowned e \<or> now - te_claimedAt e > timeout"

definition store_token ::
  "int \<Rightarrow> string \<Rightarrow> nat \<Rightarrow> tracking_token \<Rightarrow> string option \<Rightarrow> token_store \<Rightarrow> token_error + token_store" where
  "store_token now p seg token owner s =
     (let entry = getEntry p seg s
      in if owner \<noteq> None \<and> Option.bind entry te_ownerId \<noteq> owner
         then Inl (UnableToClaimTokenError p seg ''the claim is no longer held'')
         else (case entry of
                 Some e \<Rightarrow> Inr (set_entry p seg (e\<lparr>te_token := Some token, te_claimedAt := now\<rparr>) s)
               | None \<Rightarrow> Inr (set_entry p seg \<lparr>te_token = Some token, te_ownerId = None, te_claimedAt = now\<rparr> s)))"

definition get_token :: "string \<Rightarrow> nat \<Rightarrow> token_store \<Rightarrow> tracking_token option" where
  "get_token p seg s = Option.bind (getEntry p seg s) te_token"

definition initialize_one :: "string \<Rightarrow> nat \<Rightarrow> token_store \<Rightarrow> token_store" where
  "initialize_one p i s =
     (if getEntry p i s = None then set_entry p i \<lparr>te_token = None, te_ownerId = None, te_claimedAt = 0\<rparr> s else s)"

definition initializeSegments :: "string \<Rightarrow> nat \<Rightarrow> token_store \<Rightarrow> token_store" where
  "initializeSegments p segmentCount s = fold (initialize_one p) [0 ..< segmentCount] s"

definition claimToken ::
  "int \<Rightarrow> string \<Rightarrow> nat \<Rightarrow> string \<Rightarrow> token_store \<Rightarrow> token_error + (tracking_token option \<times> token_store)" where
  "claimToken now p seg ownerId s =
     (case getEntry p seg s of
        None \<Rightarrow> Inr (None, set_entry p seg \<lparr>te_token = None, te_ownerId = Some ownerId, te_claimedAt = now\<rparr> s)
      | Some e \<Rightarrow>
          if te_ownerId e = Some ownerId then Inr (te_token e, set_entry p seg (e\<lparr>te_claimedAt := now\<rparr>) s)
          else if isClaimExpired (ts_claimTimeoutMs s) now e
          then Inr (te_token e, set_entry p seg (e\<lparr>te_ownerId := Some ownerId, te_claimedAt := now\<rparr>) s)
          else Inl (UnableToClaimTokenError p seg ''already claimed''))"

definition extendClaim :: "int \<Rightarrow> string \<Rightarrow> nat \<Rightarrow> string \<Rightarrow> token_store \<Rightarrow> token_store" where
  "extendClaim now p seg ownerId s =
     (case getEntry p seg s of
        Some e \<Rightarrow> if te_ownerId e = Some ownerId then set_entry p seg (e\<lparr>te_claimedAt := now\<rparr>) s else s
      | None \<Rightarrow> s)"

definition releaseClaim :: "string \<Rightarrow> nat \<Rightarrow> string \<Rightarrow> token_store \<Rightarrow> token_store" where
  "releaseClaim p seg ownerId s =
     (case getEntry p seg s of
        Some e \<Rightarrow> if te_ownerId e = Some ownerId then set_entry p seg (e\<lparr>te_ownerId := None, te_claimedAt := 0\<rparr>) s else s
      | None \<Rightarrow> s)"

definition deleteToken :: "string \<Rightarrow> nat \<Rightarrow> token_store \<Rightarrow> token_store" where
  "deleteToken p seg s = s\<lparr>ts_entries := map_delete (token_key p seg) (ts_entries s)\<rparr>"

section \<open>Listing segments\<close>

definition startsWith :: "string \<Rightarrow> string \<Rightarrow> bool" where
  "startsWith prefix k \<longleftrightarrow> take (length prefix) k = prefix"

definition digit_value :: "char \<Rightarrow> nat option" where
  "digit_value c = (let n = of_char c :: nat in if 48 \<le> n \<and> n \<le> 57 then Some (n - 48) else None)"

fun parse_digits :: "nat \<Rightarrow> string \<Rightarrow> nat" where
  "parse_digits acc [] = acc"
| "parse_digits acc (c # cs) = (case digit_value c of Some d \<Rightarrow> parse_digits (10 * acc + d) cs | None \<Rightarrow> acc)"

definition white_space :: "char \<Rightarrow> bool" where
  "white_space c \<longleftrightarrow> (let n = of_char c :: nat in n = 32 \<or> (9 \<le> n \<and> n \<le> 13) \<or> n = 160)"

text \<open>\<open>parseInt(s, 10)\<close>: leading white space, a sign, then as many digits as there are.\<close>

definition parseInt :: "string \<Rightarrow> int option" where
  "parseInt s =
     (let t = dropWhile white_space s;
          neg = (t \<noteq> [] \<and> hd t = CHR ''-'');
          body = (if t \<noteq> [] \<and> (hd t = CHR ''-'' \<or> hd t = CHR ''+'') then tl t else t)
      in if body = [] \<or> digit_value (hd body) = None then None
         else Some (if neg then - int (parse_digits 0 body) else int (parse_digits 0 body)))"

text \<open>
  \<open>sort((a, b) => a - b)\<close> on numbers; with a \<open>NaN\<close> among them the comparator is inconsistent and the
  order is left to the engine, which here leaves the list alone.
\<close>

definition sort_numbers :: "int option list \<Rightarrow> int option list" where
  "sort_numbers xs = (if None \<in> set xs then xs else map Some (sort (map the xs)))"

definition fetchSegments :: "string \<Rightarrow> token_store \<Rightarrow> int option list" where
  "fetchSegments p s =
     (let prefix = p @ '':''
      in sort_numbers (map (\<lambda>k. parseInt (drop (length prefix) k)) (filter (startsWith prefix) (map_keys (ts_entries s)))))"

definition fetchAvailableSegments :: "int \<Rightarrow> string \<Rightarrow> token_store \<Rightarrow> int option list" where
  "fetchAvailableSegments now p s =
     (let prefix = p @ '':''
      in sort_numbers (map (\<lambda>(k, e). parseInt (drop (length prefix) k))
           (filter (\<lambda>(k, e). startsWith prefix k \<and> (unowned e \<or> isClaimExpired (ts_claimTimeoutMs s) now e)) (ts_entries s))))"

section \<open>Decimal texts\<close>

lemma digit_value_nth: "d < 10 \<Longrightarrow> digit_value (''0123456789'' ! d) = Some d"
proof -
  assume "d < 10"
  then have "d = 0 \<or> d = 1 \<or> d = 2 \<or> d = 3 \<or> d = 4 \<or> d = 5 \<or> d = 6 \<or> d = 7 \<or> d = 8 \<or> d = 9" by presburger
  then show ?thesis by (elim disjE) (simp_all add: digit_value_def)
qed

lemma parse_digits_append:
  "\<forall>c \<in> set xs. digit_value c \<noteq> None \<Longrightarrow> parse_digits acc (xs @ ys) = parse_digits (parse_digits acc xs) ys"
  by (induction xs arbitrary: acc) auto

lemma show_digits_ok:
  assumes "n < fuel"
  shows "show_digits fuel n \<noteq> [] \<and> (\<forall>c \<in> set (show_digits fuel n). digit_value c \<noteq> None) \<and>
         parse_digits 0 (show_digits fuel n) = n"
  using assms
proof (induction fuel arbitrary: n)
  case (Suc fuel)
  show ?case
  proof (cases "n < 10")
    case True
    then show ?thesis using digit_value_nth [of n] by simp
  next
    case False
    then have "n div 10 < fuel" using Suc.prems by simp
    note IH = Suc.IH [OF this]
    have d: "digit_value (''0123456789'' ! (n mod 10)) = Some (n mod 10)" by (rule digit_value_nth) simp
    have "parse_digits 0 (show_digits fuel (n div 10) @ [''0123456789'' ! (n mod 10)]) = 10 * (n div 10) + n mod 10"
      using IH d by (simp add: parse_digits_append)
    with False IH d show ?thesis by simp
  qed
qed simp

lemma show_nat_digits: "show_nat n \<noteq> []" "c \<in> set (show_nat n) \<Longrightarrow> digit_value c \<noteq> None" "parse_digits 0 (show_nat n) = n"
  using show_digits_ok [of n "Suc n"] by (auto simp: show_nat_def)

lemma show_nat_inj: "show_nat a = show_nat b \<Longrightarrow> a = b"
  by (metis show_nat_digits(3))

lemma parseInt_show: "parseInt (show_nat n) = Some (int n)"
proof -
  obtain c cs where c: "show_nat n = c # cs" using show_nat_digits(1) by (cases "show_nat n") auto
  have d: "digit_value c \<noteq> None" using show_nat_digits(2) [of c n] c by simp
  then have "\<not> white_space c" "c \<noteq> CHR ''-''" "c \<noteq> CHR ''+''"
    by (auto simp: digit_value_def white_space_def Let_def split: if_splits)
  with c d show_nat_digits(3) [of n] show ?thesis by (auto simp: parseInt_def Let_def)
qed

lemma colon_not_in_show: "CHR '':'' \<notin> set (show_nat n)"
  using show_nat_digits(2) by (fastforce simp: digit_value_def)

lemma token_key_inj: "token_key p a = token_key q b \<longleftrightarrow> p = q \<and> a = b"
proof
  assume eq: "token_key p a = token_key q b"
  have "lastIndexOf CHR '':'' (token_key p a) = Some (length p)" for p a
    using colon_not_in_show [of a] by (simp add: token_key_def lastIndexOf_append lastIndexOf_None [THEN iffD2])
  with eq have "length p = length q" by (metis option.inject)
  with eq have "p = q" "show_nat a = show_nat b" by (auto simp: token_key_def)
  then show "p = q \<and> a = b" using show_nat_inj by blast
qed simp

lemma getEntry_set [simp]:
  "getEntry q b (set_entry p a e s) = (if q = p \<and> b = a then Some e else getEntry q b s)"
  by (auto simp: getEntry_def set_entry_def token_key_inj)

lemma getEntry_delete [simp]:
  "getEntry q b (deleteToken p a s) = (if q = p \<and> b = a then None else getEntry q b s)"
  by (auto simp: getEntry_def deleteToken_def token_key_inj)

lemma timeout_set [simp]: "ts_claimTimeoutMs (set_entry p a e s) = ts_claimTimeoutMs s"
  by (simp add: set_entry_def)

section \<open>The contract of claims\<close>

text \<open>
  What a worker relies on. Taking a segment over answers the token the last owner stored, needs
  the segment to be free, lapsed or one's own, and makes one the owner; a fenced write lands
  exactly for the owner and keeps ownership.
\<close>

locale fenced_claims =
  fixes owner :: "'s \<Rightarrow> 'k \<Rightarrow> 'o option"
    and token :: "'s \<Rightarrow> 'k \<Rightarrow> 't option"
    and fresh :: "int \<Rightarrow> 's \<Rightarrow> 'k \<Rightarrow> bool"
    and claim :: "int \<Rightarrow> 'k \<Rightarrow> 'o \<Rightarrow> 's \<Rightarrow> ('t option \<times> 's) option"
    and fenced_store :: "int \<Rightarrow> 'k \<Rightarrow> 't \<Rightarrow> 'o \<Rightarrow> 's \<Rightarrow> 's option"
  assumes claim_iff: "claim now k o' s \<noteq> None \<longleftrightarrow> owner s k = Some o' \<or> \<not> fresh now s k"
    and claim_effect: "claim now k o' s = Some (answer, s') \<Longrightarrow>
      answer = token s k \<and> owner s' k = Some o' \<and> token s' k = token s k \<and>
      (\<forall>j. j \<noteq> k \<longrightarrow> owner s' j = owner s j \<and> token s' j = token s j)"
    and store_iff: "fenced_store now k t o' s \<noteq> None \<longleftrightarrow> owner s k = Some o'"
    and store_effect: "fenced_store now k t o' s = Some s' \<Longrightarrow>
      token s' k = Some t \<and> owner s' k = Some o' \<and> (\<forall>j. j \<noteq> k \<longrightarrow> owner s' j = owner s j \<and> token s' j = token s j)"
begin

text \<open>Two owners cannot both write: whoever stores successfully excludes everyone else's store.\<close>

lemma store_exclusive: "fenced_store now k t o1 s \<noteq> None \<Longrightarrow> o1 \<noteq> o2 \<Longrightarrow> fenced_store now' k t' o2 s = None"
  using store_iff [of now k t o1 s] store_iff [of now' k t' o2 s] by auto

text \<open>Taking over hands on the last stored token and shuts the previous owner out.\<close>

lemma takeover:
  assumes "fenced_store now k t o1 s = Some s1" "claim now' k o2 s1 = Some (t', s2)" "o1 \<noteq> o2"
  shows "t' = Some t \<and> fenced_store now'' k t'' o1 s2 = None"
  using store_effect [OF assms(1)] claim_effect [OF assms(2)] store_iff [of now'' k t'' o1 s2] assms(3) by auto

lemma own_claim_kept: "claim now k o' s = Some (answer, s') \<Longrightarrow> fenced_store now' k t o' s' \<noteq> None"
  using claim_effect [of now k o' s answer s'] store_iff by auto

end

definition entry_owner :: "token_store \<Rightarrow> string \<times> nat \<Rightarrow> string option" where
  "entry_owner s k = Option.bind (getEntry (fst k) (snd k) s) te_ownerId"

definition entry_token :: "token_store \<Rightarrow> string \<times> nat \<Rightarrow> tracking_token option" where
  "entry_token s k = get_token (fst k) (snd k) s"

definition claim_fresh :: "int \<Rightarrow> token_store \<Rightarrow> string \<times> nat \<Rightarrow> bool" where
  "claim_fresh now s k \<longleftrightarrow>
     (case getEntry (fst k) (snd k) s of None \<Rightarrow> False | Some e \<Rightarrow> \<not> isClaimExpired (ts_claimTimeoutMs s) now e)"

definition try_claim ::
  "int \<Rightarrow> string \<times> nat \<Rightarrow> string \<Rightarrow> token_store \<Rightarrow> (tracking_token option \<times> token_store) option" where
  "try_claim now k o' s = (case claimToken now (fst k) (snd k) o' s of Inl _ \<Rightarrow> None | Inr r \<Rightarrow> Some r)"

definition try_store :: "int \<Rightarrow> string \<times> nat \<Rightarrow> tracking_token \<Rightarrow> string \<Rightarrow> token_store \<Rightarrow> token_store option" where
  "try_store now k t o' s = (case store_token now (fst k) (snd k) t (Some o') s of Inl _ \<Rightarrow> None | Inr r \<Rightarrow> Some r)"

interpretation claims: fenced_claims entry_owner entry_token claim_fresh try_claim try_store
proof unfold_locales
  fix now o' s answer s' and k :: "string \<times> nat"
  show "(try_claim now k o' s \<noteq> None) = (entry_owner s k = Some o' \<or> \<not> claim_fresh now s k)"
    by (auto simp: try_claim_def claimToken_def entry_owner_def claim_fresh_def split: option.splits if_splits)
  show "try_claim now k o' s = Some (answer, s') \<Longrightarrow> answer = entry_token s k \<and> entry_owner s' k = Some o' \<and> entry_token s' k = entry_token s k \<and>
      (\<forall>j. j \<noteq> k \<longrightarrow> entry_owner s' j = entry_owner s j \<and> entry_token s' j = entry_token s j)"
    by (cases k) (auto simp: try_claim_def claimToken_def entry_owner_def entry_token_def get_token_def
        split: option.splits if_splits)
next
  fix now o' s t s' and k :: "string \<times> nat"
  show "(try_store now k t o' s \<noteq> None) = (entry_owner s k = Some o')"
    by (auto simp: try_store_def store_token_def entry_owner_def Let_def split: option.splits if_splits)
  show "try_store now k t o' s = Some s' \<Longrightarrow> entry_token s' k = Some t \<and> entry_owner s' k = Some o' \<and>
      (\<forall>j. j \<noteq> k \<longrightarrow> entry_owner s' j = entry_owner s j \<and> entry_token s' j = entry_token s j)"
    by (cases k) (auto simp: try_store_def store_token_def entry_owner_def entry_token_def get_token_def Let_def
        split: option.splits if_splits)
qed

section \<open>Runs\<close>

text \<open>The operations of any number of nodes, in the order the store executes them, each with its time.\<close>

datatype token_op =
    OpStore string nat tracking_token "string option"
  | OpInitialize string nat
  | OpClaim string nat string
  | OpExtend string nat string
  | OpRelease string nat string
  | OpDelete string nat

fun token_step :: "int \<times> token_op \<Rightarrow> token_store \<Rightarrow> token_store" where
  "token_step (now, OpStore p a t ow) s = (case store_token now p a t ow s of Inl _ \<Rightarrow> s | Inr s' \<Rightarrow> s')"
| "token_step (now, OpInitialize p n) s = initializeSegments p n s"
| "token_step (now, OpClaim p a ow) s = (case claimToken now p a ow s of Inl _ \<Rightarrow> s | Inr (_, s') \<Rightarrow> s')"
| "token_step (now, OpExtend p a ow) s = extendClaim now p a ow s"
| "token_step (now, OpRelease p a ow) s = releaseClaim p a ow s"
| "token_step (now, OpDelete p a) s = deleteToken p a s"

definition token_run :: "(int \<times> token_op) list \<Rightarrow> token_store \<Rightarrow> token_store" where
  "token_run ops s = fold token_step ops s"

text \<open>Which operations take a segment away from its owner.\<close>

fun takes_away :: "string \<Rightarrow> nat \<Rightarrow> string \<Rightarrow> int \<times> token_op \<Rightarrow> token_store \<Rightarrow> bool" where
  "takes_away p a ow (now, OpClaim q b ow') s \<longleftrightarrow> q = p \<and> b = a \<and> ow' \<noteq> ow \<and> (\<exists>r. claimToken now q b ow' s = Inr r)"
| "takes_away p a ow (now, OpRelease q b ow') s \<longleftrightarrow> q = p \<and> b = a \<and> ow' = ow"
| "takes_away p a ow (now, OpDelete q b) s \<longleftrightarrow> q = p \<and> b = a"
| "takes_away p a ow _ s \<longleftrightarrow> False"

fun undisturbed :: "string \<Rightarrow> nat \<Rightarrow> string \<Rightarrow> (int \<times> token_op) list \<Rightarrow> token_store \<Rightarrow> bool" where
  "undisturbed p a ow [] s = True"
| "undisturbed p a ow (op # ops) s \<longleftrightarrow> \<not> takes_away p a ow op s \<and> undisturbed p a ow ops (token_step op s)"

lemma undisturbed_snoc:
  "undisturbed p a ow (ops @ [op]) s \<longleftrightarrow> undisturbed p a ow ops s \<and> \<not> takes_away p a ow op (token_run ops s)"
  by (induction ops arbitrary: s) (auto simp: token_run_def)

lemma initialize_owner: "entry_owner (initializeSegments p n s) k = entry_owner s k"
proof -
  have "entry_owner (fold (initialize_one p) xs s) k = entry_owner s k" for xs
    by (induction xs arbitrary: s) (auto simp: initialize_one_def entry_owner_def)
  then show ?thesis by (simp add: initializeSegments_def)
qed

lemma initialize_entry_owner:
  "Option.bind (getEntry p a (initializeSegments q n s)) te_ownerId = Option.bind (getEntry p a s) te_ownerId"
  using initialize_owner [of q n s "(p, a)"] by (simp add: entry_owner_def)

text \<open>An owner either was owner before the step, or took the segment in it.\<close>

lemma step_owner:
  assumes "entry_owner (token_step op s) (p, a) = Some ow"
  shows "(entry_owner s (p, a) = Some ow \<and> \<not> takes_away p a ow op s) \<or>
         (\<exists>now r. op = (now, OpClaim p a ow) \<and> claimToken now p a ow s = Inr r)"
  using assms
  by (cases "(op, s)" rule: token_step.cases)
    (auto simp: initialize_entry_owner store_token_def claimToken_def extendClaim_def releaseClaim_def entry_owner_def Let_def
      split: option.splits if_splits sum.splits)

lemma owner_has_claim:
  assumes "entry_owner (token_run ops (inMemoryTokenStore timeout)) (p, a) = Some ow"
  shows "\<exists>before now after. ops = before @ (now, OpClaim p a ow) # after \<and>
     (\<exists>r. claimToken now p a ow (token_run before (inMemoryTokenStore timeout)) = Inr r) \<and>
     undisturbed p a ow after (token_run (before @ [(now, OpClaim p a ow)]) (inMemoryTokenStore timeout))"
  using assms
proof (induction ops rule: rev_induct)
  case Nil
  then show ?case by (simp add: token_run_def inMemoryTokenStore_def entry_owner_def getEntry_def)
next
  case (snoc op ops)
  let ?s = "inMemoryTokenStore timeout"
  have "entry_owner (token_step op (token_run ops ?s)) (p, a) = Some ow" using snoc.prems by (simp add: token_run_def)
  from step_owner [OF this] show ?case
  proof
    assume kept: "entry_owner (token_run ops ?s) (p, a) = Some ow \<and> \<not> takes_away p a ow op (token_run ops ?s)"
    with snoc.IH obtain before now after where *: "ops = before @ (now, OpClaim p a ow) # after"
      "\<exists>r. claimToken now p a ow (token_run before ?s) = Inr r"
      "undisturbed p a ow after (token_run (before @ [(now, OpClaim p a ow)]) ?s)" by blast
    have "token_run after (token_run (before @ [(now, OpClaim p a ow)]) ?s) = token_run ops ?s"
      using *(1) by (simp add: token_run_def)
    with * kept have "undisturbed p a ow (after @ [op]) (token_run (before @ [(now, OpClaim p a ow)]) ?s)"
      by (simp add: undisturbed_snoc)
    with *(1,2) show ?thesis by (metis append.assoc append_Cons)
  next
    assume "\<exists>now r. op = (now, OpClaim p a ow) \<and> claimToken now p a ow (token_run ops ?s) = Inr r"
    then show ?thesis by (metis append_is_Nil_conv undisturbed.simps(1) append_Nil2)
  qed
qed

section \<open>Listing gives the rows\<close>

text \<open>The rows of a processor: its segments with an entry.\<close>

definition rows :: "string \<Rightarrow> token_store \<Rightarrow> nat set" where
  "rows p s = {a. getEntry p a s \<noteq> None}"

text \<open>Every key was written for some processor and segment, each once.\<close>

definition wf_tokens :: "token_store \<Rightarrow> bool" where
  "wf_tokens s \<longleftrightarrow> wf_map (ts_entries s) \<and> (\<forall>k \<in> set (map_keys (ts_entries s)). \<exists>p a. k = token_key p a)"

lemma wf_tokens_init: "wf_tokens (inMemoryTokenStore timeout)"
  by (simp add: wf_tokens_def inMemoryTokenStore_def)

lemma wf_tokens_set: "wf_tokens s \<Longrightarrow> wf_tokens (set_entry p a e s)"
  by (auto simp: wf_tokens_def set_entry_def alist.wf_set alist.keys_set)

lemma wf_tokens_delete: "wf_tokens s \<Longrightarrow> wf_tokens (deleteToken p a s)"
  using alist.keys_del [of "token_key p a" "ts_entries s"] by (auto simp: wf_tokens_def deleteToken_def alist.wf_del)

lemma wf_tokens_step: "wf_tokens s \<Longrightarrow> wf_tokens (token_step op s)"
proof (cases "(op, s)" rule: token_step.cases)
  case (2 now p n s')
  have "wf_tokens s \<Longrightarrow> wf_tokens (fold (initialize_one p) xs s)" for xs
    by (induction xs arbitrary: s) (auto simp: initialize_one_def wf_tokens_set)
  with 2 show "wf_tokens s \<Longrightarrow> wf_tokens (token_step op s)" by (simp add: initializeSegments_def)
qed (auto simp: store_token_def claimToken_def extendClaim_def releaseClaim_def wf_tokens_set wf_tokens_delete Let_def
    split: option.splits sum.splits)

lemma wf_tokens_run: "wf_tokens (token_run ops (inMemoryTokenStore timeout))"
proof -
  have "wf_tokens s \<Longrightarrow> wf_tokens (fold token_step ops s)" for s
    by (induction ops arbitrary: s) (auto simp: wf_tokens_step)
  then show ?thesis by (simp add: token_run_def wf_tokens_init)
qed

text \<open>No other processor's name begins with this one's followed by a colon.\<close>

definition own_prefix :: "string \<Rightarrow> token_store \<Rightarrow> bool" where
  "own_prefix p s \<longleftrightarrow>
     (\<forall>q a. token_key q a \<in> set (map_keys (ts_entries s)) \<longrightarrow> startsWith (p @ '':'') (token_key q a) \<longrightarrow> q = p)"

lemma sort_numbers_Some [simp]: "sort_numbers (map Some xs) = map Some (sort xs)"
  by (auto simp: sort_numbers_def o_def)

lemma fetchSegments_rows:
  assumes wf: "wf_tokens s" and own: "own_prefix p s"
  shows "\<exists>segs. fetchSegments p s = map Some segs \<and> sorted segs \<and> distinct segs \<and> set segs = int ` rows p s"
proof -
  let ?ks = "filter (startsWith (p @ '':'')) (map_keys (ts_entries s))"
  have "\<exists>a. k = token_key p a" if "k \<in> set ?ks" for k
  proof -
    from that wf obtain q a where "k = token_key q a" by (auto simp: wf_tokens_def)
    with that own show ?thesis by (auto simp: own_prefix_def)
  qed
  then obtain f where f: "\<And>k. k \<in> set ?ks \<Longrightarrow> k = token_key p (f k)" by metis
  let ?segs = "map (\<lambda>k. int (f k)) ?ks"
  have parse: "map (\<lambda>k. parseInt (drop (length (p @ '':'')) k)) ?ks = map Some ?segs"
  proof (simp only: map_map, rule map_cong [OF refl])
    fix k assume "k \<in> set ?ks"
    then have "k = (p @ '':'') @ show_nat (f k)" using f by (simp add: token_key_def)
    then have "drop (length (p @ '':'')) k = show_nat (f k)" by (metis append_eq_conv_conj)
    then show "parseInt (drop (length (p @ '':'')) k) = (Some \<circ> (\<lambda>k. int (f k))) k" by (simp add: parseInt_show)
  qed
  have "inj_on (\<lambda>k. int (f k)) (set ?ks)"
  proof (rule inj_onI)
    fix x y assume xy: "x \<in> set ?ks" "y \<in> set ?ks" "int (f x) = int (f y)"
    then have "f x = f y" by simp
    with f [OF xy(1)] f [OF xy(2)] show "x = y" by metis
  qed
  then have d: "distinct ?segs" using wf by (simp add: distinct_map wf_tokens_def)
  have keys: "token_key p a \<in> set (map_keys (ts_entries s)) \<longleftrightarrow> a \<in> rows p s" for a
    using alist.keys_get [of "token_key p a" "ts_entries s"] by (simp add: rows_def getEntry_def)
  have st: "startsWith (p @ '':'') (token_key p a)" for a by (simp add: startsWith_def token_key_def)
  have "set ?ks = token_key p ` rows p s"
  proof (intro set_eqI iffI)
    fix k assume k: "k \<in> set ?ks"
    with f [OF k] keys [of "f k"] show "k \<in> token_key p ` rows p s" by (metis filter_is_subset image_eqI subsetD)
  next
    fix k assume "k \<in> token_key p ` rows p s"
    with keys st show "k \<in> set ?ks" unfolding set_filter by blast
  qed
  moreover have "f (token_key p a) = a" if "a \<in> rows p s" for a
    using that f [of "token_key p a"] calculation by (metis image_eqI token_key_inj)
  ultimately have "set ?segs = int ` rows p s" by (force simp: image_image)
  moreover have "fetchSegments p s = map Some (sort ?segs)"
    unfolding fetchSegments_def Let_def parse by (rule sort_numbers_Some)
  ultimately show ?thesis using d by (intro exI [of _ "sort ?segs"]) (simp del: set_map map_map)
qed

section \<open>Properties\<close>

lemma fresh_store: "getEntry p a (inMemoryTokenStore timeout) = None" "ts_claimTimeoutMs (inMemoryTokenStore timeout) = timeout"
  by (simp_all add: inMemoryTokenStore_def getEntry_def)

text \<open>
  C5: In any interleaving of the operations of any number of nodes on a fresh token store, a write
  fenced with an owner is accepted exactly when the segment's last taker is that owner: some claim of
  his succeeded, and since then nobody else's claim succeeded, he did not release it and the row was not
  deleted. An accepted write sets the token and nothing of any other segment.\<close>
theorem fenced_store_needs_own_claim:
  assumes "store_token now p a t (Some ow) (token_run ops (inMemoryTokenStore timeout)) = Inr s'"
  shows "(\<exists>before at after. ops = before @ (at, OpClaim p a ow) # after \<and>
            (\<exists>r. claimToken at p a ow (token_run before (inMemoryTokenStore timeout)) = Inr r) \<and>
            undisturbed p a ow after (token_run (before @ [(at, OpClaim p a ow)]) (inMemoryTokenStore timeout))) \<and>
         get_token p a s' = Some t \<and>
         (\<forall>q b. (q, b) \<noteq> (p, a) \<longrightarrow> getEntry q b s' = getEntry q b (token_run ops (inMemoryTokenStore timeout)))"
proof -
  let ?s = "token_run ops (inMemoryTokenStore timeout)"
  have st: "try_store now (p, a) t ow ?s = Some s'" using assms by (simp add: try_store_def)
  then have "entry_owner ?s (p, a) = Some ow" using claims.store_iff [of now "(p, a)" t ow ?s] by simp
  note claim = owner_has_claim [OF this]
  have "get_token p a s' = Some t" using claims.store_effect [OF st] by (simp add: entry_token_def)
  moreover have "\<forall>q b. (q, b) \<noteq> (p, a) \<longrightarrow> getEntry q b s' = getEntry q b ?s"
    using assms by (auto simp: store_token_def Let_def split: if_splits option.splits)
  ultimately show ?thesis using claim by blast
qed

theorem fenced_store_needs_own_claim_witness:
  "\<exists>before at after. [(5, OpClaim ''orders'' 0 ''n1''), (6, OpClaim ''orders'' 0 ''n2'')] =
       before @ (at, OpClaim ''orders'' 0 ''n1'') # after \<and>
     undisturbed ''orders'' 0 ''n1'' after (token_run (before @ [(at, OpClaim ''orders'' 0 ''n1'')]) (inMemoryTokenStore 10))"
proof -
  let ?ops = "[(5, OpClaim ''orders'' 0 ''n1''), (6, OpClaim ''orders'' 0 ''n2'')]"
  have "\<exists>s'. store_token 7 ''orders'' 0 (GlobalSequenceToken 1) (Some ''n1'') (token_run ?ops (inMemoryTokenStore 10)) = Inr s'"
    by (simp add: token_run_def claimToken_def store_token_def fresh_store isClaimExpired_def unowned_def Let_def)
  then obtain s' where "store_token 7 ''orders'' 0 (GlobalSequenceToken 1) (Some ''n1'') (token_run ?ops (inMemoryTokenStore 10)) = Inr s'" ..
  from fenced_store_needs_own_claim [OF this] show ?thesis by blast
qed

text \<open>
  Taking a segment over loses no progress and shuts the previous owner out: if one owner's fenced
  write lands and another node's claim then succeeds, however long after, the claim returns exactly the
  written token, and every later fenced write of the first owner is refused until he claims again; while the claim is
  fresh the other node's claim is refused.\<close>
theorem takeover_hands_on_token:
  assumes "store_token now p a t (Some ow) s = Inr s1" "ow \<noteq> ow'"
  shows "(case claimToken now' p a ow' s1 of
            Inr (answer, s2) \<Rightarrow>
              answer = Some t \<and> (ow = '''' \<or> now' - now > ts_claimTimeoutMs s) \<and>
              (\<forall>later t'. store_token later p a t' (Some ow) s2 =
                 Inl (UnableToClaimTokenError p a ''the claim is no longer held''))
          | Inl err \<Rightarrow> err = UnableToClaimTokenError p a ''already claimed'' \<and> now' - now \<le> ts_claimTimeoutMs s)"
  using assms
  by (auto simp: store_token_def claimToken_def isClaimExpired_def unowned_def Let_def
      split: if_splits option.splits)

theorem takeover_hands_on_token_witness:
  "\<exists>s1. store_token 6 ''orders'' 0 (GlobalSequenceToken 4) (Some ''n1'') (token_run [(5, OpClaim ''orders'' 0 ''n1'')] (inMemoryTokenStore 10)) = Inr s1 \<and>
     (\<exists>s2. claimToken 17 ''orders'' 0 ''n2'' s1 = Inr (Some (GlobalSequenceToken 4), s2))"
proof -
  let ?s = "token_run [(5, OpClaim ''orders'' 0 ''n1'')] (inMemoryTokenStore 10)"
  have s: "ts_claimTimeoutMs ?s = 10" "getEntry ''orders'' 0 ?s = Some \<lparr>te_token = None, te_ownerId = Some ''n1'', te_claimedAt = 5\<rparr>"
    by (simp_all add: token_run_def claimToken_def fresh_store)
  then obtain s1 where s1: "store_token 6 ''orders'' 0 (GlobalSequenceToken 4) (Some ''n1'') ?s = Inr s1"
    by (simp add: store_token_def)
  then have "\<exists>r. claimToken 17 ''orders'' 0 ''n2'' s1 = Inr r"
    using s by (auto simp: store_token_def claimToken_def isClaimExpired_def)
  with s1 takeover_hands_on_token [OF s1, of "''n2''" 17] show ?thesis by auto
qed

text \<open>
  Listing a processor's segments after any run gives, in ascending order and once each, exactly the
  segments that have a row, provided no other processor that wrote to the store has a name beginning with this one's
  name and a colon.\<close>
theorem fetchSegments_exact:
  assumes "own_prefix p (token_run ops (inMemoryTokenStore timeout))"
  shows "\<exists>segs. fetchSegments p (token_run ops (inMemoryTokenStore timeout)) = map Some segs \<and> sorted segs \<and> distinct segs \<and>
     set segs = int ` {a. getEntry p a (token_run ops (inMemoryTokenStore timeout)) \<noteq> None}"
  using fetchSegments_rows [OF wf_tokens_run assms] by (simp add: rows_def)

theorem fetchSegments_exact_witness:
  "\<exists>segs. fetchSegments ''orders'' (token_run [(0, OpInitialize ''orders'' 2)] (inMemoryTokenStore 10)) = map Some segs \<and>
     set segs = {0, 1}"
proof -
  let ?s = "token_run [(0, OpInitialize ''orders'' 2)] (inMemoryTokenStore 10)"
  have e: "ts_entries ?s = [(''orders:0'', \<lparr>te_token = None, te_ownerId = None, te_claimedAt = 0\<rparr>),
      (''orders:1'', \<lparr>te_token = None, te_ownerId = None, te_claimedAt = 0\<rparr>)]"
    by code_simp
  have keys: "set (map_keys (ts_entries ?s)) = {token_key ''orders'' 0, token_key ''orders'' 1}"
    unfolding e by code_simp
  have "own_prefix ''orders'' ?s" unfolding own_prefix_def keys by (auto simp: token_key_inj)
  from fetchSegments_exact [OF this] obtain segs where segs:
    "fetchSegments ''orders'' ?s = map Some segs" "set segs = int ` {a. getEntry ''orders'' a ?s \<noteq> None}" by blast
  have "{a. getEntry ''orders'' a ?s \<noteq> None} = {0, 1}"
    by (auto simp: token_run_def initializeSegments_def initialize_one_def fresh_store numeral_2_eq_2)
  with segs show ?thesis by auto
qed

text \<open>
  The prefix condition is needed. Once a processor named "orders:5" has initialised its only segment,
  the processor "orders", which has no row at all, is told that it has a segment 5 that is free to claim.\<close>
theorem fetchSegments_lists_other_processor:
  "fetchSegments ''orders'' (initializeSegments ''orders:5'' 1 (inMemoryTokenStore 10)) = [Some 5] \<and>
   fetchAvailableSegments 0 ''orders'' (initializeSegments ''orders:5'' 1 (inMemoryTokenStore 10)) = [Some 5] \<and>
   getEntry ''orders'' 5 (initializeSegments ''orders:5'' 1 (inMemoryTokenStore 10)) = None"
  by code_simp

end
