(* ===== verification/Dead_Letter_Queue.thy ===== *)
theory Dead_Letter_Queue
  imports Unit_Of_Work Token_Store
begin

text \<open>
  The dead-letter queue (\<open>event-processing/dead-letter-queue.ts\<close>): events whose handler failed, parked
  in lanes so that each lane keeps its order.

  A letter is an object and \<open>indexOf\<close> finds it by identity, so a letter carries a reference,
  \<open>dl_ref\<close>; the operations that build a new letter take the fresh reference and the time
  \<open>Date.now()\<close> returns. \<open>process\<close> replays a lane, each letter in a unit of work minted by a parameter; the unit of work is that of
  \<open>Unit_Of_Work\<close>, whose world holds the queue, the references given out, the clock and whatever
  the host's code works on. The evictions are the after-commit actions \<open>process\<close> registers; every other
  action is the host's.

  The theory shows that the caps hold in every reachable queue, which lane is replayed and what a
  replay leaves of it.
\<close>

section \<open>Letters\<close>

record dead_letter =
  dl_ref :: nat
  dl_message :: event_message
  dl_cause :: js_error
  dl_enqueuedAt :: int
  dl_lastTouched :: int
  dl_diagnostics :: metadata
  dl_sequenceIdentifier :: string

record enqueue_decision =
  ed_shouldEnqueue :: bool
  ed_cause :: "js_error option"
  ed_diagnostics :: "metadata option"

datatype overflow_error = DeadLetterQueueOverflowError string

definition deadLetter :: "nat \<Rightarrow> int \<Rightarrow> event_message \<Rightarrow> js_error \<Rightarrow> string \<Rightarrow> metadata option \<Rightarrow> dead_letter" where
  "deadLetter ref now message cause lane diagnostics =
     \<lparr>dl_ref = ref, dl_message = message, dl_cause = cause, dl_enqueuedAt = now, dl_lastTouched = now,
      dl_diagnostics = (case diagnostics of Some d \<Rightarrow> d | None \<Rightarrow> []), dl_sequenceIdentifier = lane\<rparr>"

section \<open>The queue\<close>

type_synonym lane_map = "(string, dead_letter list) jsmap"

record dead_letter_queue =
  dq_maxSequences :: nat
  dq_maxSequenceSize :: nat
  dq_groups :: "(string, lane_map) jsmap"
  dq_processing :: "string set"

definition inMemoryDeadLetterQueue :: "nat option \<Rightarrow> nat option \<Rightarrow> dead_letter_queue" where
  "inMemoryDeadLetterQueue maxSequences maxSequenceSize =
     \<lparr>dq_maxSequences = (case maxSequences of Some n \<Rightarrow> n | None \<Rightarrow> 1024),
      dq_maxSequenceSize = (case maxSequenceSize of Some n \<Rightarrow> n | None \<Rightarrow> 1024),
      dq_groups = [], dq_processing = {}\<rparr>"

text \<open>\<open>lanes(group)\<close>, which makes the group's map when there is none.\<close>

definition lanes :: "string \<Rightarrow> dead_letter_queue \<Rightarrow> lane_map \<times> dead_letter_queue" where
  "lanes g q =
     (case map_get (dq_groups q) g of
        Some m \<Rightarrow> (m, q)
      | None \<Rightarrow> ([], q\<lparr>dq_groups := map_set g [] (dq_groups q)\<rparr>))"

definition put_lanes :: "string \<Rightarrow> lane_map \<Rightarrow> dead_letter_queue \<Rightarrow> dead_letter_queue" where
  "put_lanes g m q = q\<lparr>dq_groups := map_set g m (dq_groups q)\<rparr>"

definition lane_overflow :: "string \<Rightarrow> dead_letter_queue \<Rightarrow> overflow_error" where
  "lane_overflow l q =
     DeadLetterQueueOverflowError (''sequence '' @ l @ '' has reached max size '' @ show_nat (dq_maxSequenceSize q))"

definition enqueue :: "string \<Rightarrow> dead_letter \<Rightarrow> dead_letter_queue \<Rightarrow> (overflow_error + unit) \<times> dead_letter_queue" where
  "enqueue g letter q =
     (let (sequences, q) = lanes g q
      in case map_get sequences (dl_sequenceIdentifier letter) of
           Some seq \<Rightarrow>
             if length seq \<ge> dq_maxSequenceSize q then (Inl (lane_overflow (dl_sequenceIdentifier letter) q), q)
             else (Inr (), put_lanes g (map_set (dl_sequenceIdentifier letter) (seq @ [letter]) sequences) q)
         | None \<Rightarrow>
             if length sequences \<ge> dq_maxSequences q
             then (Inl (DeadLetterQueueOverflowError (''max sequences '' @ show_nat (dq_maxSequences q) @ '' reached'')), q)
             else (Inr (), put_lanes g (map_set (dl_sequenceIdentifier letter) [letter] sequences) q))"

definition enqueueIfPresent ::
  "string \<Rightarrow> string \<Rightarrow> (unit \<Rightarrow> dead_letter) \<Rightarrow> dead_letter_queue \<Rightarrow> (overflow_error + bool) \<times> dead_letter_queue" where
  "enqueueIfPresent g l letterSupplier q =
     (let (sequences, q) = lanes g q
      in case map_get sequences l of
           None \<Rightarrow> (Inr False, q)
         | Some seq \<Rightarrow>
             if length seq \<ge> dq_maxSequenceSize q then (Inl (lane_overflow l q), q)
             else (Inr True, put_lanes g (map_set l (seq @ [letterSupplier ()]) sequences) q))"

text \<open>\<open>indexOf\<close> and \<open>splice\<close>: drop the first element that is the same object.\<close>

fun splice_out :: "nat \<Rightarrow> dead_letter list \<Rightarrow> dead_letter list" where
  "splice_out r [] = []"
| "splice_out r (x # xs) = (if dl_ref x = r then xs else x # splice_out r xs)"

definition evict :: "string \<Rightarrow> string \<Rightarrow> dead_letter \<Rightarrow> dead_letter_queue \<Rightarrow> dead_letter_queue" where
  "evict g l letter q =
     (let (sequences, q) = lanes g q
      in case map_get sequences l of
           None \<Rightarrow> q
         | Some seq \<Rightarrow>
             (let seq' = splice_out (dl_ref letter) seq
              in put_lanes g (if seq' = [] then map_delete l sequences else map_set l seq' sequences) q))"

definition touched :: "nat \<Rightarrow> int \<Rightarrow> dead_letter \<Rightarrow> js_error option \<Rightarrow> metadata option \<Rightarrow> dead_letter" where
  "touched ref now letter cause diagnostics =
     letter\<lparr>dl_ref := ref, dl_lastTouched := now,
       dl_cause := (case cause of Some c \<Rightarrow> c | None \<Rightarrow> dl_cause letter),
       dl_diagnostics := (case diagnostics of Some d \<Rightarrow> spread (dl_diagnostics letter) d | None \<Rightarrow> dl_diagnostics letter)\<rparr>"

definition requeue ::
  "nat \<Rightarrow> int \<Rightarrow> string \<Rightarrow> dead_letter \<Rightarrow> js_error option \<Rightarrow> metadata option \<Rightarrow> dead_letter_queue \<Rightarrow> dead_letter_queue" where
  "requeue ref now g letter cause diagnostics q =
     (let (sequences, q) = lanes g q
      in case map_get sequences (dl_sequenceIdentifier letter) of
           None \<Rightarrow> q
         | Some seq \<Rightarrow>
             put_lanes g (map_set (dl_sequenceIdentifier letter)
               (touched ref now letter cause diagnostics # splice_out (dl_ref letter) seq) sequences) q)"

definition deadLetterSequence :: "string \<Rightarrow> string \<Rightarrow> dead_letter_queue \<Rightarrow> dead_letter list" where
  "deadLetterSequence g l q = (case map_get (fst (lanes g q)) l of Some seq \<Rightarrow> seq | None \<Rightarrow> [])"

definition contains :: "string \<Rightarrow> string \<Rightarrow> dead_letter_queue \<Rightarrow> bool" where
  "contains g l q \<longleftrightarrow> (case map_get (fst (lanes g q)) l of Some seq \<Rightarrow> length seq > 0 | None \<Rightarrow> False)"

definition sequenceIdentifiers :: "string \<Rightarrow> dead_letter_queue \<Rightarrow> string list" where
  "sequenceIdentifiers g q = map_keys (fst (lanes g q))"

definition size_of_group :: "string \<Rightarrow> dead_letter_queue \<Rightarrow> nat" where
  "size_of_group g q = sum_list (map (\<lambda>(l, letters). length letters) (fst (lanes g q)))"

definition amountOfSequences :: "string \<Rightarrow> dead_letter_queue \<Rightarrow> nat" where
  "amountOfSequences g q = length (fst (lanes g q))"

definition clear_group :: "string \<Rightarrow> dead_letter_queue \<Rightarrow> dead_letter_queue" where
  "clear_group g q =
     q\<lparr>dq_groups := map_delete g (dq_groups q),
       dq_processing := {k \<in> dq_processing q. \<not> startsWith (g @ '':'') k}\<rparr>"

definition isFull :: "string \<Rightarrow> string \<Rightarrow> dead_letter_queue \<Rightarrow> bool" where
  "isFull g l q =
     (let (sequences, q) = lanes g q
      in case map_get sequences l of
           Some seq \<Rightarrow> length seq \<ge> dq_maxSequenceSize q
         | None \<Rightarrow> length sequences \<ge> dq_maxSequences q)"

section \<open>Processing a lane\<close>

record 'o dlq_world =
  dw_queue :: dead_letter_queue
  dw_nextRef :: nat
  dw_now :: int
  dw_outside :: 'o

datatype 'x dlq_action = EvictLetter string string dead_letter | HostAction 'x

datatype 'e replay_error = LetterFailed enqueue_decision | ReplayThrew 'e

type_synonym ('x, 'h, 'o) letter_uow = "('x dlq_action, 'h, 'o dlq_world) uow"

definition with_queue :: "(dead_letter_queue \<Rightarrow> dead_letter_queue) \<Rightarrow> 'o dlq_world \<Rightarrow> 'o dlq_world" where
  "with_queue f w = w\<lparr>dw_queue := f (dw_queue w)\<rparr>"

fun dlq_act ::
  "('x \<Rightarrow> ('x, 'h, 'o) letter_uow \<Rightarrow> 'e replay_error option \<times> ('x, 'h, 'o) letter_uow) \<Rightarrow> 'x dlq_action
     \<Rightarrow> ('x, 'h, 'o) letter_uow \<Rightarrow> 'e replay_error option \<times> ('x, 'h, 'o) letter_uow" where
  "dlq_act host (EvictLetter g l letter) u = (None, u\<lparr>uw_world := with_queue (evict g l letter) (uw_world u)\<rparr>)"
| "dlq_act host (HostAction x) u = host x u"

definition letter_action ::
  "string \<Rightarrow> string \<Rightarrow> (dead_letter \<Rightarrow> ('x, 'h, 'o) letter_uow \<Rightarrow> ('e + enqueue_decision) \<times> ('x, 'h, 'o) letter_uow)
     \<Rightarrow> dead_letter \<Rightarrow> ('x, 'h, 'o) letter_uow \<Rightarrow> ('e replay_error + unit) \<times> ('x, 'h, 'o) letter_uow" where
  "letter_action g laneId processingTask letter u =
     (case processingTask letter u of
        (Inl e, u') \<Rightarrow> (Inl (ReplayThrew e), u')
      | (Inr decision, u') \<Rightarrow>
          if ed_shouldEnqueue decision then (Inl (LetterFailed decision), u')
          else (Inr (), onAfterCommit (EvictLetter g laneId letter) u'))"

text \<open>The oldest untaken lane the filter accepts: the lane and the time its head was last touched.\<close>

definition oldest_step ::
  "(string \<Rightarrow> bool) \<Rightarrow> (string \<Rightarrow> dead_letter \<Rightarrow> bool) \<Rightarrow> string \<times> dead_letter list \<Rightarrow> (string \<times> int) option
     \<Rightarrow> (string \<times> int) option" where
  "oldest_step taken sequenceFilter e best =
     (case e of
        (l, []) \<Rightarrow> best
      | (l, head # rest) \<Rightarrow>
          if taken l \<or> \<not> sequenceFilter l head then best
          else (case best of
                  None \<Rightarrow> Some (l, dl_lastTouched head)
                | Some (_, t) \<Rightarrow> if dl_lastTouched head < t then Some (l, dl_lastTouched head) else best))"

definition processing_key :: "string \<Rightarrow> string \<Rightarrow> string" where
  "processing_key g l = g @ '':'' @ l"

definition oldest_lane :: "string \<Rightarrow> (string \<Rightarrow> dead_letter \<Rightarrow> bool) \<Rightarrow> dead_letter_queue \<Rightarrow> string option" where
  "oldest_lane g sequenceFilter q =
     map_option fst (fold (oldest_step (\<lambda>l. processing_key g l \<in> dq_processing q) sequenceFilter) (fst (lanes g q)) None)"

text \<open>
  What the host brings to a replay: the unit of work it mints in a world, the code of its own phase
  actions, error handlers and completion handlers.
\<close>

record ('x, 'h, 'o, 'e) replay_host =
  rh_mint :: "'o dlq_world \<Rightarrow> ('x, 'h, 'o) letter_uow"
  rh_act :: "'x \<Rightarrow> ('x, 'h, 'o) letter_uow \<Rightarrow> 'e replay_error option \<times> ('x, 'h, 'o) letter_uow"
  rh_onError :: "'h \<Rightarrow> 'e replay_error \<Rightarrow> phase option \<Rightarrow> ('x, 'h, 'o) letter_uow \<Rightarrow> ('x, 'h, 'o) letter_uow"
  rh_onComplete :: "'h \<Rightarrow> ('x, 'h, 'o) letter_uow \<Rightarrow> ('x, 'h, 'o) letter_uow"

datatype 'e process_error = ProcessUow uow_error | ProcessThrew 'e

text \<open>The loop over the snapshot: \<open>None\<close> when a letter's unit of work does not return.\<close>

fun process_letters ::
  "('x, 'h, 'o, 'e) replay_host \<Rightarrow> string \<Rightarrow> string \<Rightarrow>
   (dead_letter \<Rightarrow> ('x, 'h, 'o) letter_uow \<Rightarrow> ('e + enqueue_decision) \<times> ('x, 'h, 'o) letter_uow) \<Rightarrow>
   dead_letter list \<Rightarrow> 'o dlq_world \<Rightarrow> (('e process_error + bool) \<times> 'o dlq_world) option" where
  "process_letters host g laneId processingTask [] w = Some (Inr True, w)"
| "process_letters host g laneId processingTask (letter # rest) w =
     (case execute (dlq_act (rh_act host)) (rh_onError host) (rh_onComplete host) (letter_action g laneId processingTask letter)
             (rh_mint host w) of
        Inl err \<Rightarrow> Some (Inl (ProcessUow err), w)
      | Inr None \<Rightarrow> None
      | Inr (Some (Inr _, u)) \<Rightarrow> process_letters host g laneId processingTask rest (uw_world u)
      | Inr (Some (Inl (ReplayThrew e), u)) \<Rightarrow> Some (Inl (ProcessThrew e), uw_world u)
      | Inr (Some (Inl (LetterFailed d), u)) \<Rightarrow>
          (let w' = uw_world u
           in Some (Inr True,
                w'\<lparr>dw_queue := requeue (dw_nextRef w') (dw_now w') g letter (ed_cause d) (ed_diagnostics d) (dw_queue w'),
                   dw_nextRef := Suc (dw_nextRef w')\<rparr>)))"

text \<open>\<open>!oldestId\<close> also holds for the empty lane name.\<close>

definition process ::
  "('x, 'h, 'o, 'e) replay_host \<Rightarrow> string \<Rightarrow> (string \<Rightarrow> dead_letter \<Rightarrow> bool) \<Rightarrow>
   (dead_letter \<Rightarrow> ('x, 'h, 'o) letter_uow \<Rightarrow> ('e + enqueue_decision) \<times> ('x, 'h, 'o) letter_uow) \<Rightarrow>
   'o dlq_world \<Rightarrow> (('e process_error + bool) \<times> 'o dlq_world) option" where
  "process host g sequenceFilter processingTask w =
     (let w1 = with_queue (\<lambda>q. snd (lanes g q)) w
      in case oldest_lane g sequenceFilter (dw_queue w1) of
           None \<Rightarrow> Some (Inr False, w1)
         | Some laneId \<Rightarrow>
             if laneId = '''' then Some (Inr False, w1)
             else (let k = processing_key g laneId;
                       w2 = with_queue (\<lambda>q. q\<lparr>dq_processing := insert k (dq_processing q)\<rparr>) w1;
                       letters = deadLetterSequence g laneId (dw_queue w2)
                   in map_option (\<lambda>(r, w3). (r, with_queue (\<lambda>q. q\<lparr>dq_processing := dq_processing q - {k}\<rparr>) w3))
                        (process_letters host g laneId processingTask letters w2)))"

section \<open>The queue as a map of lanes\<close>

text \<open>What is observable of the groups: the letters of each lane that exists.\<close>

definition lane_of :: "string \<Rightarrow> string \<Rightarrow> dead_letter_queue \<Rightarrow> dead_letter list option" where
  "lane_of g l q = Option.bind (map_get (dq_groups q) g) (\<lambda>m. map_get m l)"

lemma lanes_get [simp]: "map_get (fst (lanes g q)) l = lane_of g l q"
  by (simp add: lanes_def lane_of_def split: option.split)

lemma lane_of_lanes [simp]: "lane_of g' l (snd (lanes g q)) = lane_of g' l q"
  by (simp add: lanes_def lane_of_def split: option.split)

lemma lanes_fields [simp]:
  "dq_maxSequences (snd (lanes g q)) = dq_maxSequences q" "dq_maxSequenceSize (snd (lanes g q)) = dq_maxSequenceSize q"
  "dq_processing (snd (lanes g q)) = dq_processing q"
  by (simp_all add: lanes_def split: option.split)

lemma lane_of_put [simp]: "lane_of g' l (put_lanes g m q) = (if g' = g then map_get m l else lane_of g' l q)"
  by (simp add: put_lanes_def lane_of_def)

lemma put_lanes_fields [simp]:
  "dq_maxSequences (put_lanes g m q) = dq_maxSequences q" "dq_maxSequenceSize (put_lanes g m q) = dq_maxSequenceSize q"
  "dq_processing (put_lanes g m q) = dq_processing q"
  by (simp_all add: put_lanes_def)

lemma lane_of_processing [simp]: "lane_of g l (q\<lparr>dq_processing := p\<rparr>) = lane_of g l q"
  by (simp add: lane_of_def)

lemma lanes_put [simp]: "lanes g (put_lanes g m q) = (m, put_lanes g m q)"
  by (simp add: lanes_def put_lanes_def)

lemma lanes_other: "g' \<noteq> g \<Longrightarrow> fst (lanes g' (put_lanes g m q)) = fst (lanes g' q)"
  by (simp add: lanes_def put_lanes_def split: option.split)

lemma lanes_snd [simp]: "fst (lanes g' (snd (lanes g q))) = fst (lanes g' q)"
  by (auto simp: lanes_def split: option.split)

lemma lanes_processing [simp]: "fst (lanes g (q\<lparr>dq_processing := p\<rparr>)) = fst (lanes g q)"
  by (simp add: lanes_def split: option.split)

lemma deadLetterSequence_lane: "deadLetterSequence g l q = (case lane_of g l q of Some seq \<Rightarrow> seq | None \<Rightarrow> [])"
  by (simp add: deadLetterSequence_def)

lemma enqueue_lane:
  "lane_of g' l' (snd (enqueue g letter q)) =
     (if isl (fst (enqueue g letter q)) \<or> g' \<noteq> g \<or> l' \<noteq> dl_sequenceIdentifier letter then lane_of g' l' q
      else Some (deadLetterSequence g l' q @ [letter]))"
  by (auto simp: enqueue_def deadLetterSequence_lane Let_def split_beta split: option.splits)

lemma enqueue_refused:
  "isl (fst (enqueue g letter q)) \<longleftrightarrow> isFull g (dl_sequenceIdentifier letter) q"
  by (auto simp: enqueue_def isFull_def Let_def split_beta split: option.splits)

lemma enqueueIfPresent_lane:
  "lane_of g' l' (snd (enqueueIfPresent g l supplier q)) =
     (if fst (enqueueIfPresent g l supplier q) = Inr True \<and> g' = g \<and> l' = l then Some (deadLetterSequence g l q @ [supplier ()])
      else lane_of g' l' q)"
  by (auto simp: enqueueIfPresent_def deadLetterSequence_lane Let_def split_beta split: option.splits)

lemma enqueueIfPresent_result:
  "fst (enqueueIfPresent g l supplier q) =
     (if lane_of g l q = None then Inr False else if isFull g l q then Inl (lane_overflow l q) else Inr True)"
  by (auto simp: enqueueIfPresent_def isFull_def lane_overflow_def Let_def split_beta split: option.splits)

lemma evict_lane:
  "lane_of g' l' (evict g l letter q) =
     (if g' = g \<and> l' = l
      then (case lane_of g l q of None \<Rightarrow> None
            | Some seq \<Rightarrow> if splice_out (dl_ref letter) seq = [] then None else Some (splice_out (dl_ref letter) seq))
      else lane_of g' l' q)"
  by (auto simp: evict_def Let_def split_beta split: option.splits)

lemma requeue_lane:
  "lane_of g' l' (requeue ref now g letter cause diags q) =
     (if g' = g \<and> l' = dl_sequenceIdentifier letter
      then map_option (\<lambda>seq. touched ref now letter cause diags # splice_out (dl_ref letter) seq) (lane_of g l' q)
      else lane_of g' l' q)"
  by (auto simp: requeue_def Let_def split_beta split: option.splits)

lemma evict_processing [simp]: "dq_processing (evict g l letter q) = dq_processing q"
  by (auto simp: evict_def Let_def split_beta split: option.splits)

lemma requeue_processing [simp]: "dq_processing (requeue ref now g letter c d q) = dq_processing q"
  by (auto simp: requeue_def Let_def split_beta split: option.splits)

section \<open>Invariant and bounds\<close>

text \<open>
  A well-formed queue: each lane once, no lane empty, every letter in its own lane, and the caps
  kept. A new lane starts with one letter whatever the cap on its size.
\<close>

definition wf_lanes :: "nat \<Rightarrow> nat \<Rightarrow> lane_map \<Rightarrow> bool" where
  "wf_lanes maxLanes maxSize m \<longleftrightarrow>
     wf_map m \<and> length m \<le> maxLanes \<and>
     (\<forall>(l, seq) \<in> set m. seq \<noteq> [] \<and> length seq \<le> max 1 maxSize \<and> (\<forall>x \<in> set seq. dl_sequenceIdentifier x = l))"

definition wf_dlq :: "dead_letter_queue \<Rightarrow> bool" where
  "wf_dlq q \<longleftrightarrow> (\<forall>g. wf_lanes (dq_maxSequences q) (dq_maxSequenceSize q) (fst (lanes g q)))"

lemma wf_lanes_set:
  assumes "wf_lanes a b m" "seq \<noteq> []" "length seq \<le> max 1 b" "\<forall>x \<in> set seq. dl_sequenceIdentifier x = l"
    and "map_get m l = None \<Longrightarrow> length m < a"
  shows "wf_lanes a b (map_set l seq m)"
proof -
  have "length (map_set l seq m) \<le> a"
    using assms(1,5) alist.length_keys_set [of l seq m] by (cases "map_get m l") (auto simp: wf_lanes_def)
  moreover have "set (map_set l seq m) \<subseteq> insert (l, seq) (set m)"
    by (induction m) auto
  ultimately show ?thesis using assms(1-4) alist.wf_set [of m l seq] unfolding wf_lanes_def by blast
qed

lemma wf_lanes_delete: "wf_lanes a b m \<Longrightarrow> wf_lanes a b (map_delete l m)"
  using alist.wf_del [of m l] order_trans [OF length_filter_le [of "\<lambda>(k, _). l \<noteq> k" m], of a] by (auto simp: wf_lanes_def AList.delete_eq)

lemma wf_lanes_get:
  "wf_lanes a b m \<Longrightarrow> map_get m l = Some seq \<Longrightarrow>
   seq \<noteq> [] \<and> length seq \<le> max 1 b \<and> (\<forall>x \<in> set seq. dl_sequenceIdentifier x = l)"
  by (drule map_of_SomeD) (auto simp: wf_lanes_def)

lemma splice_out_sub: "set (splice_out r xs) \<subseteq> set xs" "length (splice_out r xs) \<le> length xs"
  by (induction xs) auto

lemma splice_out_present: "r \<in> dl_ref ` set xs \<Longrightarrow> Suc (length (splice_out r xs)) = length xs"
  by (induction xs) auto

lemma wf_dlq_put:
  assumes "wf_dlq q" "wf_lanes (dq_maxSequences q) (dq_maxSequenceSize q) m"
  shows "wf_dlq (put_lanes g m q)"
  unfolding wf_dlq_def
proof
  fix g'
  show "wf_lanes (dq_maxSequences (put_lanes g m q)) (dq_maxSequenceSize (put_lanes g m q)) (fst (lanes g' (put_lanes g m q)))"
    using assms by (cases "g' = g") (simp_all add: wf_dlq_def lanes_other)
qed

lemma wf_dlq_lanes [simp]: "wf_dlq (snd (lanes g q)) \<longleftrightarrow> wf_dlq q"
  by (simp add: wf_dlq_def)

lemma wf_dlq_processing [simp]: "wf_dlq (q\<lparr>dq_processing := p\<rparr>) \<longleftrightarrow> wf_dlq q"
  by (simp add: wf_dlq_def)

lemma wf_group: "wf_dlq q \<Longrightarrow> wf_lanes (dq_maxSequences q) (dq_maxSequenceSize q) (fst (lanes g q))"
  by (simp add: wf_dlq_def)

lemma wf_lane:
  "wf_dlq q \<Longrightarrow> lane_of g l q = Some seq \<Longrightarrow>
   seq \<noteq> [] \<and> length seq \<le> max 1 (dq_maxSequenceSize q) \<and> (\<forall>x \<in> set seq. dl_sequenceIdentifier x = l)"
  using wf_lanes_get [OF wf_group [of q g], of l seq] by simp

lemma wf_store_lane:
  assumes "wf_dlq q" "seq \<noteq> []" "length seq \<le> max 1 (dq_maxSequenceSize q)" "\<forall>x \<in> set seq. dl_sequenceIdentifier x = l"
    and "lane_of g l q = None \<Longrightarrow> length (fst (lanes g q)) < dq_maxSequences q"
  shows "wf_dlq (put_lanes g (map_set l seq (fst (lanes g q))) (snd (lanes g q)))"
proof (rule wf_dlq_put)
  show "wf_dlq (snd (lanes g q))" using assms(1) by simp
  show "wf_lanes (dq_maxSequences (snd (lanes g q))) (dq_maxSequenceSize (snd (lanes g q))) (map_set l seq (fst (lanes g q)))"
    using wf_lanes_set [OF wf_group [OF assms(1)] assms(2-4), of g] assms(5) by simp
qed

lemma wf_enqueue:
  assumes wf: "wf_dlq q"
  shows "wf_dlq (snd (enqueue g letter q))"
proof (cases "lane_of g (dl_sequenceIdentifier letter) q")
  case None
  with wf wf_store_lane [OF wf, of "[letter]" "dl_sequenceIdentifier letter" g] show ?thesis
    by (simp add: enqueue_def split_beta)
next
  case (Some seq)
  with wf wf_lane [OF wf Some] wf_store_lane [OF wf, of "seq @ [letter]" "dl_sequenceIdentifier letter" g] show ?thesis
    by (simp add: enqueue_def split_beta)
qed

lemma wf_enqueueIfPresent:
  assumes wf: "wf_dlq q" and l: "dl_sequenceIdentifier (supplier ()) = l"
  shows "wf_dlq (snd (enqueueIfPresent g l supplier q))"
proof (cases "lane_of g l q")
  case None
  with wf show ?thesis by (simp add: enqueueIfPresent_def split_beta)
next
  case (Some seq)
  with wf l wf_lane [OF wf Some] wf_store_lane [OF wf, of "seq @ [supplier ()]" l g] show ?thesis
    by (simp add: enqueueIfPresent_def split_beta)
qed

lemma wf_evict:
  assumes wf: "wf_dlq q"
  shows "wf_dlq (evict g l letter q)"
proof (cases "lane_of g l q")
  case None
  with wf show ?thesis by (simp add: evict_def split_beta)
next
  case (Some seq)
  let ?seq = "splice_out (dl_ref letter) seq"
  have seq: "length ?seq \<le> max 1 (dq_maxSequenceSize q)" "\<forall>x \<in> set ?seq. dl_sequenceIdentifier x = l"
    using wf_lane [OF wf Some] splice_out_sub [of "dl_ref letter" seq] by auto
  have "wf_dlq (put_lanes g (map_delete l (fst (lanes g q))) (snd (lanes g q)))"
    using wf wf_lanes_delete [OF wf_group [OF wf]] by (intro wf_dlq_put) simp_all
  with wf_store_lane [OF wf _ seq, of g] Some show ?thesis by (simp add: evict_def split_beta Let_def)
qed

lemma wf_requeue:
  assumes wf: "wf_dlq q" and present: "dl_ref letter \<in> dl_ref ` set (deadLetterSequence g (dl_sequenceIdentifier letter) q)"
  shows "wf_dlq (requeue ref now g letter c d q)"
proof (cases "lane_of g (dl_sequenceIdentifier letter) q")
  case None
  with wf show ?thesis by (simp add: requeue_def split_beta)
next
  case (Some seq)
  let ?seq = "touched ref now letter c d # splice_out (dl_ref letter) seq"
  have "length ?seq = length seq" using splice_out_present [of "dl_ref letter" seq] present Some by (simp add: deadLetterSequence_lane)
  then have "length ?seq \<le> max 1 (dq_maxSequenceSize q)" "\<forall>x \<in> set ?seq. dl_sequenceIdentifier x = dl_sequenceIdentifier letter"
    using wf_lane [OF wf Some] splice_out_sub [of "dl_ref letter" seq] by (auto simp: touched_def)
  from wf_store_lane [OF wf _ this, of g] Some show ?thesis by (simp add: requeue_def split_beta)
qed

lemma wf_clear: "wf_dlq q \<Longrightarrow> wf_dlq (clear_group g q)"
proof -
  assume wf: "wf_dlq q"
  have "fst (lanes g' (clear_group g q)) = (if g' = g then [] else fst (lanes g' q))" for g'
    by (simp add: lanes_def clear_group_def split: option.split)
  with wf show ?thesis by (simp add: wf_dlq_def clear_group_def wf_lanes_def)
qed

text \<open>Everything a host can do to a queue, in any order.\<close>

inductive dlq_reachable :: "dead_letter_queue \<Rightarrow> bool" where
  dr_init: "dlq_reachable (inMemoryDeadLetterQueue ms mz)"
| dr_enqueue: "dlq_reachable q \<Longrightarrow> dlq_reachable (snd (enqueue g letter q))"
| dr_present: "dlq_reachable q \<Longrightarrow> dl_sequenceIdentifier (supplier ()) = l \<Longrightarrow> dlq_reachable (snd (enqueueIfPresent g l supplier q))"
| dr_evict: "dlq_reachable q \<Longrightarrow> dlq_reachable (evict g l letter q)"
| dr_requeue: "dlq_reachable q \<Longrightarrow> dl_ref letter \<in> dl_ref ` set (deadLetterSequence g (dl_sequenceIdentifier letter) q) \<Longrightarrow>
    dlq_reachable (requeue ref now g letter c d q)"
| dr_clear: "dlq_reachable q \<Longrightarrow> dlq_reachable (clear_group g q)"
| dr_take: "dlq_reachable q \<Longrightarrow> dlq_reachable (q\<lparr>dq_processing := p\<rparr>)"

lemma dlq_reachable_wf: "dlq_reachable q \<Longrightarrow> wf_dlq q"
proof (induction rule: dlq_reachable.induct)
  case (dr_init ms mz)
  show ?case by (simp add: wf_dlq_def inMemoryDeadLetterQueue_def lanes_def wf_lanes_def)
qed (simp_all add: wf_enqueue wf_enqueueIfPresent wf_evict wf_requeue wf_clear)

lemma sum_list_bound: "(\<And>x. x \<in> set xs \<Longrightarrow> f x \<le> (b::nat)) \<Longrightarrow> sum_list (map f xs) \<le> length xs * b"
proof (induction xs)
  case (Cons x xs)
  then have "f x \<le> b" "sum_list (map f xs) \<le> length xs * b" by simp_all
  then show ?case by simp
qed simp

section \<open>Replaying a lane\<close>

text \<open>
  Host code that works on the world outside the queue only, run in the library's own unit of work, on
  which nothing but the eviction is registered.
\<close>

definition outside_task ::
  "(int \<Rightarrow> dead_letter \<Rightarrow> 'o \<Rightarrow> ('e + enqueue_decision) \<times> 'o) \<Rightarrow> dead_letter \<Rightarrow> (unit, unit, 'o) letter_uow
     \<Rightarrow> ('e + enqueue_decision) \<times> (unit, unit, 'o) letter_uow" where
  "outside_task decide letter u =
     (let (r, out) = decide (dw_now (uw_world u)) letter (dw_outside (uw_world u))
      in (r, u\<lparr>uw_world := (uw_world u)\<lparr>dw_outside := out\<rparr>\<rparr>))"

definition plain_host :: "(unit, unit, 'o, 'e) replay_host" where
  "plain_host = \<lparr>rh_mint = unitOfWork, rh_act = (\<lambda>x u. (None, u)), rh_onError = (\<lambda>h e p u. u), rh_onComplete = (\<lambda>h u. u)\<rparr>"

text \<open>How far a replay gets: the letters done with, why it stopped, and the world it leaves.\<close>

datatype 'e stop = LaneDone | HeadFailed enqueue_decision | TaskThrew 'e

fun replay_run ::
  "(dead_letter \<Rightarrow> 'o \<Rightarrow> ('e + enqueue_decision) \<times> 'o) \<Rightarrow> dead_letter list \<Rightarrow> 'o \<Rightarrow> nat \<times> 'e stop \<times> 'o" where
  "replay_run decide [] out = (0, LaneDone, out)"
| "replay_run decide (letter # rest) out =
     (case decide letter out of
        (Inl e, out') \<Rightarrow> (0, TaskThrew e, out')
      | (Inr d, out') \<Rightarrow>
          if ed_shouldEnqueue d then (0, HeadFailed d, out')
          else (case replay_run decide rest out' of (n, stop, out'') \<Rightarrow> (Suc n, stop, out'')))"

lemma dlq_notify_complete: "uw_completeHandlers u = [] \<Longrightarrow> notify_complete onDone 0 u = Some u"
  by (subst notify_complete.simps) simp

lemma dlq_notify_errors: "uw_errorHandlers u = [] \<Longrightarrow> notify_errors onErr e p 0 u = Some u"
  by (subst notify_errors.simps) simp

lemma unitOfWork_bucket: "bucket p (unitOfWork w) = []"
  by (simp add: bucket_def unitOfWork_def)

lemma phases_before_action:
  assumes "\<And>p. bucket p u = []"
  shows "and_then (runPhase act PRE_INVOCATION u) (runPhase act INVOCATION) = Some (None, u\<lparr>uw_phase := Some INVOCATION\<rparr>)"
  using assms by (simp add: runPhase_empty)

lemma replay_letter:
  fixes w :: "'o dlq_world"
  assumes "decide (dw_now w) letter (dw_outside w) = (r, out)"
  shows "\<exists>u :: (unit, unit, 'o) letter_uow. execute (dlq_act (rh_act plain_host)) (rh_onError plain_host) (rh_onComplete plain_host)
           (letter_action g l (outside_task decide) letter) (rh_mint plain_host w) =
         Inr (Some (case r of Inl e \<Rightarrow> Inl (ReplayThrew e)
                    | Inr d \<Rightarrow> if ed_shouldEnqueue d then Inl (LetterFailed d) else Inr (), u)) \<and>
         uw_world u = (case r of Inl e \<Rightarrow> w\<lparr>dw_outside := out\<rparr>
                       | Inr d \<Rightarrow> if ed_shouldEnqueue d then w\<lparr>dw_outside := out\<rparr>
                                  else with_queue (evict g l letter) (w\<lparr>dw_outside := out\<rparr>))"
proof -
  let ?act = "dlq_act (\<lambda>x u. (None, u))"
  let ?u0 = "(unitOfWork w :: (unit, unit, 'o) letter_uow)\<lparr>uw_status := Started\<rparr>"
  let ?u1 = "?u0\<lparr>uw_phase := Some INVOCATION\<rparr>"
  let ?u2 = "?u1\<lparr>uw_world := w\<lparr>dw_outside := out\<rparr>\<rparr>"
  have b: "bucket p ?u0 = []" "bucket p ?u2 = []" for p by (simp_all add: bucket_def unitOfWork_def)
  have h: "uw_errorHandlers ?u2 = []" "uw_completeHandlers ?u2 = []" "uw_status (unitOfWork w :: (unit, unit, 'o) letter_uow) = NotStarted"
    "uw_world ?u0 = w" by (simp_all add: unitOfWork_def)
  have pre: "and_then (runPhase ?act PRE_INVOCATION ?u0) (runPhase ?act INVOCATION) = Some (None, ?u1)"
    by (rule phases_before_action) (rule b)
  have task: "outside_task decide letter ?u1 = (r, ?u2)"
    using assms h(4) by (simp add: outside_task_def)
  show ?thesis
  proof (cases "\<exists>d. r = Inr d \<and> \<not> ed_shouldEnqueue d")
    case False
    then show ?thesis using h b
      by (cases r) (auto simp: plain_host_def execute_def drivePhases_def try_phases_def pre letter_action_def task dlq_notify_errors)
  next
    case True
    then obtain d where d: "r = Inr d" "\<not> ed_shouldEnqueue d" by blast
    let ?u3 = "onAfterCommit (EvictLetter g l letter) ?u2"
    let ?u4 = "?u3\<lparr>uw_phase := Some COMMIT\<rparr>"
    have b3: "bucket p ?u3 = (if p = AFTER_COMMIT then [EvictLetter g l letter] else [])" for p
      using b(2) by (simp add: onAfterCommit_def bucket_on_phase)
    have action: "letter_action g l (outside_task decide) letter ?u1 = (Inr (), ?u3)"
      using d by (simp add: letter_action_def task)
    have commits: "and_then (runPhase ?act PREPARE_COMMIT ?u3) (\<lambda>u. and_then (runPhase ?act COMMIT u) (runPhase ?act AFTER_COMMIT))
        = runPhase ?act AFTER_COMMIT ?u4"
      using b3 by (simp add: runPhase_empty)
    let ?v = "?u4\<lparr>uw_phase := Some AFTER_COMMIT, uw_phaseActions := map_set AFTER_COMMIT [] (uw_phaseActions ?u4),
        uw_calls := uw_calls ?u4 @ [(AFTER_COMMIT, EvictLetter g l letter)]\<rparr>"
    let ?w = "?v\<lparr>uw_world := with_queue (evict g l letter) (uw_world ?v)\<rparr>"
    have "bucket AFTER_COMMIT ?w = []" by (simp add: bucket_def)
    then have after: "runPhase ?act AFTER_COMMIT ?u4 = Some (None, ?w)"
      using runPhase_single [of AFTER_COMMIT ?u4 "EvictLetter g l letter" ?act None ?w] b3 [of AFTER_COMMIT] by simp
    have nc: "uw_completeHandlers ?w = []" by (simp add: onAfterCommit_def on_phase_def unitOfWork_def)
    have ww: "uw_world ?w = with_queue (evict g l letter) (w\<lparr>dw_outside := out\<rparr>)"
      by (simp add: onAfterCommit_def on_phase_def)
    show ?thesis using d nc ww h(3)
      by (simp add: plain_host_def execute_def drivePhases_def try_phases_def pre action commits after dlq_notify_complete)
  qed
qed

lemma process_letters_step:
  fixes decide :: "int \<Rightarrow> dead_letter \<Rightarrow> 'o \<Rightarrow> ('e + enqueue_decision) \<times> 'o"
  assumes "decide (dw_now w) letter (dw_outside w) = (r, out)"
  shows "process_letters (plain_host :: (unit, unit, 'o, 'e) replay_host) g l (outside_task decide) (letter # rest) w =
    (case r of
       Inl e \<Rightarrow> Some (Inl (ProcessThrew e), w\<lparr>dw_outside := out\<rparr>)
     | Inr d \<Rightarrow>
         if ed_shouldEnqueue d
         then Some (Inr True, w\<lparr>dw_outside := out,
                dw_queue := requeue (dw_nextRef w) (dw_now w) g letter (ed_cause d) (ed_diagnostics d) (dw_queue w),
                dw_nextRef := Suc (dw_nextRef w)\<rparr>)
         else process_letters plain_host g l (outside_task decide) rest (with_queue (evict g l letter) (w\<lparr>dw_outside := out\<rparr>)))"
proof -
  obtain u :: "(unit, unit, 'o) letter_uow" where
    u: "execute (dlq_act (rh_act (plain_host :: (unit, unit, 'o, 'e) replay_host))) (rh_onError plain_host) (rh_onComplete (plain_host :: (unit, unit, 'o, 'e) replay_host))
          (letter_action g l (outside_task decide) letter) (rh_mint (plain_host :: (unit, unit, 'o, 'e) replay_host) w) =
        Inr (Some (case r of Inl e \<Rightarrow> Inl (ReplayThrew e)
                   | Inr d \<Rightarrow> if ed_shouldEnqueue d then Inl (LetterFailed d) else Inr (), u))"
    "uw_world u = (case r of Inl e \<Rightarrow> w\<lparr>dw_outside := out\<rparr>
                   | Inr d \<Rightarrow> if ed_shouldEnqueue d then w\<lparr>dw_outside := out\<rparr>
                              else with_queue (evict g l letter) (w\<lparr>dw_outside := out\<rparr>))"
    using replay_letter [where decide = decide and letter = letter and w = w and g = g and l = l, OF assms] by blast
  then show ?thesis by (cases r) (simp_all add: Let_def)
qed

fun left_over :: "nat \<Rightarrow> int \<Rightarrow> dead_letter list \<Rightarrow> nat \<Rightarrow> 'e stop \<Rightarrow> dead_letter list" where
  "left_over ref now letters n (HeadFailed d) =
     touched ref now (letters ! n) (ed_cause d) (ed_diagnostics d) # drop (Suc n) letters"
| "left_over ref now letters n stop = drop n letters"

fun process_result :: "'e stop \<Rightarrow> 'e process_error + bool" where
  "process_result (TaskThrew e) = Inl (ProcessThrew e)"
| "process_result stop = Inr True"

definition as_lane :: "dead_letter list \<Rightarrow> dead_letter list option" where
  "as_lane letters = (if letters = [] then None else Some letters)"

lemma left_over_Suc: "left_over ref now (letter # rest) (Suc n) stop = left_over ref now rest n stop"
  by (cases stop) simp_all

lemma process_letters_run:
  assumes "wf_dlq (dw_queue w)" "lane_of g l (dw_queue w) = as_lane letters" "\<forall>x \<in> set letters. dl_sequenceIdentifier x = l"
    and "replay_run (decide (dw_now w)) letters (dw_outside w) = (n, stop, out)"
  shows "\<exists>w'. process_letters plain_host g l (outside_task decide) letters w = Some (process_result stop, w') \<and>
     dw_outside w' = out \<and> wf_dlq (dw_queue w') \<and> dw_now w' = dw_now w \<and> dq_processing (dw_queue w') = dq_processing (dw_queue w) \<and>
     (\<forall>g' l'. lane_of g' l' (dw_queue w') =
        (if g' = g \<and> l' = l then as_lane (left_over (dw_nextRef w) (dw_now w) letters n stop) else lane_of g' l' (dw_queue w)))"
  using assms
proof (induction letters arbitrary: w n)
  case Nil
  then show ?case by (auto simp: as_lane_def)
next
  case (Cons letter rest)
  obtain r out1 where dec: "decide (dw_now w) letter (dw_outside w) = (r, out1)" by fastforce
  let ?w1 = "w\<lparr>dw_outside := out1\<rparr>"
  note ran = process_letters_step [where decide = decide and letter = letter and w = w and g = g and l = l and rest = rest, OF dec]
  show ?case
  proof (cases r)
    case (Inl e)
    with Cons.prems(4) dec have *: "n = 0" "stop = TaskThrew e" "out = out1" by auto
    have "process_letters plain_host g l (outside_task decide) (letter # rest) w = Some (Inl (ProcessThrew e), ?w1)"
      unfolding ran by (simp add: Inl)
    with * Cons.prems(1,2) show ?thesis by (simp del: process_letters.simps)
  next
    case (Inr d)
    show ?thesis
    proof (cases "ed_shouldEnqueue d")
      case True
      with Cons.prems(4) dec Inr have *: "n = 0" "stop = HeadFailed d" "out = out1" by auto
      have "process_letters plain_host g l (outside_task decide) (letter # rest) w =
          Some (Inr True, ?w1\<lparr>dw_queue := requeue (dw_nextRef w) (dw_now w) g letter (ed_cause d) (ed_diagnostics d) (dw_queue w),
             dw_nextRef := Suc (dw_nextRef w)\<rparr>)" unfolding ran by (simp add: Inr True)
      moreover have "wf_dlq (requeue (dw_nextRef w) (dw_now w) g letter (ed_cause d) (ed_diagnostics d) (dw_queue w))"
        using Cons.prems(1-3) by (intro wf_requeue) (simp_all add: deadLetterSequence_lane as_lane_def)
      ultimately show ?thesis using * Cons.prems(2,3) by (auto simp: requeue_lane as_lane_def simp del: process_letters.simps)
    next
      case False
      let ?w2 = "with_queue (evict g l letter) ?w1"
      have step: "process_letters plain_host g l (outside_task decide) (letter # rest) w =
          process_letters plain_host g l (outside_task decide) rest ?w2" unfolding ran by (simp add: Inr False)
      obtain m where m: "replay_run (decide (dw_now w)) rest out1 = (m, stop, out)" "n = Suc m"
        using Cons.prems(4) dec Inr False by (auto split: prod.splits)
      have lane: "lane_of g l (dw_queue ?w2) = as_lane rest"
        using Cons.prems(2) by (simp add: with_queue_def evict_lane as_lane_def)
      have others: "lane_of g' l' (dw_queue ?w2) = lane_of g' l' (dw_queue w)" if "\<not> (g' = g \<and> l' = l)" for g' l'
        using that by (auto simp: with_queue_def evict_lane)
      have same: "dw_outside ?w2 = out1" "dw_now ?w2 = dw_now w" "dw_nextRef ?w2 = dw_nextRef w"
        "dq_processing (dw_queue ?w2) = dq_processing (dw_queue w)" by (simp_all add: with_queue_def)
      have "wf_dlq (dw_queue ?w2)" using Cons.prems(1) by (simp add: with_queue_def wf_evict)
      from Cons.IH [OF this lane] Cons.prems(3) m(1) same obtain w' where
        "process_letters plain_host g l (outside_task decide) rest ?w2 = Some (process_result stop, w')"
        "dw_outside w' = out" "wf_dlq (dw_queue w')" "dw_now w' = dw_now w" "dq_processing (dw_queue w') = dq_processing (dw_queue w)"
        "\<forall>g' l'. lane_of g' l' (dw_queue w') =
        (if g' = g \<and> l' = l then as_lane (left_over (dw_nextRef w) (dw_now w) rest m stop) else lane_of g' l' (dw_queue ?w2))"
        by auto
      with step others show ?thesis by (auto simp: m(2) left_over_Suc simp del: process_letters.simps)
    qed
  qed
qed

section \<open>Which lane is replayed\<close>

text \<open>A lane that may be replayed: parked, not being replayed already, and its head passes the filter.\<close>

definition eligible :: "string \<Rightarrow> (string \<Rightarrow> dead_letter \<Rightarrow> bool) \<Rightarrow> dead_letter_queue \<Rightarrow> string \<Rightarrow> dead_letter \<Rightarrow> bool" where
  "eligible g f q l head \<longleftrightarrow>
     (\<exists>rest. lane_of g l q = Some (head # rest)) \<and> processing_key g l \<notin> dq_processing q \<and> f l head"

definition best_of :: "(string \<Rightarrow> bool) \<Rightarrow> (string \<Rightarrow> dead_letter \<Rightarrow> bool) \<Rightarrow> lane_map \<Rightarrow> (string \<times> int) option \<Rightarrow> bool" where
  "best_of taken f m best \<longleftrightarrow>
     (case best of
        None \<Rightarrow> \<forall>l head rest. (l, head # rest) \<in> set m \<longrightarrow> taken l \<or> \<not> f l head
      | Some (l, t) \<Rightarrow>
          (\<exists>head rest. (l, head # rest) \<in> set m \<and> \<not> taken l \<and> f l head \<and> t = dl_lastTouched head) \<and>
          (\<forall>l' head rest. (l', head # rest) \<in> set m \<longrightarrow> \<not> taken l' \<longrightarrow> f l' head \<longrightarrow> t \<le> dl_lastTouched head))"

lemma oldest_lane_lanes [simp]: "oldest_lane g f (snd (lanes g' q)) = oldest_lane g f q"
  by (simp add: oldest_lane_def)

lemma best_of_step: "best_of taken f m best \<Longrightarrow> best_of taken f (m @ [e]) (oldest_step taken f e best)"
proof -
  assume b: "best_of taken f m best"
  obtain l seq where e: "e = (l, seq)" by fastforce
  show ?thesis
  proof (cases seq)
    case Nil
    with b e show ?thesis by (auto simp: best_of_def oldest_step_def split: option.splits)
  next
    case (Cons head rest)
    show ?thesis
    proof (cases "taken l \<or> \<not> f l head")
      case True
      with b e Cons show ?thesis by (cases best) (auto simp: best_of_def oldest_step_def)
    next
      case False
      show ?thesis
      proof (cases best)
        case None
        with b e Cons False show ?thesis by (fastforce simp: best_of_def oldest_step_def)
      next
        case (Some p)
        obtain l0 t where p: "p = (l0, t)" by fastforce
        from b Some p have "\<exists>h0 r0. (l0, h0 # r0) \<in> set m \<and> \<not> taken l0 \<and> f l0 h0 \<and> t = dl_lastTouched h0"
          and "\<forall>l' head rest. (l', head # rest) \<in> set m \<longrightarrow> \<not> taken l' \<longrightarrow> f l' head \<longrightarrow> t \<le> dl_lastTouched head"
          unfolding best_of_def by simp_all
        then obtain h0 r0 where h0: "(l0, h0 # r0) \<in> set m" "\<not> taken l0" "f l0 h0" "t = dl_lastTouched h0"
          and least: "\<And>l' head rest. (l', head # rest) \<in> set m \<Longrightarrow> \<not> taken l' \<Longrightarrow> f l' head \<Longrightarrow> t \<le> dl_lastTouched head"
          by metis
        show ?thesis
        proof (cases "dl_lastTouched head < t")
          case True
          then have "oldest_step taken f e best = Some (l, dl_lastTouched head)"
            using Some p e Cons False by (simp add: oldest_step_def)
          then show ?thesis using True least e Cons False by (fastforce simp: best_of_def)
        next
          case False': False
          then have "oldest_step taken f e best = Some (l0, t)" using Some p e Cons False by (simp add: oldest_step_def)
          then show ?thesis using False' least h0 e Cons by (fastforce simp: best_of_def)
        qed
      qed
    qed
  qed
qed

lemma best_of_fold: "best_of taken f m (fold (oldest_step taken f) m None)"
proof -
  have "best_of taken f pre best \<Longrightarrow> best_of taken f (pre @ m) (fold (oldest_step taken f) m best)" for pre best
  proof (induction m arbitrary: pre best)
    case (Cons e m)
    from Cons.IH [OF best_of_step [OF Cons.prems, of e]] show ?case by simp
  qed simp
  from this [of "[]" None] show ?thesis by (simp add: best_of_def)
qed

lemma oldest_lane_spec:
  assumes wf: "wf_dlq q"
  shows "case oldest_lane g f q of
           None \<Rightarrow> \<forall>l head. \<not> eligible g f q l head
         | Some l \<Rightarrow> \<exists>head. eligible g f q l head \<and> (\<forall>l' head'. eligible g f q l' head' \<longrightarrow> dl_lastTouched head \<le> dl_lastTouched head')"
proof -
  let ?m = "fst (lanes g q)" and ?taken = "\<lambda>l. processing_key g l \<in> dq_processing q"
  have m: "(l, seq) \<in> set ?m \<longleftrightarrow> lane_of g l q = Some seq" for l seq
    using wf_group [OF wf, of g] map_of_eq_Some_iff [of ?m l seq] by (simp add: wf_lanes_def)
  show ?thesis
    using best_of_fold [of ?taken f ?m]
    by (auto simp: best_of_def oldest_lane_def eligible_def m split: option.splits)
qed

lemma process_run:
  assumes wf: "wf_dlq (dw_queue w)"
    and lane: "oldest_lane g f (dw_queue w) = Some l" "l \<noteq> ''''"
    and run: "replay_run (decide (dw_now w)) (deadLetterSequence g l (dw_queue w)) (dw_outside w) = (n, stop, out)"
  shows "\<exists>w'. process plain_host g f (outside_task decide) w = Some (process_result stop, w') \<and> dw_outside w' = out \<and>
     wf_dlq (dw_queue w') \<and> dw_now w' = dw_now w \<and> dq_processing (dw_queue w') = dq_processing (dw_queue w) \<and>
     (\<forall>g' l'. deadLetterSequence g' l' (dw_queue w') =
        (if g' = g \<and> l' = l then left_over (dw_nextRef w) (dw_now w) (deadLetterSequence g l (dw_queue w)) n stop
         else deadLetterSequence g' l' (dw_queue w))) \<and>
     (\<exists>head. eligible g f (dw_queue w) l head \<and>
        (\<forall>l' head'. eligible g f (dw_queue w) l' head' \<longrightarrow> dl_lastTouched head \<le> dl_lastTouched head'))"
proof -
  let ?q = "dw_queue w" and ?k = "processing_key g l"
  let ?w2 = "w\<lparr>dw_queue := (snd (lanes g ?q))\<lparr>dq_processing := insert ?k (dq_processing ?q)\<rparr>\<rparr>"
  from oldest_lane_spec [OF wf, of g f] lane(1) obtain head rest where
    head: "eligible g f ?q l head" "\<forall>l' head'. eligible g f ?q l' head' \<longrightarrow> dl_lastTouched head \<le> dl_lastTouched head'"
    and seq: "lane_of g l ?q = Some (head # rest)" "?k \<notin> dq_processing ?q" by (auto simp: eligible_def)
  have letters: "deadLetterSequence g l ?q = head # rest" using seq by (simp add: deadLetterSequence_lane)
  have old: "oldest_lane g f (snd (lanes g ?q)) = Some l" using lane(1) by (simp add: oldest_lane_def)
  have p0: "wf_dlq (dw_queue ?w2)" using wf by simp
  have p1: "lane_of g l (dw_queue ?w2) = as_lane (head # rest)" using seq by (simp add: as_lane_def)
  have p2: "\<forall>x \<in> set (head # rest). dl_sequenceIdentifier x = l" using wf_lane [OF wf seq(1)] by blast
  have p3: "replay_run (decide (dw_now ?w2)) (head # rest) (dw_outside ?w2) = (n, stop, out)" using run letters by simp
  obtain w' where w': "process_letters plain_host g l (outside_task decide) (head # rest) ?w2 = Some (process_result stop, w')"
    "dw_outside w' = out" "wf_dlq (dw_queue w')" "dw_now w' = dw_now w" "dq_processing (dw_queue w') = insert ?k (dq_processing ?q)"
    and lanes': "\<And>g' l'. lane_of g' l' (dw_queue w') = (if g' = g \<and> l' = l
        then as_lane (left_over (dw_nextRef w) (dw_now w) (head # rest) n stop) else lane_of g' l' ?q)"
    using process_letters_run [where decide = decide and g = g and l = l, OF p0 p1 p2 p3] by auto
  let ?w3 = "with_queue (\<lambda>q. q\<lparr>dq_processing := dq_processing q - {?k}\<rparr>) w'"
  have "process plain_host g f (outside_task decide) w = Some (process_result stop, ?w3)"
    using old lane(2) w'(1) letters seq
    by (simp add: process_def with_queue_def Let_def deadLetterSequence_lane del: process_letters.simps)
  moreover have "dw_outside ?w3 = out" "wf_dlq (dw_queue ?w3)" "dw_now ?w3 = dw_now w" "dq_processing (dw_queue ?w3) = dq_processing ?q"
    using w' seq(2) by (auto simp: with_queue_def)
  moreover have "deadLetterSequence g' l' (dw_queue ?w3) = (if g' = g \<and> l' = l
      then left_over (dw_nextRef w) (dw_now w) (head # rest) n stop else deadLetterSequence g' l' ?q)" for g' l'
    by (simp add: with_queue_def deadLetterSequence_lane lanes' as_lane_def)
  ultimately show ?thesis using head letters by auto
qed

lemma process_nothing:
  assumes "wf_dlq (dw_queue w)" "\<And>l head. \<not> eligible g f (dw_queue w) l head"
  shows "process host g f processingTask w = Some (Inr False, with_queue (\<lambda>q. snd (lanes g q)) w)"
proof -
  have "oldest_lane g f (dw_queue w) = None"
    using oldest_lane_spec [OF assms(1), of g f] assms(2) by (auto split: option.splits)
  then show ?thesis by (simp add: process_def with_queue_def oldest_lane_def)
qed

section \<open>Properties\<close>

text \<open>
  However a queue is used, its caps hold: no group has more lanes than allowed, none of its lanes is
  empty or longer than allowed (a cap below one still admits the letter that starts a lane), so a group never holds more letters than the product,
  every letter sits in the lane it names, and the listed lanes are exactly those that contain a letter.\<close>
theorem queue_stays_within_caps:
  assumes "dlq_reachable q"
  shows "amountOfSequences g q \<le> dq_maxSequences q \<and>
         length (deadLetterSequence g l q) \<le> max 1 (dq_maxSequenceSize q) \<and>
         size_of_group g q \<le> dq_maxSequences q * max 1 (dq_maxSequenceSize q) \<and>
         (contains g l q \<longleftrightarrow> l \<in> set (sequenceIdentifiers g q)) \<and>
         (\<forall>letter \<in> set (deadLetterSequence g l q). dl_sequenceIdentifier letter = l)"
proof -
  have wf: "wf_dlq q" by (rule dlq_reachable_wf [OF assms])
  let ?m = "fst (lanes g q)" and ?b = "max 1 (dq_maxSequenceSize q)"
  note m = wf_group [OF wf, of g]
  have len: "length ?m \<le> dq_maxSequences q" using m by (simp add: wf_lanes_def)
  have "size_of_group g q \<le> length ?m * ?b"
    unfolding size_of_group_def by (rule sum_list_bound) (use m in \<open>auto simp: wf_lanes_def\<close>)
  then have size: "size_of_group g q \<le> dq_maxSequences q * ?b" using len by (meson le_trans mult_le_mono1)
  have "contains g l q \<longleftrightarrow> lane_of g l q \<noteq> None"
    using wf_lane [OF wf, of g l] by (auto simp: contains_def split: option.splits)
  then have con: "contains g l q \<longleftrightarrow> l \<in> set (sequenceIdentifiers g q)"
    using alist.keys_get [of l ?m] by (simp add: sequenceIdentifiers_def)
  show ?thesis using len size con wf_lane [OF wf, of g l]
    by (auto simp: amountOfSequences_def deadLetterSequence_lane split: option.splits)
qed

definition example_letter :: dead_letter where
  "example_letter = deadLetter 0 5 order_event (JsError ''boom'') ''a'' None"

definition example_queue :: dead_letter_queue where
  "example_queue =
     snd (enqueueIfPresent ''orders'' ''a'' (\<lambda>_. deadLetter 1 6 order_event (JsError ''Blocked'') ''a'' None)
       (snd (enqueue ''orders'' example_letter (inMemoryDeadLetterQueue None (Some 2)))))"

lemma example_queue_reachable: "dlq_reachable example_queue"
  unfolding example_queue_def
  by (rule dr_present [OF dr_enqueue [OF dr_init]]) (simp add: deadLetter_def)

theorem queue_stays_within_caps_witness:
  "length (deadLetterSequence ''orders'' ''a'' example_queue) = 2 \<and>
   length (deadLetterSequence ''orders'' ''a'' example_queue) \<le> max 1 (dq_maxSequenceSize example_queue)"
proof
  show "length (deadLetterSequence ''orders'' ''a'' example_queue) = 2" by code_simp
  show "length (deadLetterSequence ''orders'' ''a'' example_queue) \<le> max 1 (dq_maxSequenceSize example_queue)"
    using queue_stays_within_caps [OF example_queue_reachable] by blast
qed


definition example_dlq_world :: "nat dlq_world" where
  "example_dlq_world = \<lparr>dw_queue = example_queue, dw_nextRef = 2, dw_now = 9, dw_outside = 0\<rparr>"

text \<open>A handler that fails on its second call.\<close>

definition fails_second :: "int \<Rightarrow> dead_letter \<Rightarrow> nat \<Rightarrow> (unit + enqueue_decision) \<times> nat" where
  "fails_second now letter k =
     (Inr \<lparr>ed_shouldEnqueue = (k = 1), ed_cause = Some (JsError ''again''), ed_diagnostics = None\<rparr>, Suc k)"


text \<open>
  A lane with the empty name is never replayed, and while its head is the oldest no other lane
  is: processing reports that there was nothing to do although two lanes wait.\<close>
theorem empty_lane_starves_others:
  "let q = snd (enqueue ''orders'' (deadLetter 1 6 order_event (JsError ''boom'') ''b'' None)
             (snd (enqueue ''orders'' (deadLetter 0 5 order_event (JsError ''boom'') '''' None) (inMemoryDeadLetterQueue None None))))
   in sequenceIdentifiers ''orders'' q = ['''', ''b''] \<and>
      process host ''orders'' (\<lambda>l h. True) processingTask \<lparr>dw_queue = q, dw_nextRef = 2, dw_now = 9, dw_outside = out\<rparr> =
        Some (Inr False, \<lparr>dw_queue = q, dw_nextRef = 2, dw_now = 9, dw_outside = out\<rparr>)"
  by (simp add: process_def oldest_lane_def oldest_step_def processing_key_def enqueue_def inMemoryDeadLetterQueue_def lanes_def
      put_lanes_def deadLetter_def with_queue_def sequenceIdentifiers_def Let_def)

end
