(* ===== verification/Dead_Lettering.thy ===== *)
theory Dead_Lettering
  imports Dead_Letter_Queue
begin

text \<open>
  What is built on the dead-letter queue: the delivery that parks (\<open>event-processing/dead-lettering.ts\<close>),
  the delays between replays (\<open>dead-letter-backoff.ts\<close>) and the reprocessor
  (\<open>dead-letter-reprocessor.ts\<close>).

  The queue a delivery or a reprocessor works with is a value of an interface type in the source; here
  the operation used of it is a parameter, and the locale \<open>parking\<close> states what the delivery relies
  on. It is interpreted on the queue and on the queue wrapped with a backoff policy. Handlers, replay
  functions and policies are the host's code and parameters; delays are whole milliseconds.
\<close>

section \<open>Delivery\<close>

type_synonym 'o enqueuer = "string \<Rightarrow> dead_letter \<Rightarrow> 'o dlq_world \<Rightarrow> (overflow_error + unit) \<times> 'o dlq_world"

definition queue_enqueue :: "'o enqueuer" where
  "queue_enqueue g letter w = (case enqueue g letter (dw_queue w) of (r, q) \<Rightarrow> (r, w\<lparr>dw_queue := q\<rparr>))"

text \<open>One handler with its context: the name its descriptor gives it, and what running it does.\<close>

record 'o target =
  tg_name :: qualified_name
  tg_handler :: "sequenced_event \<Rightarrow> 'o \<Rightarrow> js_error option \<times> 'o"

fun deliver_targets ::
  "'o enqueuer \<Rightarrow> string \<Rightarrow> string \<Rightarrow> sequenced_event \<Rightarrow> 'o target list \<Rightarrow> 'o dlq_world
     \<Rightarrow> (overflow_error + unit) \<times> 'o dlq_world" where
  "deliver_targets enq g lane e [] w = (Inr (), w)"
| "deliver_targets enq g lane e (target # rest) w =
     (case tg_handler target e (dw_outside w) of
        (None, out) \<Rightarrow> deliver_targets enq g lane e rest (w\<lparr>dw_outside := out\<rparr>)
      | (Some cause, out) \<Rightarrow>
          enq g (deadLetter (dw_nextRef w) (dw_now w) (sq_event e) cause lane
                   (Some [(''position'', JNumber (sq_sequence e)),
                          (''handlerName'', JString (qualifiedNameToString (tg_name target)))]))
            (w\<lparr>dw_outside := out, dw_nextRef := Suc (dw_nextRef w)\<rparr>))"

definition deliver ::
  "'o enqueuer \<Rightarrow> string \<Rightarrow> (event_message \<Rightarrow> string) \<Rightarrow> sequenced_event \<Rightarrow> 'o target list \<Rightarrow> 'o dlq_world
     \<Rightarrow> (overflow_error + unit) \<times> 'o dlq_world" where
  "deliver enq g sequence e targets w =
     (let lane = sequence (sq_event e);
          supplier = (\<lambda>_. deadLetter (dw_nextRef w) (dw_now w) (sq_event e)
             (JsError ''Blocked: previous event in sequence failed'') lane
             (Some [(''blocked'', JBool True), (''position'', JNumber (sq_sequence e))]))
      in case enqueueIfPresent g lane supplier (dw_queue w) of
           (Inl err, q) \<Rightarrow> (Inl err, w\<lparr>dw_queue := q\<rparr>)
         | (Inr True, q) \<Rightarrow> (Inr (), w\<lparr>dw_queue := q, dw_nextRef := Suc (dw_nextRef w)\<rparr>)
         | (Inr False, q) \<Rightarrow> deliver_targets enq g lane e targets (w\<lparr>dw_queue := q\<rparr>))"

section \<open>Backoff\<close>

datatype retry_at = RetryAt int | RetryHold | RetryDue

record backoff_state =
  bs_attempts :: int
  bs_retryAt :: retry_at

datatype backoff_delay = DelayMs int | HoldLane

type_synonym backoff_policy = "int \<Rightarrow> dead_letter \<Rightarrow> backoff_delay"

fun js_member :: "js \<Rightarrow> string \<Rightarrow> js" where
  "js_member (JObject o') k = (case map_get o' k of Some v \<Rightarrow> v | None \<Rightarrow> JUndefined)"
| "js_member _ k = JUndefined"

definition backoff_fields :: "js \<Rightarrow> backoff_state" where
  "backoff_fields v =
     \<lparr>bs_attempts = (case js_member v ''attempts'' of JNumber n \<Rightarrow> n | _ \<Rightarrow> 0),
      bs_retryAt = (case js_member v ''retryAt'' of JNumber t \<Rightarrow> RetryAt t
                    | JString s \<Rightarrow> if s = ''hold'' then RetryHold else RetryDue | _ \<Rightarrow> RetryDue)\<rparr>"

definition backoffOf :: "dead_letter \<Rightarrow> backoff_state option" where
  "backoffOf letter =
     (case map_get (dl_diagnostics letter) ''backoff'' of
        Some (JObject o') \<Rightarrow> Some (backoff_fields (JObject o'))
      | Some (JArray xs) \<Rightarrow> Some (backoff_fields (JArray xs))
      | _ \<Rightarrow> None)"

definition isDue :: "int \<Rightarrow> dead_letter \<Rightarrow> bool" where
  "isDue now letter =
     (case backoffOf letter of
        None \<Rightarrow> True
      | Some s \<Rightarrow> (case bs_retryAt s of RetryDue \<Rightarrow> True | RetryHold \<Rightarrow> False | RetryAt t \<Rightarrow> t \<le> now))"

definition stamp :: "backoff_policy \<Rightarrow> int \<Rightarrow> int \<Rightarrow> dead_letter \<Rightarrow> backoff_state" where
  "stamp policy now attempts letter =
     \<lparr>bs_attempts = attempts,
      bs_retryAt = (case policy attempts letter of HoldLane \<Rightarrow> RetryHold | DelayMs d \<Rightarrow> RetryAt (now + max 0 d))\<rparr>"

text \<open>The state as it stands on the letter.\<close>

definition backoff_js :: "backoff_state \<Rightarrow> js" where
  "backoff_js s =
     JObject [(''attempts'', JNumber (bs_attempts s)),
              (''retryAt'', case bs_retryAt s of RetryAt t \<Rightarrow> JNumber t | RetryHold \<Rightarrow> JString ''hold'' | RetryDue \<Rightarrow> JNull)]"

definition backoff_enqueue :: "backoff_policy \<Rightarrow> 'o enqueuer" where
  "backoff_enqueue policy g letter w =
     (let backoff = stamp policy (dw_now w) 1 letter
      in queue_enqueue g
           (letter\<lparr>dl_ref := dw_nextRef w, dl_diagnostics := spread (dl_diagnostics letter) [(''backoff'', backoff_js backoff)]\<rparr>)
           (w\<lparr>dw_nextRef := Suc (dw_nextRef w)\<rparr>))"

definition attempts_of :: "dead_letter \<Rightarrow> int" where
  "attempts_of letter = (case backoffOf letter of Some s \<Rightarrow> bs_attempts s | None \<Rightarrow> 0)"

definition stamp_decision :: "backoff_policy \<Rightarrow> int \<Rightarrow> dead_letter \<Rightarrow> enqueue_decision \<Rightarrow> enqueue_decision" where
  "stamp_decision policy now letter decision =
     (if \<not> ed_shouldEnqueue decision then decision
      else (let backoff = stamp policy now (attempts_of letter + 1)
                  (letter\<lparr>dl_cause := (case ed_cause decision of Some c \<Rightarrow> c | None \<Rightarrow> dl_cause letter)\<rparr>)
            in decision\<lparr>ed_diagnostics := Some (spread (case ed_diagnostics decision of Some d \<Rightarrow> d | None \<Rightarrow> [])
                 [(''backoff'', backoff_js backoff)])\<rparr>))"

definition backoff_task ::
  "backoff_policy \<Rightarrow> (dead_letter \<Rightarrow> ('x, 'h, 'o) letter_uow \<Rightarrow> ('e + enqueue_decision) \<times> ('x, 'h, 'o) letter_uow) \<Rightarrow>
   dead_letter \<Rightarrow> ('x, 'h, 'o) letter_uow \<Rightarrow> ('e + enqueue_decision) \<times> ('x, 'h, 'o) letter_uow" where
  "backoff_task policy processingTask letter u =
     (case processingTask letter u of
        (Inl e, u') \<Rightarrow> (Inl e, u')
      | (Inr d, u') \<Rightarrow> (Inr (stamp_decision policy (dw_now (uw_world u')) letter d), u'))"

definition backoff_process ::
  "backoff_policy \<Rightarrow> ('x, 'h, 'o, 'e) replay_host \<Rightarrow> string \<Rightarrow> (string \<Rightarrow> dead_letter \<Rightarrow> bool) \<Rightarrow>
   (dead_letter \<Rightarrow> ('x, 'h, 'o) letter_uow \<Rightarrow> ('e + enqueue_decision) \<times> ('x, 'h, 'o) letter_uow) \<Rightarrow>
   'o dlq_world \<Rightarrow> (('e process_error + bool) \<times> 'o dlq_world) option" where
  "backoff_process policy host g sequenceFilter processingTask w =
     process host g (\<lambda>l head. sequenceFilter l head \<and> isDue (dw_now w) head) (backoff_task policy processingTask) w"

definition retryNow :: "string \<Rightarrow> string \<Rightarrow> 'o dlq_world \<Rightarrow> bool \<times> 'o dlq_world" where
  "retryNow g l w =
     (case deadLetterSequence g l (dw_queue w) of
        [] \<Rightarrow> (False, with_queue (\<lambda>q. snd (lanes g q)) w)
      | head # rest \<Rightarrow>
          (True,
           w\<lparr>dw_queue := requeue (dw_nextRef w) (dw_now w) g head None
               (Some [(''backoff'', backoff_js \<lparr>bs_attempts = attempts_of head, bs_retryAt = RetryDue\<rparr>)]) (dw_queue w),
             dw_nextRef := Suc (dw_nextRef w)\<rparr>))"

section \<open>Reprocessing\<close>

text \<open>The \<open>process\<close> of the queue at hand, with the group and the unit of work it is called with.\<close>

type_synonym ('x, 'h, 'o) processor_of_lanes =
  "(string \<Rightarrow> dead_letter \<Rightarrow> bool) \<Rightarrow>
   (dead_letter \<Rightarrow> ('x, 'h, 'o) letter_uow \<Rightarrow> (js_error + enqueue_decision) \<times> ('x, 'h, 'o) letter_uow) \<Rightarrow>
   'o dlq_world \<Rightarrow> ((js_error process_error + bool) \<times> 'o dlq_world) option"

definition replay_task ::
  "(dead_letter \<Rightarrow> ('x, 'h, 'o) letter_uow \<Rightarrow> js_error option \<times> ('x, 'h, 'o) letter_uow) \<Rightarrow>
   dead_letter \<Rightarrow> ('x, 'h, 'o) letter_uow \<Rightarrow> (js_error + enqueue_decision) \<times> ('x, 'h, 'o) letter_uow" where
  "replay_task replay letter u =
     (case replay letter u of
        (None, u') \<Rightarrow> (Inr \<lparr>ed_shouldEnqueue = False, ed_cause = None, ed_diagnostics = None\<rparr>, u')
      | (Some cause, u') \<Rightarrow> (Inr \<lparr>ed_shouldEnqueue = True, ed_cause = Some cause, ed_diagnostics = None\<rparr>, u'))"

definition reprocess ::
  "('x, 'h, 'o) processor_of_lanes \<Rightarrow> (dead_letter \<Rightarrow> ('x, 'h, 'o) letter_uow \<Rightarrow> js_error option \<times> ('x, 'h, 'o) letter_uow)
     \<Rightarrow> (string \<Rightarrow> bool) \<Rightarrow> 'o dlq_world \<Rightarrow> ((js_error process_error + bool) \<times> 'o dlq_world) option" where
  "reprocess proc replay laneFilter w = proc (\<lambda>l head. laneFilter l) (replay_task replay) w"

fun reprocess_each ::
  "('x, 'h, 'o) processor_of_lanes \<Rightarrow> (dead_letter \<Rightarrow> ('x, 'h, 'o) letter_uow \<Rightarrow> js_error option \<times> ('x, 'h, 'o) letter_uow)
     \<Rightarrow> string list \<Rightarrow> nat \<Rightarrow> 'o dlq_world \<Rightarrow> ((js_error process_error + nat) \<times> 'o dlq_world) option" where
  "reprocess_each proc replay [] attempted w = Some (Inr attempted, w)"
| "reprocess_each proc replay (i # is) attempted w =
     (case reprocess proc replay (\<lambda>s. s = i) w of
        None \<Rightarrow> None
      | Some (Inl err, w') \<Rightarrow> Some (Inl err, w')
      | Some (Inr processed, w') \<Rightarrow> reprocess_each proc replay is (if processed then Suc attempted else attempted) w')"

definition reprocessAll ::
  "('x, 'h, 'o) processor_of_lanes \<Rightarrow> (dead_letter \<Rightarrow> ('x, 'h, 'o) letter_uow \<Rightarrow> js_error option \<times> ('x, 'h, 'o) letter_uow)
     \<Rightarrow> string \<Rightarrow> (string \<Rightarrow> bool) \<Rightarrow> 'o dlq_world \<Rightarrow> ((js_error process_error + nat) \<times> 'o dlq_world) option" where
  "reprocessAll proc replay g laneFilter w =
     reprocess_each proc replay (filter laneFilter (sequenceIdentifiers g (dw_queue w))) 0 (with_queue (\<lambda>q. snd (lanes g q)) w)"

section \<open>What the delivery relies on\<close>

text \<open>The events parked in a lane, in order.\<close>

definition parked :: "string \<Rightarrow> string \<Rightarrow> 'o dlq_world \<Rightarrow> event_message list" where
  "parked g l w = map dl_message (deadLetterSequence g l (dw_queue w))"

text \<open>
  Enqueueing either puts the event at the end of its lane and nothing else, or is refused and
  parks nothing; a lane is listed as soon as it holds a letter.
\<close>

locale parking =
  fixes enq :: "'o enqueuer"
  assumes enq_parks: "enq g letter w = (Inr (), w') \<Longrightarrow> parked g' l w' =
      (if g' = g \<and> l = dl_sequenceIdentifier letter then parked g' l w @ [dl_message letter] else parked g' l w)"
    and enq_refuses: "enq g letter w = (Inl err, w') \<Longrightarrow> parked g' l w' = parked g' l w"
    and enq_wf: "wf_dlq (dw_queue w) \<Longrightarrow> wf_dlq (dw_queue (snd (enq g letter w)))"
begin

lemma targets_park:
  "deliver_targets enq g lane e targets w = (r, w') \<Longrightarrow>
   (\<forall>g' l. (g', l) \<noteq> (g, lane) \<or> isl r \<longrightarrow> parked g' l w' = parked g' l w) \<and>
   (parked g lane w' = parked g lane w \<or> parked g lane w' = parked g lane w @ [sq_event e])"
proof (induction targets arbitrary: w)
  case (Cons target rest)
  obtain f out where h: "tg_handler target e (dw_outside w) = (f, out)" by fastforce
  show ?case
  proof (cases f)
    case None
    with Cons.prems h have "deliver_targets enq g lane e rest (w\<lparr>dw_outside := out\<rparr>) = (r, w')" by simp
    from Cons.IH [OF this] show ?thesis by (simp add: parked_def)
  next
    case (Some cause)
    let ?letter = "deadLetter (dw_nextRef w) (dw_now w) (sq_event e) cause lane
                   (Some [(''position'', JNumber (sq_sequence e)), (''handlerName'', JString (qualifiedNameToString (tg_name target)))])"
    let ?w = "w\<lparr>dw_outside := out, dw_nextRef := Suc (dw_nextRef w)\<rparr>"
    have s: "parked g' l ?w = parked g' l w" for g' l by (simp add: parked_def)
    have l: "dl_sequenceIdentifier ?letter = lane" "dl_message ?letter = sq_event e" by (simp_all add: deadLetter_def)
    have enq: "enq g ?letter ?w = (r, w')" using Cons.prems h Some by simp
    show ?thesis
    proof (cases r)
      case (Inl err)
      with enq_refuses enq s show ?thesis by simp
    next
      case (Inr u)
      with enq_parks [of g ?letter ?w w'] enq s l show ?thesis by auto
    qed
  qed
qed (simp add: parked_def)

lemma targets_wf: "wf_dlq (dw_queue w) \<Longrightarrow> wf_dlq (dw_queue (snd (deliver_targets enq g lane e targets w)))"
  by (induction targets arbitrary: w) (auto simp: enq_wf split: option.split prod.split)

lemma deliver_wf:
  assumes "wf_dlq (dw_queue w)"
  shows "wf_dlq (dw_queue (snd (deliver enq g sequence e targets w)))"
proof -
  let ?l = "sequence (sq_event e)"
  let ?s = "\<lambda>_. deadLetter (dw_nextRef w) (dw_now w) (sq_event e) (JsError ''Blocked: previous event in sequence failed'') ?l
     (Some [(''blocked'', JBool True), (''position'', JNumber (sq_sequence e))])"
  have "wf_dlq (snd (enqueueIfPresent g ?l ?s (dw_queue w)))"
    by (rule wf_enqueueIfPresent [OF assms]) (simp add: deadLetter_def)
  then show ?thesis using targets_wf by (auto simp: deliver_def Let_def split: prod.split sum.split bool.split)
qed

text \<open>One delivery: a lane with parked events gets this one at its end, and no handler runs.\<close>

lemma deliver_step:
  assumes wf: "wf_dlq (dw_queue w)" and d: "deliver enq g sequence e targets w = (r, w')"
  defines "l \<equiv> sequence (sq_event e)"
  shows "(\<forall>g' l'. (g', l') \<noteq> (g, l) \<or> isl r \<longrightarrow> parked g' l' w' = parked g' l' w) \<and>
     (parked g l w' = parked g l w \<or> parked g l w' = parked g l w @ [sq_event e]) \<and>
     (parked g l w \<noteq> [] \<longrightarrow> dw_outside w' = dw_outside w \<and> (r = Inr () \<longrightarrow> parked g l w' = parked g l w @ [sq_event e]))"
proof -
  let ?s = "\<lambda>_. deadLetter (dw_nextRef w) (dw_now w) (sq_event e) (JsError ''Blocked: previous event in sequence failed'') l
     (Some [(''blocked'', JBool True), (''position'', JNumber (sq_sequence e))])"
  let ?e = "enqueueIfPresent g l ?s (dw_queue w)"
  let ?w = "w\<lparr>dw_queue := snd ?e\<rparr>"
  have present: "lane_of g l (dw_queue w) = None \<longleftrightarrow> parked g l w = []"
    using wf_lane [OF wf, of g l] by (cases "lane_of g l (dw_queue w)") (auto simp: parked_def deadLetterSequence_lane)
  have park: "parked g' l' ?w = (if fst ?e = Inr True \<and> g' = g \<and> l' = l then parked g l w @ [sq_event e] else parked g' l' w)" for g' l'
    by (simp add: parked_def deadLetterSequence_lane enqueueIfPresent_lane deadLetter_def)
  consider (none) "fst ?e = Inr False" "parked g l w = []" | (full) err where "fst ?e = Inl err" | (yes) "fst ?e = Inr True"
  proof (cases "isFull g l (dw_queue w)")
    case True
    with present that show ?thesis by (cases "parked g l w = []") (simp_all add: enqueueIfPresent_result)
  next
    case False
    with present that show ?thesis by (cases "parked g l w = []") (simp_all add: enqueueIfPresent_result)
  qed
  then show ?thesis
  proof cases
    case none
    have t: "deliver_targets enq g l e targets ?w = (r, w')"
      using d none by (cases ?e) (simp add: deliver_def l_def Let_def)
    show ?thesis using targets_park [OF t] none park by simp
  next
    case (full err)
    then have "r = Inl err" "w' = ?w" using d by (cases ?e; auto simp: deliver_def l_def Let_def)+
    then show ?thesis using park full by simp
  next
    case yes
    then have "r = Inr ()" "w' = ?w\<lparr>dw_nextRef := Suc (dw_nextRef w)\<rparr>"
      using d by (cases ?e; auto simp: deliver_def l_def Let_def)+
    then show ?thesis using park yes by (simp add: parked_def)
  qed
qed

end

text \<open>A run of deliveries: for each event whether it was parked. A full queue ends the batch.\<close>

fun deliver_run ::
  "'o enqueuer \<Rightarrow> string \<Rightarrow> (event_message \<Rightarrow> string) \<Rightarrow> 'o target list \<Rightarrow> sequenced_event list \<Rightarrow> 'o dlq_world
     \<Rightarrow> (sequenced_event \<times> bool) list \<times> 'o dlq_world" where
  "deliver_run enq g sequence targets [] w = ([], w)"
| "deliver_run enq g sequence targets (e # es) w =
     (case deliver enq g sequence e targets w of
        (Inl err, w') \<Rightarrow> ([], w')
      | (Inr _, w') \<Rightarrow>
          (case deliver_run enq g sequence targets es w' of
             (flags, w'') \<Rightarrow>
               ((e, parked g (sequence (sq_event e)) w' \<noteq> parked g (sequence (sq_event e)) w) # flags, w'')))"

definition in_lane :: "(event_message \<Rightarrow> string) \<Rightarrow> string \<Rightarrow> (sequenced_event \<times> bool) list \<Rightarrow> (sequenced_event \<times> bool) list" where
  "in_lane sequence l flags = filter (\<lambda>(e, _). sequence (sq_event e) = l) flags"

context parking
begin

lemma run_in_order:
  assumes "wf_dlq (dw_queue w)" "deliver_run enq g sequence targets es w = (flags, w')"
  shows "\<exists>k. map snd (in_lane sequence l flags) = replicate k False @ replicate (length (in_lane sequence l flags) - k) True \<and>
     k \<le> length (in_lane sequence l flags) \<and>
     parked g l w' = parked g l w @ map (sq_event \<circ> fst) (drop k (in_lane sequence l flags)) \<and>
     (parked g l w \<noteq> [] \<longrightarrow> k = 0)"
  using assms
proof (induction es arbitrary: w flags)
  case Nil
  then show ?case by (simp add: in_lane_def)
next
  case (Cons e es)
  obtain r w1 where d: "deliver enq g sequence e targets w = (r, w1)" by fastforce
  note step = deliver_step [OF Cons.prems(1) d]
  show ?case
  proof (cases r)
    case (Inl err)
    with Cons.prems(2) d step show ?thesis by (simp add: in_lane_def)
  next
    case (Inr u)
    let ?l = "sequence (sq_event e)"
    obtain flags1 where run: "deliver_run enq g sequence targets es w1 = (flags1, w')"
      and flags: "flags = (e, parked g ?l w1 \<noteq> parked g ?l w) # flags1"
      using Cons.prems(2) d Inr by (auto split: prod.splits)
    have wf1: "wf_dlq (dw_queue w1)" using deliver_wf [OF Cons.prems(1), of g sequence e targets] d by simp
    from Cons.IH [OF wf1 run] obtain k where k: "map snd (in_lane sequence l flags1) = replicate k False @ replicate (length (in_lane sequence l flags1) - k) True"
      "k \<le> length (in_lane sequence l flags1)"
      "parked g l w' = parked g l w1 @ map (sq_event \<circ> fst) (drop k (in_lane sequence l flags1))"
      "parked g l w1 \<noteq> [] \<longrightarrow> k = 0" by blast
    show ?thesis
    proof (cases "?l = l")
      case False
      then have "parked g l w1 = parked g l w" "in_lane sequence l flags = in_lane sequence l flags1"
        using step flags by (auto simp: in_lane_def)
      with k show ?thesis by auto
    next
      case True
      have in_l: "in_lane sequence l flags = (e, parked g l w1 \<noteq> parked g l w) # in_lane sequence l flags1"
        using True flags by (simp add: in_lane_def)
      show ?thesis
      proof (cases "parked g l w1 = parked g l w")
        case True': True
        then have "parked g l w = []" using step True Inr by auto
        with k True' in_l show ?thesis by (intro exI [of _ "Suc k"]) simp
      next
        case False
        then have "parked g l w1 = parked g l w @ [sq_event e]" using step True by auto
        with k False in_l show ?thesis by (intro exI [of _ 0]) simp
      qed
    qed
  qed
qed

end

interpretation plain: parking queue_enqueue
proof unfold_locales
  fix g letter l g' err and w w' :: "'o dlq_world"
  show "queue_enqueue g letter w = (Inr (), w') \<Longrightarrow> parked g' l w' =
      (if g' = g \<and> l = dl_sequenceIdentifier letter then parked g' l w @ [dl_message letter] else parked g' l w)"
    using enqueue_lane [of g' l g letter "dw_queue w"]
    by (auto simp: queue_enqueue_def parked_def deadLetterSequence_lane split: prod.splits)
  show "queue_enqueue g letter w = (Inl err, w') \<Longrightarrow> parked g' l w' = parked g' l w"
    using enqueue_lane [of g' l g letter "dw_queue w"]
    by (auto simp: queue_enqueue_def parked_def deadLetterSequence_lane split: prod.splits)
  show "wf_dlq (dw_queue w) \<Longrightarrow> wf_dlq (dw_queue (snd (queue_enqueue g letter w)))"
    using wf_enqueue [of "dw_queue w" g letter] by (simp add: queue_enqueue_def split_beta)
qed

lemma parked_nextRef [simp]: "parked g l (w\<lparr>dw_nextRef := n\<rparr>) = parked g l w"
  by (simp add: parked_def)

interpretation delayed: parking "backoff_enqueue policy"
proof unfold_locales
  fix g letter l g' err and w w' :: "'o dlq_world"
  show "backoff_enqueue policy g letter w = (Inr (), w') \<Longrightarrow> parked g' l w' =
      (if g' = g \<and> l = dl_sequenceIdentifier letter then parked g' l w @ [dl_message letter] else parked g' l w)"
    unfolding backoff_enqueue_def Let_def by (drule plain.enq_parks [where g' = g' and l = l]) simp
  show "backoff_enqueue policy g letter w = (Inl err, w') \<Longrightarrow> parked g' l w' = parked g' l w"
    unfolding backoff_enqueue_def Let_def by (drule plain.enq_refuses [where g' = g' and l = l]) simp
  show "wf_dlq (dw_queue w) \<Longrightarrow> wf_dlq (dw_queue (snd (backoff_enqueue policy g letter w)))"
    unfolding backoff_enqueue_def Let_def by (rule plain.enq_wf) simp
qed

section \<open>Delays\<close>

lemma spread_get:
  assumes "wf_map ext"
  shows "map_get (spread base ext) k = (case map_get ext k of Some v \<Rightarrow> Some v | None \<Rightarrow> map_get base k)"
  using assms
proof (induction ext rule: rev_induct)
  case (snoc e ext)
  obtain k' v where e: "e = (k', v)" by fastforce
  with snoc.prems have "map_get ext k' = None" by (simp add: map_of_eq_None_iff)
  with snoc e show ?case by (simp add: spread_def map_add_def split: option.split)
qed (simp add: spread_def)

lemma wf_spread: "wf_map base \<Longrightarrow> wf_map (spread base ext)"
  unfolding spread_def by (induction ext arbitrary: base) (auto simp: alist.wf_set split_beta)

lemma backoffOf_entry:
  "map_get (dl_diagnostics letter) ''backoff'' = Some (backoff_js s) \<Longrightarrow> backoffOf letter = Some s"
  by (cases "bs_retryAt s") (simp_all add: backoffOf_def backoff_js_def backoff_fields_def)

lemma spread_backoff: "map_get (spread d [(''backoff'', v)]) ''backoff'' = Some v"
  by (simp add: spread_get)

lemma stamped_letter:
  "backoffOf (letter\<lparr>dl_ref := r, dl_diagnostics := spread d [(''backoff'', backoff_js s)]\<rparr>) = Some s"
  by (rule backoffOf_entry) (simp add: spread_backoff)

lemma backoffOf_touched:
  assumes "wf_map d" "map_get d ''backoff'' = Some (backoff_js s)"
  shows "backoffOf (touched ref now letter c (Some d)) = Some s"
  by (rule backoffOf_entry) (simp add: touched_def spread_get [OF assms(1)] assms(2))

definition due_after :: "int \<Rightarrow> backoff_delay \<Rightarrow> int \<Rightarrow> bool" where
  "due_after now delay t = (case delay of HoldLane \<Rightarrow> False | DelayMs d \<Rightarrow> now + max 0 d \<le> t)"

lemma isDue_stamp:
  "backoffOf letter = Some (stamp policy now n l) \<Longrightarrow> isDue t letter \<longleftrightarrow> due_after now (policy n l) t"
  by (simp add: isDue_def stamp_def due_after_def split: backoff_delay.split)

text \<open>The task of the wrapped queue is again host code on the outside world.\<close>

definition stamped_decide ::
  "backoff_policy \<Rightarrow> (int \<Rightarrow> dead_letter \<Rightarrow> 'o \<Rightarrow> ('e + enqueue_decision) \<times> 'o) \<Rightarrow> int \<Rightarrow> dead_letter \<Rightarrow> 'o \<Rightarrow> ('e + enqueue_decision) \<times> 'o" where
  "stamped_decide policy decide now letter out =
     (case decide now letter out of
        (Inl e, out') \<Rightarrow> (Inl e, out')
      | (Inr d, out') \<Rightarrow> (Inr (stamp_decision policy now letter d), out'))"

lemma backoff_task_outside: "backoff_task policy (outside_task decide) = outside_task (stamped_decide policy decide)"
  by (intro ext) (auto simp: backoff_task_def outside_task_def stamped_decide_def Let_def split: prod.split sum.split)

lemma stamp_decision_shouldEnqueue [simp]: "ed_shouldEnqueue (stamp_decision policy now letter d) = ed_shouldEnqueue d"
  by (simp add: stamp_decision_def Let_def)

lemma stamp_decision_cause [simp]: "ed_cause (stamp_decision policy now letter d) = ed_cause d"
  by (simp add: stamp_decision_def Let_def)

text \<open>Where the walk stops on a failure, the decision is the stamped one of the letter it stopped at.\<close>

lemma replay_run_failed:
  "replay_run decide letters out = (n, HeadFailed d, out') \<Longrightarrow>
   n < length letters \<and> ed_shouldEnqueue d \<and> (\<exists>o1. fst (decide (letters ! n) o1) = Inr d)"
proof (induction letters arbitrary: out n)
  case (Cons letter rest)
  obtain r out1 where dec: "decide letter out = (r, out1)" by fastforce
  show ?case
  proof (cases "\<exists>d'. r = Inr d' \<and> \<not> ed_shouldEnqueue d'")
    case True
    then obtain m where "replay_run decide rest out1 = (m, HeadFailed d, out')" "n = Suc m"
      using Cons.prems dec by (auto split: prod.splits)
    with Cons.IH show ?thesis by auto
  next
    case False
    with Cons.prems dec have "n = 0" "r = Inr d" "ed_shouldEnqueue d" by (cases r; auto)+
    with dec show ?thesis by (auto intro: exI [of _ out])
  qed
qed simp

lemma stamped_failure:
  assumes "fst (stamped_decide policy decide now letter o1) = Inr d" "ed_shouldEnqueue d"
    and wf: "\<forall>o1 d' m. fst (decide now letter o1) = Inr d' \<longrightarrow> ed_diagnostics d' = Some m \<longrightarrow> wf_map m"
  shows "\<exists>l'. backoffOf (touched ref now letter (ed_cause d) (ed_diagnostics d)) = Some (stamp policy now (attempts_of letter + 1) l') \<and>
     l' = letter\<lparr>dl_cause := dl_cause (touched ref now letter (ed_cause d) (ed_diagnostics d))\<rparr>"
proof -
  obtain d' out' where d': "decide now letter o1 = (Inr d', out')" "d = stamp_decision policy now letter d'"
    using assms(1) by (auto simp: stamped_decide_def split: prod.splits sum.splits)
  let ?m = "case ed_diagnostics d' of Some d \<Rightarrow> d | None \<Rightarrow> []"
  let ?l = "letter\<lparr>dl_cause := (case ed_cause d' of Some c \<Rightarrow> c | None \<Rightarrow> dl_cause letter)\<rparr>"
  let ?s = "stamp policy now (attempts_of letter + 1) ?l"
  have "ed_shouldEnqueue d'" using d'(2) assms(2) by simp
  then have diag: "ed_diagnostics d = Some (spread ?m [(''backoff'', backoff_js ?s)])"
    unfolding d'(2) by (simp add: stamp_decision_def Let_def)
  have "fst (decide now letter o1) = Inr d'" using d'(1) by simp
  with wf have "wf_map ?m" by (cases "ed_diagnostics d'") auto
  then have "wf_map (spread ?m [(''backoff'', backoff_js ?s)])" by (rule wf_spread)
  then have "backoffOf (touched ref now letter (ed_cause d) (ed_diagnostics d)) = Some ?s"
    unfolding diag by (rule backoffOf_touched) (rule spread_backoff)
  moreover have "?l = letter\<lparr>dl_cause := dl_cause (touched ref now letter (ed_cause d) (ed_diagnostics d))\<rparr>"
    using d'(2) by (simp add: touched_def)
  ultimately show ?thesis by blast
qed

lemma attempts_of_stamped: "backoffOf letter = Some (stamp policy now n l) \<Longrightarrow> attempts_of letter = n"
  by (simp add: attempts_of_def stamp_def)

text \<open>Releasing a lane makes its head due at any time and keeps its count.\<close>

lemma retryNow_releases:
  assumes wf: "wf_dlq (dw_queue w)" and lane: "deadLetterSequence g l (dw_queue w) = head # rest"
  shows "\<exists>w' head'. retryNow g l w = (True, w') \<and> deadLetterSequence g l (dw_queue w') = head' # rest \<and>
     dl_message head' = dl_message head \<and> attempts_of head' = attempts_of head \<and> isDue t head'"
proof -
  let ?s = "\<lparr>bs_attempts = attempts_of head, bs_retryAt = RetryDue\<rparr>"
  let ?d = "[(''backoff'', backoff_js ?s)]"
  let ?head = "touched (dw_nextRef w) (dw_now w) head None (Some ?d)"
  let ?q = "requeue (dw_nextRef w) (dw_now w) g head None (Some ?d) (dw_queue w)"
  have some: "lane_of g l (dw_queue w) = Some (head # rest)" using lane by (auto simp: deadLetterSequence_lane split: option.splits)
  have "dl_sequenceIdentifier head = l" using wf_lane [OF wf some] by simp
  with some have q: "deadLetterSequence g l ?q = ?head # rest" by (simp add: deadLetterSequence_lane requeue_lane)
  have b: "backoffOf ?head = Some ?s" by (rule backoffOf_touched) simp_all
  have "retryNow g l w = (True, w\<lparr>dw_queue := ?q, dw_nextRef := Suc (dw_nextRef w)\<rparr>)" by (simp add: retryNow_def lane)
  moreover have "dl_message ?head = dl_message head" by (simp add: touched_def)
  moreover have "attempts_of ?head = attempts_of head" using b by (simp add: attempts_of_def [of ?head])
  moreover have "isDue t ?head" using b by (simp add: isDue_def)
  ultimately show ?thesis using q by auto
qed

section \<open>Reprocessing keeps order\<close>

definition outside_replay ::
  "(dead_letter \<Rightarrow> 'o \<Rightarrow> js_error option \<times> 'o) \<Rightarrow> dead_letter \<Rightarrow> (unit, unit, 'o) letter_uow \<Rightarrow> js_error option \<times> (unit, unit, 'o) letter_uow" where
  "outside_replay run letter u =
     (case run letter (dw_outside (uw_world u)) of (r, out) \<Rightarrow> (r, u\<lparr>uw_world := (uw_world u)\<lparr>dw_outside := out\<rparr>\<rparr>))"

definition replay_decide ::
  "(dead_letter \<Rightarrow> 'o \<Rightarrow> js_error option \<times> 'o) \<Rightarrow> int \<Rightarrow> dead_letter \<Rightarrow> 'o \<Rightarrow> (js_error + enqueue_decision) \<times> 'o" where
  "replay_decide run now letter out =
     (case run letter out of
        (None, out') \<Rightarrow> (Inr \<lparr>ed_shouldEnqueue = False, ed_cause = None, ed_diagnostics = None\<rparr>, out')
      | (Some cause, out') \<Rightarrow> (Inr \<lparr>ed_shouldEnqueue = True, ed_cause = Some cause, ed_diagnostics = None\<rparr>, out'))"

lemma replay_task_outside: "replay_task (outside_replay run) = outside_task (replay_decide run)"
  by (intro ext) (auto simp: replay_task_def outside_task_def outside_replay_def replay_decide_def Let_def split: prod.split option.split)

lemma replay_run_never_throws:
  "replay_run (replay_decide run now) letters out \<noteq> (n, TaskThrew e, out')"
proof (induction letters arbitrary: out n)
  case (Cons letter rest)
  show ?case
  proof
    assume *: "replay_run (replay_decide run now) (letter # rest) out = (n, TaskThrew e, out')"
    obtain r out1 where r: "run letter out = (r, out1)" by fastforce
    with * Cons.IH show False by (cases r) (auto simp: replay_decide_def [of run now letter out] split: prod.splits)
  qed
qed simp

lemma left_over_suffix:
  assumes "replay_run decide letters out = (n, stop, out')"
  shows "map dl_message (left_over ref now letters n stop) = drop n (map dl_message letters)"
proof (cases stop)
  case (HeadFailed d)
  with replay_run_failed [of decide letters out n d out'] assms have "n < length letters" by simp
  then have "drop n (map dl_message letters) = map dl_message letters ! n # drop (Suc n) (map dl_message letters)"
    by (simp only: Cons_nth_drop_Suc length_map)
  then show ?thesis using \<open>n < length letters\<close> HeadFailed
    by (simp only: left_over.simps list.map drop_map [symmetric] nth_map) (simp add: touched_def)
qed (simp_all add: drop_map)

text \<open>One lane, by its name: it is attempted if it is parked, and left with a suffix of its events.\<close>

lemma reprocess_one:
  assumes wf: "wf_dlq (dw_queue w)" and free: "dq_processing (dw_queue w) = {}" and present: "parked g i w \<noteq> []"
  shows "\<exists>w'. reprocess (process plain_host g) (outside_replay run) (\<lambda>s. s = i) w = Some (Inr (i \<noteq> ''''), w') \<and>
     wf_dlq (dw_queue w') \<and> dq_processing (dw_queue w') = {} \<and>
     (\<exists>n. parked g i w' = drop n (parked g i w) \<and> (i = '''' \<longrightarrow> n = 0)) \<and>
     (\<forall>g' l. (g', l) \<noteq> (g, i) \<longrightarrow> parked g' l w' = parked g' l w)"
proof -
  let ?f = "\<lambda>l head. l = i"
  obtain head rest where "lane_of g i (dw_queue w) = Some (head # rest)"
    using present by (cases "deadLetterSequence g i (dw_queue w)") (auto simp: parked_def deadLetterSequence_lane split: option.splits)
  then have "eligible g ?f (dw_queue w) i head" using free by (simp add: eligible_def)
  then have old: "oldest_lane g ?f (dw_queue w) = Some i"
    using oldest_lane_spec [OF wf, of g ?f] by (cases "oldest_lane g ?f (dw_queue w)") (auto simp: eligible_def)
  show ?thesis
  proof (cases "i = ''''")
    case True
    have "reprocess (process plain_host g) (outside_replay run) (\<lambda>s. s = i) w = Some (Inr False, with_queue (\<lambda>q. snd (lanes g q)) w)"
      using old True by (simp add: reprocess_def process_def with_queue_def)
    then show ?thesis using wf free True
      by (intro exI [of _ "with_queue (\<lambda>q. snd (lanes g q)) w"])
        (auto simp: with_queue_def parked_def deadLetterSequence_lane intro: exI [of _ 0])
  next
    case False
    obtain n stop out where run: "replay_run (replay_decide run (dw_now w)) (deadLetterSequence g i (dw_queue w)) (dw_outside w) = (n, stop, out)"
      by (metis prod_cases3)
    obtain w' where w': "process plain_host g ?f (outside_task (replay_decide run)) w = Some (process_result stop, w')"
      "wf_dlq (dw_queue w')" "dq_processing (dw_queue w') = {}"
      "\<And>g' l'. deadLetterSequence g' l' (dw_queue w') = (if g' = g \<and> l' = i
         then left_over (dw_nextRef w) (dw_now w) (deadLetterSequence g i (dw_queue w)) n stop
         else deadLetterSequence g' l' (dw_queue w))"
      using process_run [where decide = "replay_decide run", OF wf old False run] free by auto
    have "process_result stop = Inr True" using run by (cases stop) (auto simp: replay_run_never_throws)
    with w' False show ?thesis
      by (intro exI [of _ w'])
        (auto simp: reprocess_def replay_task_outside parked_def left_over_suffix [OF run] intro: exI [of _ n])
  qed
qed

lemma reprocess_each_run:
  assumes "wf_dlq (dw_queue w)" "dq_processing (dw_queue w) = {}" "distinct ids" "\<forall>i \<in> set ids. parked g i w \<noteq> []"
  shows "\<exists>w'. reprocess_each (process plain_host g) (outside_replay run) ids k w =
       Some (Inr (k + length (filter (\<lambda>i. i \<noteq> '''') ids)), w') \<and>
     (\<forall>l. \<exists>n. parked g l w' = drop n (parked g l w) \<and> (l \<notin> set ids \<or> l = '''' \<longrightarrow> n = 0)) \<and>
     (\<forall>g' l. g' \<noteq> g \<longrightarrow> parked g' l w' = parked g' l w)"
  using assms
proof (induction ids arbitrary: w k)
  case Nil
  then show ?case by (auto intro: exI [of _ 0])
next
  case (Cons i ids)
  obtain w1 n where w1: "reprocess (process plain_host g) (outside_replay run) (\<lambda>s. s = i) w = Some (Inr (i \<noteq> ''''), w1)"
    "wf_dlq (dw_queue w1)" "dq_processing (dw_queue w1) = {}" "parked g i w1 = drop n (parked g i w)" "i = '''' \<longrightarrow> n = 0"
    and others: "\<And>g' l. (g', l) \<noteq> (g, i) \<Longrightarrow> parked g' l w1 = parked g' l w"
    using reprocess_one [where run = run, OF Cons.prems(1,2), of g i] Cons.prems(4) by auto
  have rest: "distinct ids" "\<forall>j \<in> set ids. parked g j w1 \<noteq> []" using Cons.prems(3,4) others [of g] by (auto, metis)
  obtain w' where w':
    "reprocess_each (process plain_host g) (outside_replay run) ids (if i \<noteq> '''' then Suc k else k) w1 =
       Some (Inr ((if i \<noteq> '''' then Suc k else k) + length (filter (\<lambda>i. i \<noteq> '''') ids)), w')"
    and suf: "\<And>l. \<exists>n. parked g l w' = drop n (parked g l w1) \<and> (l \<notin> set ids \<or> l = '''' \<longrightarrow> n = 0)"
    and other_groups: "\<And>g' l. g' \<noteq> g \<Longrightarrow> parked g' l w' = parked g' l w1"
    using Cons.IH [OF w1(2,3) rest, of "if i \<noteq> '''' then Suc k else k"] by blast
  have "reprocess_each (process plain_host g) (outside_replay run) (i # ids) k w =
       Some (Inr (k + length (filter (\<lambda>i. i \<noteq> '''') (i # ids))), w')"
    using w1(1) w' by simp
  moreover have "\<exists>n. parked g l w' = drop n (parked g l w) \<and> (l \<notin> set (i # ids) \<or> l = '''' \<longrightarrow> n = 0)" for l
  proof (cases "l = i")
    case True
    then have "parked g l w' = parked g l w1" using suf [of l] Cons.prems(3) by auto
    with True w1(4,5) show ?thesis by (intro exI [of _ n]) simp
  next
    case False
    with suf [of l] others [of g l] show ?thesis by auto
  qed
  moreover have "parked g' l w' = parked g' l w" if "g' \<noteq> g" for g' l
    using that other_groups [of g' l] others [of g' l] by simp
  ultimately show ?case by blast
qed

section \<open>Properties\<close>

text \<open>
  C9: Delivery keeps each lane in order through failures, with a plain queue and with one that backs off: in any run
  of deliveries into a well-used queue, the events of a lane that were not parked come before all
  that were; the parked ones stand at the end of the lane's letters in the order they arrived; and a lane
  that was blocked to begin with has every one of its events parked.\<close>
theorem delivery_keeps_lane_order:
  assumes "dlq_reachable (dw_queue w)" "enq = queue_enqueue \<or> enq = backoff_enqueue policy"
    and "deliver_run enq g sequence targets es w = (flags, w')"
  shows "\<exists>k. map snd (in_lane sequence l flags) = replicate k False @ replicate (length (in_lane sequence l flags) - k) True \<and>
     k \<le> length (in_lane sequence l flags) \<and>
     parked g l w' = parked g l w @ map (sq_event \<circ> fst) (drop k (in_lane sequence l flags)) \<and>
     (parked g l w \<noteq> [] \<longrightarrow> k = 0)"
  using assms(2,3) plain.run_in_order [OF dlq_reachable_wf [OF assms(1)], of g sequence targets es flags w' l]
    delayed.run_in_order [OF dlq_reachable_wf [OF assms(1)], of policy g sequence targets es flags w' l]
  by blast

definition at_position :: "int \<Rightarrow> sequenced_event" where
  "at_position n = \<lparr>sq_sequence = n, sq_event = order_event\<lparr>em_timestamp := n\<rparr>, sq_token = None\<rparr>"

definition failing_target :: "nat target" where
  "failing_target = \<lparr>tg_name = qn ''shop'' ''Placed'',
     tg_handler = (\<lambda>e k. (if k = 1 then Some (JsError ''boom'') else None, Suc k))\<rparr>"

definition empty_dlq_world :: "nat dlq_world" where
  "empty_dlq_world = \<lparr>dw_queue = inMemoryDeadLetterQueue None None, dw_nextRef = 0, dw_now = 9, dw_outside = 0\<rparr>"

theorem delivery_keeps_lane_order_witness:
  "case deliver_run queue_enqueue ''orders'' (\<lambda>_. ''a'') [failing_target] (map at_position [0, 1, 2, 3]) empty_dlq_world of
     (flags, w') \<Rightarrow> map snd flags = [False, True, True, True] \<and>
       (\<exists>k. map snd (in_lane (\<lambda>_. ''a'') ''a'' flags) = replicate k False @ replicate (length (in_lane (\<lambda>_. ''a'') ''a'' flags) - k) True)"
proof -
  obtain flags w' where run:
    "deliver_run queue_enqueue ''orders'' (\<lambda>_. ''a'') [failing_target] (map at_position [0, 1, 2, 3]) empty_dlq_world = (flags, w')"
    by fastforce
  have "map snd (fst (deliver_run queue_enqueue ''orders'' (\<lambda>_. ''a'') [failing_target] (map at_position [0, 1, 2, 3]) empty_dlq_world))
      = [False, True, True, True]" by code_simp
  then have "map snd flags = [False, True, True, True]" using run by simp
  moreover have "dlq_reachable (dw_queue empty_dlq_world)" by (simp add: empty_dlq_world_def dr_init)
  ultimately show ?thesis
    using run delivery_keeps_lane_order [OF _ _ run, of undefined "''a''"] by auto
qed

text \<open>
  With a backoff policy a lane is replayed only when its head is due. When the letter the walk
  reaches fails again, it is left at the head of the lane with one attempt more than it had, and the lane is due again
  exactly from the policy's delay after the failure on, never while the policy holds it.\<close>
theorem failed_replay_waits:
  assumes reach: "dlq_reachable (dw_queue w)"
    and lane: "oldest_lane g (\<lambda>l head. f l head \<and> isDue (dw_now w) head) (dw_queue w) = Some l" "l \<noteq> ''''"
    and diags: "\<forall>letter o1 d m. fst (decide (dw_now w) letter o1) = Inr d \<longrightarrow> ed_diagnostics d = Some m \<longrightarrow> wf_map m"
    and run: "replay_run (stamped_decide policy decide (dw_now w)) (deadLetterSequence g l (dw_queue w)) (dw_outside w) =
        (n, HeadFailed d, out)"
  shows "\<exists>w' head'. backoff_process policy plain_host g f (outside_task decide) w = Some (Inr True, w') \<and>
     isDue (dw_now w) (hd (deadLetterSequence g l (dw_queue w))) \<and>
     deadLetterSequence g l (dw_queue w') = head' # drop (Suc n) (deadLetterSequence g l (dw_queue w)) \<and>
     dl_message head' = dl_message (deadLetterSequence g l (dw_queue w) ! n) \<and>
     attempts_of head' = attempts_of (deadLetterSequence g l (dw_queue w) ! n) + 1 \<and>
     (\<forall>t. isDue t head' \<longleftrightarrow> due_after (dw_now w)
        (policy (attempts_of head') ((deadLetterSequence g l (dw_queue w) ! n)\<lparr>dl_cause := dl_cause head'\<rparr>)) t)"
proof -
  let ?ls = "deadLetterSequence g l (dw_queue w)"
  let ?head = "touched (dw_nextRef w) (dw_now w) (?ls ! n) (ed_cause d) (ed_diagnostics d)"
  obtain w' head where w': "backoff_process policy plain_host g f (outside_task decide) w = Some (Inr True, w')"
    "deadLetterSequence g l (dw_queue w') = ?head # drop (Suc n) ?ls"
    and el: "eligible g (\<lambda>l head. f l head \<and> isDue (dw_now w) head) (dw_queue w) l head"
    using process_run [where decide = "stamped_decide policy decide", OF dlq_reachable_wf [OF reach] lane run]
    by (auto simp: backoff_process_def backoff_task_outside)
  from replay_run_failed [OF run] obtain o1 where fail: "fst (stamped_decide policy decide (dw_now w) (?ls ! n) o1) = Inr d"
    "ed_shouldEnqueue d" by blast
  from stamped_failure [where ref = "dw_nextRef w", OF fail diags [THEN spec]] have
    b: "backoffOf ?head = Some (stamp policy (dw_now w) (attempts_of (?ls ! n) + 1) ((?ls ! n)\<lparr>dl_cause := dl_cause ?head\<rparr>))" by blast
  have "isDue (dw_now w) (hd ?ls)" using el by (auto simp: eligible_def deadLetterSequence_lane)
  moreover have "dl_message ?head = dl_message (?ls ! n)" by (simp add: touched_def)
  ultimately show ?thesis using w' attempts_of_stamped [OF b] isDue_stamp [OF b] by metis
qed

definition always_fails :: "int \<Rightarrow> dead_letter \<Rightarrow> nat \<Rightarrow> (js_error + enqueue_decision) \<times> nat" where
  "always_fails now letter k = (Inr \<lparr>ed_shouldEnqueue = True, ed_cause = None, ed_diagnostics = None\<rparr>, Suc k)"

theorem failed_replay_waits_witness:
  "\<exists>w'. backoff_process (\<lambda>n letter. DelayMs (100 * n)) plain_host ''orders'' (\<lambda>l h. True) (outside_task always_fails) example_dlq_world =
     Some (Inr True, w')"
proof -
  let ?w = example_dlq_world and ?p = "\<lambda>n letter. DelayMs (100 * n)"
  let ?f = "\<lambda>l head. True \<and> isDue (dw_now ?w) head"
  let ?d = "stamp_decision ?p (dw_now ?w) example_letter \<lparr>ed_shouldEnqueue = True, ed_cause = None, ed_diagnostics = None\<rparr>"
  have reach: "dlq_reachable (dw_queue ?w)" using example_queue_reachable by (simp add: example_dlq_world_def)
  have lane: "oldest_lane ''orders'' ?f (dw_queue ?w) = Some ''a''" by code_simp
  have "hd (deadLetterSequence ''orders'' ''a'' (dw_queue ?w)) = example_letter"
    "deadLetterSequence ''orders'' ''a'' (dw_queue ?w) \<noteq> []" by code_simp+
  then obtain rest where "deadLetterSequence ''orders'' ''a'' (dw_queue ?w) = example_letter # rest"
    by (cases "deadLetterSequence ''orders'' ''a'' (dw_queue ?w)") auto
  then have run: "replay_run (stamped_decide ?p always_fails (dw_now ?w)) (deadLetterSequence ''orders'' ''a'' (dw_queue ?w)) (dw_outside ?w) =
      (0, HeadFailed ?d, Suc (dw_outside ?w))"
    by (simp add: stamped_decide_def [of ?p always_fails "dw_now ?w" example_letter] always_fails_def)
  have diags: "\<forall>letter o1 d m. fst (always_fails (dw_now ?w) letter o1) = Inr d \<longrightarrow> ed_diagnostics d = Some m \<longrightarrow> wf_map m"
    by (auto simp: always_fails_def)
  have "''a'' \<noteq> ''''" by simp
  from failed_replay_waits [OF reach lane this diags run] show ?thesis by blast
qed

text \<open>
  Reprocessing everything that is parked always returns, never throws a replay's error, attempts each
  accepted lane exactly once (the one with the empty name apart), and leaves every lane with a suffix of its events in their
  order: only events whose replay succeeded leave, and only from the front. Lanes the filter does
  not accept and other groups are untouched.\<close>
theorem reprocessAll_drains_in_order:
  assumes reach: "dlq_reachable (dw_queue w)" and free: "dq_processing (dw_queue w) = {}"
  shows "\<exists>w'. reprocessAll (process plain_host g) (outside_replay run) g f w =
       Some (Inr (length (filter (\<lambda>l. f l \<and> l \<noteq> '''') (sequenceIdentifiers g (dw_queue w)))), w') \<and>
     (\<forall>l. \<exists>n. parked g l w' = drop n (parked g l w) \<and> (\<not> f l \<or> l = '''' \<longrightarrow> n = 0)) \<and>
     (\<forall>g' l. g' \<noteq> g \<longrightarrow> parked g' l w' = parked g' l w)"
proof -
  let ?w = "with_queue (\<lambda>q. snd (lanes g q)) w"
  let ?ids = "filter f (sequenceIdentifiers g (dw_queue w))"
  have wf: "wf_dlq (dw_queue w)" by (rule dlq_reachable_wf [OF reach])
  have p: "parked g' l ?w = parked g' l w" for g' l by (simp add: parked_def with_queue_def deadLetterSequence_lane)
  have 1: "wf_dlq (dw_queue ?w)" "dq_processing (dw_queue ?w) = {}" using wf free by (simp_all add: with_queue_def)
  have 2: "distinct ?ids" using wf_group [OF wf, of g] by (simp add: sequenceIdentifiers_def wf_lanes_def)
  have 3: "\<forall>i \<in> set ?ids. parked g i ?w \<noteq> []"
  proof
    fix i assume "i \<in> set ?ids"
    then have "lane_of g i (dw_queue w) \<noteq> None"
      using alist.keys_get [of i "fst (lanes g (dw_queue w))"] by (simp add: sequenceIdentifiers_def)
    then show "parked g i ?w \<noteq> []"
      using wf_lane [OF wf, of g i] p by (auto simp: parked_def deadLetterSequence_lane)
  qed
  have len: "filter (\<lambda>i. i \<noteq> '''') ?ids = filter (\<lambda>l. f l \<and> l \<noteq> '''') (sequenceIdentifiers g (dw_queue w))"
    by (simp add: conj_commute)
  from reprocess_each_run [where run = run and k = 0, OF 1 2 3] obtain w' where w':
    "reprocessAll (process plain_host g) (outside_replay run) g f w =
       Some (Inr (length (filter (\<lambda>l. f l \<and> l \<noteq> '''') (sequenceIdentifiers g (dw_queue w)))), w')"
    and suf: "\<And>l. \<exists>n. parked g l w' = drop n (parked g l w) \<and> (l \<notin> set ?ids \<or> l = '''' \<longrightarrow> n = 0)"
    and "\<And>g' l. g' \<noteq> g \<Longrightarrow> parked g' l w' = parked g' l w"
    unfolding p len reprocessAll_def by auto
  moreover have "\<exists>n. parked g l w' = drop n (parked g l w) \<and> (\<not> f l \<or> l = '''' \<longrightarrow> n = 0)" for l
    using suf [of l] by auto
  ultimately show ?thesis by blast
qed

theorem reprocessAll_drains_in_order_witness:
  "\<exists>w'. reprocessAll (process plain_host ''orders'') (outside_replay (\<lambda>letter k. (None, Suc k))) ''orders'' (\<lambda>l. True) example_dlq_world =
     Some (Inr 1, w')"
proof -
  have reach: "dlq_reachable (dw_queue example_dlq_world)" using example_queue_reachable by (simp add: example_dlq_world_def)
  have free: "dq_processing (dw_queue example_dlq_world) = {}"
    by (simp add: example_dlq_world_def example_queue_def enqueueIfPresent_def enqueue_def inMemoryDeadLetterQueue_def lanes_def
        put_lanes_def example_letter_def deadLetter_def)
  have "length (filter (\<lambda>l. True \<and> l \<noteq> '''') (sequenceIdentifiers ''orders'' (dw_queue example_dlq_world))) = 1" by code_simp
  with reprocessAll_drains_in_order [OF reach free, of "''orders''" "\<lambda>letter k. (None, Suc k)" "\<lambda>l. True"] show ?thesis by auto
qed

end
