(* ===== verification/Event_Processor.thy ===== *)
theory Event_Processor
  imports Dead_Lettering Segment
begin

text \<open>
  Event processors as values (\<open>event-processing/processor.ts\<close>) and what a processor does with one
  batch (\<open>processBatch\<close>, \<open>deliverSideBySide\<close>, \<open>deliverEvent\<close> and \<open>replayDeadLetter\<close> of
  \<open>event-processing/running-processor.ts\<close>).

  A sequence function is compared by identity, so it is a function with a reference. The task of a batch
  is a unit of work of \<open>Unit_Of_Work\<close>; its world holds the token store, the dead-letter queue and whatever the
  handlers work on. The one action a batch registers is the fenced token write before
  the commit; the factory of the unit of work, the host's own actions and its error handlers are
  parameters. With sequences side by side the deliveries of different sequences interleave event by
  event, in the order a schedule gives. A handler is a function of the event, of whether it is replayed, and of
  what handlers work on; the context the code builds for it, with the task's unit of work, is not passed on, so
  a handler that registers phase actions of its own is outside the model.
\<close>

section \<open>Processors as values\<close>

record sequence_fn =
  sf_ref :: nat
  sf_of :: "event_message \<Rightarrow> string"

record 'd event_processor =
  ep_name :: string
  ep_batchSize :: "nat option"
  ep_pollingIntervalMs :: "int option"
  ep_sequence :: "sequence_fn option"
  ep_deadLetterQueue :: "'d option"
  ep_concurrent :: "sequence_fn option"
  ep_segments :: "(nat \<times> sequence_fn) option"

datatype processor_error =
    BadBatchSize string int
  | BadInterval string int
  | BadSegmentCount string int
  | OtherSequence string string

definition eventProcessor :: "string \<Rightarrow> 'd event_processor" where
  "eventProcessor name =
     \<lparr>ep_name = name, ep_batchSize = None, ep_pollingIntervalMs = None, ep_sequence = None, ep_deadLetterQueue = None,
      ep_concurrent = None, ep_segments = None\<rparr>"

definition batched :: "'d event_processor \<Rightarrow> int \<Rightarrow> processor_error + 'd event_processor" where
  "batched p n = (if n < 1 then Inl (BadBatchSize (ep_name p) n) else Inr (p\<lparr>ep_batchSize := Some (nat n)\<rparr>))"

definition polling :: "'d event_processor \<Rightarrow> int \<Rightarrow> processor_error + 'd event_processor" where
  "polling p ms = (if ms \<le> 0 then Inl (BadInterval (ep_name p) ms) else Inr (p\<lparr>ep_pollingIntervalMs := Some ms\<rparr>))"

definition sameSequence :: "'d event_processor \<Rightarrow> sequence_fn \<Rightarrow> string \<Rightarrow> processor_error + unit" where
  "sameSequence p sequenceOf wrapper =
     (let existing = [ep_concurrent p, ep_sequence p, map_option snd (ep_segments p)]
      in if list_ex (\<lambda>s. case s of None \<Rightarrow> False | Some f \<Rightarrow> sf_ref f \<noteq> sf_ref sequenceOf) existing
         then Inl (OtherSequence wrapper (ep_name p)) else Inr ())"

definition concurrent :: "'d event_processor \<Rightarrow> sequence_fn \<Rightarrow> processor_error + 'd event_processor" where
  "concurrent p sequenceOf =
     bind_result (sameSequence p sequenceOf ''concurrent'') (\<lambda>_. Inr (p\<lparr>ep_concurrent := Some sequenceOf\<rparr>))"

definition deadLettering :: "'d event_processor \<Rightarrow> 'd \<Rightarrow> sequence_fn \<Rightarrow> processor_error + 'd event_processor" where
  "deadLettering p queue sequenceOf =
     bind_result (sameSequence p sequenceOf ''deadLettering'')
       (\<lambda>_. Inr (p\<lparr>ep_deadLetterQueue := Some queue, ep_sequence := Some sequenceOf\<rparr>))"

definition segmented :: "'d event_processor \<Rightarrow> int \<Rightarrow> sequence_fn \<Rightarrow> processor_error + 'd event_processor" where
  "segmented p count sequenceOf =
     (if count < 1 \<or> count > 2 ^ 16 \<or> js_and (nat count) (nat (count - 1)) \<noteq> 0
      then Inl (BadSegmentCount (ep_name p) count)
      else bind_result (sameSequence p sequenceOf ''segmented'')
             (\<lambda>_. Inr (p\<lparr>ep_segments := Some (nat count, sequenceOf)\<rparr>)))"

section \<open>Handlers\<close>

text \<open>
  One handler as the processor sees it: the name of the events it takes, and what it does with one,
  told whether the event is replayed (\<open>ctx.isReplay()\<close>). What else its context reaches is part of the world.
\<close>

record 'o handler_entry =
  he_name :: qualified_name
  he_handler :: "sequenced_event \<Rightarrow> bool \<Rightarrow> 'o \<Rightarrow> js_error option \<times> 'o"

type_synonym 'o handler_map = "(string, 'o handler_entry list) jsmap"

definition handler_map_of :: "'o handler_entry list \<Rightarrow> 'o handler_map" where
  "handler_map_of entries =
     fold (\<lambda>h m. let k = qualifiedNameToString (he_name h)
                  in map_set k (case map_get m k of Some b \<Rightarrow> b @ [h] | None \<Rightarrow> [h]) m) entries []"

definition stream_query :: "'o handler_map \<Rightarrow> event_query option" where
  "stream_query m = (if length m > 0 then Some (QItem \<lparr>qi_tags = None, qi_types = Some (map TypeName (map_keys m))\<rparr>) else None)"

definition is_handled :: "'o handler_map \<Rightarrow> event_message \<Rightarrow> bool" where
  "is_handled m e \<longleftrightarrow> map_get m (qualifiedNameToString (em_name e)) \<noteq> None"

text \<open>The UTF-16 code units of a text whose characters are single code units.\<close>

definition code_units :: "string \<Rightarrow> 16 word list" where
  "code_units s = map (\<lambda>c. of_nat (of_char c)) s"

definition hashOf :: "sequence_fn option \<Rightarrow> event_message \<Rightarrow> nat" where
  "hashOf sequenceOf e = (case sequenceOf of None \<Rightarrow> 0 | Some f \<Rightarrow> sequenceHash (code_units (sf_of f e)))"

section \<open>The world of a batch\<close>

record 'o proc_world =
  pw_tokens :: token_store
  pw_dlq :: "'o dlq_world"

datatype batch_error =
    HandlerFailed js_error
  | QueueOverflow overflow_error
  | ClaimLost token_error
  | TaskRefused uow_error
  | ResetThrew js_error
  | StillCatchingUp nat
  | NotMergeable nat bool

text \<open>What one processor is given: its handlers, and the enqueue operation of its queue if it parks.\<close>

record 'o processor_deps =
  pd_name :: string
  pd_handlers :: "'o handler_map"
  pd_parking :: "('o enqueuer \<times> (event_message \<Rightarrow> string)) option"
  pd_concurrent :: "sequence_fn option"
  pd_sequenceOf :: "sequence_fn option"

fun run_entries ::
  "'o handler_entry list \<Rightarrow> sequenced_event \<Rightarrow> bool \<Rightarrow> 'o proc_world \<Rightarrow> batch_error option \<times> 'o proc_world" where
  "run_entries [] e replaying w = (None, w)"
| "run_entries (h # hs) e replaying w =
     (case he_handler h e replaying (dw_outside (pw_dlq w)) of
        (r, out) \<Rightarrow>
          (let w' = w\<lparr>pw_dlq := (pw_dlq w)\<lparr>dw_outside := out\<rparr>\<rparr>
           in case r of None \<Rightarrow> run_entries hs e replaying w' | Some err \<Rightarrow> (Some (HandlerFailed err), w')))"

definition deliverEvent ::
  "'o processor_deps \<Rightarrow> sequenced_event \<Rightarrow> bool \<Rightarrow> 'o proc_world \<Rightarrow> batch_error option \<times> 'o proc_world" where
  "deliverEvent d e replaying w =
     (case map_get (pd_handlers d) (qualifiedNameToString (em_name (sq_event e))) of
        None \<Rightarrow> (None, w)
      | Some [] \<Rightarrow> (None, w)
      | Some entries \<Rightarrow>
          (case pd_parking d of
             Some (enq, sequence) \<Rightarrow>
               (case deliver enq (pd_name d) sequence e
                       (map (\<lambda>h. \<lparr>tg_name = he_name h, tg_handler = (\<lambda>e. he_handler h e replaying)\<rparr>) entries) (pw_dlq w) of
                  (Inl err, q) \<Rightarrow> (Some (QueueOverflow err), w\<lparr>pw_dlq := q\<rparr>)
                | (Inr _, q) \<Rightarrow> (None, w\<lparr>pw_dlq := q\<rparr>))
           | None \<Rightarrow> run_entries entries e replaying w))"

definition replayDeadLetter ::
  "'o processor_deps \<Rightarrow> bool \<Rightarrow> dead_letter \<Rightarrow> 'o proc_world \<Rightarrow> batch_error option \<times> 'o proc_world" where
  "replayDeadLetter d replaying letter w =
     (case map_get (pd_handlers d) (qualifiedNameToString (em_name (dl_message letter))) of
        None \<Rightarrow> (None, w)
      | Some [] \<Rightarrow> (None, w)
      | Some entries \<Rightarrow>
          (let pos = (case map_get (dl_diagnostics letter) ''position'' of Some (JNumber n) \<Rightarrow> n | _ \<Rightarrow> 0)
           in run_entries entries \<lparr>sq_sequence = pos, sq_event = dl_message letter, sq_token = None\<rparr> replaying w))"

section \<open>Sequences side by side\<close>

fun group_lanes ::
  "'o processor_deps \<Rightarrow> sequence_fn \<Rightarrow> nat \<Rightarrow> (sequenced_event \<times> bool) list \<Rightarrow> (string, nat list) jsmap \<Rightarrow> (string, nat list) jsmap" where
  "group_lanes d sequenceOf i [] m = m"
| "group_lanes d sequenceOf i ((e, fresh) # rest) m =
     group_lanes d sequenceOf (Suc i) rest
       (if \<not> fresh \<or> \<not> is_handled (pd_handlers d) (sq_event e) then m
        else (let k = sf_of sequenceOf (sq_event e)
              in map_set k (case map_get m k of Some lane \<Rightarrow> lane @ [i] | None \<Rightarrow> [i]) m))"

fun run_lane :: "(nat \<Rightarrow> 'w \<Rightarrow> 'e option \<times> 'w) \<Rightarrow> nat list \<Rightarrow> 'w \<Rightarrow> (nat \<times> 'e) list \<times> 'w" where
  "run_lane del [] w = ([], w)"
| "run_lane del (i # is) w = (case del i w of (Some e, w') \<Rightarrow> ([(i, e)], w') | (None, w') \<Rightarrow> run_lane del is w')"

fun interleave ::
  "(nat \<Rightarrow> 'w \<Rightarrow> 'e option \<times> 'w) \<Rightarrow> nat list \<Rightarrow> nat list list \<Rightarrow> (nat \<times> 'e) list \<Rightarrow> 'w \<Rightarrow> (nat \<times> 'e) list \<times> 'w" where
  "interleave del [] [] fails w = (fails, w)"
| "interleave del [] (lane # ls) fails w =
     (case run_lane del lane w of (fs, w') \<Rightarrow> interleave del [] ls (fails @ fs) w')"
| "interleave del (s # schedule) ls fails w =
     (if s < length ls then
        (case ls ! s of
           [] \<Rightarrow> interleave del schedule ls fails w
         | i # is \<Rightarrow>
             (case del i w of
                (None, w') \<Rightarrow> interleave del schedule (ls[s := is]) fails w'
              | (Some e, w') \<Rightarrow> interleave del schedule (ls[s := []]) (fails @ [(i, e)]) w'))
      else interleave del schedule ls fails w)"

definition earliest_failure :: "(nat \<times> 'e) list \<Rightarrow> 'e option" where
  "earliest_failure fails =
     (case fails of [] \<Rightarrow> None | f # fs \<Rightarrow> Some (snd (foldl (\<lambda>first g. if fst g < fst first then g else first) f fs)))"

section \<open>A batch\<close>

text \<open>
  What is known before any handler runs: for each event whether it is replayed and whether it is new
  to the segment, and the token just past the batch.
\<close>

fun batch_plan ::
  "(event_message \<Rightarrow> nat) \<Rightarrow> tracking_token \<Rightarrow> sequenced_event list \<Rightarrow> (sequenced_event \<times> bool \<times> bool) list \<times> tracking_token" where
  "batch_plan hash t [] = ([], t)"
| "batch_plan hash t (e # es) =
     (let past = (case sq_token e of Some p \<Rightarrow> p | None \<Rightarrow> GlobalSequenceToken (sq_sequence e + 1));
          replaying = (case t of ReplayToken r c \<Rightarrow> covers r past | _ \<Rightarrow> False);
          fresh = (\<not> (isMergedToken t \<and> handledByMergedHalf t (hash (sq_event e)) past));
          (plan, end_token) = batch_plan hash (advanceTokenTo t past) es
      in ((e, replaying, fresh) # plan, end_token))"

datatype 'x proc_action =
    WriteToken nat tracking_token string
  | StoreTokens "(nat \<times> tracking_token) list" string
  | StoreAndDrop nat tracking_token nat string
  | ProcHost 'x

type_synonym ('x, 'h, 'o) batch_uow = "('x proc_action, 'h, 'o proc_world) uow"

record ('x, 'h, 'o) batch_host =
  bh_mint :: "'o proc_world \<Rightarrow> ('x, 'h, 'o) batch_uow"
  bh_act :: "'x \<Rightarrow> ('x, 'h, 'o) batch_uow \<Rightarrow> batch_error option \<times> ('x, 'h, 'o) batch_uow"
  bh_onError :: "'h \<Rightarrow> batch_error \<Rightarrow> phase option \<Rightarrow> ('x, 'h, 'o) batch_uow \<Rightarrow> ('x, 'h, 'o) batch_uow"
  bh_onComplete :: "'h \<Rightarrow> ('x, 'h, 'o) batch_uow \<Rightarrow> ('x, 'h, 'o) batch_uow"

definition write_token :: "string \<Rightarrow> nat \<Rightarrow> tracking_token \<Rightarrow> string \<Rightarrow> 'o proc_world \<Rightarrow> batch_error option \<times> 'o proc_world" where
  "write_token name seg t owner w =
     (case store_token (dw_now (pw_dlq w)) name seg t (Some owner) (pw_tokens w) of
        Inl err \<Rightarrow> (Some (ClaimLost err), w)
      | Inr ts \<Rightarrow> (None, w\<lparr>pw_tokens := ts\<rparr>))"

text \<open>The token writes of the operations on segments: several rows one after another, or one and the other dropped.\<close>

fun store_tokens ::
  "string \<Rightarrow> string \<Rightarrow> (nat \<times> tracking_token) list \<Rightarrow> 'o proc_world \<Rightarrow> batch_error option \<times> 'o proc_world" where
  "store_tokens name owner [] w = (None, w)"
| "store_tokens name owner ((seg, t) # rest) w =
     (case write_token name seg t owner w of
        (Some err, w') \<Rightarrow> (Some err, w')
      | (None, w') \<Rightarrow> store_tokens name owner rest w')"

definition store_and_drop ::
  "string \<Rightarrow> nat \<Rightarrow> tracking_token \<Rightarrow> nat \<Rightarrow> string \<Rightarrow> 'o proc_world \<Rightarrow> batch_error option \<times> 'o proc_world" where
  "store_and_drop name keep t dropped owner w =
     (case write_token name keep t owner w of
        (Some err, w') \<Rightarrow> (Some err, w')
      | (None, w') \<Rightarrow> (None, w'\<lparr>pw_tokens := deleteToken name dropped (pw_tokens w')\<rparr>))"

fun batch_act ::
  "string \<Rightarrow> ('x, 'h, 'o) batch_host \<Rightarrow> 'x proc_action \<Rightarrow> ('x, 'h, 'o) batch_uow \<Rightarrow> batch_error option \<times> ('x, 'h, 'o) batch_uow" where
  "batch_act name host (WriteToken seg t owner) u =
     (case write_token name seg t owner (uw_world u) of (r, w) \<Rightarrow> (r, u\<lparr>uw_world := w\<rparr>))"
| "batch_act name host (StoreTokens ts owner) u =
     (case store_tokens name owner ts (uw_world u) of (r, w) \<Rightarrow> (r, u\<lparr>uw_world := w\<rparr>))"
| "batch_act name host (StoreAndDrop keep t dropped owner) u =
     (case store_and_drop name keep t dropped owner (uw_world u) of (r, w) \<Rightarrow> (r, u\<lparr>uw_world := w\<rparr>))"
| "batch_act name host (ProcHost x) u = bh_act host x u"

text \<open>\<open>newUoW().execute(action)\<close>.\<close>

definition run_task ::
  "('x, 'h, 'o) batch_host \<Rightarrow> string \<Rightarrow> (('x, 'h, 'o) batch_uow \<Rightarrow> (batch_error + 'r) \<times> ('x, 'h, 'o) batch_uow) \<Rightarrow> 'o proc_world
     \<Rightarrow> ((batch_error + 'r) \<times> 'o proc_world) option" where
  "run_task host name action w =
     (case execute (batch_act name host) (bh_onError host) (bh_onComplete host) action (bh_mint host w) of
        Inl err \<Rightarrow> Some (Inl (TaskRefused err), w)
      | Inr None \<Rightarrow> None
      | Inr (Some (r, u)) \<Rightarrow> Some (r, uw_world u))"

fun deliver_in_order ::
  "'o processor_deps \<Rightarrow> (sequenced_event \<times> bool \<times> bool) list \<Rightarrow> ('x, 'h, 'o) batch_uow \<Rightarrow> batch_error option \<times> ('x, 'h, 'o) batch_uow" where
  "deliver_in_order d [] u = (None, u)"
| "deliver_in_order d ((e, replaying, fresh) # rest) u =
     (if \<not> fresh then deliver_in_order d rest u
      else (case deliverEvent d e replaying (uw_world u) of
              (Some err, w) \<Rightarrow> (Some err, u\<lparr>uw_replaying := replaying, uw_world := w\<rparr>)
            | (None, w) \<Rightarrow> deliver_in_order d rest (u\<lparr>uw_replaying := replaying, uw_world := w\<rparr>)))"

definition deliverSideBySide ::
  "'o processor_deps \<Rightarrow> nat list \<Rightarrow> sequence_fn \<Rightarrow> (sequenced_event \<times> bool \<times> bool) list \<Rightarrow> 'o proc_world
     \<Rightarrow> batch_error option \<times> 'o proc_world" where
  "deliverSideBySide d schedule sequenceOf plan w =
     (let ls = group_lanes d sequenceOf 0 (map (\<lambda>(e, r, f). (e, f)) plan) [];
          del = (\<lambda>i w. case plan ! i of (e, replaying, fresh) \<Rightarrow> deliverEvent d e replaying w);
          (fails, w') = interleave del schedule (map snd ls) [] w
      in (earliest_failure fails, w'))"

definition batch_action ::
  "'o processor_deps \<Rightarrow> nat list \<Rightarrow> nat \<Rightarrow> string \<Rightarrow> (sequenced_event \<times> bool \<times> bool) list \<Rightarrow> tracking_token
     \<Rightarrow> ('x, 'h, 'o) batch_uow \<Rightarrow> (batch_error + unit) \<times> ('x, 'h, 'o) batch_uow" where
  "batch_action d schedule seg owner plan end_token u =
     (case (case pd_concurrent d of
              None \<Rightarrow> deliver_in_order d plan u
            | Some sequenceOf \<Rightarrow>
                (let u' = u\<lparr>uw_replaying := (case plan of [] \<Rightarrow> False | (e, r, f) # _ \<Rightarrow> r)\<rparr>
                 in case deliverSideBySide d schedule sequenceOf plan (uw_world u') of (r, w) \<Rightarrow> (r, u'\<lparr>uw_world := w\<rparr>))) of
        (Some err, u') \<Rightarrow> (Inl err, u')
      | (None, u') \<Rightarrow> (Inr (), onPrepareCommit (WriteToken seg end_token owner) u'))"

definition processBatch ::
  "('x, 'h, 'o) batch_host \<Rightarrow> 'o processor_deps \<Rightarrow> nat list \<Rightarrow> nat \<Rightarrow> string \<Rightarrow> tracking_token \<Rightarrow> sequenced_event list
     \<Rightarrow> 'o proc_world \<Rightarrow> ((batch_error + tracking_token) \<times> 'o proc_world) option" where
  "processBatch host d schedule seg owner t batch w =
     (case batch_plan (hashOf (pd_sequenceOf d)) t batch of
        (plan, end_token) \<Rightarrow>
          (case run_task host (pd_name d) (batch_action d schedule seg owner plan end_token) w of
             None \<Rightarrow> None
           | Some (Inl err, w') \<Rightarrow> Some (Inl err, w')
           | Some (Inr _, w') \<Rightarrow> Some (Inr end_token, w')))"

section \<open>One sequence function per processor\<close>

text \<open>However the wrappers are stacked, the sequences a processor holds are one function.\<close>

definition held_sequences :: "'d event_processor \<Rightarrow> sequence_fn set" where
  "held_sequences p = set_option (ep_concurrent p) \<union> set_option (ep_sequence p) \<union> snd ` set_option (ep_segments p)"

definition one_sequence :: "'d event_processor \<Rightarrow> bool" where
  "one_sequence p \<longleftrightarrow> (\<exists>r. \<forall>f \<in> held_sequences p. sf_ref f = r)"

lemma sameSequence_iff: "sameSequence p f wrapper = Inr () \<longleftrightarrow> (\<forall>g \<in> held_sequences p. sf_ref g = sf_ref f)"
  by (cases "ep_concurrent p"; cases "ep_sequence p"; cases "ep_segments p")
    (auto simp: sameSequence_def held_sequences_def)

lemma held_by_wrappers:
  "held_sequences (eventProcessor name) = {}"
  "batched p n = Inr p' \<Longrightarrow> held_sequences p' = held_sequences p"
  "polling p ms = Inr p' \<Longrightarrow> held_sequences p' = held_sequences p"
  by (auto simp: held_sequences_def eventProcessor_def batched_def polling_def split: if_splits)

lemma held_by_sequence_wrappers:
  "concurrent p f = Inr p' \<Longrightarrow> held_sequences p' \<subseteq> insert f (held_sequences p)"
  "deadLettering p queue f = Inr p' \<Longrightarrow> held_sequences p' \<subseteq> insert f (held_sequences p)"
  "segmented p c f = Inr p' \<Longrightarrow> held_sequences p' \<subseteq> insert f (held_sequences p)"
  by (auto simp: held_sequences_def concurrent_def deadLettering_def segmented_def throw_simps split: if_splits)

lemma checked_by_sequence_wrappers:
  "concurrent p f = Inr p' \<Longrightarrow> sameSequence p f ''concurrent'' = Inr ()"
  "deadLettering p queue f = Inr p' \<Longrightarrow> sameSequence p f ''deadLettering'' = Inr ()"
  "segmented p c f = Inr p' \<Longrightarrow> sameSequence p f ''segmented'' = Inr ()"
  by (auto simp: concurrent_def deadLettering_def segmented_def throw_simps split: if_splits)

lemma wrappers_keep_one_sequence:
  "one_sequence (eventProcessor name)"
  "batched p n = Inr p' \<or> polling p n = Inr p' \<Longrightarrow> one_sequence p \<Longrightarrow> one_sequence p'"
  "concurrent p f = Inr p' \<or> deadLettering p queue f = Inr p' \<or> segmented p n f = Inr p' \<Longrightarrow> one_sequence p'"
proof -
  show "one_sequence (eventProcessor name)" by (simp add: one_sequence_def held_by_wrappers)
  show "batched p n = Inr p' \<or> polling p n = Inr p' \<Longrightarrow> one_sequence p \<Longrightarrow> one_sequence p'"
    unfolding one_sequence_def using held_by_wrappers by metis
  assume step: "concurrent p f = Inr p' \<or> deadLettering p queue f = Inr p' \<or> segmented p n f = Inr p'"
  then have "held_sequences p' \<subseteq> insert f (held_sequences p)" by (blast dest: held_by_sequence_wrappers)
  moreover have "\<exists>wrapper. sameSequence p f wrapper = Inr ()" using step by (blast dest: checked_by_sequence_wrappers)
  then have "\<forall>g \<in> held_sequences p. sf_ref g = sf_ref f" unfolding sameSequence_iff by blast
  ultimately show "one_sequence p'" unfolding one_sequence_def by (intro exI [of _ "sf_ref f"]) blast
qed

lemma and_pred_power: "0 < n \<Longrightarrow> n AND (n - 1) = (0::nat) \<Longrightarrow> \<exists>k. n = 2 ^ k"
proof (induction n rule: less_induct)
  case (less n)
  have step: "(n mod 2) * ((n - 1) mod 2) + 2 * ((n div 2) AND ((n - 1) div 2)) = 0" if "n \<noteq> 1"
    using less.prems that by (subst (asm) and_nat_unfold) auto
  show ?case
  proof (cases "n = 1")
    case True
    then show ?thesis by (intro exI [of _ 0]) simp
  next
    case False
    have "even n"
    proof (rule ccontr)
      assume "odd n"
      then have "(n - 1) div 2 = n div 2" by presburger
      then have "n div 2 = 0" using step [OF False] by simp
      with \<open>odd n\<close> False less.prems show False by presburger
    qed
    then have "(n - 1) div 2 = n div 2 - 1" by presburger
    then have "(n div 2) AND (n div 2 - 1) = 0" using step [OF False] by simp
    moreover have "n div 2 < n" "0 < n div 2" using less.prems(1) \<open>even n\<close> by presburger+
    ultimately obtain k where "n div 2 = 2 ^ k" using less.IH by blast
    with \<open>even n\<close> show ?thesis by (intro exI [of _ "Suc k"]) auto
  qed
qed

lemma segmented_count:
  assumes "segmented p c f = Inr p'"
  shows "\<exists>k \<le> 16. ep_segments p' = Some (2 ^ k, f)"
proof -
  have c: "1 \<le> c" "c \<le> 2 ^ 16" "js_and (nat c) (nat (c - 1)) = 0" "ep_segments p' = Some (nat c, f)"
    using assms by (auto simp: segmented_def throw_simps split: if_splits)
  let ?n = "nat c"
  have n: "nat (c - 1) = ?n - 1" "0 < ?n" using c(1) by linarith+
  have "int ?n AND int (?n - 1) \<le> int ?n" by (rule AND_upper1) simp
  then have "signed_take_bit 31 (int ?n AND int (?n - 1)) = int ?n AND int (?n - 1)"
    using c(1,2) by (intro signed_take_bit_int_eq_self) (auto intro: order_trans [of _ 0])
  then have "int (?n AND (?n - 1)) = 0" using c(3) n(1) by (simp add: js_and_def of_nat_and_eq)
  then have "?n AND (?n - 1) = 0" by simp
  with n(2) obtain k where k: "?n = 2 ^ k" using and_pred_power by blast
  have "?n \<le> nat (2 ^ 16)" using c(2) by (rule nat_mono)
  then have "(2::nat) ^ k \<le> 2 ^ 16" using k by simp
  then have "k \<le> 16" by (rule power_le_imp_le_exp [rotated]) simp
  with k c(4) show ?thesis by auto
qed

section \<open>The effect of a batch\<close>

text \<open>Delivery without the task around it.\<close>

fun deliver_plan ::
  "'o processor_deps \<Rightarrow> (sequenced_event \<times> bool \<times> bool) list \<Rightarrow> 'o proc_world \<Rightarrow> batch_error option \<times> 'o proc_world" where
  "deliver_plan d [] w = (None, w)"
| "deliver_plan d ((e, replaying, fresh) # rest) w =
     (if \<not> fresh then deliver_plan d rest w
      else (case deliverEvent d e replaying w of (Some err, w') \<Rightarrow> (Some err, w') | (None, w') \<Rightarrow> deliver_plan d rest w'))"

definition deliver_batch ::
  "'o processor_deps \<Rightarrow> nat list \<Rightarrow> (sequenced_event \<times> bool \<times> bool) list \<Rightarrow> 'o proc_world \<Rightarrow> batch_error option \<times> 'o proc_world" where
  "deliver_batch d schedule plan w =
     (case pd_concurrent d of
        None \<Rightarrow> deliver_plan d plan w
      | Some sequenceOf \<Rightarrow> deliverSideBySide d schedule sequenceOf plan w)"

lemma deliver_in_order_plan:
  "\<exists>rep. deliver_in_order d plan u =
     (fst (deliver_plan d plan (uw_world u)), u\<lparr>uw_replaying := rep, uw_world := snd (deliver_plan d plan (uw_world u))\<rparr>)"
proof (induction plan arbitrary: u)
  case Nil
  show ?case by (rule exI [of _ "uw_replaying u"]) simp
next
  case (Cons x plan)
  obtain e rp fr where x: "x = (e, rp, fr)" by (cases x) auto
  obtain r w where d: "deliverEvent d e rp (uw_world u) = (r, w)" by fastforce
  show ?case
  proof (cases "fr \<and> r = None")
    case True
    from Cons.IH [of "u\<lparr>uw_replaying := rp, uw_world := w\<rparr>"] True x d show ?thesis by auto
  next
    case False
    show ?thesis
    proof (cases fr)
      case True
      with False x d show ?thesis by auto
    next
      case False
      with Cons.IH [of u] x show ?thesis by auto
    qed
  qed
qed

definition plain_batch_host :: "(unit, unit, 'o) batch_host" where
  "plain_batch_host = \<lparr>bh_mint = unitOfWork, bh_act = (\<lambda>x u. (None, u)), bh_onError = (\<lambda>h e p u. u), bh_onComplete = (\<lambda>h u. u)\<rparr>"

lemma batch_action_run:
  assumes "deliver_batch d schedule plan (uw_world u) = (r, w1)"
  shows "\<exists>rep. batch_action d schedule seg owner plan end_token u =
     (case r of Some err \<Rightarrow> (Inl err, u\<lparr>uw_replaying := rep, uw_world := w1\<rparr>)
      | None \<Rightarrow> (Inr (), onPrepareCommit (WriteToken seg end_token owner) (u\<lparr>uw_replaying := rep, uw_world := w1\<rparr>)))"
proof (cases "pd_concurrent d")
  case None
  obtain rep where "deliver_in_order d plan u =
     (fst (deliver_plan d plan (uw_world u)), u\<lparr>uw_replaying := rep, uw_world := snd (deliver_plan d plan (uw_world u))\<rparr>)"
    using deliver_in_order_plan by blast
  with None assms show ?thesis by (intro exI [of _ rep]) (simp add: batch_action_def deliver_batch_def split: option.split)
next
  case (Some sequenceOf)
  with assms show ?thesis
    by (intro exI [of _ "case plan of [] \<Rightarrow> False | (e, r, f) # _ \<Rightarrow> r"])
      (simp add: batch_action_def deliver_batch_def Let_def split: option.split)
qed

lemma phases_after_write:
  assumes "\<And>p. bucket p u = []"
  shows "and_then (runPhase act COMMIT u) (runPhase act AFTER_COMMIT) = Some (None, u\<lparr>uw_phase := Some AFTER_COMMIT\<rparr>)"
  using assms by (simp add: runPhase_empty)

text \<open>The unit of work an action runs in, and what a task with one write before its commit comes to.\<close>

definition invoked :: "'w \<Rightarrow> ('a, 'h, 'w) uow" where
  "invoked w = (unitOfWork w)\<lparr>uw_status := Started, uw_phase := Some INVOCATION\<rparr>"

lemma invoked_phases:
  fixes act :: "'a \<Rightarrow> ('a, 'h, 'w) uow \<Rightarrow> 'e option \<times> ('a, 'h, 'w) uow"
  shows "and_then (runPhase act PRE_INVOCATION ((unitOfWork w)\<lparr>uw_status := Started\<rparr>)) (runPhase act INVOCATION) = Some (None, invoked w)"
proof -
  have "bucket p ((unitOfWork w)\<lparr>uw_status := Started\<rparr> :: ('a, 'h, 'w) uow) = []" for p by (simp add: bucket_def unitOfWork_def)
  from phases_before_action [OF this, of act] show ?thesis by (simp add: invoked_def)
qed

lemma execute_fails:
  fixes action :: "('a, 'h, 'w) uow \<Rightarrow> ('e + 'r) \<times> ('a, 'h, 'w) uow"
  assumes "action (invoked w) = (Inl err, (invoked w)\<lparr>uw_replaying := rep, uw_world := w1\<rparr>)"
  shows "\<exists>u. execute act onErr onDone action (unitOfWork w) = Inr (Some (Inl err, u)) \<and> uw_world u = w1"
proof -
  have "uw_status (unitOfWork w :: ('a, 'h, 'w) uow) = NotStarted" "uw_errorHandlers (invoked w :: ('a, 'h, 'w) uow) = []"
    by (simp_all add: unitOfWork_def invoked_def)
  then show ?thesis using assms
    by (simp add: execute_def drivePhases_def try_phases_def dlq_notify_errors invoked_phases)
qed

lemma execute_writes:
  fixes action :: "('a, 'h, 'w) uow \<Rightarrow> ('e + 'r) \<times> ('a, 'h, 'w) uow"
  assumes action: "action (invoked w) = (Inr x, onPrepareCommit a ((invoked w)\<lparr>uw_replaying := rep, uw_world := w1\<rparr>))"
    and act: "\<forall>u. act a u = (case wr (uw_world u) of (r, w') \<Rightarrow> (r, u\<lparr>uw_world := w'\<rparr>))" and wr: "wr w1 = (r2, w2)"
  shows "\<exists>u. execute act onErr onDone action (unitOfWork w) =
      Inr (Some (case r2 of Some err \<Rightarrow> Inl err | None \<Rightarrow> Inr x, u)) \<and> uw_world u = w2"
proof -
  let ?u2 = "(invoked w)\<lparr>uw_replaying := rep, uw_world := w1\<rparr> :: ('a, 'h, 'w) uow"
  let ?u3 = "onPrepareCommit a ?u2"
  let ?v = "?u3\<lparr>uw_phase := Some PREPARE_COMMIT, uw_phaseActions := map_set PREPARE_COMMIT [] (uw_phaseActions ?u3),
      uw_calls := uw_calls ?u3 @ [(PREPARE_COMMIT, a)]\<rparr>"
  let ?w = "?v\<lparr>uw_world := w2\<rparr>"
  have b: "bucket p ?u2 = []" for p by (simp add: bucket_def invoked_def unitOfWork_def)
  have st: "uw_status (unitOfWork w :: ('a, 'h, 'w) uow) = NotStarted" by (simp add: unitOfWork_def)
  have b3: "bucket p ?u3 = (if p = PREPARE_COMMIT then [a] else [])" for p
    using b by (simp add: onPrepareCommit_def bucket_on_phase)
  have world: "uw_world ?v = w1" by (simp add: onPrepareCommit_def on_phase_def)
  have bw: "bucket p ?w = []" for p using b [of p] by (auto simp: onPrepareCommit_def on_phase_def bucket_def)
  have prep: "runPhase act PREPARE_COMMIT ?u3 = Some (r2, ?w)"
    using runPhase_single [of PREPARE_COMMIT ?u3 a act r2 ?w] b3 [of PREPARE_COMMIT] bw [of PREPARE_COMMIT] wr world act by simp
  have hs: "uw_errorHandlers ?w = []" "uw_completeHandlers ?w = []"
    by (simp_all add: onPrepareCommit_def on_phase_def invoked_def unitOfWork_def)
  have rest: "and_then (runPhase act COMMIT ?w) (runPhase act AFTER_COMMIT) =
      Some (None, ?w\<lparr>uw_phase := Some AFTER_COMMIT\<rparr>)" by (rule phases_after_write) (rule bw)
  show ?thesis
    using hs by (cases r2)
      (simp_all add: execute_def st drivePhases_def try_phases_def invoked_phases action prep rest dlq_notify_complete dlq_notify_errors)
qed

lemma plain_mint: "bh_mint plain_batch_host = unitOfWork"
  by (simp add: plain_batch_host_def)

lemma task_fails:
  fixes action :: "(unit, unit, 'o) batch_uow \<Rightarrow> (batch_error + 'r) \<times> (unit, unit, 'o) batch_uow"
  assumes "action (invoked w) = (Inl err, (invoked w)\<lparr>uw_replaying := rep, uw_world := w1\<rparr>)"
  shows "run_task plain_batch_host name action w = Some (Inl err, w1)"
  using execute_fails [where action = action and w = w and act = "batch_act name plain_batch_host"
      and onErr = "bh_onError plain_batch_host" and onDone = "bh_onComplete plain_batch_host", OF assms]
  by (auto simp: run_task_def plain_mint)

lemma task_writes:
  fixes action :: "(unit, unit, 'o) batch_uow \<Rightarrow> (batch_error + 'r) \<times> (unit, unit, 'o) batch_uow"
  assumes "action (invoked w) = (Inr x, onPrepareCommit a ((invoked w)\<lparr>uw_replaying := rep, uw_world := w1\<rparr>))"
    and "\<forall>u. batch_act name plain_batch_host a u = (case wr (uw_world u) of (r, w') \<Rightarrow> (r, u\<lparr>uw_world := w'\<rparr>))" "wr w1 = (r2, w2)"
  shows "run_task plain_batch_host name action w = Some (case r2 of Some err \<Rightarrow> Inl err | None \<Rightarrow> Inr x, w2)"
  using execute_writes [where action = action and w = w and act = "batch_act name plain_batch_host" and wr = wr
      and onErr = "bh_onError plain_batch_host" and onDone = "bh_onComplete plain_batch_host", OF assms]
  by (auto simp: run_task_def plain_mint)

lemma processBatch_run:
  assumes plan: "batch_plan (hashOf (pd_sequenceOf d)) t batch = (plan, end_token)"
    and del: "deliver_batch d schedule plan w = (r, w1)"
  shows "processBatch plain_batch_host d schedule seg owner t batch w =
     Some (case r of
        Some err \<Rightarrow> (Inl err, w1)
      | None \<Rightarrow> (case write_token (pd_name d) seg end_token owner w1 of
                   (Some err, w2) \<Rightarrow> (Inl err, w2) | (None, w2) \<Rightarrow> (Inr end_token, w2)))"
proof -
  let ?u = "invoked w :: (unit, unit, 'a) batch_uow"
  have "deliver_batch d schedule plan (uw_world ?u) = (r, w1)" using del by (simp add: invoked_def unitOfWork_def)
  from batch_action_run [where seg = seg and owner = owner and end_token = end_token, OF this]
  obtain rep where act: "batch_action d schedule seg owner plan end_token ?u =
     (case r of Some err \<Rightarrow> (Inl err, ?u\<lparr>uw_replaying := rep, uw_world := w1\<rparr>)
      | None \<Rightarrow> (Inr (), onPrepareCommit (WriteToken seg end_token owner) (?u\<lparr>uw_replaying := rep, uw_world := w1\<rparr>)))" by blast
  show ?thesis
  proof (cases r)
    case (Some err)
    then have "batch_action d schedule seg owner plan end_token ?u = (Inl err, ?u\<lparr>uw_replaying := rep, uw_world := w1\<rparr>)"
      using act by simp
    from task_fails [where action = "batch_action d schedule seg owner plan end_token" and w = w, OF this] Some show ?thesis by (simp add: processBatch_def plan)
  next
    case None
    then have ok: "batch_action d schedule seg owner plan end_token ?u =
        (Inr (), onPrepareCommit (WriteToken seg end_token owner) (?u\<lparr>uw_replaying := rep, uw_world := w1\<rparr>))" using act by simp
    obtain r2 w2 where wr: "write_token (pd_name d) seg end_token owner w1 = (r2, w2)" by fastforce
    from task_writes [where action = "batch_action d schedule seg owner plan end_token" and w = w and name = "pd_name d"
        and wr = "write_token (pd_name d) seg end_token owner", OF ok _ wr] None wr show ?thesis
      by (simp add: processBatch_def plan split: option.split)
  qed
qed

section \<open>What is replayed and what is new\<close>

definition just_past :: "sequenced_event \<Rightarrow> tracking_token" where
  "just_past e = (case sq_token e of Some p \<Rightarrow> p | None \<Rightarrow> GlobalSequenceToken (sq_sequence e + 1))"

text \<open>An event is replayed when a reset put the segment back and it lies before where the segment had got to.\<close>

fun replayed :: "tracking_token \<Rightarrow> int \<Rightarrow> bool" where
  "replayed (ReplayToken r c) p \<longleftrightarrow> p \<le> position r"
| "replayed t p \<longleftrightarrow> False"

text \<open>An event is new to a merged segment when the half of its sequence had not got past it.\<close>

fun new_to :: "tracking_token \<Rightarrow> nat \<Rightarrow> int \<Rightarrow> bool" where
  "new_to (MergedToken mk sa ta sb tb) hash p \<longleftrightarrow>
     (if js_and hash mk = int sa then position ta < p else if js_and hash mk = int sb then position tb < p else True)"
| "new_to t hash p \<longleftrightarrow> True"

lemma advance_flags:
  assumes "wf_token t" "plain_token u" "position t < position u" "position u < p"
  shows "replayed (advanceTokenTo t u) p = replayed t p" "new_to (advanceTokenTo t u) h p = new_to t h p"
proof -
  show "replayed (advanceTokenTo t u) p = replayed t p"
  proof (cases t)
    case (ReplayToken r c)
    with assms show ?thesis by (cases u) (auto simp: plain_covers)
  next
    case (MergedToken mk sa ta sb tb)
    with assms show ?thesis by (cases ta; cases tb; cases u) (auto simp: mergedToken_def)
  qed (use assms in \<open>cases u; simp\<close>)+
  show "new_to (advanceTokenTo t u) h p = new_to t h p"
  proof (cases t)
    case (ReplayToken r c)
    with assms show ?thesis by (cases u) (auto simp: plain_covers)
  next
    case (MergedToken mk sa ta sb tb)
    with assms show ?thesis
      by (cases ta; cases tb; cases u) (auto simp: mergedToken_def split: if_splits)
  qed (use assms in \<open>cases u; simp\<close>)+
qed

lemma batch_plan_exact:
  assumes "wf_token t" "list_all (plain_token \<circ> just_past) es" "sorted_wrt (<) (map (position \<circ> just_past) es)"
    and "es \<noteq> [] \<longrightarrow> position t < position (just_past (hd es))"
  shows "batch_plan hash t es =
     (map (\<lambda>e. (e, replayed t (position (just_past e)), new_to t (hash (sq_event e)) (position (just_past e)))) es,
      foldl advanceTokenTo t (map just_past es))"
  using assms
proof (induction es arbitrary: t)
  case (Cons e es)
  let ?p = "just_past e" and ?t = "advanceTokenTo t (just_past e)"
  have pl: "plain_token ?p" "position t < position ?p" using Cons.prems by simp_all
  have wf: "wf_token ?t" "position ?t = position ?p"
    using Cons.prems(1) pl by (simp_all add: advance_wf advance_position)
  have "es \<noteq> [] \<longrightarrow> position ?t < position (just_past (hd es))" using Cons.prems(3) wf(2) by (cases es) auto
  with Cons wf(1) have IH: "batch_plan hash ?t es =
     (map (\<lambda>e. (e, replayed ?t (position (just_past e)), new_to ?t (hash (sq_event e)) (position (just_past e)))) es,
      foldl advanceTokenTo ?t (map just_past es))" by simp
  have later: "position ?p < position (just_past x)" if "x \<in> set es" for x using Cons.prems(3) that by auto
  have flags: "map (\<lambda>e. (e, replayed ?t (position (just_past e)), new_to ?t (hash (sq_event e)) (position (just_past e)))) es =
      map (\<lambda>e. (e, replayed t (position (just_past e)), new_to t (hash (sq_event e)) (position (just_past e)))) es"
    using advance_flags [OF Cons.prems(1) pl] later by simp
  have rp: "(case t of ReplayToken r c \<Rightarrow> covers r ?p | _ \<Rightarrow> False) = replayed t (position ?p)"
    using Cons.prems(1) by (cases t) (auto simp: plain_covers)
  have fr: "(\<not> (isMergedToken t \<and> handledByMergedHalf t (hash (sq_event e)) ?p)) = new_to t (hash (sq_event e)) (position ?p)"
    using Cons.prems(1) by (cases t) (auto simp: plain_covers Let_def)
  have past: "(case sq_token e of None \<Rightarrow> GlobalSequenceToken (sq_sequence e + 1) | Some p \<Rightarrow> p) = ?p"
    by (simp add: just_past_def split: option.split)
  show ?case unfolding batch_plan.simps Let_def past rp fr IH flags by simp
qed simp

section \<open>Sequences side by side keep their order\<close>

text \<open>
  A log of deliveries is the list of the events delivered, by their place in the batch, each with
  the failure it ended in if it failed. It was performed from one world to another if making these
  deliveries in this order has these results and leads there.
\<close>

type_synonym 'e delivery_log = "(nat \<times> 'e option) list"

fun performed :: "(nat \<Rightarrow> 'w \<Rightarrow> 'e option \<times> 'w) \<Rightarrow> 'e delivery_log \<Rightarrow> 'w \<Rightarrow> 'w \<Rightarrow> bool" where
  "performed del [] w w' \<longleftrightarrow> w' = w"
| "performed del ((i, r) # log) w w' \<longleftrightarrow> (case del i w of (r', w1) \<Rightarrow> r' = r \<and> performed del log w1 w')"

definition failures :: "'e delivery_log \<Rightarrow> (nat \<times> 'e) list" where
  "failures log = concat (map (\<lambda>(i, r). case r of None \<Rightarrow> [] | Some e \<Rightarrow> [(i, e)]) log)"

lemma failures_simps [simp]:
  "failures [] = []" "failures (xs @ ys) = failures xs @ failures ys"
  "failures ((i, None) # xs) = failures xs" "failures ((i, Some e) # xs) = (i, e) # failures xs"
  by (simp_all add: failures_def)

lemma set_failures: "(i, e) \<in> set (failures log) \<longleftrightarrow> (i, Some e) \<in> set log"
  by (fastforce simp: failures_def split: option.splits)

lemma failures_none: "failures log = [] \<longleftrightarrow> (\<forall>x \<in> set log. snd x = None)"
  by (auto simp: failures_def split: option.splits)

lemma performed_append: "performed del xs w w1 \<Longrightarrow> performed del ys w1 w' \<Longrightarrow> performed del (xs @ ys) w w'"
  by (induction del xs w w1 rule: performed.induct) auto

text \<open>
  A lane so far: what was delivered of it succeeded and is followed by what is still to do, or the
  last delivery of it failed and the rest of it is dropped.
\<close>

definition of_lane :: "nat list \<Rightarrow> 'e delivery_log \<Rightarrow> 'e delivery_log" where
  "of_lane lane log = filter (\<lambda>x. fst x \<in> set lane) log"

definition all_ok :: "'e delivery_log \<Rightarrow> bool" where
  "all_ok log \<longleftrightarrow> (\<forall>x \<in> set log. snd x = None)"

definition cut_short :: "nat list \<Rightarrow> 'e delivery_log \<Rightarrow> bool" where
  "cut_short lane made \<longleftrightarrow>
     (\<exists>before i e rest. made = before @ [(i, Some e)] \<and> all_ok before \<and> lane = map fst before @ i # rest)"

definition lane_state :: "nat list \<Rightarrow> nat list \<Rightarrow> 'e delivery_log \<Rightarrow> bool" where
  "lane_state lane todo log \<longleftrightarrow>
     map fst (of_lane lane log) @ todo = lane \<and> all_ok (of_lane lane log) \<or>
     todo = [] \<and> cut_short lane (of_lane lane log)"

lemma lane_state_other: "i \<notin> set lane \<Longrightarrow> lane_state lane todo log \<Longrightarrow> lane_state lane todo (log @ [(i, r)])"
  by (simp add: lane_state_def of_lane_def)

lemma lane_state_hd: "lane_state lane (i # todo) log \<Longrightarrow> i \<in> set lane"
  unfolding lane_state_def by (metis in_set_conv_decomp list.distinct(1))

lemma lane_state_ok: "lane_state lane (i # todo) log \<Longrightarrow> lane_state lane todo (log @ [(i, None)])"
  using lane_state_hd [of lane i todo log] by (auto simp: lane_state_def of_lane_def all_ok_def)

lemma lane_state_fail: "lane_state lane (i # todo) log \<Longrightarrow> lane_state lane [] (log @ [(i, Some e)])"
proof -
  assume st: "lane_state lane (i # todo) log"
  then have "lane = map fst (of_lane lane log) @ i # todo" "all_ok (of_lane lane log)" by (simp_all add: lane_state_def)
  moreover have "of_lane lane (log @ [(i, Some e)]) = of_lane lane log @ [(i, Some e)]"
    using lane_state_hd [OF st] by (simp add: of_lane_def)
  ultimately have "cut_short lane (of_lane lane (log @ [(i, Some e)]))" unfolding cut_short_def by blast
  then show ?thesis by (simp add: lane_state_def)
qed

text \<open>All lanes together, each in its state, no event in two of them, and nothing delivered beside them.\<close>

definition lanes_state :: "nat list list \<Rightarrow> nat list list \<Rightarrow> 'e delivery_log \<Rightarrow> bool" where
  "lanes_state all ls log \<longleftrightarrow>
     length ls = length all \<and> (\<forall>j < length all. lane_state (all ! j) (ls ! j) log) \<and>
     (\<forall>j < length all. \<forall>k < length all. j \<noteq> k \<longrightarrow> set (all ! j) \<inter> set (all ! k) = {}) \<and>
     (\<forall>x \<in> set log. \<exists>lane \<in> set all. fst x \<in> set lane)"

lemma lanes_state_step:
  assumes "lanes_state all ls log" "s < length ls" "lane_state (all ! s) todo (log @ [(i, r)])" "i \<in> set (all ! s)"
  shows "lanes_state all (ls[s := todo]) (log @ [(i, r)])"
  unfolding lanes_state_def
proof (intro conjI allI impI)
  have s: "s < length all" using assms(1,2) by (simp add: lanes_state_def)
  fix j assume j: "j < length all"
  show "lane_state (all ! j) (ls[s := todo] ! j) (log @ [(i, r)])"
  proof (cases "j = s")
    case True
    with assms show ?thesis by simp
  next
    case False
    then have "i \<notin> set (all ! j)" using assms(1,4) j s by (fastforce simp: lanes_state_def)
    then show ?thesis using assms(1) j False by (auto simp: lanes_state_def intro: lane_state_other)
  qed
next
  fix j k assume "j < length all" "k < length all" "j \<noteq> k"
  then show "set (all ! j) \<inter> set (all ! k) = {}" using assms(1) unfolding lanes_state_def by blast
next
  have "all ! s \<in> set all" using assms(1,2) by (simp add: lanes_state_def)
  then show "\<forall>x \<in> set (log @ [(i, r)]). \<exists>lane \<in> set all. fst x \<in> set lane" using assms(1,4) by (auto simp: lanes_state_def)
qed (use assms(1) in \<open>simp add: lanes_state_def\<close>)

lemma lanes_state_deliver:
  assumes "lanes_state all ls log" "s < length ls" "ls ! s = i # todo"
  shows "lanes_state all (ls[s := todo]) (log @ [(i, None)])" "lanes_state all (ls[s := []]) (log @ [(i, Some e)])"
proof -
  have st: "lane_state (all ! s) (i # todo) log" using assms by (metis lanes_state_def)
  note step = lanes_state_step [OF assms(1,2) _ lane_state_hd [OF st]]
  show "lanes_state all (ls[s := todo]) (log @ [(i, None)])" "lanes_state all (ls[s := []]) (log @ [(i, Some e)])"
    by (rule step, rule lane_state_ok [OF st], rule step, rule lane_state_fail [OF st])
qed

text \<open>Whatever is left of one lane may run on its own.\<close>

lemma run_lane_performed:
  assumes "lanes_state all ls log" "s < length ls" "run_lane del (ls ! s) w = (fs, w')"
  shows "\<exists>more. performed del more w w' \<and> lanes_state all (ls[s := []]) (log @ more) \<and> fs = failures more"
  using assms
proof (induction "ls ! s" arbitrary: ls w log)
  case Nil
  then have "ls[s := []] = ls" by (metis list_update_id)
  with Nil show ?case by (intro exI [of _ "[]"]) simp
next
  case (Cons i todo)
  obtain r w1 where d: "del i w = (r, w1)" by fastforce
  note step = lanes_state_deliver [OF Cons.prems(1,2) Cons.hyps(2) [symmetric]]
  show ?case
  proof (cases r)
    case None
    then have "run_lane del (ls[s := todo] ! s) w1 = (fs, w')" using Cons.prems(2,3) Cons.hyps(2) [symmetric] d by simp
    with Cons.hyps(1) [of "ls[s := todo]"] step(1) Cons.prems(2) obtain more where
      "performed del more w1 w'" "lanes_state all (ls[s := []]) (log @ (i, None) # more)" "fs = failures more" by fastforce
    with d None show ?thesis by (intro exI [of _ "(i, None) # more"]) simp
  next
    case (Some e)
    then have "fs = [(i, e)]" "w' = w1" using Cons.prems(3) Cons.hyps(2) [symmetric] d by auto
    with d Some step(2) show ?thesis by (intro exI [of _ "[(i, Some e)]"]) simp
  qed
qed

lemma interleave_rest:
  assumes "lanes_state all (replicate n [] @ ls) log" "interleave del [] ls (failures log) w = (fails', w')"
  shows "\<exists>more. performed del more w w' \<and> lanes_state all (replicate (length all) []) (log @ more) \<and> fails' = failures (log @ more)"
  using assms
proof (induction ls arbitrary: n w log)
  case Nil
  then have "n = length all" by (simp add: lanes_state_def)
  with Nil show ?case by (intro exI [of _ "[]"]) simp
next
  case (Cons lane ls)
  obtain fs w1 where r: "run_lane del lane w = (fs, w1)" by fastforce
  have "(replicate n [] @ lane # ls) ! n = lane" by (simp add: nth_append)
  with run_lane_performed [OF Cons.prems(1), of n del w fs w1] r obtain a where
    a: "performed del a w w1" "lanes_state all ((replicate n [] @ lane # ls)[n := []]) (log @ a)" "fs = failures a" by auto
  from a(2) have "lanes_state all (replicate (Suc n) [] @ ls) (log @ a)"
    by (simp add: list_update_append replicate_app_Cons_same)
  moreover have "interleave del [] ls (failures (log @ a)) w1 = (fails', w')" using Cons.prems(2) r a(3) by simp
  ultimately obtain b where "performed del b w1 w'" "lanes_state all (replicate (length all) []) ((log @ a) @ b)"
    "fails' = failures ((log @ a) @ b)" using Cons.IH by blast
  with performed_append [OF a(1)] show ?case by (intro exI [of _ "a @ b"]) simp
qed

text \<open>
  However the lanes are interleaved, the deliveries made end every lane, and the failures returned
  are those of the deliveries that failed.
\<close>

lemma interleave_performed:
  assumes "lanes_state all ls log" "interleave del schedule ls (failures log) w = (fails', w')"
  shows "\<exists>more. performed del more w w' \<and> lanes_state all (replicate (length all) []) (log @ more) \<and> fails' = failures (log @ more)"
  using assms
proof (induction schedule arbitrary: ls w log)
  case Nil
  then show ?case using interleave_rest [of all 0 ls] by simp
next
  case (Cons s schedule)
  show ?case
  proof (cases "s < length ls \<and> ls ! s \<noteq> []")
    case False
    then have "interleave del schedule ls (failures log) w = (fails', w')"
      using Cons.prems(2) by (auto split: if_splits)
    with Cons show ?thesis by blast
  next
    case True
    then obtain i todo where s: "s < length ls" "ls ! s = i # todo" by (meson neq_Nil_conv)
    obtain r w1 where d: "del i w = (r, w1)" by fastforce
    let ?ls = "ls[s := if r = None then todo else []]"
    have "lanes_state all ?ls (log @ [(i, r)])" using lanes_state_deliver [OF Cons.prems(1) s] by (cases r) simp_all
    moreover have "interleave del schedule ?ls (failures (log @ [(i, r)])) w1 = (fails', w')"
      using Cons.prems(2) s d by (cases r) simp_all
    ultimately obtain more where "performed del more w1 w'" "lanes_state all (replicate (length all) []) ((log @ [(i, r)]) @ more)"
      "fails' = failures ((log @ [(i, r)]) @ more)" using Cons.IH by blast
    with d show ?thesis by (intro exI [of _ "(i, r) # more"]) simp
  qed
qed

text \<open>The lanes of a batch: for each sequence the positions of its events, in the order of the batch.\<close>

definition seq_lane :: "'o processor_deps \<Rightarrow> sequence_fn \<Rightarrow> (sequenced_event \<times> bool) list \<Rightarrow> string \<Rightarrow> nat list" where
  "seq_lane d sequenceOf es k =
     filter (\<lambda>i. snd (es ! i) \<and> is_handled (pd_handlers d) (sq_event (fst (es ! i))) \<and>
                 sf_of sequenceOf (sq_event (fst (es ! i))) = k) [0..<length es]"

lemma seq_lane_Nil [simp]: "seq_lane d sequenceOf [] k = []"
  by (simp add: seq_lane_def)

lemma seq_lane_Cons [simp]:
  "seq_lane d sequenceOf ((e, f) # es) k =
     (if f \<and> is_handled (pd_handlers d) (sq_event e) \<and> sf_of sequenceOf (sq_event e) = k then [0] else [])
       @ map Suc (seq_lane d sequenceOf es k)"
  unfolding seq_lane_def by (simp add: upt_conv_Cons map_Suc_upt [symmetric] filter_map o_def del: upt_Suc)

lemma group_lanes_get:
  "map_get (group_lanes d sequenceOf i es m) k =
     (let lane = map ((+) i) (seq_lane d sequenceOf es k)
      in case map_get m k of Some old \<Rightarrow> Some (old @ lane) | None \<Rightarrow> if lane = [] then None else Some lane)"
proof (induction d sequenceOf i es m rule: group_lanes.induct)
  case (1 d sequenceOf i m)
  show ?case by (simp split: option.split)
next
  case (2 d sequenceOf i e f rest m)
  then show ?case by (auto simp: Let_def o_def split: option.splits)
qed

lemma group_lanes_wf: "wf_map m \<Longrightarrow> wf_map (group_lanes d sequenceOf i es m)"
  by (induction d sequenceOf i es m rule: group_lanes.induct) (auto simp: alist.wf_set Let_def)

lemma group_lanes_values:
  "set (map snd (group_lanes d sequenceOf 0 es [])) = {lane. lane \<noteq> [] \<and> (\<exists>k. lane = seq_lane d sequenceOf es k)}" (is "?L = ?R")
proof -
  let ?m = "group_lanes d sequenceOf 0 es []"
  have get: "map_get ?m k = Some lane \<longleftrightarrow> lane \<noteq> [] \<and> lane = seq_lane d sequenceOf es k" for k lane
    using group_lanes_get [of d sequenceOf 0 es "[]" k] by (auto simp: map_idI Let_def split: if_splits)
  have "(k, lane) \<in> set ?m \<longleftrightarrow> map_get ?m k = Some lane" for k lane
    using group_lanes_wf [of "[]" d sequenceOf 0 es] by simp
  then have "lane \<in> ?L \<longleftrightarrow> (\<exists>k. map_get ?m k = Some lane)" for lane by (metis (no_types, lifting) image_iff list.set_map snd_conv surj_pair)
  then show ?thesis unfolding get by blast
qed

lemma group_lanes_disjoint:
  assumes "j < length (group_lanes d sequenceOf 0 es [])" "k < length (group_lanes d sequenceOf 0 es [])" "j \<noteq> k"
  shows "set (snd (group_lanes d sequenceOf 0 es [] ! j)) \<inter> set (snd (group_lanes d sequenceOf 0 es [] ! k)) = {}"
proof -
  let ?m = "group_lanes d sequenceOf 0 es []"
  have wf: "wf_map ?m" by (simp add: group_lanes_wf)
  have lane: "snd (?m ! j) = seq_lane d sequenceOf es (fst (?m ! j))" if "j < length ?m" for j
  proof -
    have "map_get ?m (fst (?m ! j)) = Some (snd (?m ! j))" using wf that by (simp add: map_of_eq_Some_iff)
    then show ?thesis using group_lanes_get [of d sequenceOf 0 es "[]"] by (auto simp: map_idI Let_def split: if_splits)
  qed
  have "fst (?m ! j) \<noteq> fst (?m ! k)" using wf assms by (auto simp: distinct_conv_nth)
  then show ?thesis using lane assms(1,2) by (auto simp: seq_lane_def)
qed

lemma lanes_state_start:
  "lanes_state (map snd (group_lanes d sequenceOf 0 es [])) (map snd (group_lanes d sequenceOf 0 es [])) []"
  using group_lanes_disjoint [of _ d sequenceOf es] by (simp add: lanes_state_def lane_state_def of_lane_def all_ok_def)

lemma earliest_failure_None [simp]: "earliest_failure fails = None \<longleftrightarrow> fails = []"
  by (cases fails) (simp_all add: earliest_failure_def)

lemma earliest_fold:
  "foldl (\<lambda>first g. if fst g < fst first then g else first) f fs \<in> set (f # fs) \<and>
   (\<forall>g \<in> set (f # fs). fst (foldl (\<lambda>first g. if fst g < fst first then g else first) f fs) \<le> (fst g :: nat))"
proof (induction fs arbitrary: f)
  case (Cons g fs)
  from Cons.IH [of "if fst g < fst f then g else f"] show ?case by (auto split: if_splits)
qed simp

lemma earliest_failure_Some:
  assumes "earliest_failure fails = Some err"
  shows "\<exists>i. (i, err) \<in> set fails \<and> (\<forall>f \<in> set fails. i \<le> fst f)"
proof -
  obtain f fs where f: "fails = f # fs" using assms by (cases fails) (auto simp: earliest_failure_def)
  let ?g = "foldl (\<lambda>first g. if fst g < fst first then g else first) f fs"
  have "err = snd ?g" using assms f by (simp add: earliest_failure_def)
  with earliest_fold [of f fs] f show ?thesis by (intro exI [of _ "fst ?g"]) auto
qed

lemma lanes_state_lane:
  "lanes_state all (replicate (length all) []) log \<Longrightarrow> j < length all \<Longrightarrow> lane_state (all ! j) [] log"
  unfolding lanes_state_def by (metis nth_replicate)

definition deliver_at :: "'o processor_deps \<Rightarrow> (sequenced_event \<times> bool \<times> bool) list \<Rightarrow> nat \<Rightarrow> 'o proc_world \<Rightarrow> batch_error option \<times> 'o proc_world" where
  "deliver_at d plan i w = (case plan ! i of (e, replaying, fresh) \<Rightarrow> deliverEvent d e replaying w)"

text \<open>
  C12: With sequences side by side, however the schedule interleaves them, the batch is a series of
  deliveries of new and handled events, each made on the world the one before left behind. Of each
  sequence either all its new and handled events are delivered in log order and none fails, or they are
  delivered in log order up to and including the first that fails and no further; what happens in one
  sequence never cuts another short. The batch succeeds exactly if no delivery failed, and otherwise
  its error is that of the failed delivery at the earliest position.\<close>
theorem sequences_keep_their_order:
  assumes "deliverSideBySide d schedule sequenceOf plan w = (r, w')"
  shows "\<exists>log. performed (deliver_at d plan) log w w' \<and>
     (\<forall>x \<in> set log. \<exists>k. fst x \<in> set (seq_lane d sequenceOf (map (\<lambda>(e, r, f). (e, f)) plan) k)) \<and>
     (\<forall>k. let lane = seq_lane d sequenceOf (map (\<lambda>(e, r, f). (e, f)) plan) k;
              made = filter (\<lambda>x. fst x \<in> set lane) log
          in map fst made = lane \<and> (\<forall>x \<in> set made. snd x = None) \<or>
             (\<exists>before i e rest. made = before @ [(i, Some e)] \<and> (\<forall>x \<in> set before. snd x = None) \<and>
                lane = map fst before @ i # rest)) \<and>
     (r = None \<longleftrightarrow> (\<forall>x \<in> set log. snd x = None)) \<and>
     (\<forall>err. r = Some err \<longrightarrow> (\<exists>i. (i, Some err) \<in> set log \<and> (\<forall>x \<in> set log. snd x \<noteq> None \<longrightarrow> i \<le> fst x)))"
proof -
  let ?es = "map (\<lambda>(e, r, f). (e, f)) plan"
  let ?all = "map snd (group_lanes d sequenceOf 0 ?es [])"
  have del: "(\<lambda>i w. case plan ! i of (e, replaying, fresh) \<Rightarrow> deliverEvent d e replaying w) = deliver_at d plan"
    by (intro ext) (simp add: deliver_at_def)
  obtain fails where run: "interleave (deliver_at d plan) schedule ?all [] w = (fails, w')" and r: "r = earliest_failure fails"
    using assms by (auto simp: deliverSideBySide_def Let_def del split: prod.splits)
  from interleave_performed [OF lanes_state_start, of "deliver_at d plan" schedule d sequenceOf ?es w fails w'] run obtain log where
    log: "performed (deliver_at d plan) log w w'" "lanes_state ?all (replicate (length ?all) []) log" "fails = failures log" by auto
  have lane: "let lane = seq_lane d sequenceOf ?es k; made = filter (\<lambda>x. fst x \<in> set lane) log
      in map fst made = lane \<and> (\<forall>x \<in> set made. snd x = None) \<or>
         (\<exists>before i e rest. made = before @ [(i, Some e)] \<and> (\<forall>x \<in> set before. snd x = None) \<and> lane = map fst before @ i # rest)" for k
  proof (cases "seq_lane d sequenceOf ?es k = []")
    case False
    then have "seq_lane d sequenceOf ?es k \<in> set ?all" unfolding group_lanes_values by blast
    then obtain j where "j < length ?all" "?all ! j = seq_lane d sequenceOf ?es k" by (metis in_set_conv_nth)
    then have "lane_state (seq_lane d sequenceOf ?es k) [] log" using lanes_state_lane [OF log(2), of j] by simp
    then show ?thesis unfolding lane_state_def of_lane_def all_ok_def cut_short_def Let_def by simp
  qed simp
  have within: "\<forall>x \<in> set log. \<exists>k. fst x \<in> set (seq_lane d sequenceOf ?es k)"
  proof
    fix x assume "x \<in> set log"
    then obtain l where "l \<in> set ?all" "fst x \<in> set l" using log(2) unfolding lanes_state_def by blast
    then show "\<exists>k. fst x \<in> set (seq_lane d sequenceOf ?es k)" unfolding group_lanes_values by blast
  qed
  have none: "r = None \<longleftrightarrow> (\<forall>x \<in> set log. snd x = None)"
    unfolding r log(3) earliest_failure_None by (rule failures_none)
  have some: "\<exists>i. (i, Some err) \<in> set log \<and> (\<forall>x \<in> set log. snd x \<noteq> None \<longrightarrow> i \<le> fst x)" if "r = Some err" for err
  proof -
    from earliest_failure_Some [of fails err] that r obtain i where i: "(i, err) \<in> set fails" "\<forall>f \<in> set fails. i \<le> fst f" by auto
    then show ?thesis unfolding log(3) using set_failures by (metis fst_conv not_None_eq prod.collapse)
  qed
  show ?thesis using log(1) within lane none some by blast
qed

section \<open>A batch commits with its token\<close>

lemma batch_plan_end: "snd (batch_plan hash t es) = foldl advanceTokenTo t (map just_past es)"
  by (induction es arbitrary: t) (simp_all add: Let_def just_past_def split_beta)

text \<open>Delivery works on the queue and on what the handlers reach, never on the tokens or the clock.\<close>

definition same_claims :: "'o proc_world \<Rightarrow> 'o proc_world \<Rightarrow> bool" where
  "same_claims w w' \<longleftrightarrow> pw_tokens w' = pw_tokens w"

lemma same_claims_refl [simp]: "same_claims w w"
  by (simp add: same_claims_def)

lemma same_claims_trans: "same_claims w1 w2 \<Longrightarrow> same_claims w2 w3 \<Longrightarrow> same_claims w1 w3"
  by (simp add: same_claims_def)

lemma run_entries_claims: "run_entries hs e replaying w = (r, w') \<Longrightarrow> same_claims w w'"
  by (induction hs e replaying w rule: run_entries.induct)
    (auto simp: same_claims_def Let_def split: prod.splits option.splits)

lemma deliverEvent_claims: "deliverEvent d e replaying w = (r, w') \<Longrightarrow> same_claims w w'"
  by (auto simp: deliverEvent_def same_claims_def simp del: run_entries.simps dest: run_entries_claims [unfolded same_claims_def]
      split: option.splits list.splits prod.splits sum.splits)

lemma deliver_plan_claims: "deliver_plan d plan w = (r, w') \<Longrightarrow> same_claims w w'"
proof (induction d plan w rule: deliver_plan.induct)
  case (2 d e rp fr rest w)
  obtain r1 w1 where d: "deliverEvent d e rp w = (r1, w1)" by fastforce
  note this [THEN deliverEvent_claims]
  with 2 d show ?case by (cases fr; cases r1) (auto intro: same_claims_trans)
qed simp

lemma run_lane_claims:
  assumes "\<forall>i w r w'. del i w = (r, w') \<longrightarrow> same_claims w w'"
  shows "run_lane del lane w = (r, w') \<Longrightarrow> same_claims w w'"
proof (induction lane arbitrary: w)
  case (Cons i lane)
  obtain r1 w1 where d: "del i w = (r1, w1)" by fastforce
  with assms have "same_claims w w1" by blast
  with Cons d show ?case by (cases r1) (auto intro: same_claims_trans)
qed simp

lemma interleave_claims:
  assumes "\<forall>i w r w'. del i w = (r, w') \<longrightarrow> same_claims w w'"
  shows "interleave del schedule ls fails w = (r, w') \<Longrightarrow> same_claims w w'"
  using assms
proof (induction del schedule ls fails w rule: interleave.induct)
  case (2 del lane ls fails w)
  obtain fs w1 where r: "run_lane del lane w = (fs, w1)" by fastforce
  with 2 run_lane_claims [OF 2(3) r] show ?case by (auto intro: same_claims_trans)
next
  case (3 del s schedule ls fails w)
  show ?case
  proof (cases "s < length ls \<and> ls ! s \<noteq> []")
    case False
    then show ?thesis using 3(1,4-) by (auto split: list.splits if_splits)
  next
    case True
    then obtain i todo where s: "s < length ls" "ls ! s = i # todo" by (meson neq_Nil_conv)
    obtain r1 w1 where d: "del i w = (r1, w1)" by fastforce
    then have "same_claims w w1" using 3(6) by blast
    moreover have "same_claims w1 w'"
      using 3(2) [OF s d [symmetric]] 3(3) [OF s d [symmetric]] 3(5,6) s d by (cases r1) auto
    ultimately show ?thesis by (rule same_claims_trans)
  qed
qed simp

lemma deliver_batch_claims: "deliver_batch d schedule plan w = (r, w') \<Longrightarrow> same_claims w w'"
  using deliverEvent_claims [of d]
  by (auto simp: deliver_batch_def deliverSideBySide_def Let_def intro: deliver_plan_claims
      dest!: interleave_claims [rotated] split: option.splits prod.splits)

lemma processBatch_effect:
  "\<exists>r w'. processBatch plain_batch_host d schedule seg owner t batch w = Some (r, w') \<and>
     (case r of
        Inr t' \<Rightarrow>
          t' = foldl advanceTokenTo t (map just_past batch) \<and>
          deliver_batch d schedule (fst (batch_plan (hashOf (pd_sequenceOf d)) t batch)) w = (None, w'\<lparr>pw_tokens := pw_tokens w\<rparr>) \<and>
          (\<exists>e. getEntry (pd_name d) seg (pw_tokens w) = Some e \<and> te_ownerId e = Some owner \<and>
               pw_tokens w' = set_entry (pd_name d) seg (e\<lparr>te_token := Some t', te_claimedAt := dw_now (pw_dlq w')\<rparr>) (pw_tokens w))
      | Inl err \<Rightarrow>
          pw_tokens w' = pw_tokens w \<and>
          (deliver_batch d schedule (fst (batch_plan (hashOf (pd_sequenceOf d)) t batch)) w = (Some err, w') \<or>
           (deliver_batch d schedule (fst (batch_plan (hashOf (pd_sequenceOf d)) t batch)) w = (None, w') \<and>
            entry_owner (pw_tokens w) (pd_name d, seg) \<noteq> Some owner)))"
proof -
  obtain plan end_token where p: "batch_plan (hashOf (pd_sequenceOf d)) t batch = (plan, end_token)" by fastforce
  have t: "end_token = foldl advanceTokenTo t (map just_past batch)"
    using batch_plan_end [of "hashOf (pd_sequenceOf d)" t batch] p by simp
  obtain r1 w1 where del: "deliver_batch d schedule plan w = (r1, w1)" by fastforce
  have same: "pw_tokens w1 = pw_tokens w" using deliver_batch_claims [OF del] by (simp add: same_claims_def)
  note run = processBatch_run [OF p del, of seg owner]
  show ?thesis
  proof (cases r1)
    case (Some err)
    with run del p same show ?thesis by simp
  next
    case None
    show ?thesis
    proof (cases "entry_owner (pw_tokens w) (pd_name d, seg) = Some owner")
      case True
      then obtain e where "getEntry (pd_name d) seg (pw_tokens w) = Some e" "te_ownerId e = Some owner"
        by (auto simp: entry_owner_def bind_eq_Some_conv)
      with None run del p same t show ?thesis by (simp add: write_token_def store_token_def)
    next
      case False
      with None run del p same show ?thesis by (simp add: write_token_def store_token_def entry_owner_def)
    qed
  qed
qed

text \<open>
  C4: A batch and its token go together. A batch that succeeds delivered its plan completely and wrote,
  under the worker's own claim, the token just past its last event, to its own segment only. A batch that
  fails leaves every token as it was: either a delivery failed, or the claim was lost.\<close>
theorem batch_commits_with_token:
  "\<exists>r w'. processBatch plain_batch_host d schedule seg owner t batch w = Some (r, w') \<and>
     (case r of
        Inr t' \<Rightarrow>
          t' = foldl advanceTokenTo t (map just_past batch) \<and>
          deliver_batch d schedule (fst (batch_plan (hashOf (pd_sequenceOf d)) t batch)) w = (None, w'\<lparr>pw_tokens := pw_tokens w\<rparr>) \<and>
          (\<exists>e. getEntry (pd_name d) seg (pw_tokens w) = Some e \<and> te_ownerId e = Some owner \<and>
               pw_tokens w' = set_entry (pd_name d) seg (e\<lparr>te_token := Some t', te_claimedAt := dw_now (pw_dlq w')\<rparr>) (pw_tokens w))
      | Inl err \<Rightarrow>
          pw_tokens w' = pw_tokens w \<and>
          (deliver_batch d schedule (fst (batch_plan (hashOf (pd_sequenceOf d)) t batch)) w = (Some err, w') \<or>
           (deliver_batch d schedule (fst (batch_plan (hashOf (pd_sequenceOf d)) t batch)) w = (None, w') \<and>
            entry_owner (pw_tokens w) (pd_name d, seg) \<noteq> Some owner)))"
  by (rule processBatch_effect)

text \<open>
  C13: What a batch delivers. Each event is marked replayed exactly when a reset put the segment back and
  the event lies before the point the segment had reached; after a merge it is left out exactly when the half of
  its sequence had already got past it. Both are decided by the token before the batch and
  the event alone, although the token advances inside the batch.\<close>
theorem batch_marks_replays_and_repeats:
  assumes "wf_token t" "list_all (plain_token \<circ> just_past) batch" "sorted_wrt (<) (map (position \<circ> just_past) batch)"
    and "batch \<noteq> [] \<longrightarrow> position t < position (just_past (hd batch))"
  shows "batch_plan (hashOf sequenceOf) t batch =
     (map (\<lambda>e. (e, replayed t (position (just_past e)), new_to t (hashOf sequenceOf (sq_event e)) (position (just_past e)))) batch,
      foldl advanceTokenTo t (map just_past batch))"
  by (rule batch_plan_exact [OF assms])

text \<open>Two sequences told apart by the event's time, and a handler that fails on its second call.\<close>

definition by_parity :: sequence_fn where
  "by_parity = \<lparr>sf_ref = 1, sf_of = (\<lambda>e. if even (em_timestamp e) then ''even'' else ''odd'')\<rparr>"

definition parity_deps :: "nat processor_deps" where
  "parity_deps = \<lparr>pd_name = ''orders'',
     pd_handlers = handler_map_of [\<lparr>he_name = qn ''shop'' ''Placed'',
       he_handler = (\<lambda>e replaying k. (if k = 1 then Some (JsError ''boom'') else None, Suc k))\<rparr>],
     pd_parking = None, pd_concurrent = Some by_parity, pd_sequenceOf = Some by_parity\<rparr>"

definition parity_world :: "nat proc_world" where
  "parity_world = \<lparr>pw_tokens = inMemoryTokenStore 10, pw_dlq = empty_dlq_world\<rparr>"

theorem sequences_keep_their_order_witness:
  "\<exists>w' log i. deliverSideBySide parity_deps [1, 0, 1] by_parity (map (\<lambda>n. (at_position n, False, True)) [0, 1, 2, 3]) parity_world =
     (Some (HandlerFailed (JsError ''boom'')), w') \<and>
     performed (deliver_at parity_deps (map (\<lambda>n. (at_position n, False, True)) [0, 1, 2, 3])) log parity_world w' \<and>
     (i, Some (HandlerFailed (JsError ''boom''))) \<in> set log \<and> (\<forall>x \<in> set log. snd x \<noteq> None \<longrightarrow> i \<le> fst x)"
proof -
  let ?plan = "map (\<lambda>n. (at_position n, False, True)) [0, 1, 2, 3]"
  have "fst (deliverSideBySide parity_deps [1, 0, 1] by_parity ?plan parity_world) = Some (HandlerFailed (JsError ''boom''))"
    by code_simp
  then obtain w' where run: "deliverSideBySide parity_deps [1, 0, 1] by_parity ?plan parity_world =
      (Some (HandlerFailed (JsError ''boom'')), w')" by (metis prod.collapse)
  from sequences_keep_their_order [OF run] run show ?thesis by blast
qed

theorem batch_marks_replays_and_repeats_witness:
  "fst (batch_plan (hashOf (Some by_parity)) (ReplayToken (GlobalSequenceToken 2) (GlobalSequenceToken 0)) (map at_position [0, 1, 2])) =
     [(at_position 0, True, True), (at_position 1, True, True), (at_position 2, False, True)]"
proof -
  have past: "just_past (at_position n) = GlobalSequenceToken (n + 1)" for n by (simp add: just_past_def at_position_def)
  show ?thesis
    by (subst batch_marks_replays_and_repeats) (simp_all add: past)
qed

end
