(* ===== verification/Shared_Stream.thy ===== *)
theory Shared_Stream
  imports Event_Store
begin

text \<open>
  One read of the log for all the segments a node holds (\<open>event-processing/shared-stream.ts\<close>).

  Each opened stream is a view: where it is, what it skips, what it accepts and the events it was given
  and has not handed out. A view is an object; its key in \<open>sh_views\<close> is its identity. The store
  underneath is the in-memory event store, whose streams never fail, so that \<open>inner.error()\<close> is
  always \<open>undefined\<close>. A closed view is forgotten: its caller drops the stream with the close.
  \<open>vw_opened\<close>, \<open>vw_taken\<close> and \<open>sh_woken\<close> are history: where a view was opened, what it handed out
  and which views' callbacks were called.

  The theory shows that sharing is invisible: every view hands out exactly the events it accepts
  from where it was opened, in order and once each, whatever the other views do; that a view finds nothing
  ready only when it has everything or another view is full; and that the progress it reports skips nothing.
\<close>

section \<open>State\<close>

record view =
  vw_next :: int
  vw_skipBelow :: int
  vw_resume :: "tracking_token option"
  vw_looked :: "tracking_token option"
  vw_accepts :: "sequenced_event \<Rightarrow> bool"
  vw_buffer :: "sequenced_event list"
  vw_head :: nat
  vw_callback :: bool
  vw_opened :: int
  vw_taken :: "sequenced_event list"

record shared_stream =
  sh_query :: "event_query option"
  sh_readAhead :: nat
  sh_views :: "(nat, view) jsmap"
  sh_nextView :: nat
  sh_inner :: "nat option"
  sh_at :: int
  sh_store :: event_store
  sh_woken :: "nat list"

definition sharedStream :: "event_store \<Rightarrow> event_query option \<Rightarrow> nat \<Rightarrow> shared_stream" where
  "sharedStream store query readAhead =
     \<lparr>sh_query = query, sh_readAhead = readAhead, sh_views = [], sh_nextView = 0, sh_inner = None, sh_at = 0,
      sh_store = store, sh_woken = []\<rparr>"

definition ready :: "view \<Rightarrow> nat" where
  "ready v = length (vw_buffer v) - vw_head v"

definition map_views :: "(view \<Rightarrow> view) \<Rightarrow> shared_stream \<Rightarrow> shared_stream" where
  "map_views f sh = sh\<lparr>sh_views := map (\<lambda>(i, v). (i, f v)) (sh_views sh)\<rparr>"

definition set_view :: "nat \<Rightarrow> view \<Rightarrow> shared_stream \<Rightarrow> shared_stream" where
  "set_view i v sh = sh\<lparr>sh_views := map_set i v (sh_views sh)\<rparr>"

definition close_inner :: "shared_stream \<Rightarrow> shared_stream" where
  "close_inner sh =
     (case sh_inner sh of
        None \<Rightarrow> sh
      | Some i \<Rightarrow> sh\<lparr>sh_store := stream_close i (sh_store sh), sh_inner := None\<rparr>)"

section \<open>Reading the log\<close>

fun lowest_view :: "(nat, view) jsmap \<Rightarrow> view option \<Rightarrow> view option" where
  "lowest_view [] best = best"
| "lowest_view ((i, v) # rest) best =
     lowest_view rest (case best of None \<Rightarrow> Some v | Some b \<Rightarrow> if vw_next v < vw_next b then Some v else Some b)"

definition reopen :: "shared_stream \<Rightarrow> store_error + shared_stream" where
  "reopen sh =
     (let sh1 = close_inner sh
      in case lowest_view (sh_views sh1) None of
           None \<Rightarrow> Inr sh1
         | Some from \<Rightarrow>
             (let sh2 = (map_views (\<lambda>v. v\<lparr>vw_skipBelow := (if vw_next v > vw_next from then vw_next v else 0)\<rparr>) sh1)
                          \<lparr>sh_at := vw_next from\<rparr>
              in case open_stream (sh_store sh2) \<lparr>str_position = vw_next from, str_query = sh_query sh2\<rparr> of
                   Inl e \<Rightarrow> Inl e
                 | Inr (i, s) \<Rightarrow> Inr (sh2\<lparr>sh_inner := Some i, sh_store := stream_setCallback i s\<rparr>)))"

definition full :: "shared_stream \<Rightarrow> bool" where
  "full sh \<longleftrightarrow> list_ex (\<lambda>(i, v). ready v \<ge> sh_readAhead sh) (sh_views sh)"

definition past_event :: "sequenced_event \<Rightarrow> tracking_token" where
  "past_event e = (case sq_token e of Some t \<Rightarrow> t | None \<Rightarrow> GlobalSequenceToken (sq_sequence e + 1))"

definition hand_to :: "sequenced_event \<Rightarrow> view \<Rightarrow> view" where
  "hand_to e v =
     (if sq_sequence e < vw_skipBelow v then v
      else (let v' = v\<lparr>vw_next := sq_sequence e + 1, vw_resume := Some (past_event e), vw_looked := Some (past_event e)\<rparr>
            in if vw_accepts v e then v'\<lparr>vw_buffer := vw_buffer v @ [e]\<rparr> else v'))"

definition given_to :: "sequenced_event \<Rightarrow> nat \<times> view \<Rightarrow> bool" where
  "given_to e iv \<longleftrightarrow> \<not> sq_sequence e < vw_skipBelow (snd iv) \<and> vw_accepts (snd iv) e"

text \<open>The events of the log a stream has yet to hand out: what makes the loop end.\<close>

definition to_come :: "nat \<Rightarrow> event_store \<Rightarrow> nat" where
  "to_come i s = (case map_get (es_streams s) i of None \<Rightarrow> 0
     | Some st \<Rightarrow> length (filter (\<lambda>e. ms_cursor st \<le> se_position e) (es_events s)))"

lemma to_come_decreases:
  assumes "stream_next i s = (Some e, s')"
  shows "to_come i s' < to_come i s"
proof -
  obtain st where st: "map_get (es_streams s) i = Some st" "findNext s st = Some e"
    using assms by (auto simp: stream_next_def stream_peek_def split: option.splits bind_splits)
  then obtain entry where en: "find (stream_accepts st) (es_events s) = Some entry" "sq_sequence e = se_position entry"
    by (auto simp: findNext_def split: if_splits)
  have in_log: "entry \<in> set (es_events s)" "ms_cursor st \<le> se_position entry"
    using en(1) by (auto simp: find_Some_iff stream_accepts_def)
  have s': "es_events s' = es_events s" "map_get (es_streams s') i = Some (st\<lparr>ms_cursor := se_position entry + 1\<rparr>)"
    using assms st en(2) by (auto simp: stream_next_def stream_peek_def update_stream_def)
  have "length (filter (\<lambda>e. se_position entry + 1 \<le> se_position e) xs) < length (filter (\<lambda>e. ms_cursor st \<le> se_position e) xs)"
    if "entry \<in> set xs" for xs
  proof -
    have le: "length (filter (\<lambda>e. se_position entry + 1 \<le> se_position e) ys) \<le> length (filter (\<lambda>e. ms_cursor st \<le> se_position e) ys)" for ys
      using in_log(2) by (induction ys) auto
    from that show ?thesis
    proof (induction xs)
      case (Cons x xs)
      then show ?case using in_log(2) le [of xs] by auto
    qed simp
  qed
  from this [OF in_log(1)] show ?thesis using st s' by (simp add: to_come_def)
qed

function read_loop :: "nat \<Rightarrow> shared_stream \<Rightarrow> nat list \<Rightarrow> shared_stream \<times> nat list" where
  "read_loop i sh given =
     (if full sh then (sh, given)
      else (case stream_next i (sh_store sh) of
              (None, s) \<Rightarrow> (sh, given)
            | (Some e, s) \<Rightarrow>
                read_loop i ((map_views (hand_to e) sh)\<lparr>sh_at := sq_sequence e + 1, sh_store := s\<rparr>)
                  (given @ filter (\<lambda>k. k \<notin> set given) (map fst (filter (given_to e) (sh_views sh))))))"
  by pat_completeness auto
termination
  by (relation "measure (\<lambda>(i, sh, given). to_come i (sh_store sh))") (auto simp: map_views_def dest: to_come_decreases [OF sym])

declare read_loop.simps [simp del]

definition call_view :: "nat \<Rightarrow> shared_stream \<Rightarrow> shared_stream" where
  "call_view i sh =
     (case map_get (sh_views sh) i of
        Some v \<Rightarrow> if vw_callback v then sh\<lparr>sh_woken := sh_woken sh @ [i]\<rparr> else sh
      | None \<Rightarrow> sh)"

definition read :: "shared_stream \<Rightarrow> shared_stream" where
  "read sh =
     (case sh_inner sh of
        None \<Rightarrow> sh
      | Some i \<Rightarrow> (case read_loop i sh [] of (sh', given) \<Rightarrow> fold call_view given sh'))"

section \<open>The streams of the segments\<close>

definition open_view ::
  "int \<Rightarrow> tracking_token option \<Rightarrow> (sequenced_event \<Rightarrow> bool) \<Rightarrow> shared_stream \<Rightarrow> store_error + (nat \<times> shared_stream)" where
  "open_view pos token accepts sh =
     (let k = sh_nextView sh;
          v = \<lparr>vw_next = pos, vw_skipBelow = 0, vw_resume = token, vw_looked = None, vw_accepts = accepts,
               vw_buffer = [], vw_head = 0, vw_callback = False, vw_opened = pos, vw_taken = []\<rparr>;
          sh1 = (set_view k v sh)\<lparr>sh_nextView := Suc k\<rparr>
      in if sh_inner sh1 = None \<or> pos < sh_at sh1
         then (case reopen sh1 of Inl e \<Rightarrow> Inl e | Inr sh2 \<Rightarrow> Inr (k, sh2))
         else Inr (k, set_view k (v\<lparr>vw_skipBelow := pos\<rparr>) sh1))"

definition fill :: "nat \<Rightarrow> shared_stream \<Rightarrow> shared_stream" where
  "fill k sh = (case map_get (sh_views sh) k of Some v \<Rightarrow> if ready v = 0 then read sh else sh | None \<Rightarrow> sh)"

definition take_view :: "nat \<Rightarrow> shared_stream \<Rightarrow> sequenced_event option \<times> shared_stream" where
  "take_view k sh =
     (let sh1 = fill k sh
      in case map_get (sh_views sh1) k of
           None \<Rightarrow> (None, sh1)
         | Some v \<Rightarrow>
             if ready v = 0 then (None, sh1)
             else (let e = vw_buffer v ! vw_head v;
                       v' = v\<lparr>vw_head := Suc (vw_head v), vw_taken := vw_taken v @ [e]\<rparr>
                   in (Some e, set_view k (if vw_head v' = length (vw_buffer v') then v'\<lparr>vw_buffer := [], vw_head := 0\<rparr> else v') sh1)))"

definition peek_view :: "nat \<Rightarrow> shared_stream \<Rightarrow> sequenced_event option \<times> shared_stream" where
  "peek_view k sh =
     (let sh1 = fill k sh
      in case map_get (sh_views sh1) k of
           None \<Rightarrow> (None, sh1)
         | Some v \<Rightarrow> (if ready v > 0 then Some (vw_buffer v ! vw_head v) else None, sh1))"

definition view_hasNextAvailable :: "nat \<Rightarrow> shared_stream \<Rightarrow> bool \<times> shared_stream" where
  "view_hasNextAvailable k sh =
     (let sh1 = fill k sh in (case map_get (sh_views sh1) k of None \<Rightarrow> False | Some v \<Rightarrow> ready v > 0, sh1))"

definition view_isCompleted :: "shared_stream \<Rightarrow> bool" where
  "view_isCompleted sh = (case sh_inner sh of None \<Rightarrow> False | Some i \<Rightarrow> stream_isCompleted i (sh_store sh))"

definition view_setCallback :: "nat \<Rightarrow> shared_stream \<Rightarrow> shared_stream" where
  "view_setCallback k sh =
     (case map_get (sh_views sh) k of None \<Rightarrow> sh | Some v \<Rightarrow> set_view k (v\<lparr>vw_callback := True\<rparr>) sh)"

definition close_view :: "nat \<Rightarrow> shared_stream \<Rightarrow> shared_stream" where
  "close_view k sh =
     (let sh1 = sh\<lparr>sh_views := map_delete k (sh_views sh)\<rparr> in if sh_views sh1 = [] then close_inner sh1 else sh1)"

definition view_progressToken :: "nat \<Rightarrow> shared_stream \<Rightarrow> tracking_token option" where
  "view_progressToken k sh =
     (case map_get (sh_views sh) k of
        None \<Rightarrow> None
      | Some v \<Rightarrow>
          if ready v > 0 then None
          else (let beyond = (case sh_inner sh of
                        None \<Rightarrow> None
                      | Some i \<Rightarrow> if vw_next v \<ge> sh_at sh \<and> \<not> stream_hasNextAvailable i (sh_store sh)
                                  then stream_progressToken i (sh_store sh) else None)
                in case beyond of
                     None \<Rightarrow> vw_looked v
                   | Some b \<Rightarrow>
                       (case vw_looked v of
                          None \<Rightarrow> Some b
                        | Some t \<Rightarrow> if position b > position t then Some b else Some t)))"

section \<open>What a view is owed\<close>

definition query_admits :: "event_query option \<Rightarrow> event_message \<Rightarrow> bool" where
  "query_admits q e =
     (case q of None \<Rightarrow> True | Some q' \<Rightarrow> (case compileQuery q' of Inl _ \<Rightarrow> False | Inr c \<Rightarrow> matchesCriteria e c))"

text \<open>The events of the log a view accepts, from one position up to another.\<close>

definition owed :: "event_query option \<Rightarrow> (sequenced_event \<Rightarrow> bool) \<Rightarrow> int \<Rightarrow> int \<Rightarrow> store_entry list \<Rightarrow> sequenced_event list" where
  "owed q accepts lo hi log =
     map sequenced (filter (\<lambda>e. lo \<le> se_position e \<and> se_position e < hi \<and> query_admits q (se_event e) \<and> accepts (sequenced e)) log)"

lemma filter_split_sorted:
  fixes f :: "'a \<Rightarrow> int"
  assumes "sorted_wrt (<) (map f xs)" "lo \<le> mid" "mid \<le> hi"
  shows "filter (\<lambda>x. lo \<le> f x \<and> f x < hi \<and> P x) xs =
         filter (\<lambda>x. lo \<le> f x \<and> f x < mid \<and> P x) xs @ filter (\<lambda>x. mid \<le> f x \<and> f x < hi \<and> P x) xs"
  using assms(1)
proof (induction xs)
  case (Cons x xs)
  show ?case
  proof (cases "f x < mid")
    case True
    with Cons assms(2,3) show ?thesis by auto
  next
    case False
    then have "filter (\<lambda>x. lo \<le> f x \<and> f x < mid \<and> P x) xs = []"
      using Cons.prems by (auto simp: filter_empty_conv)
    with Cons False assms(2) show ?thesis by auto
  qed
qed simp

lemma owed_split:
  assumes "sorted_wrt (<) (map se_position log)" "lo \<le> mid" "mid \<le> hi"
  shows "owed q acc lo hi log = owed q acc lo mid log @ owed q acc mid hi log"
  using filter_split_sorted [OF assms, of "\<lambda>e. query_admits q (se_event e) \<and> acc (sequenced e)"] by (simp add: owed_def)

lemma owed_none: "(\<And>e. e \<in> set log \<Longrightarrow> lo \<le> se_position e \<Longrightarrow> se_position e < hi \<Longrightarrow> \<not> query_admits q (se_event e)) \<Longrightarrow> owed q acc lo hi log = []"
  by (auto simp: owed_def filter_empty_conv)

lemma owed_empty [simp]: "owed q acc lo lo log = []"
  by (rule owed_none) simp

text \<open>The first event a stream accepts is the only one between where it was and just past it.\<close>

lemma owed_first:
  assumes sorted: "sorted_wrt (<) (map se_position log)"
    and y: "y \<in> set log" "query_admits q (se_event y)" "lo \<le> se_position y"
    and first: "\<And>e. e \<in> set log \<Longrightarrow> lo \<le> se_position e \<Longrightarrow> query_admits q (se_event e) \<Longrightarrow> se_position y \<le> se_position e"
  shows "owed q acc lo (se_position y + 1) log = (if acc (sequenced y) then [sequenced y] else [])"
proof -
  have "owed q acc lo (se_position y) log = []"
    by (rule owed_none) (use first in force)
  moreover have "owed q acc (se_position y) (se_position y + 1) log = (if acc (sequenced y) then [sequenced y] else [])"
    using sorted y(1,2)
  proof (induction log)
    case (Cons x log)
    show ?case
    proof (cases "x = y")
      case True
      have "filter (\<lambda>e. se_position y \<le> se_position e \<and> se_position e < se_position y + 1 \<and> query_admits q (se_event e) \<and> acc (sequenced e)) log = []"
        using Cons.prems(1) True by (auto simp: filter_empty_conv)
      with True Cons.prems(3) show ?thesis by (simp add: owed_def)
    next
      case False
      then have "y \<in> set log" using Cons.prems(2) by simp
      then have "se_position x < se_position y"
        and "owed q acc (se_position y) (se_position y + 1) log = (if acc (sequenced y) then [sequenced y] else [])"
        using Cons by auto
      then show ?thesis by (simp add: owed_def)
    qed
  qed simp
  ultimately show ?thesis using owed_split [OF sorted, of lo "se_position y" "se_position y + 1"] y(3) by simp
qed

section \<open>Invariant\<close>

definition view_ok :: "shared_stream \<Rightarrow> view \<Rightarrow> bool" where
  "view_ok sh v \<longleftrightarrow>
     0 \<le> vw_opened v \<and> vw_opened v \<le> vw_next v \<and> vw_head v \<le> length (vw_buffer v) \<and>
     (vw_next v = vw_opened v \<or> vw_next v \<le> es_nextPosition (sh_store sh)) \<and>
     vw_taken v @ drop (vw_head v) (vw_buffer v) =
       owed (sh_query sh) (vw_accepts v) (vw_opened v) (vw_next v) (es_events (sh_store sh)) \<and>
     (vw_looked v = None \<longrightarrow> vw_next v = vw_opened v) \<and> (\<forall>t. vw_looked v = Some t \<longrightarrow> plain_token t \<and> position t = vw_next v)"

definition stream_at :: "int \<Rightarrow> event_query option \<Rightarrow> event_store \<Rightarrow> nat \<Rightarrow> bool" where
  "stream_at at q s i \<longleftrightarrow>
     0 \<le> at \<and>
     (\<exists>st. map_get (es_streams s) i = Some st \<and> \<not> ms_closed st \<and> ms_cursor st = at \<and>
        (\<forall>m. query_admits q m \<longleftrightarrow> (case ms_criteria st of None \<Rightarrow> True | Some c \<Rightarrow> matchesCriteria m c)))"

definition inner_ok :: "shared_stream \<Rightarrow> bool" where
  "inner_ok sh \<longleftrightarrow>
     (case sh_inner sh of
        None \<Rightarrow> sh_views sh = []
      | Some i \<Rightarrow>
          (\<forall>v \<in> snd ` set (sh_views sh). vw_next v = max (sh_at sh) (vw_skipBelow v)) \<and>
          stream_at (sh_at sh) (sh_query sh) (sh_store sh) i)"

definition wf_shared :: "shared_stream \<Rightarrow> bool" where
  "wf_shared sh \<longleftrightarrow>
     wf_store (sh_store sh) \<and> wf_map (sh_views sh) \<and> (\<forall>k \<in> set (map_keys (sh_views sh)). k < sh_nextView sh) \<and>
     (\<forall>v \<in> snd ` set (sh_views sh). view_ok sh v) \<and> inner_ok sh"

lemma map_views_get: "map_get (sh_views (map_views f sh)) k = map_option f (map_get (sh_views sh) k)"
  by (simp add: map_views_def map_of_map map_comp_def)

lemma map_views_fields [simp]:
  "sh_query (map_views f sh) = sh_query sh" "sh_store (map_views f sh) = sh_store sh" "sh_inner (map_views f sh) = sh_inner sh"
  "sh_at (map_views f sh) = sh_at sh" "sh_nextView (map_views f sh) = sh_nextView sh" "sh_readAhead (map_views f sh) = sh_readAhead sh"
  "map_keys (sh_views (map_views f sh)) = map_keys (sh_views sh)"
  "snd ` set (sh_views (map_views f sh)) = f ` snd ` set (sh_views sh)"
  by (auto simp: map_views_def image_image split_beta)

lemma view_ok_same:
  assumes "sh_query sh' = sh_query sh" "es_events (sh_store sh') = es_events (sh_store sh)"
    "es_nextPosition (sh_store sh') = es_nextPosition (sh_store sh)"
  shows "view_ok sh' v \<longleftrightarrow> view_ok sh v"
  by (simp add: view_ok_def assms)

lemma hand_to_step:
  assumes sorted: "sorted_wrt (<) (map se_position (es_events (sh_store sh)))"
    and v: "view_ok sh v" "vw_next v = max (sh_at sh) (vw_skipBelow v)"
    and y: "y \<in> set (es_events (sh_store sh))" "query_admits (sh_query sh) (se_event y)" "sh_at sh \<le> se_position y"
      "se_position y < es_nextPosition (sh_store sh)"
    and first: "\<And>e. e \<in> set (es_events (sh_store sh)) \<Longrightarrow> sh_at sh \<le> se_position e \<Longrightarrow> query_admits (sh_query sh) (se_event e) \<Longrightarrow>
        se_position y \<le> se_position e"
  shows "view_ok sh (hand_to (sequenced y) v) \<and>
         vw_next (hand_to (sequenced y) v) = max (se_position y + 1) (vw_skipBelow (hand_to (sequenced y) v))"
proof (cases "se_position y < vw_skipBelow v")
  case True
  with v y(3) show ?thesis by (simp add: hand_to_def sequenced_def)
next
  case False
  let ?p = "se_position y + 1" and ?log = "es_events (sh_store sh)"
  have n: "vw_next v \<le> se_position y" "sh_at sh \<le> vw_next v" using False v(2) y(3) by auto
  have "owed (sh_query sh) (vw_accepts v) (vw_opened v) ?p ?log =
      owed (sh_query sh) (vw_accepts v) (vw_opened v) (vw_next v) ?log @ owed (sh_query sh) (vw_accepts v) (vw_next v) ?p ?log"
    using n v(1) by (intro owed_split [OF sorted]) (auto simp: view_ok_def)
  also have "owed (sh_query sh) (vw_accepts v) (vw_next v) ?p ?log = (if vw_accepts v (sequenced y) then [sequenced y] else [])"
    using n first by (intro owed_first [OF sorted y(1,2)]) auto
  finally show ?thesis using v n False y(4)
    by (auto simp: hand_to_def view_ok_def past_event_def sequenced_def Let_def)
qed

lemma stream_first:
  assumes st: "map_get (es_streams s) i = Some st" "\<not> ms_closed st" and nxt: "stream_next i s = (Some e, s')" and wf: "wf_store s"
  shows "\<exists>y. e = sequenced y \<and> y \<in> set (es_events s) \<and> stream_accepts st y \<and>
     (\<forall>x \<in> set (es_events s). stream_accepts st x \<longrightarrow> se_position y \<le> se_position x) \<and>
     s' = s\<lparr>es_streams := map_set i (st\<lparr>ms_cursor := se_position y + 1\<rparr>) (es_streams s)\<rparr>"
proof -
  obtain y ys where y: "filter (stream_accepts st) (es_events s) = y # ys" "e = sequenced y"
    "s' = s\<lparr>es_streams := map_set i (st\<lparr>ms_cursor := se_position y + 1\<rparr>) (es_streams s)\<rparr>"
    using nxt by (auto simp: stream_next_open [OF st] split: list.splits)
  have "sorted_wrt (\<lambda>a b. se_position a < se_position b) (es_events s)" using wf by (simp add: wf_store_def sorted_wrt_map)
  then have "sorted_wrt (\<lambda>a b. se_position a < se_position b) (y # ys)" unfolding y(1) [symmetric] by (rule sorted_wrt_filter)
  then have least: "\<forall>x \<in> set (y # ys). se_position y \<le> se_position x" by auto
  have "x \<in> set (y # ys)" if "x \<in> set (es_events s)" "stream_accepts st x" for x
    using that unfolding y(1) [symmetric] by simp
  then have "\<forall>x \<in> set (es_events s). stream_accepts st x \<longrightarrow> se_position y \<le> se_position x" using least by blast
  moreover have "y \<in> set (filter (stream_accepts st) (es_events s))" by (simp add: y(1))
  then have "y \<in> set (es_events s)" "stream_accepts st y" by simp_all
  ultimately show ?thesis using y(2,3) by blast
qed

lemma wf_read_loop:
  assumes "wf_shared sh" "sh_inner sh = Some i"
  shows "wf_shared (fst (read_loop i sh given)) \<and> sh_inner (fst (read_loop i sh given)) = Some i \<and>
     (\<not> full (fst (read_loop i sh given)) \<longrightarrow> fst (stream_next i (sh_store (fst (read_loop i sh given)))) = None) \<and>
     map_keys (sh_views (fst (read_loop i sh given))) = map_keys (sh_views sh) \<and>
     es_events (sh_store (fst (read_loop i sh given))) = es_events (sh_store sh) \<and>
     es_nextPosition (sh_store (fst (read_loop i sh given))) = es_nextPosition (sh_store sh) \<and>
     (\<forall>k v. map_get (sh_views sh) k = Some v \<longrightarrow>
        (\<exists>v'. map_get (sh_views (fst (read_loop i sh given))) k = Some v' \<and> vw_opened v' = vw_opened v \<and> vw_accepts v' = vw_accepts v \<and>
           vw_taken v' = vw_taken v))"
  using assms
proof (induction i sh given rule: read_loop.induct)
  case (1 i sh given)
  show ?case
  proof (cases "full sh \<or> fst (stream_next i (sh_store sh)) = None")
    case True
    then have "fst (read_loop i sh given) = sh" by (subst read_loop.simps) (auto split: prod.split option.split)
    with 1(2,3) True show ?thesis by auto
  next
    case False
    then obtain e s where nxt: "stream_next i (sh_store sh) = (Some e, s)" by (cases "stream_next i (sh_store sh)") auto
    let ?sh = "(map_views (hand_to e) sh)\<lparr>sh_at := sq_sequence e + 1, sh_store := s\<rparr>"
    let ?given = "given @ filter (\<lambda>k. k \<notin> set given) (map fst (filter (given_to e) (sh_views sh)))"
    have rec: "read_loop i sh given = read_loop i ?sh ?given" using False nxt by (subst read_loop.simps) simp
    from 1(2,3) have wf: "wf_store (sh_store sh)" and io: "inner_ok sh" by (simp_all add: wf_shared_def)
    then obtain st where st: "map_get (es_streams (sh_store sh)) i = Some st" "\<not> ms_closed st" "ms_cursor st = sh_at sh" "0 \<le> sh_at sh"
      and crit: "\<And>m. query_admits (sh_query sh) m \<longleftrightarrow> (case ms_criteria st of None \<Rightarrow> True | Some c \<Rightarrow> matchesCriteria m c)"
      and nx: "\<And>v. v \<in> snd ` set (sh_views sh) \<Longrightarrow> vw_next v = max (sh_at sh) (vw_skipBelow v)"
      using 1(3) by (auto simp: inner_ok_def stream_at_def)
    have acc: "stream_accepts st x \<longleftrightarrow> sh_at sh \<le> se_position x \<and> query_admits (sh_query sh) (se_event x)" for x
      by (auto simp: stream_accepts_def st(3) crit split: option.split)
    from stream_first [OF st(1,2) nxt wf] obtain y where y: "e = sequenced y" "y \<in> set (es_events (sh_store sh))"
      "sh_at sh \<le> se_position y" "query_admits (sh_query sh) (se_event y)"
      "\<And>x. x \<in> set (es_events (sh_store sh)) \<Longrightarrow> sh_at sh \<le> se_position x \<Longrightarrow> query_admits (sh_query sh) (se_event x) \<Longrightarrow> se_position y \<le> se_position x"
      "s = (sh_store sh)\<lparr>es_streams := map_set i (st\<lparr>ms_cursor := se_position y + 1\<rparr>) (es_streams (sh_store sh))\<rparr>"
      by (auto simp: acc)
    have below: "se_position y < es_nextPosition (sh_store sh)" "sorted_wrt (<) (map se_position (es_events (sh_store sh)))"
      using wf y(2) by (auto simp: wf_store_def)
    have step: "view_ok sh (hand_to e v) \<and> vw_next (hand_to e v) = max (se_position y + 1) (vw_skipBelow (hand_to e v))"
      if "v \<in> snd ` set (sh_views sh)" for v
    proof -
      have "view_ok sh v" using 1(2) that unfolding wf_shared_def by blast
      from hand_to_step [OF below(2) this nx [OF that] y(2,4,3) below(1) y(5)] show ?thesis by (simp add: y(1))
    qed
    have sq: "sq_sequence e = se_position y" by (simp add: y(1) sequenced_def)
    have same: "es_events s = es_events (sh_store sh)" "es_nextPosition s = es_nextPosition (sh_store sh)" by (simp_all add: y(6))
    have views: "\<forall>v \<in> snd ` set (sh_views ?sh). view_ok ?sh v \<and> vw_next v = max (sh_at ?sh) (vw_skipBelow v)"
    proof
      fix v' assume "v' \<in> snd ` set (sh_views ?sh)"
      then have "v' \<in> hand_to e ` snd ` set (sh_views sh)" by simp
      then obtain v where v: "v' = hand_to e v" "v \<in> snd ` set (sh_views sh)" by blast
      have "view_ok ?sh v' \<longleftrightarrow> view_ok sh v'" by (rule view_ok_same) (simp_all add: same)
      with step [OF v(2)] v(1) sq show "view_ok ?sh v' \<and> vw_next v' = max (sh_at ?sh) (vw_skipBelow v')" by simp
    qed
    have "\<exists>st'. map_get (es_streams s) i = Some st' \<and> \<not> ms_closed st' \<and> ms_cursor st' = se_position y + 1 \<and> ms_criteria st' = ms_criteria st"
      using st(2) by (simp add: y(6))
    then have "stream_at (sh_at ?sh) (sh_query ?sh) (sh_store ?sh) i"
      using st(4) y(3) sq unfolding stream_at_def by (auto simp: crit)
    then have "inner_ok ?sh" using views 1(3) unfolding inner_ok_def by simp
    moreover have "wf_store (sh_store ?sh)" using wf same by (simp add: wf_store_def)
    moreover have "map_keys (sh_views ?sh) = map_keys (sh_views sh)" "sh_nextView ?sh = sh_nextView sh" by simp_all
    then have "wf_map (sh_views ?sh) \<and> (\<forall>k \<in> set (map_keys (sh_views ?sh)). k < sh_nextView ?sh)"
      using 1(2) unfolding wf_shared_def by metis
    ultimately have wf': "wf_shared ?sh" using views unfolding wf_shared_def by blast
    have "sh_inner ?sh = Some i" using 1(3) by simp
    note IH = 1(1) [OF _ nxt [symmetric] refl wf' this]
    have kept: "vw_opened (hand_to e v) = vw_opened v \<and> vw_accepts (hand_to e v) = vw_accepts v \<and> vw_taken (hand_to e v) = vw_taken v" for v
      by (simp add: hand_to_def Let_def)
    have "map_get (sh_views ?sh) k = map_option (hand_to e) (map_get (sh_views sh) k)" for k by (simp add: map_views_get)
    with IH kept False show ?thesis unfolding rec by (fastforce simp: y(6))
  qed
qed

lemma wf_woken: "wf_shared (sh\<lparr>sh_woken := w\<rparr>) \<longleftrightarrow> wf_shared sh"
proof -
  have "inner_ok (sh\<lparr>sh_woken := w\<rparr>) \<longleftrightarrow> inner_ok sh" by (cases "sh_inner sh") (simp_all add: inner_ok_def)
  moreover have "view_ok (sh\<lparr>sh_woken := w\<rparr>) v \<longleftrightarrow> view_ok sh v" for v by (rule view_ok_same) simp_all
  ultimately show ?thesis by (simp add: wf_shared_def)
qed

lemma fold_call_view: "\<exists>w. fold call_view ks sh = sh\<lparr>sh_woken := w\<rparr>"
proof (induction ks arbitrary: sh)
  case Nil
  show ?case by (rule exI [of _ "sh_woken sh"]) simp
next
  case (Cons k ks)
  obtain w where "call_view k sh = sh\<lparr>sh_woken := w\<rparr>"
  proof (cases "\<exists>v. map_get (sh_views sh) k = Some v \<and> vw_callback v")
    case True
    then show ?thesis by (intro that [of "sh_woken sh @ [k]"]) (auto simp: call_view_def)
  next
    case False
    then show ?thesis by (intro that [of "sh_woken sh"]) (auto simp: call_view_def split: option.split)
  qed
  with Cons.IH [of "sh\<lparr>sh_woken := w\<rparr>"] show ?case by auto
qed

text \<open>What a read leaves: everything read that could be, and every view where it was in what it handed out.\<close>

definition same_view :: "shared_stream \<Rightarrow> shared_stream \<Rightarrow> nat \<Rightarrow> bool" where
  "same_view sh sh' k \<longleftrightarrow>
     (\<forall>v. map_get (sh_views sh) k = Some v \<longrightarrow>
        (\<exists>v'. map_get (sh_views sh') k = Some v' \<and> vw_opened v' = vw_opened v \<and> vw_accepts v' = vw_accepts v \<and> vw_taken v' = vw_taken v))"

lemma read_inv:
  assumes "wf_shared sh"
  shows "wf_shared (read sh) \<and> sh_query (read sh) = sh_query sh \<and> sh_inner (read sh) = sh_inner sh \<and>
     es_events (sh_store (read sh)) = es_events (sh_store sh) \<and> es_nextPosition (sh_store (read sh)) = es_nextPosition (sh_store sh) \<and> same_view sh (read sh) k \<and>
     (\<forall>i. sh_inner sh = Some i \<longrightarrow> \<not> full (read sh) \<longrightarrow> fst (stream_next i (sh_store (read sh))) = None)"
proof (cases "sh_inner sh")
  case None
  with assms show ?thesis by (simp add: read_def same_view_def)
next
  case (Some i)
  obtain sh' given where l: "read_loop i sh [] = (sh', given)" by fastforce
  obtain w where w: "read sh = sh'\<lparr>sh_woken := w\<rparr>" using fold_call_view [of given sh'] Some l by (auto simp: read_def)
  have q: "sh_query (fst (read_loop i sh gs)) = sh_query sh" for sh gs
    by (induction i sh gs rule: read_loop.induct) (subst read_loop.simps, auto split: prod.split option.split)
  show ?thesis using wf_read_loop [OF assms Some, of "[]"] q [of sh "[]"] Some l
    by (simp add: w wf_woken same_view_def full_def)
qed

lemma wf_shared_view: "wf_shared sh \<Longrightarrow> map_get (sh_views sh) k = Some v \<Longrightarrow> view_ok sh v"
  unfolding wf_shared_def by (force dest: map_of_SomeD)

lemma snd_map_set: "snd ` set (map_set k v m) \<subseteq> insert v (snd ` set m)"
  by (induction m) auto

lemma inner_ok_views:
  assumes "inner_ok sh" "sh_inner sh = Some i" "\<forall>v \<in> snd ` set m. vw_next v = max (sh_at sh) (vw_skipBelow v)"
  shows "inner_ok (sh\<lparr>sh_views := m\<rparr>)"
proof -
  have "stream_at (sh_at sh) (sh_query sh) (sh_store sh) i" using assms(1,2) by (simp add: inner_ok_def)
  moreover have eqs: "sh_inner (sh\<lparr>sh_views := m\<rparr>) = Some i" "sh_views (sh\<lparr>sh_views := m\<rparr>) = m" "sh_at (sh\<lparr>sh_views := m\<rparr>) = sh_at sh"
    "sh_query (sh\<lparr>sh_views := m\<rparr>) = sh_query sh" "sh_store (sh\<lparr>sh_views := m\<rparr>) = sh_store sh"
    using assms(2) by simp_all
  ultimately show ?thesis using assms(3) unfolding inner_ok_def eqs option.case by blast
qed

lemma inner_ok_nextView: "inner_ok (sh\<lparr>sh_nextView := n\<rparr>) \<longleftrightarrow> inner_ok sh"
  by (cases "sh_inner sh") (simp_all add: inner_ok_def)

lemma wf_set_view:
  assumes wf: "wf_shared sh" and k: "map_get (sh_views sh) k = Some v"
    and v': "view_ok sh v'" "vw_next v' = vw_next v" "vw_skipBelow v' = vw_skipBelow v"
  shows "wf_shared (set_view k v' sh)"
proof -
  have vin: "v \<in> snd ` set (sh_views sh)" using map_of_SomeD [OF k] by force
  have keys: "map_keys (map_set k v' (sh_views sh)) = map_keys (sh_views sh)"
    using alist.keys_set [of k v' "sh_views sh"] alist.keys_get [of k "sh_views sh"] k by simp
  have sub: "snd ` set (map_set k v' (sh_views sh)) \<subseteq> insert v' (snd ` set (sh_views sh))" by (rule snd_map_set)
  have "\<forall>x \<in> insert v' (snd ` set (sh_views sh)). view_ok (set_view k v' sh) x"
    using wf v'(1) unfolding wf_shared_def by (auto simp: set_view_def view_ok_def)
  then have views: "\<forall>x \<in> snd ` set (sh_views (set_view k v' sh)). view_ok (set_view k v' sh) x"
  proof -
    have "sh_views (set_view k v' sh) = map_set k v' (sh_views sh)" by (simp add: set_view_def)
    with sub have "snd ` set (sh_views (set_view k v' sh)) \<subseteq> insert v' (snd ` set (sh_views sh))" by simp
    then show ?thesis using \<open>\<forall>x \<in> insert v' (snd ` set (sh_views sh)). view_ok (set_view k v' sh) x\<close> by blast
  qed
  have "inner_ok (set_view k v' sh)"
  proof (cases "sh_inner sh")
    case None
    with wf k show ?thesis by (simp add: wf_shared_def inner_ok_def)
  next
    case (Some i)
    then have "\<forall>x \<in> insert v' (snd ` set (sh_views sh)). vw_next x = max (sh_at sh) (vw_skipBelow x)"
      using wf v' vin unfolding wf_shared_def inner_ok_def by auto
    then have "\<forall>x \<in> snd ` set (map_set k v' (sh_views sh)). vw_next x = max (sh_at sh) (vw_skipBelow x)" using sub by blast
    moreover have "inner_ok sh" using wf unfolding wf_shared_def by blast
    ultimately show ?thesis unfolding set_view_def by (intro inner_ok_views [OF _ Some])
  qed
  moreover have "wf_store (sh_store (set_view k v' sh))" "sh_nextView (set_view k v' sh) = sh_nextView sh"
    "map_keys (sh_views (set_view k v' sh)) = map_keys (sh_views sh)"
    using wf keys by (simp_all add: set_view_def wf_shared_def)
  moreover have "wf_map (sh_views sh)" "\<forall>k \<in> set (map_keys (sh_views sh)). k < sh_nextView sh"
    using wf unfolding wf_shared_def by blast+
  ultimately show ?thesis using views unfolding wf_shared_def by metis
qed

lemma fill_inv:
  assumes "wf_shared sh"
  shows "wf_shared (fill k sh) \<and> sh_query (fill k sh) = sh_query sh \<and> es_events (sh_store (fill k sh)) = es_events (sh_store sh) \<and>
     es_nextPosition (sh_store (fill k sh)) = es_nextPosition (sh_store sh) \<and> same_view sh (fill k sh) j"
  using read_inv [OF assms, of j] assms by (auto simp: fill_def same_view_def split: option.split)

lemma wf_take_view: "wf_shared sh \<Longrightarrow> wf_shared (snd (take_view k sh))"
proof -
  assume wf: "wf_shared sh"
  let ?sh = "fill k sh"
  have wf1: "wf_shared ?sh" using fill_inv [OF wf] by blast
  show ?thesis
  proof (cases "map_get (sh_views ?sh) k")
    case None
    with wf1 show ?thesis by (simp add: take_view_def Let_def)
  next
    case (Some v)
    show ?thesis
    proof (cases "ready v = 0")
      case True
      with wf1 Some show ?thesis by (simp add: take_view_def Let_def)
    next
      case False
      let ?e = "vw_buffer v ! vw_head v"
      let ?v = "v\<lparr>vw_head := Suc (vw_head v), vw_taken := vw_taken v @ [?e]\<rparr>"
      let ?v' = "if vw_head ?v = length (vw_buffer ?v) then ?v\<lparr>vw_buffer := [], vw_head := 0\<rparr> else ?v"
      have h: "vw_head v < length (vw_buffer v)" using False by (simp add: ready_def)
      have "view_ok ?sh v" by (rule wf_shared_view [OF wf1 Some])
      moreover have "?e # drop (Suc (vw_head v)) (vw_buffer v) = drop (vw_head v) (vw_buffer v)" using h by (rule Cons_nth_drop_Suc)
      ultimately have "view_ok ?sh ?v'" using h by (auto simp: view_ok_def)
      from wf_set_view [OF wf1 Some this] Some False show ?thesis by (simp add: take_view_def Let_def)
    qed
  qed
qed

lemma wf_setCallback: "wf_shared sh \<Longrightarrow> wf_shared (view_setCallback k sh)"
proof -
  assume wf: "wf_shared sh"
  show ?thesis
  proof (cases "map_get (sh_views sh) k")
    case (Some v)
    have "view_ok sh (v\<lparr>vw_callback := True\<rparr>)" using wf_shared_view [OF wf Some]
      by (cases "vw_looked v") (simp_all add: view_ok_def)
    from wf_set_view [OF wf Some this] Some show ?thesis by (simp add: view_setCallback_def)
  qed (simp add: wf view_setCallback_def)
qed

lemma close_inner_fields [simp]:
  "sh_query (close_inner sh) = sh_query sh" "sh_views (close_inner sh) = sh_views sh" "sh_inner (close_inner sh) = None"
  "sh_nextView (close_inner sh) = sh_nextView sh" "es_events (sh_store (close_inner sh)) = es_events (sh_store sh)"
  "es_nextPosition (sh_store (close_inner sh)) = es_nextPosition (sh_store sh)"
  by (simp_all add: close_inner_def stream_close_def update_stream_def split: option.split)

lemma wf_sharedI:
  "wf_store (sh_store sh) \<Longrightarrow> wf_map (sh_views sh) \<Longrightarrow> (\<And>k. k \<in> set (map_keys (sh_views sh)) \<Longrightarrow> k < sh_nextView sh) \<Longrightarrow>
   (\<And>v. v \<in> snd ` set (sh_views sh) \<Longrightarrow> view_ok sh v) \<Longrightarrow> inner_ok sh \<Longrightarrow> wf_shared sh"
  unfolding wf_shared_def by blast

lemma wf_sharedD:
  assumes "wf_shared sh"
  shows "wf_store (sh_store sh)" "wf_map (sh_views sh)" "\<And>k. k \<in> set (map_keys (sh_views sh)) \<Longrightarrow> k < sh_nextView sh"
    "\<And>v. v \<in> snd ` set (sh_views sh) \<Longrightarrow> view_ok sh v" "inner_ok sh"
  using assms unfolding wf_shared_def by blast+

lemma lowest_view_spec:
  "lowest_view vs best = Some from \<Longrightarrow>
   (from \<in> snd ` set vs \<or> best = Some from) \<and> (\<forall>v \<in> snd ` set vs. vw_next from \<le> vw_next v) \<and>
   (\<forall>b. best = Some b \<longrightarrow> vw_next from \<le> vw_next b)"
proof (induction vs arbitrary: best)
  case (Cons iv vs)
  obtain i v where iv: "iv = (i, v)" by fastforce
  let ?best = "case best of None \<Rightarrow> Some v | Some b \<Rightarrow> if vw_next v < vw_next b then Some v else Some b"
  have "lowest_view vs ?best = Some from" using Cons.prems iv by simp
  from Cons.IH [OF this] iv show ?case by (cases best) (auto split: if_splits)
qed simp

lemma lowest_view_None: "lowest_view vs best = None \<longleftrightarrow> vs = [] \<and> best = None"
proof (induction vs arbitrary: best)
  case (Cons iv vs)
  then show ?case by (cases iv) (simp split: option.split)
qed simp

text \<open>Where the views stand after a reopen: those ahead of it skip what they have seen.\<close>

lemma wf_reopen:
  assumes wf: "wf_store (sh_store sh)" "wf_map (sh_views sh)" "\<And>k. k \<in> set (map_keys (sh_views sh)) \<Longrightarrow> k < sh_nextView sh"
    and ok: "\<And>v. v \<in> snd ` set (sh_views sh) \<Longrightarrow> view_ok sh v" and r: "reopen sh = Inr sh'"
  shows "wf_shared sh' \<and> same_view sh sh' k \<and> es_events (sh_store sh') = es_events (sh_store sh) \<and> sh_query sh' = sh_query sh"
proof (cases "lowest_view (sh_views sh) None")
  case None
  then have "sh_views sh = []" "sh' = close_inner sh" using r by (auto simp: reopen_def Let_def lowest_view_None)
  moreover have "wf_store (sh_store (close_inner sh))" using wf(1) by (simp add: wf_store_def)
  ultimately show ?thesis by (auto intro!: wf_sharedI simp: inner_ok_def same_view_def)
next
  case (Some fr)
  note low = lowest_view_spec [OF Some]
  let ?f = "\<lambda>v. v\<lparr>vw_skipBelow := (if vw_next v > vw_next fr then vw_next v else 0)\<rparr>"
  let ?sh1 = "close_inner sh"
  let ?sh2 = "(map_views ?f ?sh1)\<lparr>sh_at := vw_next fr\<rparr>"
  obtain i s where o: "open_stream (sh_store ?sh2) \<lparr>str_position = vw_next fr, str_query = sh_query ?sh2\<rparr> = Inr (i, s)"
    and sh': "sh' = ?sh2\<lparr>sh_inner := Some i, sh_store := stream_setCallback i s\<rparr>"
    using r Some by (auto simp: reopen_def Let_def split: sum.splits)
  obtain cr where cr: "case sh_query sh of None \<Rightarrow> cr = None | Some q \<Rightarrow> (\<exists>c. compileQuery q = Inr c \<and> cr = Some c)"
    and s: "s = (sh_store ?sh1)\<lparr>es_streams := map_set i \<lparr>ms_cursor = vw_next fr, ms_criteria = cr, ms_callback = False, ms_closed = False\<rparr>
       (es_streams (sh_store ?sh1)), es_listeners := es_listeners (sh_store ?sh1) @ [i]\<rparr>"
    using o by (auto simp: open_stream_def throw_simps Let_def split: option.splits sum.splits)
  have st: "map_get (es_streams (sh_store sh')) i = Some \<lparr>ms_cursor = vw_next fr, ms_criteria = cr, ms_callback = True, ms_closed = False\<rparr>"
    "es_events (sh_store sh') = es_events (sh_store sh)" "es_nextPosition (sh_store sh') = es_nextPosition (sh_store sh)"
    by (simp_all add: sh' stream_setCallback_def update_stream_def s)
  have frm: "fr \<in> snd ` set (sh_views sh)" using low by simp
  then have pos: "0 \<le> vw_next fr" using ok [of fr] by (simp add: view_ok_def)
  have views: "snd ` set (sh_views sh') = ?f ` snd ` set (sh_views sh)" "map_keys (sh_views sh') = map_keys (sh_views sh)"
    "sh_nextView sh' = sh_nextView sh" "sh_query sh' = sh_query sh" "sh_inner sh' = Some i" "sh_at sh' = vw_next fr"
    by (simp_all add: sh')
  have "view_ok sh' (?f v) \<and> vw_next (?f v) = max (sh_at sh') (vw_skipBelow (?f v))" if "v \<in> snd ` set (sh_views sh)" for v
    using ok [OF that] low that pos st(2,3) views(4,6) by (auto simp: view_ok_def)
  then have each: "view_ok sh' v' \<and> vw_next v' = max (sh_at sh') (vw_skipBelow v')" if "v' \<in> snd ` set (sh_views sh')" for v'
    using that unfolding views(1) by blast
  have "query_admits (sh_query sh') m \<longleftrightarrow> (case cr of None \<Rightarrow> True | Some c \<Rightarrow> matchesCriteria m c)" for m
    using cr views(4) by (auto simp: query_admits_def split: option.splits)
  then have "stream_at (sh_at sh') (sh_query sh') (sh_store sh') i" using st(1) pos views(6) by (simp add: stream_at_def)
  then have "inner_ok sh'" using each unfolding inner_ok_def views(5) option.case by blast
  moreover have "wf_store (sh_store sh')" using wf(1) st(2,3) by (simp add: wf_store_def)
  ultimately have "wf_shared sh'" using wf(2,3) each views(2,3) by (intro wf_sharedI) metis+
  moreover have "map_get (sh_views sh') j = map_option ?f (map_get (sh_views sh) j)" for j
    by (simp add: sh' map_views_get)
  ultimately show ?thesis using st(2) views(4) by (auto simp: same_view_def)
qed

lemma map_set_fresh: "k \<notin> set (map_keys m) \<Longrightarrow> map_set k v m = m @ [(k, v)]"
  by (induction m) auto

lemma map_set_last: "k \<notin> fst ` set m \<Longrightarrow> map_set k w (m @ [(k, v)]) = m @ [(k, w)]"
  by (induction m) auto

lemma wf_open_view:
  assumes wf: "wf_shared sh" and pos: "0 \<le> pos" and o: "open_view pos token accepts sh = Inr (k, sh')"
  shows "wf_shared sh'"
proof -
  let ?v = "\<lparr>vw_next = pos, vw_skipBelow = 0, vw_resume = token, vw_looked = None, vw_accepts = accepts,
       vw_buffer = [], vw_head = 0, vw_callback = False, vw_opened = pos, vw_taken = []\<rparr>"
  let ?w = "?v\<lparr>vw_skipBelow := pos\<rparr>"
  let ?k = "sh_nextView sh"
  let ?sh1 = "(set_view ?k ?v sh)\<lparr>sh_nextView := Suc ?k\<rparr>"
  have fresh: "?k \<notin> set (map_keys (sh_views sh))" using wf_sharedD(3) [OF wf] by blast
  then have snoc: "map_set ?k x (sh_views sh) = sh_views sh @ [(?k, x)]" for x by (rule map_set_fresh)
  have ok: "view_ok sh ?v" "view_ok sh ?w" using pos by (simp_all add: view_ok_def)
  have okc: "view_ok ?sh1 u \<longleftrightarrow> view_ok sh u" for u by (rule view_ok_same) (simp_all add: set_view_def)
  have vs: "sh_views ?sh1 = sh_views sh @ [(?k, ?v)]" by (simp add: set_view_def snoc)
  have pre: "wf_store (sh_store ?sh1)" "wf_map (sh_views ?sh1)" "\<And>j. j \<in> set (map_keys (sh_views ?sh1)) \<Longrightarrow> j < sh_nextView ?sh1"
    using wf_sharedD(1-3) [OF wf] fresh unfolding vs by (auto simp: set_view_def dest: less_SucI)
  have views: "\<And>u. u \<in> snd ` set (sh_views ?sh1) \<Longrightarrow> view_ok ?sh1 u"
    using wf_sharedD(4) [OF wf] ok(1) unfolding vs okc by auto
  show ?thesis
  proof (cases "sh_inner sh = None \<or> pos < sh_at sh")
    case True
    then have "reopen ?sh1 = Inr sh'" using o by (auto simp: open_view_def Let_def set_view_def split: sum.splits)
    from wf_reopen [OF pre views this] show ?thesis by blast
  next
    case False
    then obtain i where i: "sh_inner sh = Some i" "sh_at sh \<le> pos" by auto
    let ?sh2 = "sh\<lparr>sh_views := sh_views sh @ [(?k, ?w)], sh_nextView := Suc ?k\<rparr>"
    have "sh' = set_view ?k ?w ?sh1" using o False by (auto simp: open_view_def Let_def set_view_def)
    then have sh': "sh' = ?sh2" using fresh by (simp add: set_view_def snoc map_set_last)
    have ok2: "view_ok ?sh2 u \<longleftrightarrow> view_ok sh u" for u by (rule view_ok_same) simp_all
    have "\<forall>u \<in> snd ` set (sh_views sh @ [(?k, ?w)]). vw_next u = max (sh_at sh) (vw_skipBelow u)"
      using wf_sharedD(5) [OF wf] i unfolding inner_ok_def i(1) option.case by auto
    from inner_ok_views [OF wf_sharedD(5) [OF wf] i(1) this] have "inner_ok ?sh2" unfolding inner_ok_nextView .
    moreover have "\<And>u. u \<in> snd ` set (sh_views ?sh2) \<Longrightarrow> view_ok ?sh2 u"
      using wf_sharedD(4) [OF wf] ok(2) unfolding ok2 by auto
    ultimately show ?thesis unfolding sh' using pre unfolding vs by (intro wf_sharedI) (auto simp: set_view_def)
  qed
qed

lemma wf_close_view:
  assumes wf: "wf_shared sh"
  shows "wf_shared (close_view k sh)"
proof -
  let ?m = "map_delete k (sh_views sh)"
  let ?sh = "sh\<lparr>sh_views := ?m\<rparr>"
  have sub: "set ?m \<subseteq> set (sh_views sh)" by (auto simp: AList.delete_eq)
  have ok: "view_ok ?sh v \<longleftrightarrow> view_ok sh v" for v by (rule view_ok_same) simp_all
  have wfm: "wf_map ?m" using alist.wf_del [OF wf_sharedD(2) [OF wf]] .
  have keys: "\<And>j. j \<in> set (map_keys ?m) \<Longrightarrow> j < sh_nextView sh" using wf_sharedD(3) [OF wf] sub by fastforce
  have each: "\<And>v. v \<in> snd ` set ?m \<Longrightarrow> v \<in> snd ` set (sh_views sh)" using sub by auto
  show ?thesis
  proof (cases "?m = []")
    case True
    have "wf_store (sh_store (close_inner ?sh))" using wf_sharedD(1) [OF wf] by (simp add: wf_store_def)
    then show ?thesis using True by (auto intro!: wf_sharedI simp: close_view_def Let_def inner_ok_def)
  next
    case False
    then have "sh_views sh \<noteq> []" by auto
    then obtain i where i: "sh_inner sh = Some i" using wf_sharedD(5) [OF wf] by (cases "sh_inner sh") (auto simp: inner_ok_def)
    have "\<forall>v \<in> snd ` set ?m. vw_next v = max (sh_at sh) (vw_skipBelow v)"
      using wf_sharedD(5) [OF wf] each unfolding inner_ok_def i option.case by blast
    from inner_ok_views [OF wf_sharedD(5) [OF wf] i this] have "inner_ok ?sh" .
    then have "wf_shared ?sh" using wf_sharedD(1,4) [OF wf] wfm keys each by (intro wf_sharedI) (auto simp: ok)
    then show ?thesis using False by (simp add: close_view_def Let_def)
  qed
qed

text \<open>Events appended meanwhile come after everything a view has looked at.\<close>

lemma owed_append:
  assumes "hi \<le> lo \<or> (\<forall>e \<in> set new. hi \<le> se_position e)"
  shows "owed q acc lo hi (log @ new) = owed q acc lo hi log"
  using assms by (auto simp: owed_def filter_empty_conv)

lemma wf_log_grows:
  assumes wf: "wf_shared sh" and a: "append (sh_store sh) es c = Inr (m, s')"
  shows "wf_shared (sh\<lparr>sh_store := s'\<rparr>)"
proof -
  let ?s = "sh_store sh" and ?sh = "sh\<lparr>sh_store := s'\<rparr>"
  have s': "es_events s' = es_events ?s @ number_from (es_nextPosition ?s) es" "es_nextPosition s' = es_nextPosition ?s + int (length es)"
    "es_streams s' = es_streams ?s"
    using a by (auto simp: append_def throw_simps Let_def log_simps)
  have new: "\<forall>e \<in> set (number_from (es_nextPosition ?s) es). es_nextPosition ?s \<le> se_position e" using set_number_from by blast
  have ok: "view_ok ?sh v" if "view_ok sh v" for v
  proof -
    have "vw_next v \<le> vw_opened v \<or> (\<forall>e \<in> set (number_from (es_nextPosition ?s) es). vw_next v \<le> se_position e)"
      using that new by (fastforce simp: view_ok_def)
    from owed_append [OF this, of "sh_query sh" "vw_accepts v" "es_events ?s"] that s' show ?thesis by (auto simp: view_ok_def)
  qed
  have "inner_ok ?sh"
  proof (cases "sh_inner sh")
    case None
    then show ?thesis using wf_sharedD(5) [OF wf] by (simp add: inner_ok_def)
  next
    case (Some i)
    have "stream_at (sh_at sh) (sh_query sh) ?s i" using wf_sharedD(5) [OF wf] by (simp add: inner_ok_def Some)
    then have "stream_at (sh_at sh) (sh_query sh) s' i" by (simp add: stream_at_def s'(3))
    then show ?thesis using wf_sharedD(5) [OF wf] by (simp add: inner_ok_def Some)
  qed
  moreover have "wf_store s'" using wf_append [OF wf_sharedD(1) [OF wf] a] .
  ultimately show ?thesis using wf_sharedD(2-4) [OF wf] ok by (intro wf_sharedI) auto
qed

text \<open>Everything the segments of a node and the writers of the log can do, in any order.\<close>

inductive shared_reachable :: "shared_stream \<Rightarrow> bool" where
  sr_init: "reachable_store s \<Longrightarrow> shared_reachable (sharedStream s q n)"
| sr_open: "shared_reachable sh \<Longrightarrow> 0 \<le> pos \<Longrightarrow> open_view pos token accepts sh = Inr (k, sh') \<Longrightarrow> shared_reachable sh'"
| sr_take: "shared_reachable sh \<Longrightarrow> shared_reachable (snd (take_view k sh))"
| sr_peek: "shared_reachable sh \<Longrightarrow> shared_reachable (snd (peek_view k sh))"
| sr_hasNext: "shared_reachable sh \<Longrightarrow> shared_reachable (snd (view_hasNextAvailable k sh))"
| sr_callback: "shared_reachable sh \<Longrightarrow> shared_reachable (view_setCallback k sh)"
| sr_close: "shared_reachable sh \<Longrightarrow> shared_reachable (close_view k sh)"
| sr_append: "shared_reachable sh \<Longrightarrow> append (sh_store sh) es c = Inr (m, s') \<Longrightarrow> shared_reachable (sh\<lparr>sh_store := s'\<rparr>)"

lemma shared_reachable_wf: "shared_reachable sh \<Longrightarrow> wf_shared sh"
proof (induction rule: shared_reachable.induct)
  case (sr_init s q n)
  then show ?case using reachable_wf [OF sr_init] by (intro wf_sharedI) (simp_all add: sharedStream_def inner_ok_def)
next
  case (sr_peek sh k)
  have "snd (peek_view k sh) = fill k sh" by (simp add: peek_view_def Let_def split: option.split)
  with fill_inv [OF sr_peek.IH] show ?case by simp
next
  case (sr_hasNext sh k)
  have "snd (view_hasNextAvailable k sh) = fill k sh" by (simp add: view_hasNextAvailable_def Let_def)
  with fill_inv [OF sr_hasNext.IH] show ?case by simp
qed (blast intro: wf_open_view wf_take_view wf_setCallback wf_close_view wf_log_grows)+

text \<open>After a read that did not stop for a full view nothing is owed past where a view is.\<close>

lemma read_exhausts:
  assumes wf: "wf_shared sh" and i: "sh_inner sh = Some i" and none: "fst (stream_next i (sh_store sh)) = None"
    and v: "v \<in> snd ` set (sh_views sh)"
  shows "owed (sh_query sh) (vw_accepts v) (vw_opened v) hi (es_events (sh_store sh)) =
         owed (sh_query sh) (vw_accepts v) (vw_opened v) (min hi (vw_next v)) (es_events (sh_store sh))"
proof (cases "hi \<le> vw_next v")
  case False
  have "stream_at (sh_at sh) (sh_query sh) (sh_store sh) i" using wf_sharedD(5) [OF wf] by (simp add: inner_ok_def i)
  then obtain st where st: "map_get (es_streams (sh_store sh)) i = Some st" "\<not> ms_closed st" "ms_cursor st = sh_at sh"
    "\<And>m. query_admits (sh_query sh) m \<longleftrightarrow> (case ms_criteria st of None \<Rightarrow> True | Some c \<Rightarrow> matchesCriteria m c)"
    by (auto simp: stream_at_def)
  have "filter (stream_accepts st) (es_events (sh_store sh)) = []"
    using none by (auto simp: stream_next_open [OF st(1,2)] split: list.splits)
  then have none_left: "\<not> query_admits (sh_query sh) (se_event e)" if "e \<in> set (es_events (sh_store sh))" "sh_at sh \<le> se_position e" for e
    using that st(3,4) by (auto simp: filter_empty_conv stream_accepts_def split: option.splits)
  have "vw_next v = max (sh_at sh) (vw_skipBelow v)" using wf_sharedD(5) [OF wf] v unfolding inner_ok_def i option.case by blast
  then have past: "sh_at sh \<le> vw_next v" by simp
  have "owed (sh_query sh) (vw_accepts v) (vw_next v) hi (es_events (sh_store sh)) = []"
  proof (rule owed_none)
    fix e assume e: "e \<in> set (es_events (sh_store sh))" "vw_next v \<le> se_position e"
    show "\<not> query_admits (sh_query sh) (se_event e)"
      using none_left [OF e(1)] past e(2) by linarith
  qed
  moreover have "vw_opened v \<le> vw_next v" "sorted_wrt (<) (map se_position (es_events (sh_store sh)))"
    using wf_sharedD(4) [OF wf v] wf_sharedD(1) [OF wf] by (auto simp: view_ok_def wf_store_def)
  ultimately show ?thesis using owed_split [of "es_events (sh_store sh)" "vw_opened v" "vw_next v" hi] False by simp
qed simp

lemma ready_drop: "view_ok sh v \<Longrightarrow> ready v = 0 \<longleftrightarrow> drop (vw_head v) (vw_buffer v) = []"
  by (auto simp: ready_def view_ok_def)

lemma exhausted_all:
  assumes wf: "wf_shared sh" and i: "sh_inner sh = Some i" and none: "fst (stream_next i (sh_store sh)) = None"
    and k: "map_get (sh_views sh) k = Some v" and r: "ready v = 0"
  shows "vw_taken v = owed (sh_query sh) (vw_accepts v) (vw_opened v) (es_nextPosition (sh_store sh)) (es_events (sh_store sh))"
proof -
  let ?n = "es_nextPosition (sh_store sh)"
  have ok: "view_ok sh v" by (rule wf_shared_view [OF wf k])
  have taken: "vw_taken v = owed (sh_query sh) (vw_accepts v) (vw_opened v) (vw_next v) (es_events (sh_store sh))"
    using ok ready_drop [OF ok] r by (simp add: view_ok_def)
  have "v \<in> snd ` set (sh_views sh)" using map_of_SomeD [OF k] by force
  note all = read_exhausts [OF wf i none this, of ?n]
  show ?thesis
  proof (cases "vw_next v \<le> ?n")
    case True
    with all taken show ?thesis by (simp add: min_def split: if_splits)
  next
    case False
    then have "vw_next v = vw_opened v" using ok by (auto simp: view_ok_def)
    then show ?thesis using taken False by (auto simp: owed_def filter_empty_conv)
  qed
qed

text \<open>How far a stream says it has looked is a plain token, and it has handed out everything up to there.\<close>

lemma progress_exact:
  assumes wf: "wf_shared sh" and k: "map_get (sh_views sh) k = Some v" and t: "view_progressToken k sh = Some t"
  shows "plain_token t \<and> vw_taken v = owed (sh_query sh) (vw_accepts v) (vw_opened v) (position t) (es_events (sh_store sh)) \<and>
    (position t = vw_opened v \<or> position t \<le> es_nextPosition (sh_store sh))"
proof -
  have ok: "view_ok sh v" by (rule wf_shared_view [OF wf k])
  have r: "ready v = 0" using k t by (simp add: view_progressToken_def split: if_splits)
  have taken: "vw_taken v = owed (sh_query sh) (vw_accepts v) (vw_opened v) (vw_next v) (es_events (sh_store sh))"
    using ok ready_drop [OF ok] r by (simp add: view_ok_def)
  consider (looked) "vw_looked v = Some t"
    | (beyond) i where "sh_inner sh = Some i" "\<not> stream_hasNextAvailable i (sh_store sh)" "stream_progressToken i (sh_store sh) = Some t"
    using k t r by (auto simp: view_progressToken_def Let_def split: option.splits if_splits)
  then show ?thesis
  proof cases
    case looked
    with taken ok show ?thesis by (simp add: view_ok_def)
  next
    case (beyond i)
    have "fst (stream_next i (sh_store sh)) = None" using beyond(2) by (simp add: stream_hasNextAvailable_def stream_next_def)
    from exhausted_all [OF wf beyond(1) this k r]
    show ?thesis using beyond(3) by (auto simp: stream_progressToken_def split: option.splits if_splits)
  qed
qed

section \<open>What the operations do to the other views\<close>

text \<open>\<open>keeps\<close>: the same log is read, and a view is where it was in what it handed out.\<close>

definition keeps :: "shared_stream \<Rightarrow> shared_stream \<Rightarrow> nat \<Rightarrow> bool" where
  "keeps sh sh' k \<longleftrightarrow> sh_query sh' = sh_query sh \<and> es_events (sh_store sh') = es_events (sh_store sh) \<and>
     es_nextPosition (sh_store sh') = es_nextPosition (sh_store sh) \<and> same_view sh sh' k"

lemma keeps_refl [simp]: "keeps sh sh k"
  by (simp add: keeps_def same_view_def)

lemma keeps_trans: "keeps a b k \<Longrightarrow> keeps b d k \<Longrightarrow> keeps a d k"
  unfolding keeps_def same_view_def by (metis (no_types, lifting))

lemma keeps_fill: "wf_shared sh \<Longrightarrow> wf_shared (fill k sh) \<and> keeps sh (fill k sh) j"
  using fill_inv [of sh k j] by (simp add: keeps_def)

lemma hasNext_keeps:
  assumes "wf_shared sh" "view_hasNextAvailable k sh = (b, sh')"
  shows "wf_shared sh' \<and> keeps sh sh' j"
  using assms keeps_fill [OF assms(1), of k j] by (auto simp: view_hasNextAvailable_def Let_def)

lemma take_view_effect:
  assumes wf: "wf_shared sh" and k: "map_get (sh_views sh) k = Some v" and t: "take_view k sh = (ev, sh')"
  shows "wf_shared sh'" "j \<noteq> k \<Longrightarrow> keeps sh sh' j" "sh_query sh' = sh_query sh" "es_events (sh_store sh') = es_events (sh_store sh)"
    "es_nextPosition (sh_store sh') = es_nextPosition (sh_store sh)"
    "\<exists>v'. map_get (sh_views sh') k = Some v' \<and> vw_opened v' = vw_opened v \<and> vw_accepts v' = vw_accepts v \<and>
       vw_taken v' = vw_taken v @ (case ev of None \<Rightarrow> [] | Some e \<Rightarrow> [e])"
proof -
  show "wf_shared sh'" using wf_take_view [OF wf, of k] t by simp
  let ?sh = "fill k sh"
  have f: "keeps sh ?sh j" for j using keeps_fill [OF wf] by blast
  then obtain v1 where v1: "map_get (sh_views ?sh) k = Some v1" "vw_opened v1 = vw_opened v" "vw_accepts v1 = vw_accepts v"
    "vw_taken v1 = vw_taken v" using k by (fastforce simp: keeps_def same_view_def)
  have eff: "(ev = None \<and> sh' = ?sh) \<or>
      (\<exists>e v2. ev = Some e \<and> sh' = set_view k v2 ?sh \<and> vw_opened v2 = vw_opened v1 \<and> vw_accepts v2 = vw_accepts v1 \<and> vw_taken v2 = vw_taken v1 @ [e])"
  proof (cases "ready v1 = 0")
    case True
    then show ?thesis using t v1(1) by (simp add: take_view_def)
  next
    case False
    let ?v2 = "v1\<lparr>vw_head := Suc (vw_head v1), vw_taken := vw_taken v1 @ [vw_buffer v1 ! vw_head v1]\<rparr>"
    have "ev = Some (vw_buffer v1 ! vw_head v1)"
      "sh' = set_view k (if vw_head ?v2 = length (vw_buffer ?v2) then ?v2\<lparr>vw_buffer := [], vw_head := 0\<rparr> else ?v2) ?sh"
      using t v1(1) False by (simp_all add: take_view_def Let_def)
    then show ?thesis by (intro disjI2 exI conjI) (assumption | simp)+
  qed
  show "j \<noteq> k \<Longrightarrow> keeps sh sh' j" "sh_query sh' = sh_query sh" "es_events (sh_store sh') = es_events (sh_store sh)"
    "es_nextPosition (sh_store sh') = es_nextPosition (sh_store sh)"
    using eff f [of j] by (auto simp: keeps_def same_view_def set_view_def)
  show "\<exists>v'. map_get (sh_views sh') k = Some v' \<and> vw_opened v' = vw_opened v \<and> vw_accepts v' = vw_accepts v \<and>
       vw_taken v' = vw_taken v @ (case ev of None \<Rightarrow> [] | Some e \<Rightarrow> [e])"
    using eff v1 by (auto simp: set_view_def)
qed

lemma close_view_keeps:
  assumes "wf_shared sh"
  shows "wf_shared (close_view k sh)" "j \<noteq> k \<Longrightarrow> keeps sh (close_view k sh) j"
proof -
  show "wf_shared (close_view k sh)" by (rule wf_close_view [OF assms])
  have "sh_views (close_view k sh) = map_delete k (sh_views sh)" "sh_query (close_view k sh) = sh_query sh"
    "es_events (sh_store (close_view k sh)) = es_events (sh_store sh)"
    "es_nextPosition (sh_store (close_view k sh)) = es_nextPosition (sh_store sh)"
    by (simp_all add: close_view_def Let_def)
  then show "j \<noteq> k \<Longrightarrow> keeps sh (close_view k sh) j" by (simp add: keeps_def same_view_def)
qed

lemma setCallback_keeps:
  assumes "wf_shared sh"
  shows "wf_shared (view_setCallback k sh) \<and> keeps sh (view_setCallback k sh) j"
  using wf_setCallback [OF assms, of k] by (auto simp: view_setCallback_def keeps_def same_view_def set_view_def split: option.split)

lemma reopen_keeps: "reopen sh = Inr sh' \<Longrightarrow> keeps sh sh' k"
  by (auto simp: reopen_def Let_def keeps_def same_view_def open_stream_def throw_simps stream_setCallback_def map_views_get
      split: option.splits sum.splits)

lemma open_view_effect:
  assumes wf: "wf_shared sh" and pos: "0 \<le> pos" and o: "open_view pos token acc sh = Inr (k, sh')"
  shows "wf_shared sh'" "map_get (sh_views sh) k = None" "keeps sh sh' j"
    "\<exists>v. map_get (sh_views sh') k = Some v \<and> vw_opened v = pos \<and> vw_accepts v = acc \<and> vw_taken v = []"
proof -
  show "wf_shared sh'" by (rule wf_open_view [OF wf pos o])
  let ?v = "\<lparr>vw_next = pos, vw_skipBelow = 0, vw_resume = token, vw_looked = None, vw_accepts = acc,
       vw_buffer = [], vw_head = 0, vw_callback = False, vw_opened = pos, vw_taken = []\<rparr>"
  let ?k = "sh_nextView sh"
  let ?sh1 = "(set_view ?k ?v sh)\<lparr>sh_nextView := Suc ?k\<rparr>"
  have fresh: "?k \<notin> set (map_keys (sh_views sh))" using wf_sharedD(3) [OF wf] by blast
  then have none: "map_get (sh_views sh) ?k = None" by (simp add: map_of_eq_None_iff)
  have k: "k = ?k" using o by (auto simp: open_view_def Let_def split: if_splits sum.splits)
  then show "map_get (sh_views sh) k = None" using none by simp
  have first: "keeps sh ?sh1 j" using none by (auto simp: keeps_def same_view_def set_view_def)
  have "keeps sh sh' j \<and> (\<exists>v. map_get (sh_views sh') ?k = Some v \<and> vw_opened v = pos \<and> vw_accepts v = acc \<and> vw_taken v = [])"
  proof (cases "sh_inner sh = None \<or> pos < sh_at sh")
    case True
    then have r: "reopen ?sh1 = Inr sh'" using o by (auto simp: open_view_def Let_def set_view_def split: sum.splits)
    have "keeps ?sh1 sh' i" for i using reopen_keeps [OF r] .
    from this [of j] this [of ?k] first show ?thesis
      using keeps_trans by (fastforce simp: keeps_def same_view_def set_view_def)
  next
    case False
    then have "sh' = set_view ?k (?v\<lparr>vw_skipBelow := pos\<rparr>) ?sh1" using o by (auto simp: open_view_def Let_def set_view_def)
    then show ?thesis using none by (auto simp: keeps_def same_view_def set_view_def)
  qed
  then show "keeps sh sh' j" "\<exists>v. map_get (sh_views sh') k = Some v \<and> vw_opened v = pos \<and> vw_accepts v = acc \<and> vw_taken v = []"
    using k by simp_all
qed

section \<open>Properties\<close>

text \<open>
  C6: Sharing one read of the log is invisible to the segments. Whatever the streams of a node and the
  writers of the log do, and in any order, each stream has handed out, together with what it still buffers, exactly
  the events it accepts from where it was opened up to where it has looked, in log order and once
  each. When it says that nothing is available, either some stream of the node has a full buffer, or it has handed out
  every event it accepts of the whole log.\<close>
theorem shared_view_exact:
  assumes "shared_reachable sh" "map_get (sh_views sh) k = Some v"
  shows "vw_taken v @ drop (vw_head v) (vw_buffer v) =
           owed (sh_query sh) (vw_accepts v) (vw_opened v) (vw_next v) (es_events (sh_store sh)) \<and>
         (case view_hasNextAvailable k sh of (avail, sh') \<Rightarrow>
            avail \<or> full sh' \<or>
            vw_taken v = owed (sh_query sh) (vw_accepts v) (vw_opened v) (es_nextPosition (sh_store sh')) (es_events (sh_store sh)))"
proof -
  have wf: "wf_shared sh" by (rule shared_reachable_wf [OF assms(1)])
  have first: "vw_taken v @ drop (vw_head v) (vw_buffer v) =
           owed (sh_query sh) (vw_accepts v) (vw_opened v) (vw_next v) (es_events (sh_store sh))"
    using wf_shared_view [OF wf assms(2)] by (simp add: view_ok_def)
  show ?thesis
  proof (cases "ready v = 0")
    case False
    then show ?thesis using first assms(2) by (simp add: view_hasNextAvailable_def fill_def)
  next
    case True
    let ?sh = "read sh"
    have fill: "fill k sh = ?sh" using True assms(2) by (simp add: fill_def)
    note inv = read_inv [OF wf, of k]
    then obtain v' where v': "map_get (sh_views ?sh) k = Some v'" "vw_opened v' = vw_opened v" "vw_accepts v' = vw_accepts v"
      "vw_taken v' = vw_taken v" using assms(2) by (auto simp: same_view_def)
    obtain i where i: "sh_inner sh = Some i" using wf_sharedD(5) [OF wf] assms(2) by (cases "sh_inner sh") (auto simp: inner_ok_def)
    have "vw_taken v = owed (sh_query sh) (vw_accepts v) (vw_opened v) (es_nextPosition (sh_store ?sh)) (es_events (sh_store sh))"
      if "ready v' = 0" "\<not> full ?sh"
    proof -
      have "wf_shared ?sh" "sh_inner ?sh = Some i" "fst (stream_next i (sh_store ?sh)) = None" using inv i that(2) by auto
      from exhausted_all [OF this v'(1) that(1)] inv v' show ?thesis by simp
    qed
    with first v'(1) show ?thesis by (auto simp: view_hasNextAvailable_def fill)
  qed
qed

definition two_views :: shared_stream where
  "two_views = projr (map_sum (\<lambda>e. e) snd (open_view 0 None (\<lambda>e. False) (projr (map_sum (\<lambda>e. e) snd
      (open_view 0 None (\<lambda>e. True) (sharedStream one_event_store None 10))))))"

lemma open_ok: "isl r = False \<Longrightarrow> r = Inr (fst (projr r), projr (map_sum (\<lambda>e. e) snd r))"
  by (cases r) auto

lemma two_views_reachable: "shared_reachable two_views"
proof -
  let ?a = "open_view 0 None (\<lambda>e. True) (sharedStream one_event_store None 10)"
  let ?b = "open_view 0 None (\<lambda>e. False) (projr (map_sum (\<lambda>e. e) snd ?a))"
  have "\<not> isl ?a" "\<not> isl ?b"
    by (simp_all add: open_view_def reopen_def sharedStream_def set_view_def close_inner_def map_views_def open_stream_def Let_def
        stream_setCallback_def)
  then show ?thesis unfolding two_views_def
    using sr_open [OF sr_open [OF sr_init [OF reachable_one] _ open_ok] _ open_ok] by auto
qed

theorem shared_view_exact_witness:
  "\<exists>v. map_get (sh_views two_views) 0 = Some v \<and>
     vw_taken v @ drop (vw_head v) (vw_buffer v) =
           owed (sh_query two_views) (vw_accepts v) (vw_opened v) (vw_next v) (es_events (sh_store two_views))"
proof -
  have "\<exists>v. map_get (sh_views two_views) 0 = Some v"
    by (simp add: two_views_def open_view_def reopen_def sharedStream_def set_view_def close_inner_def map_views_def open_stream_def Let_def
        stream_setCallback_def)
  then obtain v where "map_get (sh_views two_views) 0 = Some v" ..
  with shared_view_exact [OF two_views_reachable this] show ?thesis by blast
qed

text \<open>
  The progress a shared stream reports skips nothing: when it says how far it has looked, it has handed out
  every event it accepts from where it was opened up to that position.\<close>
theorem shared_progress_skips_nothing:
  assumes "shared_reachable sh" "map_get (sh_views sh) k = Some v" "view_progressToken k sh = Some t"
  shows "vw_taken v = owed (sh_query sh) (vw_accepts v) (vw_opened v) (position t) (es_events (sh_store sh))"
  using progress_exact [OF shared_reachable_wf [OF assms(1)] assms(2,3)] by blast

theorem shared_progress_skips_nothing_witness:
  "\<exists>sh v t. shared_reachable sh \<and> map_get (sh_views sh) 0 = Some v \<and> view_progressToken 0 sh = Some t \<and>
     vw_taken v = owed (sh_query sh) (vw_accepts v) (vw_opened v) (position t) (es_events (sh_store sh)) \<and> position t = 1"
proof -
  let ?sh = "snd (take_view 0 two_views)"
  have reach: "shared_reachable ?sh" by (rule sr_take [OF two_views_reachable])
  have "map_option position (view_progressToken 0 ?sh) = Some 1" by code_simp
  then obtain t where t: "view_progressToken 0 ?sh = Some t" "position t = 1" by auto
  then obtain v where v: "map_get (sh_views ?sh) 0 = Some v" by (auto simp: view_progressToken_def split: option.splits)
  from shared_progress_skips_nothing [OF reach v t(1)] reach v t show ?thesis by blast
qed

end
