(* ===== verification/Running_Processor.thy ===== *)
theory Running_Processor
  imports Event_Processor Shared_Stream
begin

text \<open>
  A running event processor (\<open>runEventProcessor\<close> of \<open>event-processing/running-processor.ts\<close>): the segments a
  node holds, one worker each, and the operations on them.

  The state holds the variables of the closure, the shared stream over the in-memory log, and the world of the
  handlers with the token store. A worker is the record of the variables of \<open>startWorker\<close>; the key in \<open>rp_workers\<close>
  is its segment. Every asynchronous operation is one atomic step: a poll, a renewal or an operation
  on segments runs to its end before the next one begins, so \<open>processing\<close>, \<open>inFlight\<close>, \<open>renewing\<close>, \<open>claiming\<close> and
  \<open>stopping\<close> are never observed pending and are left out. What other nodes do to the token store, the
  writers of the log and the clock happen between steps. Timers are the field \<open>wk_timer\<close>: what is scheduled next.
  Streams of the in-memory log never fail, so the branch that reopens a stream on its error is never taken.
\<close>

section \<open>State\<close>

datatype poll_timer = PollAfter int | PollImmediate

datatype poll_error = StreamRefused store_error | BatchFailed batch_error

record worker =
  wk_segment :: segment
  wk_token :: tracking_token
  wk_cautiousUntil :: int
  wk_attemptEnd :: int
  wk_active :: bool
  wk_stream :: "nat option"
  wk_timer :: "poll_timer option"
  wk_caughtUp :: bool
  wk_lastError :: "poll_error option"
  wk_retryDelayMs :: int
  wk_unwritten :: bool

record segment_status =
  ss_segment :: nat
  ss_mask :: nat
  ss_position :: int
  ss_caughtUp :: bool
  ss_replaying :: bool
  ss_error :: "poll_error option"

record 'o run_config =
  rc_deps :: "'o processor_deps"
  rc_batchSize :: nat
  rc_replayBatchSize :: nat
  rc_pollingIntervalMs :: int
  rc_initialSegments :: nat
  rc_owner :: string

record 'o running =
  rp_isRunning :: bool
  rp_claimTimer :: bool
  rp_workers :: "(nat, worker) jsmap"
  rp_parked :: "segment_status list"
  rp_known :: "(nat, tracking_token) jsmap"
  rp_releasedUntil :: "(nat, int) jsmap"
  rp_backlogEnd :: "int option"
  rp_log :: shared_stream
  rp_world :: "'o proc_world"

definition DEFAULT_REPLAY_BATCH_SIZE :: nat where
  "DEFAULT_REPLAY_BATCH_SIZE = 1000"

definition MAX_RETRY_DELAY_MS :: int where
  "MAX_RETRY_DELAY_MS = 60000"

text \<open>What the processor value says, with its defaults. The queue's enqueue operation is how the queue \<open>'d\<close> parks.\<close>

definition run_config_of ::
  "'d event_processor \<Rightarrow> 'o handler_entry list \<Rightarrow> ('d \<Rightarrow> 'o enqueuer) \<Rightarrow> string \<Rightarrow> 'o run_config" where
  "run_config_of p handlers enq owner =
     \<lparr>rc_deps = \<lparr>pd_name = ep_name p, pd_handlers = handler_map_of handlers,
        pd_parking = (case ep_deadLetterQueue p of
            None \<Rightarrow> None
          | Some q \<Rightarrow> (case ep_sequence p of None \<Rightarrow> None | Some s \<Rightarrow> Some (enq q, sf_of s))),
        pd_concurrent = ep_concurrent p, pd_sequenceOf = map_option snd (ep_segments p)\<rparr>,
      rc_batchSize = (case ep_batchSize p of Some n \<Rightarrow> n | None \<Rightarrow> 1),
      rc_replayBatchSize = (case ep_batchSize p of Some n \<Rightarrow> n | None \<Rightarrow> DEFAULT_REPLAY_BATCH_SIZE),
      rc_pollingIntervalMs = (case ep_pollingIntervalMs p of Some ms \<Rightarrow> ms | None \<Rightarrow> 500),
      rc_initialSegments = (case ep_segments p of Some (count, _) \<Rightarrow> count | None \<Rightarrow> 1),
      rc_owner = owner\<rparr>"

abbreviation rc_name :: "'o run_config \<Rightarrow> string" where
  "rc_name c \<equiv> pd_name (rc_deps c)"

definition firstRetryDelayMs :: "'o run_config \<Rightarrow> int" where
  "firstRetryDelayMs c = rc_pollingIntervalMs c * 2"

definition runEventProcessor :: "'o run_config \<Rightarrow> event_store \<Rightarrow> 'o proc_world \<Rightarrow> 'o running" where
  "runEventProcessor c store w =
     \<lparr>rp_isRunning = False, rp_claimTimer = False, rp_workers = [], rp_parked = [], rp_known = [], rp_releasedUntil = [],
      rp_backlogEnd = None,
      rp_log = sharedStream store (stream_query (pd_handlers (rc_deps c))) (rc_replayBatchSize c),
      rp_world = w\<rparr>"

abbreviation rp_now :: "'o running \<Rightarrow> int" where
  "rp_now st \<equiv> dw_now (pw_dlq (rp_world st))"

abbreviation rp_tokens :: "'o running \<Rightarrow> token_store" where
  "rp_tokens st \<equiv> pw_tokens (rp_world st)"

definition with_tokens :: "token_store \<Rightarrow> 'o running \<Rightarrow> 'o running" where
  "with_tokens ts st = st\<lparr>rp_world := (rp_world st)\<lparr>pw_tokens := ts\<rparr>\<rparr>"

definition put_worker :: "nat \<Rightarrow> worker \<Rightarrow> 'o running \<Rightarrow> 'o running" where
  "put_worker i wk st = st\<lparr>rp_workers := map_set i wk (rp_workers st)\<rparr>"

definition upd_worker :: "nat \<Rightarrow> (worker \<Rightarrow> worker) \<Rightarrow> 'o running \<Rightarrow> 'o running" where
  "upd_worker i f st = (case map_get (rp_workers st) i of None \<Rightarrow> st | Some wk \<Rightarrow> put_worker i (f wk) st)"

section \<open>A worker\<close>

text \<open>
  The callback of a stream schedules a poll unless its worker is polling right now: \<open>busy\<close> is the worker whose
  poll made the calls. \<open>use_log\<close> puts the log back after calls on it and wakes the views that were called.
\<close>

definition wake_view :: "nat option \<Rightarrow> nat \<Rightarrow> 'o running \<Rightarrow> 'o running" where
  "wake_view busy k st =
     st\<lparr>rp_workers := map (\<lambda>(i, wk). (i, if wk_stream wk = Some k \<and> wk_active wk \<and> Some i \<noteq> busy
                                          then wk\<lparr>wk_timer := Some PollImmediate\<rparr> else wk)) (rp_workers st)\<rparr>"

definition use_log :: "nat option \<Rightarrow> shared_stream \<Rightarrow> 'o running \<Rightarrow> 'o running" where
  "use_log busy sh st =
     fold (wake_view busy) (drop (length (sh_woken (rp_log st))) (sh_woken sh)) (st\<lparr>rp_log := sh\<rparr>)"

definition accepts :: "'o run_config \<Rightarrow> segment \<Rightarrow> sequenced_event \<Rightarrow> bool" where
  "accepts c s e \<longleftrightarrow> is_handled (pd_handlers (rc_deps c)) (sq_event e) \<and> inSegment s (hashOf (pd_sequenceOf (rc_deps c)) (sq_event e))"

definition startWorker :: "'o run_config \<Rightarrow> segment \<Rightarrow> tracking_token option \<Rightarrow> 'o running \<Rightarrow> 'o running" where
  "startWorker c s stored st =
     (let token = (case stored of Some t \<Rightarrow> t | None \<Rightarrow> GlobalSequenceToken 0)
      in put_worker (seg_id s)
           \<lparr>wk_segment = s, wk_token = token, wk_cautiousUntil = 0, wk_attemptEnd = 0, wk_active = True, wk_stream = None,
            wk_timer = Some PollImmediate, wk_caughtUp = False, wk_lastError = None, wk_retryDelayMs = firstRetryDelayMs c,
            wk_unwritten = False\<rparr>
           (st\<lparr>rp_known := map_set (seg_id s) token (rp_known st)\<rparr>))"

definition set_token :: "nat \<Rightarrow> tracking_token \<Rightarrow> 'o running \<Rightarrow> 'o running" where
  "set_token i t st = (upd_worker i (\<lambda>wk. wk\<lparr>wk_token := t\<rparr>) st)\<lparr>rp_known := map_set i t (rp_known st)\<rparr>"

definition write_row :: "'o run_config \<Rightarrow> nat \<Rightarrow> tracking_token \<Rightarrow> 'o running \<Rightarrow> batch_error option \<times> 'o running" where
  "write_row c i t st =
     (case write_token (rc_name c) i t (rc_owner c) (rp_world st) of (r, w) \<Rightarrow> (r, st\<lparr>rp_world := w\<rparr>))"

definition close_stream :: "nat \<Rightarrow> 'o running \<Rightarrow> 'o running" where
  "close_stream i st =
     (case map_get (rp_workers st) i of
        None \<Rightarrow> st
      | Some wk \<Rightarrow>
          (case wk_stream wk of
             None \<Rightarrow> st
           | Some k \<Rightarrow> upd_worker i (\<lambda>wk. wk\<lparr>wk_stream := None\<rparr>) (st\<lparr>rp_log := close_view k (rp_log st)\<rparr>)))"

definition lose :: "nat \<Rightarrow> 'o running \<Rightarrow> 'o running" where
  "lose i st =
     (case map_get (rp_workers st) i of
        None \<Rightarrow> st
      | Some wk \<Rightarrow>
          if \<not> wk_active wk then st
          else (let st1 = close_stream i st
                in st1\<lparr>rp_workers := map_delete i (rp_workers st1), rp_known := map_delete i (rp_known st1)\<rparr>))"

definition openStream :: "'o run_config \<Rightarrow> nat \<Rightarrow> 'o running \<Rightarrow> poll_error option \<times> 'o running" where
  "openStream c i st =
     (case map_get (rp_workers st) i of
        None \<Rightarrow> (None, st)
      | Some wk \<Rightarrow>
          (case open_view (position (wk_token wk)) (Some (wk_token wk)) (accepts c (wk_segment wk)) (rp_log st) of
             Inl err \<Rightarrow> (Some (StreamRefused err), st)
           | Inr (k, sh) \<Rightarrow>
               (None, upd_worker i (\<lambda>wk. wk\<lparr>wk_stream := Some k\<rparr>) (use_log (Some i) (view_setCallback k sh) st))))"

definition moveThroughQuietStretch :: "'o run_config \<Rightarrow> nat \<Rightarrow> 'o running \<Rightarrow> poll_error option \<times> 'o running" where
  "moveThroughQuietStretch c i st =
     (case map_get (rp_workers st) i of
        None \<Rightarrow> (None, st)
      | Some wk \<Rightarrow>
          (case (case wk_stream wk of None \<Rightarrow> None | Some k \<Rightarrow> view_progressToken k (rp_log st)) of
             None \<Rightarrow> (None, st)
           | Some looked \<Rightarrow>
               if position looked > position (wk_token wk) then
                 (let t = advanceTokenTo (wk_token wk) looked;
                      st1 = set_token i t st
                  in if seg_mask (wk_segment wk) \<noteq> 0 then (None, upd_worker i (\<lambda>wk. wk\<lparr>wk_unwritten := True\<rparr>) st1)
                     else (case write_row c i t st1 of
                             (None, st2) \<Rightarrow> (None, st2)
                           | (Some err, st2) \<Rightarrow> (Some (BatchFailed err), st2)))
               else (None, st)))"

definition renew :: "'o run_config \<Rightarrow> nat \<Rightarrow> 'o running \<Rightarrow> 'o running" where
  "renew c i st =
     (case map_get (rp_workers st) i of
        None \<Rightarrow> st
      | Some wk \<Rightarrow>
          if \<not> wk_active wk then st
          else (case write_row c i (wk_token wk) st of
                  (None, st1) \<Rightarrow> upd_worker i (\<lambda>wk. wk\<lparr>wk_unwritten := False\<rparr>) st1
                | (Some err, st1) \<Rightarrow> lose i st1))"

text \<open>\<open>stop\<close> of a worker that its caller takes out of \<open>rp_workers\<close>; without its claim the release is skipped.\<close>

definition stop_worker :: "'o run_config \<Rightarrow> bool \<Rightarrow> worker \<Rightarrow> 'o running \<Rightarrow> 'o running" where
  "stop_worker c release wk st =
     (if \<not> wk_active wk then st
      else (let i = seg_id (wk_segment wk);
                st1 = (case wk_stream wk of None \<Rightarrow> st | Some k \<Rightarrow> st\<lparr>rp_log := close_view k (rp_log st)\<rparr>)
            in case (if wk_unwritten wk then write_row c i (wk_token wk) st1 else (None, st1)) of
                 (Some err, st2) \<Rightarrow> st2
               | (None, st2) \<Rightarrow> if release then with_tokens (releaseClaim (rc_name c) i (rc_owner c) (rp_tokens st2)) st2 else st2))"

definition worker_status :: "worker \<Rightarrow> segment_status" where
  "worker_status wk =
     \<lparr>ss_segment = seg_id (wk_segment wk), ss_mask = seg_mask (wk_segment wk), ss_position = position (wk_token wk),
      ss_caughtUp = wk_caughtUp wk, ss_replaying = isReplaying (wk_token wk), ss_error = wk_lastError wk\<rparr>"

section \<open>A poll\<close>

text \<open>The loop that fills a batch: \<open>n\<close> is how many more events it may take.\<close>

fun collect :: "nat \<Rightarrow> nat \<Rightarrow> sequenced_event option \<Rightarrow> shared_stream \<Rightarrow> sequenced_event list \<times> shared_stream" where
  "collect k 0 ev sh = ([], sh)"
| "collect k (Suc n) None sh = ([], sh)"
| "collect k (Suc n) (Some e) sh =
     (if n > 0 then
        (case view_hasNextAvailable k sh of
           (False, sh1) \<Rightarrow> ([e], sh1)
         | (True, sh1) \<Rightarrow>
             (case take_view k sh1 of (ev, sh2) \<Rightarrow> (case collect k n ev sh2 of (es, sh3) \<Rightarrow> (e # es, sh3))))
      else ([e], sh))"

definition target_size :: "'o run_config \<Rightarrow> int option \<Rightarrow> worker \<Rightarrow> nat" where
  "target_size c backlogEnd wk =
     (let behind = (isReplaying (wk_token wk) \<or> (case backlogEnd of Some b \<Rightarrow> position (wk_token wk) < b | None \<Rightarrow> False))
      in if position (wk_token wk) < wk_cautiousUntil wk then 1
         else if behind \<or> \<not> wk_caughtUp wk then rc_replayBatchSize c else rc_batchSize c)"

definition schedule_poll :: "nat \<Rightarrow> poll_timer \<Rightarrow> 'o running \<Rightarrow> 'o running" where
  "schedule_poll i t st = upd_worker i (\<lambda>wk. wk\<lparr>wk_timer := Some t\<rparr>) st"

text \<open>The \<open>catch\<close> of a poll.\<close>

definition poll_failed :: "'o run_config \<Rightarrow> nat \<Rightarrow> poll_error \<Rightarrow> 'o running \<Rightarrow> 'o running" where
  "poll_failed c i err st =
     (case err of
        BatchFailed (ClaimLost _) \<Rightarrow> lose i st
      | _ \<Rightarrow>
          (case map_get (rp_workers st) i of
             None \<Rightarrow> st
           | Some wk \<Rightarrow>
               (let st1 = close_stream i (upd_worker i (\<lambda>wk. wk\<lparr>wk_lastError := Some err, wk_cautiousUntil := wk_attemptEnd wk\<rparr>) st)
                in if wk_active wk
                   then schedule_poll i (PollAfter (wk_retryDelayMs wk))
                          (upd_worker i (\<lambda>wk. wk\<lparr>wk_retryDelayMs := min (wk_retryDelayMs wk * 2) (max MAX_RETRY_DELAY_MS (firstRetryDelayMs c))\<rparr>) st1)
                   else st1)))"

text \<open>After a batch: more at once if there is more, otherwise caught up, and on through what is not for this segment.\<close>

definition after_batch :: "'o run_config \<Rightarrow> nat \<Rightarrow> nat \<Rightarrow> 'o running \<Rightarrow> poll_error option \<times> 'o running" where
  "after_batch c i k st =
     (case view_hasNextAvailable k (rp_log st) of
        (True, sh) \<Rightarrow> (None, schedule_poll i PollImmediate (use_log (Some i) sh st))
      | (False, sh) \<Rightarrow>
          (case moveThroughQuietStretch c i (upd_worker i (\<lambda>wk. wk\<lparr>wk_caughtUp := True\<rparr>) (use_log (Some i) sh st)) of
             (Some err, st1) \<Rightarrow> (Some err, st1)
           | (None, st1) \<Rightarrow>
               (case map_get (rp_workers st1) i of
                  Some wk \<Rightarrow> (None, if isReplayToken (wk_token wk) then schedule_poll i (PollAfter (rc_pollingIntervalMs c)) st1 else st1)
                | None \<Rightarrow> (None, st1))))"

definition nothing_ready :: "'o run_config \<Rightarrow> nat \<Rightarrow> 'o running \<Rightarrow> poll_error option \<times> 'o running" where
  "nothing_ready c i st =
     (case moveThroughQuietStretch c i (upd_worker i (\<lambda>wk. wk\<lparr>wk_caughtUp := True\<rparr>) st) of
        (Some err, st1) \<Rightarrow> (Some err, st1)
      | (None, st1) \<Rightarrow> (None, schedule_poll i (PollAfter (rc_pollingIntervalMs c)) st1))"

definition handle_batch ::
  "('x, 'h, 'o) batch_host \<Rightarrow> 'o run_config \<Rightarrow> nat list \<Rightarrow> nat \<Rightarrow> nat \<Rightarrow> sequenced_event list \<Rightarrow> 'o running
     \<Rightarrow> (poll_error option \<times> 'o running) option" where
  "handle_batch host c schedule i k batch st =
     (let st1 = upd_worker i (\<lambda>wk. wk\<lparr>wk_caughtUp := False, wk_attemptEnd := sq_sequence (last batch) + 1\<rparr>) st
      in case map_get (rp_workers st1) i of
           None \<Rightarrow> Some (None, st1)
         | Some wk \<Rightarrow>
             (case processBatch host (rc_deps c) schedule i (rc_owner c) (wk_token wk) batch (rp_world st1) of
                None \<Rightarrow> None
              | Some (Inl err, w) \<Rightarrow> Some (Some (BatchFailed err), st1\<lparr>rp_world := w\<rparr>)
              | Some (Inr t, w) \<Rightarrow>
                  Some (after_batch c i k
                    (upd_worker i (\<lambda>wk. wk\<lparr>wk_unwritten := False, wk_lastError := None, wk_retryDelayMs := firstRetryDelayMs c\<rparr>)
                      (set_token i t (st1\<lparr>rp_world := w\<rparr>))))))"

definition poll_stream ::
  "('x, 'h, 'o) batch_host \<Rightarrow> 'o run_config \<Rightarrow> nat list \<Rightarrow> nat \<Rightarrow> 'o running \<Rightarrow> (poll_error option \<times> 'o running) option" where
  "poll_stream host c schedule i st =
     (case map_get (rp_workers st) i of
        None \<Rightarrow> Some (None, st)
      | Some wk \<Rightarrow>
          (case wk_stream wk of
             None \<Rightarrow> Some (None, st)
           | Some k \<Rightarrow>
               (let st0 = upd_worker i (\<lambda>wk. wk\<lparr>wk_attemptEnd := 0\<rparr>) st
                in case take_view k (rp_log st0) of
                     (ev, sh1) \<Rightarrow>
                       (case collect k (target_size c (rp_backlogEnd st0) wk) ev sh1 of
                          (batch, sh2) \<Rightarrow>
                            (let st1 = use_log (Some i) sh2 st0
                             in if batch = [] then Some (nothing_ready c i st1) else handle_batch host c schedule i k batch st1)))))"

definition pollOnce ::
  "('x, 'h, 'o) batch_host \<Rightarrow> 'o run_config \<Rightarrow> nat list \<Rightarrow> nat \<Rightarrow> 'o running \<Rightarrow> 'o running option" where
  "pollOnce host c schedule i st0 =
     (let st = upd_worker i (\<lambda>wk. wk\<lparr>wk_timer := None\<rparr>) st0
      in case map_get (rp_workers st) i of
           None \<Rightarrow> Some st
         | Some wk \<Rightarrow>
             if \<not> wk_active wk then Some st
             else (case (if wk_stream wk = None then openStream c i st else (None, st)) of
                     (Some err, st1) \<Rightarrow> Some (poll_failed c i err st1)
                   | (None, st1) \<Rightarrow>
                       (case poll_stream host c schedule i st1 of
                          None \<Rightarrow> None
                        | Some (Some err, st2) \<Rightarrow> Some (poll_failed c i err st2)
                        | Some (None, st2) \<Rightarrow> Some st2)))"

section \<open>Claiming\<close>

text \<open>The ids that are numbers; a text that is not one, or a negative one, is never asked for by the walk.\<close>

definition listed_ids :: "int option list \<Rightarrow> nat list" where
  "listed_ids ids = concat (map (\<lambda>x. case x of Some n \<Rightarrow> if 0 \<le> n then [nat n] else [] | None \<Rightarrow> []) ids)"

definition segments_listed :: "int option list \<Rightarrow> segment list" where
  "segments_listed ids = (if ids = [] then [] else sort_key seg_id (walk (set (listed_ids ids)) WHOLE))"

definition segmentsNow :: "'o run_config \<Rightarrow> 'o running \<Rightarrow> segment list \<times> 'o running" where
  "segmentsNow c st =
     (let ids = fetchSegments (rc_name c) (rp_tokens st)
      in if ids = []
         then (let st1 = with_tokens (initializeSegments (rc_name c) (rc_initialSegments c) (rp_tokens st)) st
               in (segments_listed (fetchSegments (rc_name c) (rp_tokens st1)), st1))
         else (segments_listed ids, st))"

fun claim_segments :: "'o run_config \<Rightarrow> nat list \<Rightarrow> segment list \<Rightarrow> 'o running \<Rightarrow> 'o running" where
  "claim_segments c available [] st = st"
| "claim_segments c available (s # rest) st =
     (if \<not> rp_isRunning st then st
      else if map_get (rp_workers st) (seg_id s) \<noteq> None \<or> seg_id s \<notin> set available then claim_segments c available rest st
      else if (case map_get (rp_releasedUntil st) (seg_id s) of Some t \<Rightarrow> t | None \<Rightarrow> 0) > rp_now st
      then claim_segments c available rest st
      else (case claimToken (rp_now st) (rc_name c) (seg_id s) (rc_owner c) (rp_tokens st) of
              Inl _ \<Rightarrow> claim_segments c available rest st
            | Inr (stored, ts) \<Rightarrow> claim_segments c available rest (startWorker c s stored (with_tokens ts st))))"

definition claimRound :: "'o run_config \<Rightarrow> 'o running \<Rightarrow> 'o running" where
  "claimRound c st =
     (let st1 = fold (renew c) (map_keys (rp_workers st)) st
      in case segmentsNow c st1 of
           (segments, st2) \<Rightarrow>
             claim_segments c (listed_ids (fetchAvailableSegments (rp_now st2) (rc_name c) (rp_tokens st2))) segments st2)"

definition claimSoon :: "'o run_config \<Rightarrow> 'o running \<Rightarrow> 'o running" where
  "claimSoon c st = (if \<not> rp_isRunning st then st else claimRound c st)"

section \<open>The processor's operations\<close>

datatype run_error =
    StillRunning
  | HeldElsewhere nat
  | NoSequence
  | NoSegment nat
  | OneSegment
  | SplitFurther nat int
  | ClaimRefused token_error
  | TaskFailed batch_error

fun lowest_position :: "int option \<Rightarrow> tracking_token list \<Rightarrow> int option" where
  "lowest_position low [] = low"
| "lowest_position low (t # ts) =
     lowest_position (case low of None \<Rightarrow> Some (position t) | Some l \<Rightarrow> if position t < l then Some (position t) else Some l) ts"

definition processor_position :: "'o running \<Rightarrow> int" where
  "processor_position st = (case lowest_position None (map snd (rp_known st)) of Some l \<Rightarrow> l | None \<Rightarrow> 0)"

definition processor_replaying :: "'o running \<Rightarrow> bool" where
  "processor_replaying st = list_ex isReplaying (map snd (rp_known st))"

record processor_status =
  ps_running :: bool
  ps_error :: "poll_error option"
  ps_position :: int
  ps_caughtUp :: bool
  ps_replaying :: bool

definition processor_status_of :: "'o running \<Rightarrow> processor_status" where
  "processor_status_of st =
     (let held = (if rp_workers st \<noteq> [] \<or> rp_isRunning st then map (worker_status \<circ> snd) (rp_workers st) else rp_parked st)
      in \<lparr>ps_running = rp_isRunning st,
          ps_error = Option.bind (find (\<lambda>s. ss_error s \<noteq> None) held) ss_error,
          ps_position = processor_position st,
          ps_caughtUp = (held \<noteq> [] \<and> list_all ss_caughtUp held),
          ps_replaying = processor_replaying st\<rparr>)"

definition processor_segments :: "'o running \<Rightarrow> segment_status list" where
  "processor_segments st = sort_key ss_segment (map (worker_status \<circ> snd) (rp_workers st))"

definition start :: "'o run_config \<Rightarrow> 'o running \<Rightarrow> 'o running" where
  "start c st =
     (if rp_isRunning st then st
      else (claimRound c (st\<lparr>rp_isRunning := True, rp_backlogEnd := Some (getHeadPosition (sh_store (rp_log st)))\<rparr>))\<lparr>rp_claimTimer := True\<rparr>)"

definition stop :: "'o run_config \<Rightarrow> 'o running \<Rightarrow> 'o running" where
  "stop c st =
     (let held = map snd (rp_workers st)
      in fold (stop_worker c True) held
           (st\<lparr>rp_isRunning := False, rp_claimTimer := False, rp_parked := map worker_status held, rp_workers := []\<rparr>))"

definition releaseSegment :: "'o run_config \<Rightarrow> nat \<Rightarrow> int option \<Rightarrow> 'o running \<Rightarrow> 'o running" where
  "releaseSegment c i forMs st =
     (let wait = (case forMs of Some ms \<Rightarrow> ms | None \<Rightarrow> ts_claimTimeoutMs (rp_tokens st));
          st1 = st\<lparr>rp_releasedUntil := map_set i (rp_now st + wait) (rp_releasedUntil st)\<rparr>
      in case map_get (rp_workers st1) i of
           None \<Rightarrow> st1
         | Some wk \<Rightarrow>
             stop_worker c True wk (st1\<lparr>rp_known := map_delete i (rp_known st1), rp_workers := map_delete i (rp_workers st1)\<rparr>))"

definition release_claims :: "'o run_config \<Rightarrow> nat list \<Rightarrow> 'o running \<Rightarrow> 'o running" where
  "release_claims c is st = with_tokens (fold (\<lambda>i. releaseClaim (rc_name c) i (rc_owner c)) is (rp_tokens st)) st"

text \<open>Claim every segment; \<open>Some i\<close> is the one that was refused.\<close>

fun claim_all :: "'o run_config \<Rightarrow> nat list \<Rightarrow> nat list \<Rightarrow> 'o running \<Rightarrow> nat option \<times> nat list \<times> 'o running" where
  "claim_all c [] claimed st = (None, claimed, st)"
| "claim_all c (i # is) claimed st =
     (case claimToken (rp_now st) (rc_name c) i (rc_owner c) (rp_tokens st) of
        Inl _ \<Rightarrow> (Some i, claimed, st)
      | Inr (_, ts) \<Rightarrow> claim_all c is (claimed @ [i]) (with_tokens ts st))"

definition reset_target :: "tracking_token \<Rightarrow> tracking_token option \<Rightarrow> tracking_token" where
  "reset_target st_token stored =
     (case stored of
        None \<Rightarrow> st_token
      | Some t \<Rightarrow> if \<not> covers st_token (reachedBy t) then ReplayToken (reachedBy t) st_token else st_token)"

definition reset_action ::
  "'o run_config \<Rightarrow> nat list \<Rightarrow> int \<Rightarrow> ('o \<Rightarrow> js_error option \<times> 'o) option \<Rightarrow> ('x, 'h, 'o) batch_uow
     \<Rightarrow> (batch_error + (nat \<times> tracking_token) list) \<times> ('x, 'h, 'o) batch_uow" where
  "reset_action c is startPosition reset u =
     (let w = uw_world u;
          targets = map (\<lambda>i. (i, reset_target (GlobalSequenceToken startPosition) (get_token (rc_name c) i (pw_tokens w)))) is;
          (r, out) = (case reset of None \<Rightarrow> (None, dw_outside (pw_dlq w)) | Some f \<Rightarrow> f (dw_outside (pw_dlq w)));
          u1 = u\<lparr>uw_world := w\<lparr>pw_dlq := (pw_dlq w)\<lparr>dw_outside := out\<rparr>\<rparr>\<rparr>
      in case r of
           Some err \<Rightarrow> (Inl (ResetThrew err), u1)
         | None \<Rightarrow> (Inr targets, onPrepareCommit (StoreTokens targets (rc_owner c)) u1))"

definition resetTokens ::
  "('x, 'h, 'o) batch_host \<Rightarrow> 'o run_config \<Rightarrow> int \<Rightarrow> ('o \<Rightarrow> js_error option \<times> 'o) option \<Rightarrow> 'o running
     \<Rightarrow> ((run_error + unit) \<times> 'o running) option" where
  "resetTokens host c startPosition reset st =
     (if rp_isRunning st then Some (Inl StillRunning, st)
      else (case segmentsNow c st of
              (segments, st1) \<Rightarrow>
                (case claim_all c (map seg_id segments) [] st1 of
                   (Some i, claimed, st2) \<Rightarrow> Some (Inl (HeldElsewhere i), release_claims c claimed st2)
                 | (None, claimed, st2) \<Rightarrow>
                     (case run_task host (rc_name c) (reset_action c (map seg_id segments) startPosition reset) (rp_world st2) of
                        None \<Rightarrow> None
                      | Some (Inl err, w) \<Rightarrow> Some (Inl (TaskFailed err), release_claims c claimed (st2\<lparr>rp_world := w\<rparr>))
                      | Some (Inr targets, w) \<Rightarrow>
                          Some (Inr (), release_claims c claimed
                            (st2\<lparr>rp_world := w, rp_known := targets,
                                 rp_backlogEnd := Some (getHeadPosition (sh_store (rp_log st2)))\<rparr>))))))"

text \<open>
  The log grows. In the code the store calls the callback of the shared stream, which calls the callback of every
  view, and a worker woken so reads. Here the shared stream reads on at once and the views that were given
  events are woken; a poll that would find nothing is left out. \<open>busy\<close> is the worker that is polling
  meanwhile, if any.
\<close>

definition log_grows :: "nat option \<Rightarrow> event_message list \<Rightarrow> append_condition option \<Rightarrow> 'o running \<Rightarrow> 'o running" where
  "log_grows busy events condition st =
     (case append (sh_store (rp_log st)) events condition of
        Inl _ \<Rightarrow> st
      | Inr (m, s) \<Rightarrow> use_log busy (read ((rp_log st)\<lparr>sh_store := s\<rparr>)) st)"

text \<open>\<open>True\<close> for \<open>held\<close>, \<open>False\<close> for \<open>claimed\<close>.\<close>

definition holdForOperation :: "'o run_config \<Rightarrow> nat \<Rightarrow> 'o running \<Rightarrow> token_error + (bool \<times> 'o running)" where
  "holdForOperation c i st =
     (case map_get (rp_workers st) i of
        Some wk \<Rightarrow> Inr (True, stop_worker c False wk (st\<lparr>rp_workers := map_delete i (rp_workers st)\<rparr>))
      | None \<Rightarrow>
          (case claimToken (rp_now st) (rc_name c) i (rc_owner c) (rp_tokens st) of
             Inl err \<Rightarrow> Inl err
           | Inr (_, ts) \<Rightarrow> Inr (False, with_tokens ts st)))"

definition resume :: "'o run_config \<Rightarrow> segment \<Rightarrow> tracking_token option \<Rightarrow> 'o running \<Rightarrow> 'o running" where
  "resume c s token st = (if rp_isRunning st then startWorker c s token st else release_claims c [seg_id s] st)"

definition or_else :: "'a option \<Rightarrow> 'a option \<Rightarrow> 'a option" where
  "or_else a b = (case a of Some x \<Rightarrow> Some x | None \<Rightarrow> b)"

definition let_go ::
  "'o run_config \<Rightarrow> (nat, tracking_token option) jsmap \<Rightarrow> segment \<times> bool \<Rightarrow> 'o running \<Rightarrow> 'o running" where
  "let_go c tokens sh st =
     (let i = seg_id (fst sh)
      in if snd sh then resume c (fst sh) (or_else (Option.bind (map_get tokens i) id) (map_get (rp_known st) i)) st
         else release_claims c [i] st)"

text \<open>What the task of an operation had read before it failed: nothing when it was refused.\<close>

definition read_before :: "batch_error \<Rightarrow> (nat, tracking_token option) jsmap \<Rightarrow> (nat, tracking_token option) jsmap" where
  "read_before err tokens = (case err of TaskRefused _ \<Rightarrow> [] | _ \<Rightarrow> tokens)"

definition split_action ::
  "'o run_config \<Rightarrow> nat \<Rightarrow> nat \<Rightarrow> ('x, 'h, 'o) batch_uow \<Rightarrow> (batch_error + tracking_token option) \<times> ('x, 'h, 'o) batch_uow" where
  "split_action c i second u =
     (let w = uw_world u; token = get_token (rc_name c) i (pw_tokens w)
      in if (case token of Some t \<Rightarrow> isMergedToken t | None \<Rightarrow> False) then (Inl (StillCatchingUp i), u)
         else (case claimToken (dw_now (pw_dlq w)) (rc_name c) second (rc_owner c) (pw_tokens w) of
                 Inl err \<Rightarrow> (Inl (ClaimLost err), u)
               | Inr (_, ts) \<Rightarrow>
                   (Inr token, onPrepareCommit
                      (StoreTokens [(second, case token of Some t \<Rightarrow> t | None \<Rightarrow> GlobalSequenceToken 0)] (rc_owner c))
                      (u\<lparr>uw_world := w\<lparr>pw_tokens := ts\<rparr>\<rparr>))))"

definition processor_splitSegment ::
  "('x, 'h, 'o) batch_host \<Rightarrow> 'o run_config \<Rightarrow> nat \<Rightarrow> 'o running \<Rightarrow> ((run_error + unit) \<times> 'o running) option" where
  "processor_splitSegment host c i st =
     (if pd_sequenceOf (rc_deps c) = None then Some (Inl NoSequence, st)
      else (case segmentsNow c st of
              (segments, st1) \<Rightarrow>
                (case find (\<lambda>s. seg_id s = i) segments of
                   None \<Rightarrow> Some (Inl (NoSegment i), st1)
                 | Some s \<Rightarrow>
                     (case splitSegment s of
                        (first, second) \<Rightarrow>
                          (case holdForOperation c i st1 of
                             Inl err \<Rightarrow> Some (Inl (ClaimRefused err), st1)
                           | Inr (held, st2) \<Rightarrow>
                               (case run_task host (rc_name c) (split_action c i (seg_id second)) (rp_world st2) of
                                  None \<Rightarrow> None
                                | Some (Inl err, w) \<Rightarrow>
                                    Some (Inl (TaskFailed err),
                                      let_go c (read_before err [(i, get_token (rc_name c) i (rp_tokens st2))]) (s, held) (st2\<lparr>rp_world := w\<rparr>))
                                | Some (Inr token, w) \<Rightarrow>
                                    Some (Inr (), resume c second token (resume c first token
                                      (st2\<lparr>rp_world := w, rp_known := map_delete i (rp_known st2)\<rparr>)))))))))"

definition not_mergeable :: "tracking_token option \<Rightarrow> bool" where
  "not_mergeable t = (case t of None \<Rightarrow> False | Some x \<Rightarrow> isReplayToken x \<or> isMergedToken x)"

definition or_zero :: "tracking_token option \<Rightarrow> tracking_token" where
  "or_zero t = (case t of Some x \<Rightarrow> x | None \<Rightarrow> GlobalSequenceToken 0)"

definition merge_action ::
  "'o run_config \<Rightarrow> segment \<Rightarrow> segment \<Rightarrow> ('x, 'h, 'o) batch_uow \<Rightarrow> (batch_error + tracking_token) \<times> ('x, 'h, 'o) batch_uow" where
  "merge_action c s partner u =
     (let ts = pw_tokens (uw_world u);
          a = get_token (rc_name c) (seg_id s) ts; b = get_token (rc_name c) (seg_id partner) ts
      in if not_mergeable a then (Inl (NotMergeable (seg_id s) (isReplayToken (or_zero a))), u)
         else if not_mergeable b then (Inl (NotMergeable (seg_id partner) (isReplayToken (or_zero b))), u)
         else (let t = mergedToken (seg_mask s) (seg_id s, or_zero a) (seg_id partner, or_zero b)
               in (Inr t, onPrepareCommit
                     (StoreAndDrop (min (seg_id s) (seg_id partner)) t (max (seg_id s) (seg_id partner)) (rc_owner c)) u)))"

definition merge_read :: "'o run_config \<Rightarrow> segment \<Rightarrow> segment \<Rightarrow> token_store \<Rightarrow> (nat, tracking_token option) jsmap" where
  "merge_read c s partner ts =
     (let a = get_token (rc_name c) (seg_id s) ts
      in (seg_id s, a) # (if not_mergeable a then [] else [(seg_id partner, get_token (rc_name c) (seg_id partner) ts)]))"

definition processor_mergeSegment ::
  "('x, 'h, 'o) batch_host \<Rightarrow> 'o run_config \<Rightarrow> nat \<Rightarrow> 'o running \<Rightarrow> ((run_error + unit) \<times> 'o running) option" where
  "processor_mergeSegment host c i st =
     (case segmentsNow c st of
        (segments, st1) \<Rightarrow>
          (case find (\<lambda>s. seg_id s = i) segments of
             None \<Rightarrow> Some (Inl (NoSegment i), st1)
           | Some s \<Rightarrow>
               if seg_mask s = 0 then Some (Inl OneSegment, st1)
               else (case find (\<lambda>p. int (seg_id p) = mergeableSegmentId s \<and> seg_mask p = seg_mask s) segments of
                       None \<Rightarrow> Some (Inl (SplitFurther i (mergeableSegmentId s)), st1)
                     | Some partner \<Rightarrow>
                         (case holdForOperation c (seg_id s) st1 of
                            Inl err \<Rightarrow> Some (Inl (ClaimRefused err), st1)
                          | Inr (how1, st2) \<Rightarrow>
                              (case holdForOperation c (seg_id partner) st2 of
                                 Inl err \<Rightarrow> Some (Inl (ClaimRefused err), let_go c [] (s, how1) st2)
                               | Inr (how2, st3) \<Rightarrow>
                                   (case run_task host (rc_name c) (merge_action c s partner) (rp_world st3) of
                                      None \<Rightarrow> None
                                    | Some (Inl err, w) \<Rightarrow>
                                        Some (Inl (TaskFailed err),
                                          fold (let_go c (read_before err (merge_read c s partner (rp_tokens st3)))) [(s, how1), (partner, how2)]
                                            (st3\<lparr>rp_world := w\<rparr>))
                                    | Some (Inr t, w) \<Rightarrow>
                                        Some (Inr (),
                                          resume c \<lparr>seg_id = min (seg_id s) (seg_id partner), seg_mask = nat (js_shr (int (seg_mask s)) 1)\<rparr> (Some t)
                                            (st3\<lparr>rp_world := w,
                                                 rp_known := map_delete (min (seg_id s) (seg_id partner))
                                                   (map_delete (max (seg_id s) (seg_id partner)) (rp_known st3))\<rparr>))))))))"

end
