(* ===== verification/Processor_Runs.thy ===== *)
theory Processor_Runs
  imports Running_Processor
begin

text \<open>
  What a running processor guarantees, over every sequence of its steps: \<open>running_ok\<close> is the invariant (each
  worker's stream has handed out exactly the events the segment accepts up to the worker's token), \<open>run_step\<close> are
  the steps of this node and of its surroundings, and the properties say what a poll, a failed poll, a reset,
  a split and a merge do to the tokens.
\<close>

section \<open>Where a stream is\<close>

definition view_at :: "shared_stream \<Rightarrow> (sequenced_event \<Rightarrow> bool) \<Rightarrow> nat \<Rightarrow> int \<Rightarrow> bool" where
  "view_at sh acc k p \<longleftrightarrow>
     (\<exists>v. map_get (sh_views sh) k = Some v \<and> vw_accepts v = acc \<and> vw_opened v \<le> p \<and>
          vw_taken v = owed (sh_query sh) acc (vw_opened v) p (es_events (sh_store sh)) \<and>
          (p = vw_opened v \<or> p \<le> es_nextPosition (sh_store sh)))"

lemma view_at_keeps: "keeps sh sh' k \<Longrightarrow> view_at sh acc k p \<Longrightarrow> view_at sh' acc k p"
  unfolding view_at_def keeps_def same_view_def by metis

lemma log_sorted: "wf_shared sh \<Longrightarrow> sorted_wrt (<) (map se_position (es_events (sh_store sh)))"
  using wf_sharedD(1) [of sh] by (simp add: wf_store_def)

lemma owed_upto: "hi' \<le> hi \<Longrightarrow> owed q acc lo hi' log = filter (\<lambda>e. sq_sequence e < hi') (owed q acc lo hi log)"
  unfolding owed_def filter_map o_def filter_filter by (intro arg_cong [where f = "map sequenced"] filter_cong) (auto simp: sequenced_def)

lemma owed_sorted: "sorted_wrt (<) (map se_position log) \<Longrightarrow> sorted_wrt (<) (map sq_sequence (owed q acc lo hi log))"
  by (simp add: owed_def o_def sequenced_def sorted_wrt_map sorted_wrt_filter)

lemma owed_elem: "e \<in> set (owed q acc lo hi log) \<Longrightarrow> lo \<le> sq_sequence e \<and> sq_sequence e < hi \<and> sq_token e = None \<and> acc e"
  by (auto simp: owed_def sequenced_def)

lemma owed_below:
  assumes "wf_shared sh" "e \<in> set (owed q acc lo hi (es_events (sh_store sh)))"
  shows "sq_sequence e < es_nextPosition (sh_store sh)"
  using wf_sharedD(1) [OF assms(1)] assms(2) by (auto simp: owed_def sequenced_def wf_store_def)

text \<open>What follows what was handed out is owed from there on.\<close>

lemma owed_next:
  assumes sorted: "sorted_wrt (<) (map se_position log)" and es: "es \<noteq> []"
    and eq: "owed q acc lo p log @ es @ ys = owed q acc lo hi log" and lo: "lo \<le> p"
  shows "es = owed q acc p (sq_sequence (last es) + 1) log" "p < sq_sequence (last es) + 1"
proof -
  let ?n = "sq_sequence (last es) + 1"
  have "p \<le> hi"
  proof (rule ccontr)
    assume "\<not> p \<le> hi"
    then have "owed q acc lo hi log = filter (\<lambda>e. sq_sequence e < hi) (owed q acc lo p log)" by (intro owed_upto) simp
    then have "length (owed q acc lo hi log) \<le> length (owed q acc lo p log)" by simp
    with eq es show False by (metis add_le_same_cancel1 append_is_Nil_conv le_zero_eq length_0_conv length_append)
  qed
  then have rest: "es @ ys = owed q acc p hi log" using eq owed_split [OF sorted lo, of hi q acc] by simp
  have mem: "last es \<in> set (owed q acc p hi log)" unfolding rest [symmetric] using es by simp
  then show lt: "p < ?n" using owed_elem by fastforce
  have srt: "sorted_wrt (<) (map sq_sequence (es @ ys))" unfolding rest by (rule owed_sorted [OF sorted])
  have "\<forall>e \<in> set es. sq_sequence e < ?n"
  proof
    fix e assume e: "e \<in> set es"
    have "es = butlast es @ [last es]" using es by simp
    with srt have "sorted_wrt (<) (map sq_sequence (butlast es @ [last es]))" by (simp add: sorted_wrt_append)
    moreover have "e \<in> set (butlast es) \<or> e = last es" using e es by (cases es rule: rev_cases) auto
    ultimately show "sq_sequence e < ?n" by (auto simp: sorted_wrt_append)
  qed
  moreover have "\<forall>e \<in> set ys. \<not> sq_sequence e < ?n" using srt last_in_set [OF es] by (fastforce simp: sorted_wrt_append)
  ultimately have "filter (\<lambda>e. sq_sequence e < ?n) (es @ ys) = es" by (simp add: filter_empty_conv)
  moreover have "?n \<le> hi" using owed_elem [OF mem] by linarith
  ultimately show "es = owed q acc p ?n log" using owed_upto [of ?n hi q acc p log] rest by simp
qed

text \<open>A stream that handed out a batch is just past it.\<close>

lemma view_at_taken:
  assumes wf: "wf_shared sh'" and at: "view_at sh acc k p" and k: "map_get (sh_views sh) k = Some v"
    and same: "sh_query sh' = sh_query sh" "es_events (sh_store sh') = es_events (sh_store sh)"
    and v': "map_get (sh_views sh') k = Some v'" "vw_opened v' = vw_opened v" "vw_accepts v' = vw_accepts v" "vw_taken v' = vw_taken v @ es"
    and es: "es \<noteq> []"
  shows "es = owed (sh_query sh) acc p (sq_sequence (last es) + 1) (es_events (sh_store sh))" "p < sq_sequence (last es) + 1"
    "view_at sh' acc k (sq_sequence (last es) + 1)"
proof -
  let ?q = "sh_query sh" and ?log = "es_events (sh_store sh)" and ?n = "sq_sequence (last es) + 1"
  have srt: "sorted_wrt (<) (map se_position ?log)" using log_sorted [OF wf] same by simp
  have a: "vw_accepts v = acc" "vw_opened v \<le> p" "vw_taken v = owed ?q acc (vw_opened v) p ?log" using at k by (auto simp: view_at_def)
  have "view_ok sh' v'" by (rule wf_shared_view [OF wf v'(1)])
  then have "vw_taken v' @ drop (vw_head v') (vw_buffer v') = owed ?q acc (vw_opened v) (vw_next v') ?log"
    using v' a(1) same by (simp add: view_ok_def)
  then have "owed ?q acc (vw_opened v) p ?log @ es @ drop (vw_head v') (vw_buffer v') = owed ?q acc (vw_opened v) (vw_next v') ?log"
    using v'(4) a(3) by simp
  from owed_next [OF srt es this a(2)] show e: "es = owed ?q acc p ?n ?log" "p < ?n" .
  have "vw_taken v' = owed ?q acc (vw_opened v) ?n ?log"
    using owed_split [OF srt a(2), of ?n ?q acc] e v'(4) a(3) by simp
  moreover have "last es \<in> set (owed ?q acc p ?n (es_events (sh_store sh')))" using last_in_set [OF es] e(1) same by argo
  then have "?n \<le> es_nextPosition (sh_store sh')" using owed_below [OF wf] by fastforce
  ultimately show "view_at sh' acc k ?n" using v' a same e(2) by (auto simp: view_at_def)
qed

lemma collect_effect:
  assumes "wf_shared sh" "map_get (sh_views sh) k = Some v" "collect k n ev sh = (es, sh')" "0 < n"
  shows "wf_shared sh' \<and> sh_query sh' = sh_query sh \<and> es_events (sh_store sh') = es_events (sh_store sh) \<and>
     es_nextPosition (sh_store sh') = es_nextPosition (sh_store sh) \<and>
     (\<forall>j. j \<noteq> k \<longrightarrow> keeps sh sh' j) \<and> length es \<le> n \<and>
     (\<exists>v' more. map_get (sh_views sh') k = Some v' \<and> vw_opened v' = vw_opened v \<and> vw_accepts v' = vw_accepts v \<and>
        vw_taken v' = vw_taken v @ more \<and> es = (case ev of None \<Rightarrow> [] | Some e \<Rightarrow> [e]) @ more)"
  using assms
proof (induction k n ev sh arbitrary: v es sh' rule: collect.induct)
  case (3 k n e sh)
  show ?case
  proof (cases "n > 0")
    case False
    with 3 show ?thesis by auto
  next
    case n: True
    obtain b sh1 where h: "view_hasNextAvailable k sh = (b, sh1)" by fastforce
    have k1: "wf_shared sh1" "keeps sh sh1 j" for j using hasNext_keeps [OF 3(2) h] by blast+
    then obtain v1 where v1: "map_get (sh_views sh1) k = Some v1" "vw_opened v1 = vw_opened v" "vw_accepts v1 = vw_accepts v"
      "vw_taken v1 = vw_taken v" using 3(3) by (fastforce simp: keeps_def same_view_def)
    show ?thesis
    proof (cases b)
      case False
      then have "es = [e]" "sh' = sh1" using 3(4) n h by auto
      then show ?thesis using k1 v1 n by (auto simp: keeps_def)
    next
      case True
      obtain ev2 sh2 where t: "take_view k sh1 = (ev2, sh2)" by fastforce
      note te = take_view_effect [OF k1(1) v1(1) t]
      obtain v2 where v2: "map_get (sh_views sh2) k = Some v2" "vw_opened v2 = vw_opened v1" "vw_accepts v2 = vw_accepts v1"
        "vw_taken v2 = vw_taken v1 @ (case ev2 of None \<Rightarrow> [] | Some e \<Rightarrow> [e])" using te(6) by blast
      obtain es3 sh3 where cl: "collect k n ev2 sh2 = (es3, sh3)" by fastforce
      have res: "es = e # es3" "sh' = sh3" using 3(4) n h t cl True by auto
      from True have bb: "b = True" by simp
      from 3(1) [OF n h [symmetric] bb t [symmetric] te(1) v2(1) cl n]
      obtain v3 more where IH: "wf_shared sh3" "sh_query sh3 = sh_query sh2" "es_events (sh_store sh3) = es_events (sh_store sh2)"
        "es_nextPosition (sh_store sh3) = es_nextPosition (sh_store sh2)" "\<forall>j. j \<noteq> k \<longrightarrow> keeps sh2 sh3 j" "length es3 \<le> n" "map_get (sh_views sh3) k = Some v3" "vw_opened v3 = vw_opened v2"
        "vw_accepts v3 = vw_accepts v2" "vw_taken v3 = vw_taken v2 @ more" "es3 = (case ev2 of None \<Rightarrow> [] | Some e \<Rightarrow> [e]) @ more" by blast
      have "keeps sh sh3 j" if "j \<noteq> k" for j
        using k1(2) [of j] te(2) [OF that] IH(5) that keeps_trans by blast
      then show ?thesis unfolding res using IH v2 v1 te(3-5) k1(2) [of k] by (auto simp: keeps_def)
    qed
  qed
qed auto

section \<open>The invariant\<close>

definition rows_ok :: "token_store \<Rightarrow> bool" where
  "rows_ok ts \<longleftrightarrow> (\<forall>p a t. get_token p a ts = Some t \<longrightarrow> wf_token t \<and> 0 \<le> position t)"

definition worker_ok :: "'o run_config \<Rightarrow> shared_stream \<Rightarrow> nat \<Rightarrow> worker \<Rightarrow> bool" where
  "worker_ok c sh i wk \<longleftrightarrow>
     seg_id (wk_segment wk) = i \<and> wk_active wk \<and> wf_token (wk_token wk) \<and> 0 \<le> position (wk_token wk) \<and>
     (\<forall>k. wk_stream wk = Some k \<longrightarrow> view_at sh (accepts c (wk_segment wk)) k (position (wk_token wk)))"

definition known_ok :: "(nat, tracking_token) jsmap \<Rightarrow> bool" where
  "known_ok m \<longleftrightarrow> (\<forall>i t. map_get m i = Some t \<longrightarrow> wf_token t \<and> 0 \<le> position t)"

definition own_streams :: "(nat, worker) jsmap \<Rightarrow> bool" where
  "own_streams ws \<longleftrightarrow>
     (\<forall>i j wi wj k. map_get ws i = Some wi \<longrightarrow> map_get ws j = Some wj \<longrightarrow> wk_stream wi = Some k \<longrightarrow> wk_stream wj = Some k \<longrightarrow> i = j)"

definition running_ok :: "'o run_config \<Rightarrow> 'o running \<Rightarrow> bool" where
  "running_ok c st \<longleftrightarrow>
     wf_shared (rp_log st) \<and> sh_query (rp_log st) = stream_query (pd_handlers (rc_deps c)) \<and>
     (\<forall>i wk. map_get (rp_workers st) i = Some wk \<longrightarrow> worker_ok c (rp_log st) i wk) \<and>
     own_streams (rp_workers st) \<and> rows_ok (rp_tokens st) \<and> wf_map (rp_workers st) \<and>
     known_ok (rp_known st)"

lemma running_okI:
  "wf_shared (rp_log st) \<Longrightarrow> sh_query (rp_log st) = stream_query (pd_handlers (rc_deps c)) \<Longrightarrow>
   (\<And>i wk. map_get (rp_workers st) i = Some wk \<Longrightarrow> worker_ok c (rp_log st) i wk) \<Longrightarrow>
   own_streams (rp_workers st) \<Longrightarrow> rows_ok (rp_tokens st) \<Longrightarrow> wf_map (rp_workers st) \<Longrightarrow> known_ok (rp_known st) \<Longrightarrow> running_ok c st"
  unfolding running_ok_def by blast

lemma running_okD:
  assumes "running_ok c st"
  shows "wf_shared (rp_log st)" "sh_query (rp_log st) = stream_query (pd_handlers (rc_deps c))"
    "\<And>i wk. map_get (rp_workers st) i = Some wk \<Longrightarrow> worker_ok c (rp_log st) i wk" "own_streams (rp_workers st)" "rows_ok (rp_tokens st)"
    "wf_map (rp_workers st)" "known_ok (rp_known st)"
  using assms unfolding running_ok_def by blast+

lemma known_ok_set: "known_ok m \<Longrightarrow> wf_token t \<Longrightarrow> 0 \<le> position t \<Longrightarrow> known_ok (map_set i t m)"
  by (simp add: known_ok_def)

lemma known_ok_delete: "known_ok m \<Longrightarrow> known_ok (map_delete i m)"
  by (simp add: known_ok_def)

lemma worker_okD:
  assumes "worker_ok c sh i wk"
  shows "seg_id (wk_segment wk) = i" "wk_active wk" "wf_token (wk_token wk)" "0 \<le> position (wk_token wk)"
    "\<And>k. wk_stream wk = Some k \<Longrightarrow> view_at sh (accepts c (wk_segment wk)) k (position (wk_token wk))"
  using assms unfolding worker_ok_def by blast+

lemma worker_ok_keeps:
  assumes "worker_ok c sh i wk" "\<And>k. wk_stream wk = Some k \<Longrightarrow> keeps sh sh' k"
  shows "worker_ok c sh' i wk"
  using assms view_at_keeps unfolding worker_ok_def by blast

text \<open>Rows stay well-formed under every operation of the token store that is given well-formed tokens.\<close>

lemma rows_ok_set:
  "rows_ok ts \<Longrightarrow> (\<And>t. te_token e = Some t \<Longrightarrow> wf_token t \<and> 0 \<le> position t) \<Longrightarrow> rows_ok (set_entry p a e ts)"
  by (auto simp: rows_ok_def get_token_def bind_eq_Some_conv split: if_splits)

lemma rows_ok_entry: "rows_ok ts \<Longrightarrow> getEntry p a ts = Some e \<Longrightarrow> te_token e = Some t \<Longrightarrow> wf_token t \<and> 0 \<le> position t"
  unfolding rows_ok_def get_token_def by (metis Option.bind.bind_lunit)

lemma rows_ok_store:
  "rows_ok ts \<Longrightarrow> wf_token t \<Longrightarrow> 0 \<le> position t \<Longrightarrow> store_token now p a t ow ts = Inr ts' \<Longrightarrow> rows_ok ts'"
  by (auto simp: store_token_def Let_def split: if_splits option.splits intro!: rows_ok_set)

lemma rows_ok_claim:
  assumes "rows_ok ts" "claimToken now p a ow ts = Inr (stored, ts')"
  shows "rows_ok ts'" "stored = get_token p a ts"
  using assms
  by (auto simp: claimToken_def get_token_def split: if_splits option.splits intro!: rows_ok_set dest: rows_ok_entry)

lemma rows_ok_release: "rows_ok ts \<Longrightarrow> rows_ok (releaseClaim p a ow ts)"
  by (auto simp: releaseClaim_def split: option.splits intro!: rows_ok_set dest: rows_ok_entry)

lemma rows_ok_delete: "rows_ok ts \<Longrightarrow> rows_ok (deleteToken p a ts)"
  by (auto simp: rows_ok_def get_token_def bind_eq_Some_conv)

lemma rows_ok_extend: "rows_ok ts \<Longrightarrow> rows_ok (extendClaim now p a ow ts)"
  by (auto simp: extendClaim_def split: option.splits intro!: rows_ok_set dest: rows_ok_entry)

lemma rows_ok_initialize: "rows_ok ts \<Longrightarrow> rows_ok (initializeSegments p n ts)"
proof -
  have "rows_ok ts \<Longrightarrow> rows_ok (fold (initialize_one p) xs ts)" for xs
  proof (induction xs arbitrary: ts)
    case (Cons i xs)
    have "rows_ok (initialize_one p i ts)" using Cons.prems by (auto simp: initialize_one_def intro!: rows_ok_set)
    with Cons.IH show ?case by simp
  qed simp
  then show "rows_ok ts \<Longrightarrow> ?thesis" by (simp add: initializeSegments_def)
qed

lemma rows_ok_write_token:
  "rows_ok (pw_tokens w) \<Longrightarrow> wf_token t \<Longrightarrow> 0 \<le> position t \<Longrightarrow> rows_ok (pw_tokens (snd (write_token name a t ow w)))"
  by (auto simp: write_token_def split: sum.splits intro: rows_ok_store)

lemmas rows_ok_ops = rows_ok_store rows_ok_claim(1) rows_ok_release rows_ok_delete rows_ok_extend rows_ok_initialize

section \<open>Small steps of a worker\<close>

lemma upd_worker_fields [simp]:
  "rp_log (upd_worker i f st) = rp_log st" "rp_world (upd_worker i f st) = rp_world st" "rp_known (upd_worker i f st) = rp_known st"
  "rp_isRunning (upd_worker i f st) = rp_isRunning st" "rp_backlogEnd (upd_worker i f st) = rp_backlogEnd st"
  by (simp_all add: upd_worker_def put_worker_def split: option.split)

lemma upd_worker_get [simp]:
  "map_get (rp_workers (upd_worker i f st)) j = (if j = i then map_option f (map_get (rp_workers st) i) else map_get (rp_workers st) j)"
  by (auto simp: upd_worker_def put_worker_def split: option.split)

lemma upd_worker_keys [simp]: "map_keys (rp_workers (upd_worker i f st)) = map_keys (rp_workers st)"
  using alist.keys_set [of i _ "rp_workers st"] alist.keys_get [of i "rp_workers st"]
  by (auto simp: upd_worker_def put_worker_def split: option.split)

lemma put_worker_keys: "wf_map (rp_workers st) \<Longrightarrow> wf_map (rp_workers (put_worker i wk st))"
  by (simp add: put_worker_def alist.wf_set)

lemma wake_view_get:
  "map_get (rp_workers (wake_view busy k st)) j =
     map_option (\<lambda>wk. if wk_stream wk = Some k \<and> wk_active wk \<and> Some j \<noteq> busy then wk\<lparr>wk_timer := Some PollImmediate\<rparr> else wk)
       (map_get (rp_workers st) j)"
proof -
  have "map_of (map (\<lambda>(i, wk). (i, g i wk)) m) j = map_option (g j) (map_of m j)" for g :: "nat \<Rightarrow> worker \<Rightarrow> worker" and m
    by (induction m) auto
  from this [of "\<lambda>i wk. if wk_stream wk = Some k \<and> wk_active wk \<and> Some i \<noteq> busy then wk\<lparr>wk_timer := Some PollImmediate\<rparr> else wk"]
  show ?thesis by (simp add: wake_view_def)
qed

text \<open>Being woken changes nothing but the timer, and not that of the worker that polls.\<close>

definition same_but_timer :: "worker \<Rightarrow> worker \<Rightarrow> bool" where
  "same_but_timer wk wk' \<longleftrightarrow> (\<exists>t. wk' = wk\<lparr>wk_timer := t\<rparr>)"

lemma same_but_timer_refl [simp]: "same_but_timer wk wk"
  unfolding same_but_timer_def by (rule exI [of _ "wk_timer wk"]) simp

lemma same_but_timer_trans: "same_but_timer a b \<Longrightarrow> same_but_timer b d \<Longrightarrow> same_but_timer a d"
  by (auto simp: same_but_timer_def)

lemma same_option_trans:
  "rel_option same_but_timer a b \<Longrightarrow> rel_option same_but_timer b d \<Longrightarrow> rel_option same_but_timer a d"
  by (cases a; cases b; cases d) (auto intro: same_but_timer_trans)

lemma wake_views:
  "rel_option same_but_timer (map_get (rp_workers st) j) (map_get (rp_workers (fold (wake_view busy) ks st)) j)"
  "busy = Some j \<Longrightarrow> map_get (rp_workers (fold (wake_view busy) ks st)) j = map_get (rp_workers st) j"
  "rp_log (fold (wake_view busy) ks st) = rp_log st" "rp_world (fold (wake_view busy) ks st) = rp_world st"
  "rp_known (fold (wake_view busy) ks st) = rp_known st" "rp_isRunning (fold (wake_view busy) ks st) = rp_isRunning st"
  "rp_backlogEnd (fold (wake_view busy) ks st) = rp_backlogEnd st"
  "map_keys (rp_workers (fold (wake_view busy) ks st)) = map_keys (rp_workers st)"
proof (induction ks arbitrary: st)
  case Nil
  {
    case 1
    show ?case by (cases "map_get (rp_workers st) j") simp_all
  }
next
  case (Cons k ks)
  have w: "rel_option same_but_timer (map_get (rp_workers st) j) (map_get (rp_workers (wake_view busy k st)) j)" for st :: "'a running"
    by (cases "map_get (rp_workers st) j") (auto simp: wake_view_get same_but_timer_def [of _ "_\<lparr>wk_timer := _\<rparr>"])
  {
    case 1
    show ?case using same_option_trans [OF w Cons.IH(1) [of "wake_view busy k st"]] by simp
  next
    case 2
    then show ?case using Cons.IH(2) [of "wake_view busy k st"]
      by (cases "map_get (rp_workers st) j") (simp_all add: wake_view_get)
  }
qed (simp_all add: wake_view_def case_prod_unfold o_def)

lemma use_log_fields [simp]:
  "rp_log (use_log busy sh st) = sh" "rp_world (use_log busy sh st) = rp_world st" "rp_known (use_log busy sh st) = rp_known st"
  "rp_isRunning (use_log busy sh st) = rp_isRunning st" "rp_backlogEnd (use_log busy sh st) = rp_backlogEnd st"
  "map_keys (rp_workers (use_log busy sh st)) = map_keys (rp_workers st)"
  by (simp_all add: use_log_def wake_views)

lemma use_log_busy [simp]: "map_get (rp_workers (use_log (Some i) sh st)) i = map_get (rp_workers st) i"
  by (simp add: use_log_def wake_views(2))

lemma use_log_worker:
  "rel_option same_but_timer (map_get (rp_workers st) j) (map_get (rp_workers (use_log busy sh st)) j)"
  using wake_views(1) [of "st\<lparr>rp_log := sh\<rparr>" j busy] by (simp add: use_log_def)

section \<open>Steps that keep the invariant\<close>

lemma own_streams_sub:
  assumes "own_streams ws"
    and "\<And>j wk k. map_get ws' j = Some wk \<Longrightarrow> wk_stream wk = Some k \<Longrightarrow> \<exists>v. map_get ws j = Some v \<and> wk_stream v = Some k"
  shows "own_streams ws'"
  unfolding own_streams_def
proof (intro allI impI)
  fix i j wi wj k
  assume w: "map_get ws' i = Some wi" "map_get ws' j = Some wj" "wk_stream wi = Some k" "wk_stream wj = Some k"
  obtain vi where "map_get ws i = Some vi" "wk_stream vi = Some k" using assms(2) [OF w(1,3)] by blast
  moreover obtain vj where "map_get ws j = Some vj" "wk_stream vj = Some k" using assms(2) [OF w(2,4)] by blast
  ultimately show "i = j" using assms(1) unfolding own_streams_def by blast
qed

lemma own_streams_rel:
  assumes "own_streams ws" "\<And>j. rel_option same_but_timer (map_get ws j) (map_get ws' j)"
  shows "own_streams ws'"
proof (rule own_streams_sub [OF assms(1)])
  fix j wk k assume w: "map_get ws' j = Some wk" "wk_stream wk = Some k"
  then show "\<exists>v. map_get ws j = Some v \<and> wk_stream v = Some k"
    using assms(2) [of j] by (auto simp: option_rel_Some2 same_but_timer_def)
qed

lemma worker_ok_timer: "same_but_timer wk wk' \<Longrightarrow> worker_ok c sh i wk \<Longrightarrow> worker_ok c sh i wk'"
  by (auto simp: same_but_timer_def worker_ok_def)

lemma running_ok_use_log:
  assumes ok: "running_ok c st" and wf: "wf_shared sh" "sh_query sh = sh_query (rp_log st)"
    and k: "\<And>i wk k. map_get (rp_workers st) i = Some wk \<Longrightarrow> wk_stream wk = Some k \<Longrightarrow> keeps (rp_log st) sh k"
  shows "running_ok c (use_log busy sh st)"
proof (rule running_okI)
  fix i wk assume w: "map_get (rp_workers (use_log busy sh st)) i = Some wk"
  then obtain v where v: "map_get (rp_workers st) i = Some v" "same_but_timer v wk"
    using use_log_worker [of st i busy sh] by (auto simp: option_rel_Some2)
  have "worker_ok c sh i v" using worker_ok_keeps [OF running_okD(3) [OF ok v(1)]] k [OF v(1)] by blast
  with v(2) show "worker_ok c (rp_log (use_log busy sh st)) i wk" by (simp add: worker_ok_timer)
next
  show "own_streams (rp_workers (use_log busy sh st))" by (rule own_streams_rel [OF running_okD(4) [OF ok] use_log_worker])
qed (use ok wf running_okD [OF ok] in simp_all)

lemma running_ok_upd:
  assumes ok: "running_ok c st"
    and f: "\<And>wk. map_get (rp_workers st) i = Some wk \<Longrightarrow>
        worker_ok c (rp_log st) i (f wk) \<and> (wk_stream (f wk) = wk_stream wk \<or> wk_stream (f wk) = None)"
  shows "running_ok c (upd_worker i f st)"
proof (rule running_okI)
  fix j wk assume "map_get (rp_workers (upd_worker i f st)) j = Some wk"
  then show "worker_ok c (rp_log (upd_worker i f st)) j wk"
    using f running_okD(3) [OF ok] by (auto split: if_splits)
next
  show "own_streams (rp_workers (upd_worker i f st))"
  proof (rule own_streams_sub [OF running_okD(4) [OF ok]])
    fix j wk k assume w: "map_get (rp_workers (upd_worker i f st)) j = Some wk" "wk_stream wk = Some k"
    show "\<exists>v. map_get (rp_workers st) j = Some v \<and> wk_stream v = Some k"
    proof (cases "j = i")
      case True
      then obtain v where "map_get (rp_workers st) i = Some v" "wk = f v" using w(1) by auto
      then show ?thesis using f [of v] w(2) True by auto
    next
      case False
      with w show ?thesis by auto
    qed
  qed
qed (use running_okD [OF ok] in simp_all)

lemma running_ok_world: "running_ok c st \<Longrightarrow> rows_ok (pw_tokens w) \<Longrightarrow> running_ok c (st\<lparr>rp_world := w\<rparr>)"
  by (simp add: running_ok_def)

lemma running_ok_with_tokens: "running_ok c st \<Longrightarrow> rows_ok ts \<Longrightarrow> running_ok c (with_tokens ts st)"
  by (simp add: running_ok_def with_tokens_def)

lemma running_ok_known: "running_ok c st \<Longrightarrow> known_ok m \<Longrightarrow> running_ok c (st\<lparr>rp_known := m\<rparr>)"
  by (simp add: running_ok_def)

lemma running_ok_delete:
  assumes ok: "running_ok c st"
  shows "running_ok c (st\<lparr>rp_workers := map_delete i (rp_workers st)\<rparr>)"
proof (rule running_okI)
  show "own_streams (rp_workers (st\<lparr>rp_workers := map_delete i (rp_workers st)\<rparr>))"
    by (rule own_streams_sub [OF running_okD(4) [OF ok]]) (auto split: if_splits)
qed (use running_okD [OF ok] alist.wf_del [OF running_okD(6) [OF ok]] in \<open>auto split: if_splits\<close>)

lemma running_ok_close:
  assumes ok: "running_ok c st" and other: "\<And>i wk. map_get (rp_workers st) i = Some wk \<Longrightarrow> wk_stream wk \<noteq> Some k"
  shows "running_ok c (st\<lparr>rp_log := close_view k (rp_log st)\<rparr>)"
proof (rule running_okI)
  fix i wk assume "map_get (rp_workers (st\<lparr>rp_log := close_view k (rp_log st)\<rparr>)) i = Some wk"
  then have w: "map_get (rp_workers st) i = Some wk" by simp
  have "keeps (rp_log st) (close_view k (rp_log st)) j" if "wk_stream wk = Some j" for j
    using close_view_keeps(2) [OF running_okD(1) [OF ok], of j k] other [OF w] that by auto
  from worker_ok_keeps [OF running_okD(3) [OF ok w] this]
  show "worker_ok c (rp_log (st\<lparr>rp_log := close_view k (rp_log st)\<rparr>)) i wk" by simp
qed (use running_okD [OF ok] close_view_keeps(1) [OF running_okD(1) [OF ok], of k] in \<open>auto simp: close_view_def Let_def\<close>)

text \<open>A poll in the middle of its batch: everything is well but that the worker's stream is ahead of its token.\<close>

definition detached :: "nat \<Rightarrow> 'o running \<Rightarrow> 'o running" where
  "detached i st = upd_worker i (\<lambda>wk. wk\<lparr>wk_stream := None\<rparr>) st"

definition polling_ok :: "'o run_config \<Rightarrow> nat \<Rightarrow> 'o running \<Rightarrow> bool" where
  "polling_ok c i st \<longleftrightarrow> running_ok c (detached i st) \<and> own_streams (rp_workers st)"

lemma running_polling: "running_ok c st \<Longrightarrow> polling_ok c i st"
  unfolding polling_ok_def detached_def
  by (auto intro!: running_ok_upd dest: running_okD(4)) (auto simp: worker_ok_def dest!: running_okD(3))

lemma running_ok_cong:
  assumes "rp_log st' = rp_log st" "rp_tokens st' = rp_tokens st" "\<And>j. map_get (rp_workers st') j = map_get (rp_workers st) j"
    "map_keys (rp_workers st') = map_keys (rp_workers st)" "rp_known st' = rp_known st"
  shows "running_ok c st' \<longleftrightarrow> running_ok c st"
  unfolding running_ok_def own_streams_def assms ..

lemma detached_fields [simp]:
  "rp_log (detached i st) = rp_log st" "rp_world (detached i st) = rp_world st" "rp_known (detached i st) = rp_known st"
  "map_keys (rp_workers (detached i st)) = map_keys (rp_workers st)"
  "map_get (rp_workers (detached i st)) j =
     (if j = i then map_option (\<lambda>wk. wk\<lparr>wk_stream := None\<rparr>) (map_get (rp_workers st) i) else map_get (rp_workers st) j)"
  by (simp_all add: detached_def)

lemma close_stream_fields [simp]:
  "rp_world (close_stream i st) = rp_world st" "rp_known (close_stream i st) = rp_known st"
  "rp_isRunning (close_stream i st) = rp_isRunning st" "rp_backlogEnd (close_stream i st) = rp_backlogEnd st"
  "map_get (rp_workers (close_stream i st)) j = map_get (rp_workers (detached i st)) j"
  "map_keys (rp_workers (close_stream i st)) = map_keys (rp_workers st)"
  by (auto simp: close_stream_def split: option.split)

lemma close_stream_ok:
  assumes "polling_ok c i st"
  shows "running_ok c (close_stream i st)"
proof (cases "\<exists>wk k. map_get (rp_workers st) i = Some wk \<and> wk_stream wk = Some k")
  case False
  then have "rp_log (close_stream i st) = rp_log (detached i st)" by (auto simp: close_stream_def split: option.split)
  then have "running_ok c (close_stream i st) \<longleftrightarrow> running_ok c (detached i st)" by (intro running_ok_cong) simp_all
  with assms show ?thesis by (simp add: polling_ok_def)
next
  case True
  then obtain wk k where k: "map_get (rp_workers st) i = Some wk" "wk_stream wk = Some k" by blast
  have "wk_stream wj \<noteq> Some k" if "map_get (rp_workers (detached i st)) j = Some wj" for j wj
    using that k assms by (auto simp: polling_ok_def own_streams_def split: if_splits)
  then have "running_ok c ((detached i st)\<lparr>rp_log := close_view k (rp_log (detached i st))\<rparr>)"
    using assms by (intro running_ok_close) (auto simp: polling_ok_def)
  moreover have "running_ok c (close_stream i st) \<longleftrightarrow> running_ok c ((detached i st)\<lparr>rp_log := close_view k (rp_log (detached i st))\<rparr>)"
    by (rule running_ok_cong) (simp_all add: close_stream_def k)
  ultimately show ?thesis by simp
qed

lemma lose_ok: "polling_ok c i st \<Longrightarrow> running_ok c (lose i st)"
proof -
  assume ok: "polling_ok c i st"
  show ?thesis
  proof (cases "map_get (rp_workers st) i")
    case None
    then have "running_ok c st \<longleftrightarrow> running_ok c (detached i st)" by (intro running_ok_cong) simp_all
    with ok None show ?thesis by (simp add: lose_def polling_ok_def)
  next
    case (Some wk)
    have "wk_active wk" using ok Some running_okD(3) [of c "detached i st" i] by (auto simp: polling_ok_def worker_ok_def)
    with Some show ?thesis
      using running_ok_known [OF running_ok_delete [OF close_stream_ok [OF ok], of i] known_ok_delete [OF running_okD(7) [OF close_stream_ok [OF ok]], of i]]
      by (simp add: lose_def Let_def)
  qed
qed

lemma upd_polling:
  assumes "polling_ok c i st"
    and "\<And>wk. map_get (rp_workers st) i = Some wk \<Longrightarrow> wk_stream (f wk) = wk_stream wk \<and> wk_segment (f wk) = wk_segment wk \<and>
        wk_active (f wk) = wk_active wk \<and> wk_token (f wk) = wk_token wk"
  shows "polling_ok c i (upd_worker i f st)"
proof -
  have own: "own_streams (rp_workers st)" and ok: "running_ok c (detached i st)" using assms(1) by (simp_all add: polling_ok_def)
  from own have "own_streams (rp_workers (upd_worker i f st))"
    by (rule own_streams_sub) (use assms(2) in \<open>auto split: if_splits\<close>)
  moreover have "running_ok c (detached i (upd_worker i f st))"
  proof (rule running_okI)
    fix j wk assume w: "map_get (rp_workers (detached i (upd_worker i f st))) j = Some wk"
    show "worker_ok c (rp_log (detached i (upd_worker i f st))) j wk"
    proof (cases "j = i")
      case True
      then obtain v where v: "map_get (rp_workers st) i = Some v" "wk = (f v)\<lparr>wk_stream := None\<rparr>" using w by auto
      then have "map_get (rp_workers (detached i st)) i = Some (v\<lparr>wk_stream := None\<rparr>)" by simp
      from running_okD(3) [OF ok this] v assms(2) [OF v(1)] True show ?thesis by (simp add: worker_ok_def)
    next
      case False
      with w running_okD(3) [OF ok, of j wk] show ?thesis by simp
    qed
  next
    show "own_streams (rp_workers (detached i (upd_worker i f st)))"
      by (rule own_streams_sub [OF running_okD(4) [OF ok]]) (auto split: if_splits)
  qed (use running_okD [OF ok] in simp_all)
  ultimately show ?thesis by (simp add: polling_ok_def)
qed

lemma upd_running:
  assumes "running_ok c st"
    and "\<And>wk. wk_stream (f wk) = wk_stream wk \<and> wk_segment (f wk) = wk_segment wk \<and> wk_active (f wk) = wk_active wk \<and> wk_token (f wk) = wk_token wk"
  shows "running_ok c (upd_worker i f st)"
proof (rule running_ok_upd [OF assms(1)])
  fix wk assume "map_get (rp_workers st) i = Some wk"
  then have "worker_ok c (rp_log st) i wk" by (rule running_okD(3) [OF assms(1)])
  with assms(2) [of wk] show "worker_ok c (rp_log st) i (f wk) \<and> (wk_stream (f wk) = wk_stream wk \<or> wk_stream (f wk) = None)"
    by (simp add: worker_ok_def)
qed

lemma poll_failed_ok:
  assumes "polling_ok c i st"
  shows "running_ok c (poll_failed c i err st)"
proof (cases "\<exists>e. err = BatchFailed (ClaimLost e)")
  case True
  then show ?thesis using lose_ok [OF assms] by (auto simp: poll_failed_def)
next
  case False
  let ?st1 = "close_stream i (upd_worker i (\<lambda>wk. wk\<lparr>wk_lastError := Some err, wk_cautiousUntil := wk_attemptEnd wk\<rparr>) st)"
  have ok1: "running_ok c ?st1" by (rule close_stream_ok [OF upd_polling [OF assms]]) simp
  have rest: "running_ok c (schedule_poll i tm (upd_worker i (\<lambda>wk. wk\<lparr>wk_retryDelayMs := g wk\<rparr>) ?st1))" for tm g
    unfolding schedule_poll_def by (intro upd_running ok1) simp_all
  have none: "running_ok c st" if "map_get (rp_workers st) i = None"
  proof -
    have "running_ok c st \<longleftrightarrow> running_ok c (detached i st)" using that by (intro running_ok_cong) simp_all
    with assms show ?thesis by (simp add: polling_ok_def)
  qed
  have "poll_failed c i err st =
     (case map_get (rp_workers st) i of None \<Rightarrow> st
      | Some wk \<Rightarrow> if wk_active wk then schedule_poll i (PollAfter (wk_retryDelayMs wk))
            (upd_worker i (\<lambda>wk. wk\<lparr>wk_retryDelayMs := min (wk_retryDelayMs wk * 2) (max MAX_RETRY_DELAY_MS (firstRetryDelayMs c))\<rparr>) ?st1)
          else ?st1)"
  proof (cases err)
    case (BatchFailed b)
    with False show ?thesis unfolding poll_failed_def Let_def by (cases b) simp_all
  next
    case (StreamRefused e)
    then show ?thesis unfolding poll_failed_def Let_def by simp
  qed
  then show ?thesis using none rest ok1 by (simp split: option.split)
qed

section \<open>The outcome of a poll\<close>

lemma query_compiles: "stream_query m = Some q \<Longrightarrow> \<exists>cr. compileQuery q = Inr cr"
  by (auto simp: stream_query_def compileQuery_def compileItem_def tagsFromRecord_def split: if_splits)

lemma open_view_succeeds:
  assumes "sh_query sh = stream_query m"
  shows "\<exists>k sh'. open_view pos token acc sh = Inr (k, sh')"
  using assms query_compiles [of m]
  by (cases "stream_query m") (auto simp: open_view_def reopen_def open_stream_def set_view_def Let_def split: option.split)

abbreviation log_events :: "'o running \<Rightarrow> store_entry list" where
  "log_events st \<equiv> es_events (sh_store (rp_log st))"

abbreviation owed_to :: "'o run_config \<Rightarrow> segment \<Rightarrow> int \<Rightarrow> int \<Rightarrow> 'o running \<Rightarrow> sequenced_event list" where
  "owed_to c s lo hi st \<equiv> owed (sh_query (rp_log st)) (accepts c s) lo hi (log_events st)"

lemma openStream_ok:
  assumes ok: "running_ok c st" and w: "map_get (rp_workers st) i = Some wk" "wk_stream wk = None"
  shows "\<exists>k st'. openStream c i st = (None, st') \<and> running_ok c st' \<and> map_get (rp_workers st') i = Some (wk\<lparr>wk_stream := Some k\<rparr>) \<and>
     rp_world st' = rp_world st \<and> rp_backlogEnd st' = rp_backlogEnd st \<and> sh_query (rp_log st') = sh_query (rp_log st) \<and>
     log_events st' = log_events st"
proof -
  let ?acc = "accepts c (wk_segment wk)" and ?p = "position (wk_token wk)"
  note wf = running_okD(1) [OF ok] and wok = running_okD(3) [OF ok w(1)]
  have pos: "0 \<le> ?p" by (rule worker_okD(4) [OF wok])
  obtain k sh where o: "open_view ?p (Some (wk_token wk)) ?acc (rp_log st) = Inr (k, sh)"
    using open_view_succeeds [OF running_okD(2) [OF ok]] by blast
  note eff = open_view_effect [OF wf pos o]
  let ?sh = "view_setCallback k sh"
  have sc: "wf_shared ?sh" "keeps sh ?sh j" for j using setCallback_keeps [OF eff(1)] by blast+
  have kp: "keeps (rp_log st) ?sh j" for j using keeps_trans [OF eff(3) sc(2)] .
  then have same: "sh_query ?sh = sh_query (rp_log st)" "es_events (sh_store ?sh) = log_events st" by (simp_all add: keeps_def)
  let ?st1 = "use_log (Some i) ?sh st" and ?f = "\<lambda>wk. wk\<lparr>wk_stream := Some k\<rparr>"
  have ok1: "running_ok c ?st1" using kp by (intro running_ok_use_log [OF ok sc(1) same(1)]) blast
  obtain v where v: "map_get (sh_views ?sh) k = Some v" "vw_opened v = ?p" "vw_accepts v = ?acc" "vw_taken v = []"
    using eff(4) sc(2) [of k] by (fastforce simp: keeps_def same_view_def)
  then have at: "view_at ?sh ?acc k ?p" by (simp add: view_at_def)
  have unused: "wk_stream wj \<noteq> Some k" if m: "map_get (rp_workers ?st1) j = Some wj" for j wj
  proof -
    obtain vj where vj: "map_get (rp_workers st) j = Some vj" "same_but_timer vj wj"
      using use_log_worker [of st j "Some i" ?sh] m by (auto simp: option_rel_Some2)
    have "wk_stream vj \<noteq> Some k" using worker_okD(5) [OF running_okD(3) [OF ok vj(1)], of k] eff(2) by (auto simp: view_at_def)
    with vj(2) show ?thesis by (auto simp: same_but_timer_def)
  qed
  let ?st2 = "upd_worker i ?f ?st1"
  have ok2: "running_ok c ?st2"
  proof (rule running_okI)
    fix j wj assume j: "map_get (rp_workers ?st2) j = Some wj"
    show "worker_ok c (rp_log ?st2) j wj"
    proof (cases "j = i")
      case True
      then show ?thesis using j w(1) wok at by (auto simp: worker_ok_def)
    next
      case False
      with j running_okD(3) [OF ok1, of j wj] show ?thesis by simp
    qed
  next
    show "own_streams (rp_workers ?st2)"
      using running_okD(4) [OF ok1] unused unfolding own_streams_def by (auto split: if_splits)
  qed (use running_okD [OF ok1] in simp_all)
  have "openStream c i st = (None, ?st2)" using w o by (simp add: openStream_def)
  then show ?thesis using ok2 w same by auto
qed

lemma write_row_ok:
  assumes "running_ok c st" "wf_token t" "0 \<le> position t" "write_row c i t st = (r, st')"
  shows "running_ok c st'" "rp_workers st' = rp_workers st" "rp_log st' = rp_log st" "pw_dlq (rp_world st') = pw_dlq (rp_world st)"
    "rp_known st' = rp_known st" "rp_isRunning st' = rp_isRunning st" "rp_backlogEnd st' = rp_backlogEnd st"
    "\<And>err. r = Some err \<Longrightarrow> \<exists>e. err = ClaimLost e"
proof -
  obtain w where w: "write_token (rc_name c) i t (rc_owner c) (rp_world st) = (r, w)" "st' = st\<lparr>rp_world := w\<rparr>"
    using assms(4) by (auto simp: write_row_def split: prod.splits)
  have "rows_ok (pw_tokens w)" using rows_ok_write_token [OF running_okD(5) [OF assms(1)] assms(2,3), of "rc_name c" i "rc_owner c"] w(1) by simp
  then show "running_ok c st'" unfolding w(2) by (rule running_ok_world [OF assms(1)])
  have "pw_dlq w = pw_dlq (rp_world st)" "\<And>err. r = Some err \<Longrightarrow> \<exists>e. err = ClaimLost e"
    using w(1) by (auto simp: write_token_def split: sum.splits)
  then show "rp_workers st' = rp_workers st" "rp_log st' = rp_log st" "pw_dlq (rp_world st') = pw_dlq (rp_world st)"
    "rp_known st' = rp_known st" "rp_isRunning st' = rp_isRunning st" "rp_backlogEnd st' = rp_backlogEnd st"
    "\<And>err. r = Some err \<Longrightarrow> \<exists>e. err = ClaimLost e"
    by (simp_all add: w(2))
qed

lemma set_token_fields [simp]:
  "rp_log (set_token i t st) = rp_log st" "rp_known (set_token i t st) = map_set i t (rp_known st)" "rp_world (set_token i t st) = rp_world st"
  "rp_isRunning (set_token i t st) = rp_isRunning st" "rp_backlogEnd (set_token i t st) = rp_backlogEnd st"
  "map_keys (rp_workers (set_token i t st)) = map_keys (rp_workers st)"
  "map_get (rp_workers (set_token i t st)) j =
     (if j = i then map_option (\<lambda>wk. wk\<lparr>wk_token := t\<rparr>) (map_get (rp_workers st) i) else map_get (rp_workers st) j)"
  by (simp_all add: set_token_def)

lemma set_token_ok:
  assumes ok: "polling_ok c i st" and w: "map_get (rp_workers st) i = Some wk"
    and t: "wf_token t" "0 \<le> position t"
    and at: "\<And>k. wk_stream wk = Some k \<Longrightarrow> view_at (rp_log st) (accepts c (wk_segment wk)) k (position t)"
  shows "running_ok c (set_token i t st)"
proof (rule running_okI)
  have det: "running_ok c (detached i st)" and own: "own_streams (rp_workers st)" using ok by (simp_all add: polling_ok_def)
  fix j wj assume j: "map_get (rp_workers (set_token i t st)) j = Some wj"
  show "worker_ok c (rp_log (set_token i t st)) j wj"
  proof (cases "j = i")
    case True
    have "worker_ok c (rp_log st) i (wk\<lparr>wk_stream := None\<rparr>)" using running_okD(3) [OF det, of i] w by simp
    then show ?thesis using j w True t at by (auto simp: worker_ok_def)
  next
    case False
    with j running_okD(3) [OF det, of j wj] show ?thesis by simp
  qed
next
  have "own_streams (rp_workers st)" using ok by (simp add: polling_ok_def)
  then show "own_streams (rp_workers (set_token i t st))" by (rule own_streams_sub) (auto split: if_splits)
qed (use ok running_okD [of c "detached i st"] t in \<open>simp_all add: polling_ok_def known_ok_set\<close>)

text \<open>Moving through a stretch with nothing for the segment passes no event it accepts.\<close>

definition moved :: "worker \<Rightarrow> worker \<Rightarrow> bool" where
  "moved wk wk' \<longleftrightarrow> (\<exists>t u. wk' = wk\<lparr>wk_token := t, wk_unwritten := u\<rparr>)"

lemma moved_same:
  assumes "moved wk wk'"
  shows "wk_stream wk' = wk_stream wk" "wk_segment wk' = wk_segment wk" "wk_retryDelayMs wk' = wk_retryDelayMs wk"
    "wk_attemptEnd wk' = wk_attemptEnd wk" "wk_active wk' = wk_active wk"
  using assms by (auto simp: moved_def)

lemma moved_refl: "moved wk wk"
  unfolding moved_def by (intro exI [of _ "wk_token wk"] exI [of _ "wk_unwritten wk"]) simp

lemma quiet_stretch:
  assumes ok: "running_ok c st" and w: "map_get (rp_workers st) i = Some wk" and m: "moveThroughQuietStretch c i st = (r, st')"
  shows "running_ok c st' \<and> rp_log st' = rp_log st \<and> pw_dlq (rp_world st') = pw_dlq (rp_world st) \<and>
     (\<exists>wk'. map_get (rp_workers st') i = Some wk' \<and> moved wk wk' \<and> position (wk_token wk) \<le> position (wk_token wk') \<and>
        owed_to c (wk_segment wk) (position (wk_token wk)) (position (wk_token wk')) st = []) \<and>
     (\<forall>err. r = Some err \<longrightarrow> (\<exists>e. err = BatchFailed (ClaimLost e)))"
proof (cases "\<exists>k looked. wk_stream wk = Some k \<and> view_progressToken k (rp_log st) = Some looked \<and> position looked > position (wk_token wk)")
  case False
  then have "r = None" "st' = st" using m w by (auto simp: moveThroughQuietStretch_def split: option.splits if_splits)
  then show ?thesis using ok w moved_refl by auto
next
  case True
  then obtain k looked where k: "wk_stream wk = Some k" "view_progressToken k (rp_log st) = Some looked"
    "position looked > position (wk_token wk)" by blast
  let ?acc = "accepts c (wk_segment wk)" and ?p = "position (wk_token wk)" and ?n = "position looked"
  let ?t = "advanceTokenTo (wk_token wk) looked"
  let ?st1 = "set_token i ?t st"
  note wok = running_okD(3) [OF ok w] and wf = running_okD(1) [OF ok]
  obtain v where v: "map_get (sh_views (rp_log st)) k = Some v" "vw_accepts v = ?acc" "vw_opened v \<le> ?p"
    "vw_taken v = owed_to c (wk_segment wk) (vw_opened v) ?p st"
    using worker_okD(5) [OF wok k(1)] by (auto simp: view_at_def)
  have pe: "plain_token looked" "vw_taken v = owed_to c (wk_segment wk) (vw_opened v) ?n st"
    "?n = vw_opened v \<or> ?n \<le> es_nextPosition (sh_store (rp_log st))"
    using progress_exact [OF wf v(1) k(2)] v(2) by simp_all
  have empty: "owed_to c (wk_segment wk) ?p ?n st = []"
    using owed_split [OF log_sorted [OF wf] v(3), of ?n "sh_query (rp_log st)" ?acc] pe(2) v(4) k(3) by simp
  have t: "wf_token ?t" "position ?t = ?n"
    using worker_okD(3) [OF wok] pe(1) k(3) by (simp_all add: advance_wf advance_position)
  have pos: "0 \<le> position ?t" using worker_okD(4) [OF wok] k(3) t(2) by linarith
  have at: "view_at (rp_log st) ?acc k' (position ?t)" if "wk_stream wk = Some k'" for k'
    using that k v pe(2,3) unfolding view_at_def t(2) by auto
  have ok1: "running_ok c ?st1" by (rule set_token_ok [OF running_polling [OF ok] w t(1) pos at])
  show ?thesis
  proof (cases "seg_mask (wk_segment wk) \<noteq> 0")
    case True
    then have e: "r = None" "st' = upd_worker i (\<lambda>wk. wk\<lparr>wk_unwritten := True\<rparr>) ?st1"
      using m w k by (auto simp: moveThroughQuietStretch_def Let_def)
    have "running_ok c st'" unfolding e(2) by (rule upd_running [OF ok1]) simp
    moreover have "moved wk (wk\<lparr>wk_token := ?t, wk_unwritten := True\<rparr>)" unfolding moved_def by blast
    ultimately show ?thesis using e w t(2) empty k(3) by auto
  next
    case False
    obtain r2 st2 where wr: "write_row c i ?t ?st1 = (r2, st2)" by fastforce
    then have e: "st' = st2" "r = map_option BatchFailed r2"
      using m w k False by (auto simp: moveThroughQuietStretch_def Let_def split: option.splits)
    note wo = write_row_ok [OF ok1 t(1) pos wr]
    have "moved wk (wk\<lparr>wk_token := ?t\<rparr>)" unfolding moved_def by (intro exI [of _ ?t] exI [of _ "wk_unwritten wk"]) simp
    then show ?thesis using e wo w t(2) empty k(3) by auto
  qed
qed

text \<open>The token a batch of owed events leaves.\<close>

lemma batch_token:
  assumes srt: "sorted_wrt (<) (map se_position log)" and t: "wf_token t"
    and es: "es = owed q acc (position t) n log" "es \<noteq> []"
  shows "wf_token (foldl advanceTokenTo t (map just_past es)) \<and>
         position (foldl advanceTokenTo t (map just_past es)) = sq_sequence (last es) + 1"
proof -
  have el: "position t \<le> sq_sequence e \<and> just_past e = GlobalSequenceToken (sq_sequence e + 1)" if "e \<in> set es" for e
    using owed_elem [of e q acc "position t" n log] that es(1) by (simp add: just_past_def)
  have pl: "list_all plain_token (map just_past es)" using el by (auto simp: list_all_iff)
  have "map (position \<circ> just_past) es = map (\<lambda>e. sq_sequence e + 1) es" using el by simp
  moreover have "sorted_wrt (<) (map sq_sequence es)" unfolding es(1) by (rule owed_sorted [OF srt])
  then have "sorted (map (\<lambda>e. sq_sequence e + 1) es)" 
    unfolding sorted_wrt_map by (rule sorted_wrt_mono_rel [rotated]) simp
  ultimately have so: "sorted (map position (map just_past es))" by (simp only: map_map)
  have hd: "map just_past es \<noteq> [] \<Longrightarrow> position t \<le> position (hd (map just_past es))"
    using el [of "hd es"] es(2) by (simp add: hd_map)
  show ?thesis using tok.fold_adv [OF t pl so hd] es(2) el [of "last es"] by (simp add: last_map)
qed

lemma processBatch_ok:
  assumes p: "processBatch plain_batch_host d schedule seg owner t batch w = Some (Inr t', w')"
    and rows: "rows_ok (pw_tokens w)" and t': "wf_token t'" "0 \<le> position t'"
  shows "rows_ok (pw_tokens w')"
proof -
  obtain e where "getEntry (pd_name d) seg (pw_tokens w) = Some e"
    "pw_tokens w' = set_entry (pd_name d) seg (e\<lparr>te_token := Some t', te_claimedAt := dw_now (pw_dlq w')\<rparr>) (pw_tokens w)"
    using processBatch_effect [of d schedule seg owner t batch w] p by auto
  then show ?thesis using rows t' by (auto intro!: rows_ok_set)
qed

text \<open>From one state of a poll to another, past no event the segment accepts.\<close>

definition passes_nothing :: "'o run_config \<Rightarrow> nat \<Rightarrow> worker \<Rightarrow> 'o running \<Rightarrow> 'o running \<Rightarrow> bool" where
  "passes_nothing c i wk st st' \<longleftrightarrow>
     running_ok c st' \<and> pw_dlq (rp_world st') = pw_dlq (rp_world st) \<and>
     (\<exists>wk'. map_get (rp_workers st') i = Some wk' \<and> wk_stream wk' \<noteq> None \<and> position (wk_token wk) \<le> position (wk_token wk') \<and>
        owed_to c (wk_segment wk) (position (wk_token wk)) (position (wk_token wk')) st = [])"

definition only_claim_lost :: "poll_error option \<Rightarrow> bool" where
  "only_claim_lost r \<longleftrightarrow> (\<forall>err. r = Some err \<longrightarrow> (\<exists>e. err = BatchFailed (ClaimLost e)))"

lemma passes_schedule:
  assumes "passes_nothing c i wk st st'"
  shows "passes_nothing c i wk st (schedule_poll i tm st')"
proof -
  have "running_ok c (schedule_poll i tm st')" using assms unfolding schedule_poll_def passes_nothing_def by (intro upd_running) simp_all
  with assms show ?thesis by (auto simp: passes_nothing_def schedule_poll_def)
qed

lemma caught_up_outcome:
  assumes ok: "running_ok c st" and w: "map_get (rp_workers st) i = Some wk" "wk_stream wk \<noteq> None"
    and m: "moveThroughQuietStretch c i (upd_worker i (\<lambda>wk. wk\<lparr>wk_caughtUp := True\<rparr>) st) = (r, st')"
  shows "passes_nothing c i wk st st' \<and> only_claim_lost r"
proof -
  let ?st2 = "upd_worker i (\<lambda>wk. wk\<lparr>wk_caughtUp := True\<rparr>) st"
  have "running_ok c ?st2" by (rule upd_running [OF ok]) simp
  moreover have "map_get (rp_workers ?st2) i = Some (wk\<lparr>wk_caughtUp := True\<rparr>)" using w by simp
  ultimately show ?thesis using quiet_stretch [OF _ _ m] w(2) moved_same(1) by (fastforce simp: passes_nothing_def only_claim_lost_def)
qed

lemma after_batch_outcome:
  assumes ok: "running_ok c st" and w: "map_get (rp_workers st) i = Some wk" "wk_stream wk \<noteq> None" and a: "after_batch c i k st = (r, st')"
  shows "passes_nothing c i wk st st' \<and> only_claim_lost r"
proof -
  obtain b sh where h: "view_hasNextAvailable k (rp_log st) = (b, sh)" by fastforce
  have hk: "wf_shared sh" "keeps (rp_log st) sh j" for j using hasNext_keeps [OF running_okD(1) [OF ok] h] by blast+
  then have same: "sh_query sh = sh_query (rp_log st)" "es_events (sh_store sh) = log_events st" by (auto simp: keeps_def)
  let ?st1 = "use_log (Some i) sh st"
  have ok1: "running_ok c ?st1" using hk(2) by (intro running_ok_use_log [OF ok hk(1) same(1)]) blast
  have w1: "map_get (rp_workers ?st1) i = Some wk" "wk_stream wk \<noteq> None" using w by simp_all
  have eqv: "passes_nothing c i wk ?st1 st2 \<longleftrightarrow> passes_nothing c i wk st st2" for st2 by (simp add: passes_nothing_def same)
  show ?thesis
  proof (cases b)
    case True
    then have e: "r = None" "st' = schedule_poll i PollImmediate ?st1" using a h by (simp_all add: after_batch_def)
    have "passes_nothing c i wk st ?st1" using ok1 w1 by (simp add: passes_nothing_def)
    then show ?thesis using e passes_schedule by (auto simp: only_claim_lost_def)
  next
    case False
    obtain r3 st3 where m: "moveThroughQuietStretch c i (upd_worker i (\<lambda>wk. wk\<lparr>wk_caughtUp := True\<rparr>) ?st1) = (r3, st3)" by fastforce
    note q = caught_up_outcome [OF ok1 w1 m, unfolded eqv]
    have "r = r3" "st' = st3 \<or> st' = schedule_poll i (PollAfter (rc_pollingIntervalMs c)) st3"
      using a h False m q by (auto simp: after_batch_def passes_nothing_def split: option.splits)
    with q passes_schedule show ?thesis by blast
  qed
qed

lemma nothing_ready_outcome:
  assumes ok: "running_ok c st" and w: "map_get (rp_workers st) i = Some wk" "wk_stream wk \<noteq> None" and a: "nothing_ready c i st = (r, st')"
  shows "passes_nothing c i wk st st' \<and> only_claim_lost r"
proof -
  obtain r3 st3 where m: "moveThroughQuietStretch c i (upd_worker i (\<lambda>wk. wk\<lparr>wk_caughtUp := True\<rparr>) st) = (r3, st3)" by fastforce
  have "r = r3" "st' = st3 \<or> st' = schedule_poll i (PollAfter (rc_pollingIntervalMs c)) st3"
    using a m by (auto simp: nothing_ready_def split: option.splits)
  with caught_up_outcome [OF ok w m] passes_schedule show ?thesis by blast
qed

text \<open>What handing a batch to the handlers came to, for the events owed from the worker's token on.\<close>

definition batch_outcome ::
  "'o run_config \<Rightarrow> nat list \<Rightarrow> nat \<Rightarrow> worker \<Rightarrow> sequenced_event list \<Rightarrow> 'o running \<Rightarrow> poll_error option \<Rightarrow> 'o running \<Rightarrow> bool" where
  "batch_outcome c schedule i wk batch st r st' \<longleftrightarrow>
     (\<exists>res w. processBatch plain_batch_host (rc_deps c) schedule i (rc_owner c) (wk_token wk) batch (rp_world st) = Some (res, w) \<and>
        pw_dlq (rp_world st') = pw_dlq w \<and>
        (case res of
           Inl err \<Rightarrow> r = Some (BatchFailed err) \<and> polling_ok c i st' \<and> rp_tokens st' = rp_tokens st \<and>
             map_get (rp_workers st') i = Some (wk\<lparr>wk_caughtUp := False, wk_attemptEnd := sq_sequence (last batch) + 1\<rparr>)
         | Inr t \<Rightarrow> running_ok c st' \<and> only_claim_lost r \<and>
             (\<exists>wk'. map_get (rp_workers st') i = Some wk' \<and> wk_stream wk' \<noteq> None \<and> sq_sequence (last batch) + 1 \<le> position (wk_token wk') \<and>
                owed_to c (wk_segment wk) (sq_sequence (last batch) + 1) (position (wk_token wk')) st = [])))"

lemma batch_outcome_cong:
  assumes "batch_outcome c schedule i (wk\<lparr>wk_attemptEnd := n\<rparr>) batch st1 r st'"
    and "rp_world st1 = rp_world st" "sh_query (rp_log st1) = sh_query (rp_log st)" "log_events st1 = log_events st"
  shows "batch_outcome c schedule i wk batch st r st'"
proof -
  have eqs: "(wk\<lparr>wk_attemptEnd := n\<rparr>)\<lparr>wk_caughtUp := False, wk_attemptEnd := m\<rparr> = wk\<lparr>wk_caughtUp := False, wk_attemptEnd := m\<rparr>"
    "wk_segment (wk\<lparr>wk_attemptEnd := n\<rparr>) = wk_segment wk" "wk_token (wk\<lparr>wk_attemptEnd := n\<rparr>) = wk_token wk" for m by simp_all
  show ?thesis using assms(1) unfolding batch_outcome_def assms(2-) eqs .
qed

lemma handle_batch_outcome:
  assumes ok: "polling_ok c i st" and w: "map_get (rp_workers st) i = Some wk" "wk_stream wk = Some k"
    and batch: "batch \<noteq> []" "batch = owed_to c (wk_segment wk) (position (wk_token wk)) (sq_sequence (last batch) + 1) st"
    and at: "view_at (rp_log st) (accepts c (wk_segment wk)) k (sq_sequence (last batch) + 1)"
    and h: "handle_batch plain_batch_host c schedule i k batch st = Some (r, st')"
  shows "batch_outcome c schedule i wk batch st r st'"
proof -
  let ?n = "sq_sequence (last batch) + 1"
  let ?wk1 = "wk\<lparr>wk_caughtUp := False, wk_attemptEnd := ?n\<rparr>"
  let ?st1 = "upd_worker i (\<lambda>wk. wk\<lparr>wk_caughtUp := False, wk_attemptEnd := ?n\<rparr>) st"
  have ok1: "polling_ok c i ?st1" by (rule upd_polling [OF ok]) simp
  have w1: "map_get (rp_workers ?st1) i = Some ?wk1" using w by simp
  have det: "running_ok c (detached i st)" using ok by (simp add: polling_ok_def)
  have wok: "wf_token (wk_token wk)" "0 \<le> position (wk_token wk)"
    using running_okD(3) [OF det, of i] w by (simp_all add: worker_ok_def)
  have srt: "sorted_wrt (<) (map se_position (log_events st))" using log_sorted running_okD(1) [OF det] by simp
  have rows: "rows_ok (rp_tokens st)" using running_okD(5) [OF det] by simp
  obtain res w' where p: "processBatch plain_batch_host (rc_deps c) schedule i (rc_owner c) (wk_token wk) batch (rp_world st) = Some (res, w')"
    using processBatch_effect by blast
  note eff = processBatch_effect [of "rc_deps c" schedule i "rc_owner c" "wk_token wk" batch "rp_world st", unfolded p]
  show ?thesis
  proof (cases res)
    case (Inl err)
    then have e: "r = Some (BatchFailed err)" "st' = ?st1\<lparr>rp_world := w'\<rparr>" using h w1 p by (auto simp: handle_batch_def Let_def)
    have tk: "pw_tokens w' = rp_tokens st" using eff Inl by auto
    have "polling_ok c i st'" using ok1 tk unfolding e(2) polling_ok_def
      by (auto simp: detached_def upd_worker_def put_worker_def running_ok_def split: option.splits)
    then show ?thesis unfolding batch_outcome_def using p Inl e w1 tk by auto
  next
    case (Inr t)
    have t: "wf_token t" "position t = ?n"
      using batch_token [OF srt wok(1) batch(2,1)] eff Inr by auto
    have "last batch \<in> set (owed_to c (wk_segment wk) (position (wk_token wk)) ?n st)"
      using last_in_set [OF batch(1)] batch(2) by argo
    then have pos: "0 \<le> position t" using owed_elem t(2) wok(2) by fastforce
    have rows': "rows_ok (pw_tokens w')" using processBatch_ok [OF p [unfolded Inr] rows t(1) pos] .
    let ?st2 = "?st1\<lparr>rp_world := w'\<rparr>"
    have ok2: "polling_ok c i ?st2" using ok1 rows' unfolding polling_ok_def
      by (auto simp: detached_def upd_worker_def put_worker_def running_ok_def split: option.splits)
    have w2: "map_get (rp_workers ?st2) i = Some ?wk1" using w1 by simp
    let ?st3 = "upd_worker i (\<lambda>wk. wk\<lparr>wk_unwritten := False, wk_lastError := None, wk_retryDelayMs := firstRetryDelayMs c\<rparr>) (set_token i t ?st2)"
    let ?wk3 = "?wk1\<lparr>wk_token := t, wk_unwritten := False, wk_lastError := None, wk_retryDelayMs := firstRetryDelayMs c\<rparr>"
    have "running_ok c (set_token i t ?st2)" using at w(2) t(2) by (intro set_token_ok [OF ok2 w2 t(1) pos]) auto
    then have ok3: "running_ok c ?st3" by (rule upd_running) simp
    have w3: "map_get (rp_workers ?st3) i = Some ?wk3" "wk_stream ?wk3 \<noteq> None" using w by simp_all
    have af: "after_batch c i k ?st3 = (r, st')" using h w1 p Inr by (auto simp: handle_batch_def Let_def)
    note ao = after_batch_outcome [OF ok3 w3 af]
    then show ?thesis unfolding batch_outcome_def using p Inr t(2) by (auto simp: passes_nothing_def)
  qed
qed

lemma taken_batch:
  assumes ok: "running_ok c st" and w: "map_get (rp_workers st) i = Some wk" "wk_stream wk = Some k"
    and t: "take_view k (rp_log st) = (ev, sh1)" and cl: "collect k n ev sh1 = (batch, sh2)" "0 < n"
  shows "wf_shared sh2" "sh_query sh2 = sh_query (rp_log st)" "es_events (sh_store sh2) = log_events st"
    "j \<noteq> k \<Longrightarrow> keeps (rp_log st) sh2 j" "length batch \<le> n" "batch = [] \<Longrightarrow> keeps (rp_log st) sh2 k"
    "batch \<noteq> [] \<Longrightarrow> batch = owed_to c (wk_segment wk) (position (wk_token wk)) (sq_sequence (last batch) + 1) st \<and>
       view_at sh2 (accepts c (wk_segment wk)) k (sq_sequence (last batch) + 1)"
proof -
  note wok = running_okD(3) [OF ok w(1)]
  have at: "view_at (rp_log st) (accepts c (wk_segment wk)) k (position (wk_token wk))" by (rule worker_okD(5) [OF wok w(2)])
  then obtain v where v: "map_get (sh_views (rp_log st)) k = Some v" by (auto simp: view_at_def)
  note te = take_view_effect [OF running_okD(1) [OF ok] v t]
  obtain v1 where v1: "map_get (sh_views sh1) k = Some v1" "vw_opened v1 = vw_opened v" "vw_accepts v1 = vw_accepts v"
    "vw_taken v1 = vw_taken v @ (case ev of None \<Rightarrow> [] | Some e \<Rightarrow> [e])" using te(6) by blast
  from collect_effect [OF te(1) v1(1) cl] obtain v2 extra where ce: "wf_shared sh2" "sh_query sh2 = sh_query sh1"
    "es_events (sh_store sh2) = es_events (sh_store sh1)" "es_nextPosition (sh_store sh2) = es_nextPosition (sh_store sh1)"
    "\<forall>j. j \<noteq> k \<longrightarrow> keeps sh1 sh2 j" "length batch \<le> n"
    and v2: "map_get (sh_views sh2) k = Some v2" "vw_opened v2 = vw_opened v1" "vw_accepts v2 = vw_accepts v1"
      "vw_taken v2 = vw_taken v1 @ extra" and b: "batch = (case ev of None \<Rightarrow> [] | Some e \<Rightarrow> [e]) @ extra" by blast
  have taken: "vw_taken v2 = vw_taken v @ batch" using v2 v1 b by simp
  show "wf_shared sh2" "length batch \<le> n" by (rule ce(1), rule ce(6))
  show q: "sh_query sh2 = sh_query (rp_log st)" "es_events (sh_store sh2) = log_events st" using ce te by simp_all
  show "j \<noteq> k \<Longrightarrow> keeps (rp_log st) sh2 j" using te(2) [of j] ce(5) keeps_trans by blast
  show "batch = [] \<Longrightarrow> keeps (rp_log st) sh2 k" using q ce(4) te(5) v v1 v2 taken by (simp add: keeps_def same_view_def)
  show "batch \<noteq> [] \<Longrightarrow> batch = owed_to c (wk_segment wk) (position (wk_token wk)) (sq_sequence (last batch) + 1) st \<and>
       view_at sh2 (accepts c (wk_segment wk)) k (sq_sequence (last batch) + 1)"
    using view_at_taken(1,3) [OF ce(1) at v q v2(1) _ _ taken] v2 v1 by simp
qed

lemma polling_use_log:
  assumes ok: "running_ok c st" and w: "map_get (rp_workers st) i = Some wk" "wk_stream wk = Some k"
    and sh: "wf_shared sh" "sh_query sh = sh_query (rp_log st)" "\<And>j. j \<noteq> k \<Longrightarrow> keeps (rp_log st) sh j"
  shows "polling_ok c i (use_log (Some i) sh st)"
proof -
  let ?st1 = "use_log (Some i) sh st"
  have own: "own_streams (rp_workers ?st1)" by (rule own_streams_rel [OF running_okD(4) [OF ok] use_log_worker])
  have "running_ok c (detached i ?st1)"
  proof (rule running_okI)
    fix j wj assume j: "map_get (rp_workers (detached i ?st1)) j = Some wj"
    show "worker_ok c (rp_log (detached i ?st1)) j wj"
    proof (cases "j = i")
      case True
      then show ?thesis using j w running_okD(3) [OF ok w(1)] by (auto simp: worker_ok_def)
    next
      case False
      then obtain v where v: "map_get (rp_workers st) j = Some v" "same_but_timer v wj"
        using use_log_worker [of st j "Some i" sh] j by (auto simp: option_rel_Some2)
      have "wk_stream v \<noteq> Some k" using running_okD(4) [OF ok] w v(1) False unfolding own_streams_def by blast
      then have "worker_ok c sh j v" using sh(3) by (intro worker_ok_keeps [OF running_okD(3) [OF ok v(1)]]) metis
      with v(2) show ?thesis by (simp add: worker_ok_timer)
    qed
  next
    show "own_streams (rp_workers (detached i ?st1))" by (rule own_streams_sub [OF own]) (auto split: if_splits)
  qed (use sh running_okD [OF ok] in simp_all)
  with own show ?thesis by (simp add: polling_ok_def)
qed

text \<open>The batch sizes a processor value gives are at least one.\<close>

definition sizes_ok :: "'o run_config \<Rightarrow> bool" where
  "sizes_ok c \<longleftrightarrow> 0 < rc_batchSize c \<and> 0 < rc_replayBatchSize c"

lemma target_positive: "sizes_ok c \<Longrightarrow> 0 < target_size c b wk"
  by (simp add: target_size_def sizes_ok_def Let_def)

lemma poll_stream_outcome:
  assumes ok: "running_ok c st" and w: "map_get (rp_workers st) i = Some wk" "wk_stream wk = Some k" and sz: "sizes_ok c"
    and p: "poll_stream plain_batch_host c schedule i st = Some (r, st')"
  shows "(passes_nothing c i wk st st' \<and> only_claim_lost r) \<or>
     (\<exists>batch. batch \<noteq> [] \<and> batch = owed_to c (wk_segment wk) (position (wk_token wk)) (sq_sequence (last batch) + 1) st \<and>
        length batch \<le> target_size c (rp_backlogEnd st) wk \<and> batch_outcome c schedule i wk batch st r st')"
proof -
  let ?st0 = "upd_worker i (\<lambda>wk. wk\<lparr>wk_attemptEnd := 0\<rparr>) st" and ?wk0 = "wk\<lparr>wk_attemptEnd := 0\<rparr>"
  let ?n = "target_size c (rp_backlogEnd st) wk"
  have ok0: "running_ok c ?st0" by (rule upd_running [OF ok]) simp
  have w0: "map_get (rp_workers ?st0) i = Some ?wk0" "wk_stream ?wk0 = Some k" using w by simp_all
  obtain ev sh1 where t: "take_view k (rp_log ?st0) = (ev, sh1)" by fastforce
  obtain batch sh2 where cl: "collect k ?n ev sh1 = (batch, sh2)" by fastforce
  let ?st1 = "use_log (Some i) sh2 ?st0"
  note tb = taken_batch [OF ok0 w0 t cl target_positive [OF sz]]
  have res: "(if batch = [] then Some (nothing_ready c i ?st1) else handle_batch plain_batch_host c schedule i k batch ?st1) = Some (r, st')"
    using p w t cl by (simp add: poll_stream_def Let_def)
  show ?thesis
  proof (cases "batch = []")
    case True
    have "keeps (rp_log ?st0) sh2 j" for j using tb(4) [of j] tb(6) True by (cases "j = k") auto
    then have ok1: "running_ok c ?st1" using tb(1,2) by (intro running_ok_use_log [OF ok0]) simp_all
    have w1: "map_get (rp_workers ?st1) i = Some ?wk0" "wk_stream ?wk0 \<noteq> None" using w by simp_all
    have "nothing_ready c i ?st1 = (r, st')" using res True by simp
    from nothing_ready_outcome [OF ok1 w1 this] tb(2,3) show ?thesis by (simp add: passes_nothing_def)
  next
    case False
    have ok1: "polling_ok c i ?st1" using tb(1,2,4) by (intro polling_use_log [OF ok0 w0]) simp_all
    have w1: "map_get (rp_workers ?st1) i = Some ?wk0" using w by simp
    have h: "handle_batch plain_batch_host c schedule i k batch ?st1 = Some (r, st')" using res False by simp
    have "batch_outcome c schedule i ?wk0 batch ?st1 r st'"
      using tb(2,3) tb(7) [OF False] by (intro handle_batch_outcome [OF ok1 w1 w0(2) False _ _ h]) simp_all
    then have "batch_outcome c schedule i wk batch st r st'"
      by (rule batch_outcome_cong) (simp_all add: tb(2,3))
    then show ?thesis using False tb(5) tb(7) [OF False] by auto
  qed
qed

text \<open>A poll as a whole.\<close>

definition poll_outcome ::
  "'o run_config \<Rightarrow> nat list \<Rightarrow> nat \<Rightarrow> worker \<Rightarrow> 'o running \<Rightarrow> 'o running \<Rightarrow> bool" where
  "poll_outcome c schedule i wk st st' \<longleftrightarrow>
     (\<exists>st2 r. st' = (case r of None \<Rightarrow> st2 | Some err \<Rightarrow> poll_failed c i err st2) \<and>
        ((passes_nothing c i wk st st2 \<and> only_claim_lost r) \<or>
         (\<exists>k batch. batch \<noteq> [] \<and> batch = owed_to c (wk_segment wk) (position (wk_token wk)) (sq_sequence (last batch) + 1) st \<and>
            length batch \<le> target_size c (rp_backlogEnd st) wk \<and>
            batch_outcome c schedule i (wk\<lparr>wk_timer := None, wk_stream := Some k\<rparr>) batch st r st2)))"

lemma poll_outcome_running: "poll_outcome c schedule i wk st st' \<Longrightarrow> running_ok c st'"
  unfolding poll_outcome_def batch_outcome_def passes_nothing_def
  by (elim exE conjE disjE) (auto intro: poll_failed_ok running_polling split: option.splits sum.splits)

lemma pollOnce_outcome:
  assumes ok: "running_ok c st" and w: "map_get (rp_workers st) i = Some wk" and sz: "sizes_ok c"
    and p: "pollOnce plain_batch_host c schedule i st = Some st'"
  shows "poll_outcome c schedule i wk st st'"
proof -
  let ?st0 = "upd_worker i (\<lambda>wk. wk\<lparr>wk_timer := None\<rparr>) st" and ?wk0 = "wk\<lparr>wk_timer := None\<rparr>"
  have ok0: "running_ok c ?st0" by (rule upd_running [OF ok]) simp
  have w0: "map_get (rp_workers ?st0) i = Some ?wk0" using w by simp
  have act: "wk_active ?wk0" using worker_okD(2) [OF running_okD(3) [OF ok w]] by simp
  obtain k st1 where s1: "(if wk_stream ?wk0 = None then openStream c i ?st0 else (None, ?st0)) = (None, st1)"
    "running_ok c st1" "map_get (rp_workers st1) i = Some (?wk0\<lparr>wk_stream := Some k\<rparr>)" "rp_world st1 = rp_world st"
    "rp_backlogEnd st1 = rp_backlogEnd st" "sh_query (rp_log st1) = sh_query (rp_log st)" "log_events st1 = log_events st"
  proof (cases "wk_stream wk")
    case None
    then have none: "wk_stream ?wk0 = None" by simp
    from openStream_ok [OF ok0 w0 this] obtain k st1 where "openStream c i ?st0 = (None, st1)" "running_ok c st1"
      "map_get (rp_workers st1) i = Some (?wk0\<lparr>wk_stream := Some k\<rparr>)" "rp_world st1 = rp_world st"
      "rp_backlogEnd st1 = rp_backlogEnd st" "sh_query (rp_log st1) = sh_query (rp_log st)" "log_events st1 = log_events st" by auto
    with none show ?thesis by (intro that [of st1 k]) simp_all
  next
    case (Some k)
    then have "?wk0\<lparr>wk_stream := Some k\<rparr> = ?wk0" by simp
    with Some ok0 w show ?thesis by (intro that [of ?st0 k]) simp_all
  qed
  let ?wk1 = "?wk0\<lparr>wk_stream := Some k\<rparr>"
  have res: "(case poll_stream plain_batch_host c schedule i st1 of None \<Rightarrow> None
      | Some (Some err, st2) \<Rightarrow> Some (poll_failed c i err st2) | Some (None, st2) \<Rightarrow> Some st2) = Some st'"
    using p act w s1(1) unfolding pollOnce_def Let_def by simp
  then obtain r st2 where ps: "poll_stream plain_batch_host c schedule i st1 = Some (r, st2)"
    and e: "st' = (case r of None \<Rightarrow> st2 | Some err \<Rightarrow> poll_failed c i err st2)"
    by (auto split: option.splits)
  have strm: "wk_stream ?wk1 = Some k" by simp
  have same: "wk_segment ?wk1 = wk_segment wk" "wk_token ?wk1 = wk_token wk" "target_size c b ?wk1 = target_size c b wk" for b
    by (simp_all add: target_size_def split: option.split)
  have "passes_nothing c i ?wk1 st1 st2 \<longleftrightarrow> passes_nothing c i wk st st2" "batch_outcome c schedule i ?wk1 batch st1 r st2 \<longleftrightarrow> batch_outcome c schedule i ?wk1 batch st r st2" for batch
    unfolding passes_nothing_def batch_outcome_def s1(4-7) same by blast+
  with poll_stream_outcome [OF s1(2,3) strm sz ps] have
    "passes_nothing c i wk st st2 \<and> only_claim_lost r \<or>
     (\<exists>batch. batch \<noteq> [] \<and> batch = owed_to c (wk_segment wk) (position (wk_token wk)) (sq_sequence (last batch) + 1) st \<and>
        length batch \<le> target_size c (rp_backlogEnd st) wk \<and> batch_outcome c schedule i ?wk1 batch st r st2)"
    unfolding s1(4-7) same by blast
  with e show ?thesis unfolding poll_outcome_def by blast
qed

lemma pollOnce_ok:
  assumes "running_ok c st" "sizes_ok c" "pollOnce plain_batch_host c schedule i st = Some st'"
  shows "running_ok c st'"
proof (cases "map_get (rp_workers st) i")
  case None
  then have "st' = upd_worker i (\<lambda>wk. wk\<lparr>wk_timer := None\<rparr>) st" using assms(3) by (simp add: pollOnce_def Let_def)
  then show ?thesis using assms(1) by (auto intro: upd_running)
next
  case (Some wk)
  from poll_outcome_running [OF pollOnce_outcome [OF assms(1) Some assms(2,3)]] show ?thesis .
qed

section \<open>The other operations keep the invariant\<close>

lemma put_worker_ok:
  assumes ok: "running_ok c st" and wk: "worker_ok c (rp_log st) i wk" "wk_stream wk = None"
  shows "running_ok c (put_worker i wk st)"
proof (rule running_okI)
  show "own_streams (rp_workers (put_worker i wk st))"
    by (rule own_streams_sub [OF running_okD(4) [OF ok]]) (use wk(2) in \<open>auto simp: put_worker_def split: if_splits\<close>)
qed (use running_okD [OF ok] put_worker_keys [OF running_okD(6) [OF ok]] wk(1) in \<open>auto simp: put_worker_def split: if_splits\<close>)

lemma startWorker_ok:
  assumes ok: "running_ok c st" and t: "\<And>t. stored = Some t \<Longrightarrow> wf_token t \<and> 0 \<le> position t"
  shows "running_ok c (startWorker c s stored st)"
  unfolding startWorker_def Let_def
  by (rule put_worker_ok [OF running_ok_known [OF ok known_ok_set [OF running_okD(7) [OF ok]]]])
    (use t in \<open>auto simp: worker_ok_def split: option.split\<close>)

lemma renew_ok:
  assumes ok: "running_ok c st"
  shows "running_ok c (renew c i st)"
proof (cases "map_get (rp_workers st) i")
  case (Some wk)
  note wok = running_okD(3) [OF ok Some]
  obtain r st1 where wr: "write_row c i (wk_token wk) st = (r, st1)" by fastforce
  have ok1: "running_ok c st1" by (rule write_row_ok(1) [OF ok worker_okD(3,4) [OF wok] wr])
  have "running_ok c (upd_worker i (\<lambda>wk. wk\<lparr>wk_unwritten := False\<rparr>) st1)" by (rule upd_running [OF ok1]) simp
  then show ?thesis using Some wr lose_ok [OF running_polling [OF ok1]] worker_okD(2) [OF wok] by (simp add: renew_def split: option.split)
qed (simp add: renew_def ok)

lemma fold_renew_ok: "running_ok c st \<Longrightarrow> running_ok c (fold (renew c) is st)"
  by (induction "is" arbitrary: st) (simp_all add: renew_ok)

lemma stop_worker_ok:
  assumes ok: "running_ok c st" and wk: "wf_token (wk_token wk)" "0 \<le> position (wk_token wk)"
    and other: "\<And>i wi. map_get (rp_workers st) i = Some wi \<Longrightarrow> wk_stream wi = None \<or> wk_stream wi \<noteq> wk_stream wk"
  shows "running_ok c (stop_worker c release wk st)" "rp_workers (stop_worker c release wk st) = rp_workers st"
    "rp_isRunning (stop_worker c release wk st) = rp_isRunning st"
proof -
  let ?st1 = "case wk_stream wk of None \<Rightarrow> st | Some k \<Rightarrow> st\<lparr>rp_log := close_view k (rp_log st)\<rparr>"
  have ok1: "running_ok c ?st1"
  proof (cases "wk_stream wk")
    case (Some k)
    have "wk_stream wi \<noteq> Some k" if "map_get (rp_workers st) i = Some wi" for i wi using other [OF that] Some by auto
    from running_ok_close [OF ok this] Some show ?thesis by simp
  qed (simp add: ok)
  have same1: "rp_workers ?st1 = rp_workers st" "rp_isRunning ?st1 = rp_isRunning st" by (simp_all split: option.split)
  let ?i = "seg_id (wk_segment wk)"
  obtain r st2 where wr: "(if wk_unwritten wk then write_row c ?i (wk_token wk) ?st1 else (None, ?st1)) = (r, st2)" by fastforce
  have ok2: "running_ok c st2 \<and> rp_workers st2 = rp_workers st \<and> rp_isRunning st2 = rp_isRunning st"
  proof (cases "wk_unwritten wk")
    case True
    then show ?thesis using write_row_ok [OF ok1 wk] wr same1 by auto
  next
    case False
    then show ?thesis using wr ok1 same1 by auto
  qed
  have "stop_worker c release wk st = st \<or> stop_worker c release wk st = st2 \<or>
      stop_worker c release wk st = with_tokens (releaseClaim (rc_name c) ?i (rc_owner c) (rp_tokens st2)) st2"
    using wr by (auto simp: stop_worker_def Let_def split: option.split)
  moreover have "running_ok c (with_tokens (releaseClaim (rc_name c) ?i (rc_owner c) (rp_tokens st2)) st2)"
    using ok2 by (intro running_ok_with_tokens rows_ok_release running_okD(5)) auto
  ultimately show "running_ok c (stop_worker c release wk st)" "rp_workers (stop_worker c release wk st) = rp_workers st"
    "rp_isRunning (stop_worker c release wk st) = rp_isRunning st"
    using ok ok2 by (auto simp: with_tokens_def)
qed

text \<open>Stopping a worker that is taken out first.\<close>

lemma take_out_ok:
  assumes ok: "running_ok c st" and w: "map_get (rp_workers st) i = Some wk"
  shows "running_ok c (stop_worker c release wk (st\<lparr>rp_workers := map_delete i (rp_workers st)\<rparr>))"
    "rp_workers (stop_worker c release wk (st\<lparr>rp_workers := map_delete i (rp_workers st)\<rparr>)) = map_delete i (rp_workers st)"
    "rp_isRunning (stop_worker c release wk (st\<lparr>rp_workers := map_delete i (rp_workers st)\<rparr>)) = rp_isRunning st"
proof -
  let ?st = "st\<lparr>rp_workers := map_delete i (rp_workers st)\<rparr>"
  note wok = running_okD(3) [OF ok w]
  have "wk_stream wi = None \<or> wk_stream wi \<noteq> wk_stream wk" if m: "map_get (rp_workers ?st) j = Some wi" for j wi
  proof -
    have "j \<noteq> i" "map_get (rp_workers st) j = Some wi" using m by (auto split: if_splits)
    then show ?thesis using running_okD(4) [OF ok] w unfolding own_streams_def by (metis option.exhaust)
  qed
  from stop_worker_ok [OF running_ok_delete [OF ok, of i] worker_okD(3,4) [OF wok] this, where release = release]
  show "running_ok c (stop_worker c release wk ?st)" "rp_workers (stop_worker c release wk ?st) = map_delete i (rp_workers st)"
    "rp_isRunning (stop_worker c release wk ?st) = rp_isRunning st" by simp_all
qed

lemma releaseSegment_ok:
  assumes ok: "running_ok c st"
  shows "running_ok c (releaseSegment c i forMs st)"
proof -
  have ok1: "running_ok c (st\<lparr>rp_releasedUntil := m\<rparr>)" for m using ok by (simp add: running_ok_def)
  show ?thesis
  proof (cases "map_get (rp_workers st) i")
    case None
    then show ?thesis using ok1 by (simp add: releaseSegment_def Let_def)
  next
    case (Some wk)
    have ok2: "running_ok c (st\<lparr>rp_releasedUntil := m, rp_known := map_delete i (rp_known st)\<rparr>)" for m
      using running_ok_known [OF ok1 known_ok_delete [OF running_okD(7) [OF ok]]] by simp
    have "map_get (rp_workers (st\<lparr>rp_releasedUntil := m, rp_known := map_delete i (rp_known st)\<rparr>)) i = Some wk" for m using Some by simp
    from take_out_ok(1) [OF ok2 this] Some show ?thesis by (simp add: releaseSegment_def Let_def)
  qed
qed

lemma stop_all_ok:
  assumes "running_ok c st" "rp_workers st = []" "\<And>wk. wk \<in> set ws \<Longrightarrow> wf_token (wk_token wk) \<and> 0 \<le> position (wk_token wk)"
  shows "running_ok c (fold (stop_worker c release) ws st)"
  using assms
proof (induction ws arbitrary: st)
  case (Cons wk ws)
  have "running_ok c (stop_worker c release wk st)" "rp_workers (stop_worker c release wk st) = rp_workers st"
    using stop_worker_ok(1,2) [OF Cons.prems(1), of wk release] Cons.prems(2,3) by auto
  with Cons show ?case by simp
qed simp

lemma stop_ok:
  assumes ok: "running_ok c st"
  shows "running_ok c (stop c st)"
proof -
  note wf = running_okD(6) [OF ok]
  have "running_ok c (st\<lparr>rp_isRunning := False, rp_claimTimer := False, rp_parked := p, rp_workers := []\<rparr>)" for p
    using ok by (simp add: running_ok_def own_streams_def)
  moreover have "wf_token (wk_token wk) \<and> 0 \<le> position (wk_token wk)" if m: "wk \<in> set (map snd (rp_workers st))" for wk
  proof -
    obtain i where "(i, wk) \<in> set (rp_workers st)" using m by auto
    then have "map_get (rp_workers st) i = Some wk" using wf by simp
    from running_okD(3) [OF ok this] show ?thesis by (simp add: worker_ok_def)
  qed
  ultimately show ?thesis unfolding stop_def Let_def by (intro stop_all_ok) simp_all
qed

lemma segmentsNow_ok:
  assumes "running_ok c st" "segmentsNow c st = (segments, st')"
  shows "running_ok c st'" "rp_workers st' = rp_workers st" "rp_isRunning st' = rp_isRunning st" "rp_log st' = rp_log st"
  using assms
  by (auto simp: segmentsNow_def Let_def with_tokens_def split: if_splits
      intro!: running_ok_with_tokens [unfolded with_tokens_def] rows_ok_initialize dest: running_okD(5))

lemma claim_segments_ok: "running_ok c st \<Longrightarrow> running_ok c (claim_segments c available segments st)"
proof (induction c available segments st rule: claim_segments.induct)
  case (2 c available s rest st)
  show ?case
  proof (cases "claimToken (rp_now st) (rc_name c) (seg_id s) (rc_owner c) (rp_tokens st)")
    case (Inl e)
    then show ?thesis using 2 by simp
  next
    case (Inr a)
    obtain stored ts where a: "a = (stored, ts)" by fastforce
    note cl = rows_ok_claim [OF running_okD(5) [OF 2(5)] Inr [unfolded a]]
    have "running_ok c (with_tokens ts st)" by (rule running_ok_with_tokens [OF 2(5) cl(1)])
    then have "running_ok c (startWorker c s stored (with_tokens ts st))"
      using running_okD(5) [OF 2(5)] cl(2) by (intro startWorker_ok) (auto simp: rows_ok_def)
    then show ?thesis using 2 Inr a by simp
  qed
qed simp

lemma claimRound_ok: "running_ok c st \<Longrightarrow> running_ok c (claimRound c st)"
  unfolding claimRound_def Let_def
  by (auto split: prod.split intro!: claim_segments_ok dest: segmentsNow_ok(1) [OF fold_renew_ok])

lemma start_ok: "running_ok c st \<Longrightarrow> running_ok c (start c st)"
proof -
  assume ok: "running_ok c st"
  then have "running_ok c (st\<lparr>rp_isRunning := True, rp_backlogEnd := b\<rparr>)" for b by (simp add: running_ok_def)
  from claimRound_ok [OF this] have "running_ok c ((claimRound c (st\<lparr>rp_isRunning := True, rp_backlogEnd := b\<rparr>))\<lparr>rp_claimTimer := True\<rparr>)" for b
    by (simp add: running_ok_def)
  with ok show ?thesis by (simp add: start_def)
qed

lemma hold_ok:
  assumes "running_ok c st" "holdForOperation c i st = Inr (held, st')"
  shows "running_ok c st'" "map_get (rp_workers st') i = None"
proof -
  have "running_ok c st' \<and> map_get (rp_workers st') i = None"
  proof (cases "map_get (rp_workers st) i")
    case (Some wk)
    then show ?thesis using take_out_ok [OF assms(1) Some] assms(2) by (auto simp: holdForOperation_def)
  next
    case None
    then obtain stored ts where "claimToken (rp_now st) (rc_name c) i (rc_owner c) (rp_tokens st) = Inr (stored, ts)" "st' = with_tokens ts st"
      using assms(2) by (auto simp: holdForOperation_def split: sum.splits)
    then show ?thesis using None rows_ok_claim(1) [OF running_okD(5) [OF assms(1)]] running_ok_with_tokens [OF assms(1)]
      by (auto simp: with_tokens_def)
  qed
  then show "running_ok c st'" "map_get (rp_workers st') i = None" by blast+
qed

lemma release_claims_ok: "running_ok c st \<Longrightarrow> running_ok c (release_claims c is st)"
proof -
  assume ok: "running_ok c st"
  have "rows_ok ts \<Longrightarrow> rows_ok (fold (\<lambda>i. releaseClaim (rc_name c) i (rc_owner c)) is ts)" for ts
    by (induction "is" arbitrary: ts) (simp_all add: rows_ok_release)
  then show ?thesis unfolding release_claims_def by (rule running_ok_with_tokens [OF ok]) (rule running_okD(5) [OF ok])
qed

lemma resume_ok:
  "running_ok c st \<Longrightarrow> (\<And>t. token = Some t \<Longrightarrow> wf_token t \<and> 0 \<le> position t) \<Longrightarrow> running_ok c (resume c s token st)"
  by (simp add: resume_def startWorker_ok release_claims_ok)

lemma let_go_ok:
  assumes "running_ok c st" "\<And>i t. map_get tokens i = Some (Some t) \<Longrightarrow> wf_token t \<and> 0 \<le> position t"
  shows "running_ok c (let_go c tokens sh st)"
  using assms running_okD(7) [OF assms(1)]
  by (auto simp: let_go_def Let_def or_else_def known_ok_def bind_eq_Some_conv split: option.splits
      intro!: resume_ok release_claims_ok)

section \<open>Tasks of the operations\<close>

lemma store_tokens_ok:
  "rows_ok (pw_tokens w) \<Longrightarrow> (\<And>i t. (i, t) \<in> set ts \<Longrightarrow> wf_token t \<and> 0 \<le> position t) \<Longrightarrow> rows_ok (pw_tokens (snd (store_tokens name owner ts w)))"
proof (induction name owner ts w rule: store_tokens.induct)
  case (2 name owner seg t rest w)
  have r: "rows_ok (pw_tokens (snd (write_token name seg t owner w)))" using 2(2,3) by (intro rows_ok_write_token) auto
  obtain r1 w1 where wr: "write_token name seg t owner w = (r1, w1)" by fastforce
  show ?case
  proof (cases r1)
    case None
    have "rows_ok (pw_tokens (snd (store_tokens name owner rest w1)))"
      using r wr 2(3) by (intro 2(1) [OF wr [symmetric] None]) auto
    with None wr show ?thesis by simp
  next
    case (Some e)
    with r wr show ?thesis by simp
  qed
qed simp

lemma reset_target_ok:
  assumes "0 \<le> p" "\<And>t. stored = Some t \<Longrightarrow> wf_token t"
  shows "wf_token (reset_target (GlobalSequenceToken p) stored) \<and> position (reset_target (GlobalSequenceToken p) stored) = p"
  using assms reachedBy_plain by (auto simp: reset_target_def split: option.split)

lemma keep_replaying: "u\<lparr>uw_world := w\<rparr> = u\<lparr>uw_replaying := uw_replaying u, uw_world := w\<rparr>"
  by (cases u) simp

lemma invoked_world [simp]: "uw_world (invoked w) = w" "(invoked w)\<lparr>uw_world := w\<rparr> = invoked w"
  by (simp_all add: invoked_def unitOfWork_def)

lemma task_fails_world:
  fixes action :: "(unit, unit, 'o) batch_uow \<Rightarrow> (batch_error + 'r) \<times> (unit, unit, 'o) batch_uow"
  assumes "action (invoked w) = (Inl err, (invoked w)\<lparr>uw_world := w1\<rparr>)"
  shows "run_task plain_batch_host name action w = Some (Inl err, w1)"
  by (rule task_fails [where rep = "uw_replaying (invoked w :: (unit, unit, 'o) batch_uow)"]) (use assms in \<open>simp only: keep_replaying [symmetric]\<close>)

lemma task_writes_world:
  fixes action :: "(unit, unit, 'o) batch_uow \<Rightarrow> (batch_error + 'r) \<times> (unit, unit, 'o) batch_uow"
  assumes "action (invoked w) = (Inr x, onPrepareCommit a ((invoked w)\<lparr>uw_world := w1\<rparr>))"
    and "\<forall>u. batch_act name plain_batch_host a u = (case wr (uw_world u) of (r, w') \<Rightarrow> (r, u\<lparr>uw_world := w'\<rparr>))"
  shows "run_task plain_batch_host name action w = Some (case fst (wr w1) of Some err \<Rightarrow> Inl err | None \<Rightarrow> Inr x, snd (wr w1))"
  by (rule task_writes [where rep = "uw_replaying (invoked w :: (unit, unit, 'o) batch_uow)" and wr = wr and ?w1.0 = w1])
    (use assms in \<open>simp_all only: keep_replaying [symmetric] prod.collapse\<close>)

text \<open>The tasks of a reset, a split and a merge, on the world alone.\<close>

definition reset_targets :: "'o run_config \<Rightarrow> nat list \<Rightarrow> int \<Rightarrow> token_store \<Rightarrow> (nat \<times> tracking_token) list" where
  "reset_targets c is p ts = map (\<lambda>i. (i, reset_target (GlobalSequenceToken p) (get_token (rc_name c) i ts))) is"

lemma reset_task:
  fixes reset :: "('o \<Rightarrow> js_error option \<times> 'o) option"
  assumes r: "(case reset of None \<Rightarrow> (None, dw_outside (pw_dlq w)) | Some f \<Rightarrow> f (dw_outside (pw_dlq w))) = (r, out)"
  shows "run_task plain_batch_host (rc_name c) (reset_action c is p reset) w =
     Some (case r of
        Some err \<Rightarrow> (Inl (ResetThrew err), w\<lparr>pw_dlq := (pw_dlq w)\<lparr>dw_outside := out\<rparr>\<rparr>)
      | None \<Rightarrow> (case store_tokens (rc_name c) (rc_owner c) (reset_targets c is p (pw_tokens w)) (w\<lparr>pw_dlq := (pw_dlq w)\<lparr>dw_outside := out\<rparr>\<rparr>) of
                   (Some err, w2) \<Rightarrow> (Inl err, w2) | (None, w2) \<Rightarrow> (Inr (reset_targets c is p (pw_tokens w)), w2)))"
proof -
  let ?targets = "reset_targets c is p (pw_tokens w)" and ?w1 = "w\<lparr>pw_dlq := (pw_dlq w)\<lparr>dw_outside := out\<rparr>\<rparr>"
  let ?u = "invoked w :: (unit, unit, 'o) batch_uow"
  have act: "reset_action c is p reset ?u =
      (case r of Some err \<Rightarrow> (Inl (ResetThrew err), ?u\<lparr>uw_world := ?w1\<rparr>)
       | None \<Rightarrow> (Inr ?targets, onPrepareCommit (StoreTokens ?targets (rc_owner c)) (?u\<lparr>uw_world := ?w1\<rparr>)))"
    using r by (cases r) (simp_all add: reset_action_def reset_targets_def Let_def)
  show ?thesis
  proof (cases r)
    case (Some err)
    with task_fails_world [where action = "reset_action c is p reset" and w = w] act show ?thesis by simp
  next
    case None
    then have "reset_action c is p reset ?u = (Inr ?targets, onPrepareCommit (StoreTokens ?targets (rc_owner c)) (?u\<lparr>uw_world := ?w1\<rparr>))"
      using act by simp
    from task_writes_world [where action = "reset_action c is p reset" and w = w and name = "rc_name c"
        and wr = "store_tokens (rc_name c) (rc_owner c) ?targets", OF this] None
    show ?thesis by (simp split: option.split prod.split)
  qed
qed

lemma split_task:
  fixes w :: "'o proc_world"
  shows "run_task plain_batch_host (rc_name c) (split_action c i second) w =
     Some (let token = get_token (rc_name c) i (pw_tokens w)
           in if (case token of Some t \<Rightarrow> isMergedToken t | None \<Rightarrow> False) then (Inl (StillCatchingUp i), w)
              else (case claimToken (dw_now (pw_dlq w)) (rc_name c) second (rc_owner c) (pw_tokens w) of
                 Inl err \<Rightarrow> (Inl (ClaimLost err), w)
               | Inr (_, ts) \<Rightarrow>
                   (case store_tokens (rc_name c) (rc_owner c) [(second, or_zero token)] (w\<lparr>pw_tokens := ts\<rparr>) of
                      (Some err, w2) \<Rightarrow> (Inl err, w2) | (None, w2) \<Rightarrow> (Inr token, w2))))"
proof -
  let ?u = "invoked w :: (unit, unit, 'o) batch_uow" and ?token = "get_token (rc_name c) i (pw_tokens w)"
  let ?claim = "claimToken (dw_now (pw_dlq w)) (rc_name c) second (rc_owner c) (pw_tokens w)"
  show ?thesis
  proof (cases "(case ?token of Some t \<Rightarrow> isMergedToken t | None \<Rightarrow> False) \<or> isl ?claim")
    case True
    then obtain err where "split_action c i second ?u = (Inl err, ?u\<lparr>uw_world := w\<rparr>)"
      "err = (if (case ?token of Some t \<Rightarrow> isMergedToken t | None \<Rightarrow> False) then StillCatchingUp i else ClaimLost (projl ?claim))"
      by (auto simp: split_action_def Let_def isl_def split: if_splits)
    from task_fails_world [where action = "split_action c i second" and w = w, OF this(1)] this(2) True
    show ?thesis by (auto simp: Let_def isl_def)
  next
    case False
    then obtain stored ts where cl: "?claim = Inr (stored, ts)" by (cases ?claim) auto
    have "split_action c i second ?u =
        (Inr ?token, onPrepareCommit (StoreTokens [(second, or_zero ?token)] (rc_owner c)) (?u\<lparr>uw_world := w\<lparr>pw_tokens := ts\<rparr>\<rparr>))"
      using False cl by (auto simp: split_action_def Let_def or_zero_def)
    from task_writes_world [where action = "split_action c i second" and w = w and name = "rc_name c"
        and wr = "store_tokens (rc_name c) (rc_owner c) [(second, or_zero ?token)]", OF this] False cl
    show ?thesis by (auto simp: Let_def split: option.split prod.split)
  qed
qed

lemma merge_task:
  fixes w :: "'o proc_world"
  shows "run_task plain_batch_host (rc_name c) (merge_action c s partner) w =
     Some (let a = get_token (rc_name c) (seg_id s) (pw_tokens w); b = get_token (rc_name c) (seg_id partner) (pw_tokens w);
               t = mergedToken (seg_mask s) (seg_id s, or_zero a) (seg_id partner, or_zero b)
           in if not_mergeable a then (Inl (NotMergeable (seg_id s) (isReplayToken (or_zero a))), w)
              else if not_mergeable b then (Inl (NotMergeable (seg_id partner) (isReplayToken (or_zero b))), w)
              else (case store_and_drop (rc_name c) (min (seg_id s) (seg_id partner)) t (max (seg_id s) (seg_id partner)) (rc_owner c) w of
                      (Some err, w2) \<Rightarrow> (Inl err, w2) | (None, w2) \<Rightarrow> (Inr t, w2)))"
proof -
  let ?u = "invoked w :: (unit, unit, 'o) batch_uow"
  let ?a = "get_token (rc_name c) (seg_id s) (pw_tokens w)" and ?b = "get_token (rc_name c) (seg_id partner) (pw_tokens w)"
  let ?t = "mergedToken (seg_mask s) (seg_id s, or_zero ?a) (seg_id partner, or_zero ?b)"
  let ?keep = "min (seg_id s) (seg_id partner)" and ?drop = "max (seg_id s) (seg_id partner)"
  show ?thesis
  proof (cases "not_mergeable ?a \<or> not_mergeable ?b")
    case True
    then obtain err where "merge_action c s partner ?u = (Inl err, ?u\<lparr>uw_world := w\<rparr>)"
      "err = (if not_mergeable ?a then NotMergeable (seg_id s) (isReplayToken (or_zero ?a)) else NotMergeable (seg_id partner) (isReplayToken (or_zero ?b)))"
      by (auto simp: merge_action_def Let_def)
    from task_fails_world [where action = "merge_action c s partner" and w = w, OF this(1)] this(2) True
    show ?thesis by (auto simp: Let_def)
  next
    case False
    then have "merge_action c s partner ?u = (Inr ?t, onPrepareCommit (StoreAndDrop ?keep ?t ?drop (rc_owner c)) (?u\<lparr>uw_world := w\<rparr>))"
      by (simp add: merge_action_def Let_def)
    from task_writes_world [where action = "merge_action c s partner" and w = w and name = "rc_name c"
        and wr = "store_and_drop (rc_name c) ?keep ?t ?drop (rc_owner c)", OF this] False
    show ?thesis by (simp add: Let_def split: option.split prod.split)
  qed
qed

lemma some_pair: "x = Some y \<Longrightarrow> \<exists>a b. x = Some (a, b)"
  by (cases y) simp

lemma claim_all_ok:
  "running_ok c st \<Longrightarrow> claim_all c is claimed st = (r, claimed', st') \<Longrightarrow>
     running_ok c st' \<and> rp_log st' = rp_log st \<and> rp_workers st' = rp_workers st \<and> pw_dlq (rp_world st') = pw_dlq (rp_world st)"
proof (induction c "is" claimed st rule: claim_all.induct)
  case (2 c i "is" claimed st)
  show ?case
  proof (cases "claimToken (rp_now st) (rc_name c) i (rc_owner c) (rp_tokens st)")
    case (Inl e)
    then show ?thesis using 2 by simp
  next
    case (Inr a)
    obtain stored ts where a: "a = (stored, ts)" by fastforce
    have "running_ok c (with_tokens ts st)"
      using rows_ok_claim(1) [OF running_okD(5) [OF 2(2)] Inr [unfolded a]] by (rule running_ok_with_tokens [OF 2(2)])
    with 2(1) [OF Inr a [symmetric]] 2(3) Inr a show ?thesis by (simp add: with_tokens_def)
  qed
qed simp

lemma reset_targets_ok:
  assumes "0 \<le> p" "rows_ok ts" "(i, t) \<in> set (reset_targets c is p ts)"
  shows "wf_token t \<and> 0 \<le> position t"
  using assms reset_target_ok [OF assms(1)] by (fastforce simp: reset_targets_def rows_ok_def)

lemma resetTokens_ok:
  assumes ok: "running_ok c st" and p: "0 \<le> p" and r: "resetTokens plain_batch_host c p reset st = Some (res, st')"
  shows "running_ok c st'"
proof (cases "rp_isRunning st")
  case True
  then show ?thesis using ok r by (simp add: resetTokens_def)
next
  case False
  obtain segments st1 where s: "segmentsNow c st = (segments, st1)" by fastforce
  have ok1: "running_ok c st1" by (rule segmentsNow_ok(1) [OF ok s])
  obtain e claimed st2 where cl: "claim_all c (map seg_id segments) [] st1 = (e, claimed, st2)" by (metis prod.exhaust)
  have ok2: "running_ok c st2" using claim_all_ok [OF ok1 cl] by blast
  show ?thesis
  proof (cases e)
    case (Some i)
    then show ?thesis using r False s cl release_claims_ok [OF ok2] by (auto simp: resetTokens_def)
  next
    case None
    let ?w = "rp_world st2" and ?is = "map seg_id segments"
    let ?targets = "reset_targets c ?is p (pw_tokens ?w)"
    obtain r0 out where f: "(case reset of None \<Rightarrow> (None, dw_outside (pw_dlq ?w)) | Some f \<Rightarrow> f (dw_outside (pw_dlq ?w))) = (r0, out)"
      by fastforce
    let ?w1 = "?w\<lparr>pw_dlq := (pw_dlq ?w)\<lparr>dw_outside := out\<rparr>\<rparr>"
    obtain tr w' where tk: "run_task plain_batch_host (rc_name c) (reset_action c ?is p reset) ?w = Some (tr, w')"
      using some_pair [OF reset_task [OF f]] by blast
    have tok: "\<And>i t. (i, t) \<in> set ?targets \<Longrightarrow> wf_token t \<and> 0 \<le> position t"
      using reset_targets_ok [OF p running_okD(5) [OF ok2]] .
    have "rows_ok (pw_tokens (snd (store_tokens (rc_name c) (rc_owner c) ?targets ?w1)))"
      using running_okD(5) [OF ok2] tok by (intro store_tokens_ok) auto
    then have rows: "rows_ok (pw_tokens w')" and res: "\<And>ts. tr = Inr ts \<Longrightarrow> ts = ?targets"
      using tk reset_task [OF f, of c ?is p] running_okD(5) [OF ok2] by (auto split: option.splits prod.splits)
    have ok3: "running_ok c (st2\<lparr>rp_world := w'\<rparr>)" by (rule running_ok_world [OF ok2 rows])
    have kn: "known_ok ?targets" using tok by (auto simp: known_ok_def dest: map_of_SomeD)
    have ok4: "running_ok c (st2\<lparr>rp_world := w', rp_known := ?targets, rp_backlogEnd := b\<rparr>)" for b
      using running_ok_known [OF ok3 kn] by (simp add: running_ok_def)
    have "st' = release_claims c claimed (st2\<lparr>rp_world := w'\<rparr>) \<or>
        (\<exists>b. st' = release_claims c claimed (st2\<lparr>rp_world := w', rp_known := ?targets, rp_backlogEnd := b\<rparr>))"
      using r False s cl None tk res by (auto simp: resetTokens_def split: sum.splits)
    then show ?thesis using release_claims_ok [OF ok3] release_claims_ok [OF ok4] by blast
  qed
qed

lemma get_token_ok: "running_ok c st \<Longrightarrow> get_token p i (rp_tokens st) = Some t \<Longrightarrow> wf_token t \<and> 0 \<le> position t"
  using running_okD(5) [of c st] unfolding rows_ok_def by blast

lemma or_zero_ok: "(\<And>t. tok = Some t \<Longrightarrow> wf_token t \<and> 0 \<le> position t) \<Longrightarrow> wf_token (or_zero tok) \<and> 0 \<le> position (or_zero tok)"
  by (cases tok) (auto simp: or_zero_def)

lemma split_task_rows:
  assumes rows: "rows_ok (pw_tokens w)" and r: "run_task plain_batch_host (rc_name c) (split_action c i second) w = Some (res, w')"
  shows "rows_ok (pw_tokens w')" "\<And>t. res = Inr t \<Longrightarrow> t = get_token (rc_name c) i (pw_tokens w)"
proof -
  let ?token = "get_token (rc_name c) i (pw_tokens w)"
  have tok: "wf_token (or_zero ?token) \<and> 0 \<le> position (or_zero ?token)" using rows by (intro or_zero_ok) (auto simp: rows_ok_def)
  have "rows_ok (pw_tokens (snd (store_tokens (rc_name c) (rc_owner c) [(second, or_zero ?token)] (w\<lparr>pw_tokens := ts\<rparr>))))" if "rows_ok ts" for ts
    using tok that by (intro store_tokens_ok) auto
  moreover have "rows_ok ts" if "claimToken (dw_now (pw_dlq w)) (rc_name c) second (rc_owner c) (pw_tokens w) = Inr (x, ts)" for x ts
    by (rule rows_ok_claim(1) [OF rows that])
  ultimately have st: "rows_ok (pw_tokens (snd (store_tokens (rc_name c) (rc_owner c) [(second, or_zero ?token)] (w\<lparr>pw_tokens := ts\<rparr>))))"
    if "claimToken (dw_now (pw_dlq w)) (rc_name c) second (rc_owner c) (pw_tokens w) = Inr (x, ts)" for x ts using that by blast
  have "rows_ok (pw_tokens w') \<and> (\<forall>t. res = Inr t \<longrightarrow> t = ?token)"
  proof (cases "claimToken (dw_now (pw_dlq w)) (rc_name c) second (rc_owner c) (pw_tokens w)")
    case (Inl e)
    then show ?thesis using r rows unfolding split_task by (auto simp: Let_def split: if_splits)
  next
    case (Inr a)
    obtain x ts where a: "a = (x, ts)" by fastforce
    obtain r2 w2 where s2: "store_tokens (rc_name c) (rc_owner c) [(second, or_zero ?token)] (w\<lparr>pw_tokens := ts\<rparr>) = (r2, w2)" by fastforce
    have "rows_ok (pw_tokens w2)" using st [OF Inr [unfolded a]] s2 by simp
    then show ?thesis using r rows Inr a s2 unfolding split_task
      by (cases r2) (auto simp: Let_def simp del: store_tokens.simps split: if_splits)
  qed
  then show "rows_ok (pw_tokens w')" "\<And>t. res = Inr t \<Longrightarrow> t = ?token" by blast+
qed

lemma split_ok:
  assumes ok: "running_ok c st" and r: "processor_splitSegment plain_batch_host c i st = Some (res, st')"
  shows "running_ok c st'"
proof (cases "pd_sequenceOf (rc_deps c) = None")
  case True
  then show ?thesis using ok r by (simp add: processor_splitSegment_def)
next
  case False
  obtain segments st1 where s: "segmentsNow c st = (segments, st1)" by fastforce
  have ok1: "running_ok c st1" by (rule segmentsNow_ok(1) [OF ok s])
  show ?thesis
  proof (cases "find (\<lambda>s. seg_id s = i) segments")
    case None
    then show ?thesis using r False s ok1 by (auto simp: processor_splitSegment_def)
  next
    case (Some sg)
    obtain first second where sp: "splitSegment sg = (first, second)" by fastforce
    show ?thesis
    proof (cases "holdForOperation c i st1")
      case (Inl e)
      then show ?thesis using r False s Some sp ok1 by (auto simp: processor_splitSegment_def)
    next
      case (Inr a)
      obtain held st2 where a: "a = (held, st2)" by fastforce
      have ok2: "running_ok c st2" by (rule hold_ok(1) [OF ok1 Inr [unfolded a]])
      obtain tr w' where tk: "run_task plain_batch_host (rc_name c) (split_action c i (seg_id second)) (rp_world st2) = Some (tr, w')"
        using some_pair [OF split_task] by blast
      note rows = split_task_rows [OF running_okD(5) [OF ok2] tk]
      have ok3: "running_ok c (st2\<lparr>rp_world := w'\<rparr>)" by (rule running_ok_world [OF ok2 rows(1)])
      have tok: "\<And>t. get_token (rc_name c) i (rp_tokens st2) = Some t \<Longrightarrow> wf_token t \<and> 0 \<le> position t" by (rule get_token_ok [OF ok2])
      have r': "Some (res, st') = (case tr of
          Inl err \<Rightarrow> Some (Inl (TaskFailed err), let_go c (read_before err [(i, get_token (rc_name c) i (rp_tokens st2))]) (sg, held) (st2\<lparr>rp_world := w'\<rparr>))
        | Inr token \<Rightarrow> Some (Inr (), resume c second token (resume c first token
              (st2\<lparr>rp_world := w', rp_known := map_delete i (rp_known st2)\<rparr>))))"
        using r False s Some sp Inr a tk by (simp add: processor_splitSegment_def split: sum.split)
      show ?thesis
      proof (cases tr)
        case (Inl err)
        have "running_ok c (let_go c (read_before err [(i, get_token (rc_name c) i (rp_tokens st2))]) (sg, held) (st2\<lparr>rp_world := w'\<rparr>))"
          using tok by (intro let_go_ok [OF ok3]) (auto simp: read_before_def split: batch_error.splits if_splits)
        with r' Inl show ?thesis by simp
      next
        case (Inr token)
        have "token = get_token (rc_name c) i (rp_tokens st2)" by (rule rows(2) [OF Inr])
        then have "running_ok c (resume c second token (resume c first token (st2\<lparr>rp_world := w', rp_known := map_delete i (rp_known st2)\<rparr>)))"
          using tok running_ok_known [OF ok3 known_ok_delete [OF running_okD(7) [OF ok2]]] by (intro resume_ok) auto
        with r' Inr show ?thesis by simp
      qed
    qed
  qed
qed

lemma merge_task_rows:
  assumes rows: "rows_ok (pw_tokens w)" and r: "run_task plain_batch_host (rc_name c) (merge_action c s partner) w = Some (res, w')"
  shows "rows_ok (pw_tokens w')" "\<And>t. res = Inr t \<Longrightarrow> wf_token t \<and> 0 \<le> position t"
proof -
  let ?a = "get_token (rc_name c) (seg_id s) (pw_tokens w)" and ?b = "get_token (rc_name c) (seg_id partner) (pw_tokens w)"
  let ?t = "mergedToken (seg_mask s) (seg_id s, or_zero ?a) (seg_id partner, or_zero ?b)"
  let ?sd = "store_and_drop (rc_name c) (min (seg_id s) (seg_id partner)) ?t (max (seg_id s) (seg_id partner)) (rc_owner c) w"
  have plain: "plain_token (or_zero tok) \<and> 0 \<le> position (or_zero tok)"
    if "\<not> not_mergeable tok" "\<And>t. tok = Some t \<Longrightarrow> wf_token t \<and> 0 \<le> position t" for tok
  proof (cases tok)
    case (Some t)
    with that show ?thesis by (cases t) (auto simp: not_mergeable_def or_zero_def)
  qed (simp add: or_zero_def)
  have "rows_ok (pw_tokens w') \<and> (\<forall>t. res = Inr t \<longrightarrow> wf_token t \<and> 0 \<le> position t)"
  proof (cases "not_mergeable ?a \<or> not_mergeable ?b")
    case True
    then show ?thesis using r rows unfolding merge_task by (auto simp: Let_def split: if_splits)
  next
    case False
    then have pl: "plain_token (or_zero ?a) \<and> 0 \<le> position (or_zero ?a)" "plain_token (or_zero ?b) \<and> 0 \<le> position (or_zero ?b)"
      using rows by (auto intro!: plain simp: rows_ok_def)
    have t: "wf_token ?t" "0 \<le> position ?t"
      using pl wf_mergedToken [of "(seg_id s, or_zero ?a)" "(seg_id partner, or_zero ?b)"]
        position_mergedToken [of "(seg_id s, or_zero ?a)" "(seg_id partner, or_zero ?b)"] by simp_all
    obtain r2 w2 where sd: "?sd = (r2, w2)" by fastforce
    obtain r1 w1 where wr: "write_token (rc_name c) (min (seg_id s) (seg_id partner)) ?t (rc_owner c) w = (r1, w1)" by fastforce
    have "rows_ok (pw_tokens w1)" using rows_ok_write_token [OF rows t, of "rc_name c" "min (seg_id s) (seg_id partner)" "rc_owner c"] wr by simp
    then have "rows_ok (pw_tokens w2)" using sd wr rows_ok_delete by (cases r1) (auto simp: store_and_drop_def)
    then show ?thesis using r False sd t unfolding merge_task by (cases r2) (auto simp: Let_def)
  qed
  then show "rows_ok (pw_tokens w')" "\<And>t. res = Inr t \<Longrightarrow> wf_token t \<and> 0 \<le> position t" by blast+
qed

lemma fold_let_go_ok:
  assumes "running_ok c st" "\<And>i t. map_get tokens i = Some (Some t) \<Longrightarrow> wf_token t \<and> 0 \<le> position t"
  shows "running_ok c (fold (let_go c tokens) shs st)"
  using assms(1) by (induction shs arbitrary: st) (simp_all add: let_go_ok assms(2))

lemma merge_hold_ok:
  assumes ok: "running_ok c st3"
    and r: "(case run_task plain_batch_host (rc_name c) (merge_action c s partner) (rp_world st3) of
       None \<Rightarrow> None
     | Some (Inl err, w) \<Rightarrow>
         Some (Inl (TaskFailed err),
           fold (let_go c (read_before err (merge_read c s partner (rp_tokens st3)))) hs (st3\<lparr>rp_world := w\<rparr>))
     | Some (Inr t, w) \<Rightarrow>
         Some (Inr (), resume c sg (Some t) (st3\<lparr>rp_world := w, rp_known := map_delete a (map_delete b (rp_known st3))\<rparr>))) = Some (res, st')"
  shows "running_ok c st'"
proof -
  obtain tr w' where tk: "run_task plain_batch_host (rc_name c) (merge_action c s partner) (rp_world st3) = Some (tr, w')"
    using some_pair [OF merge_task] by blast
  note rows = merge_task_rows [OF running_okD(5) [OF ok] tk]
  have ok3: "running_ok c (st3\<lparr>rp_world := w'\<rparr>)" by (rule running_ok_world [OF ok rows(1)])
  show ?thesis
  proof (cases tr)
    case (Inl err)
    have "wf_token t \<and> 0 \<le> position t" if "map_get (read_before err (merge_read c s partner (rp_tokens st3))) i = Some (Some t)" for i t
      using that get_token_ok [OF ok] by (auto simp: read_before_def merge_read_def Let_def split: batch_error.splits if_splits)
    from fold_let_go_ok [OF ok3 this] r tk Inl show ?thesis by auto
  next
    case (Inr t)
    have "known_ok (map_delete a (map_delete b (rp_known st3)))" by (intro known_ok_delete running_okD(7) [OF ok])
    from resume_ok [OF running_ok_known [OF ok3 this], of "Some t" sg] rows(2) [OF Inr] r tk Inr show ?thesis by auto
  qed
qed

lemma merge_ok:
  assumes ok: "running_ok c st" and r: "processor_mergeSegment plain_batch_host c i st = Some (res, st')"
  shows "running_ok c st'"
proof -
  obtain segments st1 where s: "segmentsNow c st = (segments, st1)" by fastforce
  have ok1: "running_ok c st1" by (rule segmentsNow_ok(1) [OF ok s])
  show ?thesis
  proof (cases "st' = st1")
    case True
    with ok1 show ?thesis by simp
  next
    case False
    then obtain sg partner where f: "find (\<lambda>s. seg_id s = i) segments = Some sg" "seg_mask sg \<noteq> 0"
      "find (\<lambda>p. int (seg_id p) = mergeableSegmentId sg \<and> seg_mask p = seg_mask sg) segments = Some partner"
      using r s by (auto simp: processor_mergeSegment_def split: option.splits if_splits)
    then obtain how1 st2 where h1: "holdForOperation c (seg_id sg) st1 = Inr (how1, st2)"
      using r s False by (auto simp: processor_mergeSegment_def split: sum.splits)
    have ok2: "running_ok c st2" by (rule hold_ok(1) [OF ok1 h1])
    show ?thesis
    proof (cases "holdForOperation c (seg_id partner) st2")
      case (Inl e)
      have "running_ok c (let_go c [] (sg, how1) st2)" by (rule let_go_ok [OF ok2]) simp
      then show ?thesis using r s f h1 Inl by (auto simp: processor_mergeSegment_def)
    next
      case (Inr a)
      obtain how2 st3 where a: "a = (how2, st3)" by fastforce
      have ok3: "running_ok c st3" by (rule hold_ok(1) [OF ok2 Inr [unfolded a]])
      have eq: "processor_mergeSegment plain_batch_host c i st =
        (case run_task plain_batch_host (rc_name c) (merge_action c sg partner) (rp_world st3) of
           None \<Rightarrow> None
         | Some (Inl err, w) \<Rightarrow>
             Some (Inl (TaskFailed err),
               fold (let_go c (read_before err (merge_read c sg partner (rp_tokens st3)))) [(sg, how1), (partner, how2)] (st3\<lparr>rp_world := w\<rparr>))
         | Some (Inr t, w) \<Rightarrow>
             Some (Inr (), resume c \<lparr>seg_id = min (seg_id sg) (seg_id partner), seg_mask = nat (js_shr (int (seg_mask sg)) 1)\<rparr> (Some t)
               (st3\<lparr>rp_world := w, rp_known := map_delete (min (seg_id sg) (seg_id partner)) (map_delete (max (seg_id sg) (seg_id partner)) (rp_known st3))\<rparr>)))"
        using s f h1 Inr a by (simp add: processor_mergeSegment_def)
      show ?thesis using r unfolding eq by (rule merge_hold_ok [OF ok3])
    qed
  qed
qed

text \<open>New events come after everything a worker has passed.\<close>

lemma append_store:
  assumes "append s es cond = Inr (m, s')"
  shows "es_events s' = es_events s @ number_from (es_nextPosition s) es" "es_nextPosition s' = es_nextPosition s + int (length es)"
  using assms by (auto simp: append_def throw_simps Let_def log_simps)

lemma view_at_grows:
  assumes at: "view_at sh acc k p" and a: "append (sh_store sh) es cond = Inr (m, s')"
  shows "view_at (sh\<lparr>sh_store := s'\<rparr>) acc k p"
proof -
  obtain v where v: "map_get (sh_views sh) k = Some v" "vw_accepts v = acc" "vw_opened v \<le> p"
    "vw_taken v = owed (sh_query sh) acc (vw_opened v) p (es_events (sh_store sh))" "p = vw_opened v \<or> p \<le> es_nextPosition (sh_store sh)"
    using at by (auto simp: view_at_def)
  have "\<forall>e \<in> set (number_from (es_nextPosition (sh_store sh)) es). es_nextPosition (sh_store sh) \<le> se_position e" using set_number_from by blast
  then have "p \<le> vw_opened v \<or> (\<forall>e \<in> set (number_from (es_nextPosition (sh_store sh)) es). p \<le> se_position e)" using v(5) by fastforce
  then have "owed (sh_query sh) acc (vw_opened v) p (es_events s') = owed (sh_query sh) acc (vw_opened v) p (es_events (sh_store sh))"
    unfolding append_store(1) [OF a] by (rule owed_append)
  then show ?thesis using v append_store(2) [OF a] by (auto simp: view_at_def)
qed

lemma log_grows_ok:
  assumes ok: "running_ok c st"
  shows "running_ok c (log_grows busy es cond st)"
proof (cases "append (sh_store (rp_log st)) es cond")
  case (Inl e)
  with ok show ?thesis by (simp add: log_grows_def)
next
  case (Inr a)
  obtain m s where a: "a = (m, s)" by fastforce
  note ap = Inr [unfolded a]
  let ?sh = "(rp_log st)\<lparr>sh_store := s\<rparr>" and ?st1 = "st\<lparr>rp_log := (rp_log st)\<lparr>sh_store := s\<rparr>\<rparr>"
  have wf: "wf_shared ?sh" by (rule wf_log_grows [OF running_okD(1) [OF ok] ap])
  have ok1: "running_ok c ?st1"
  proof (rule running_okI)
    fix i wk assume "map_get (rp_workers ?st1) i = Some wk"
    then have "worker_ok c (rp_log st) i wk" using running_okD(3) [OF ok] by simp
    then show "worker_ok c (rp_log ?st1) i wk" using view_at_grows [OF _ ap] by (simp add: worker_ok_def)
  qed (use wf running_okD [OF ok] in simp_all)
  have rd: "wf_shared (read ?sh)" "keeps ?sh (read ?sh) k" for k using read_inv [OF wf, of k] by (auto simp: keeps_def)
  have "running_ok c (use_log busy (read ?sh) ?st1)"
    using rd by (intro running_ok_use_log [OF ok1]) (auto simp: keeps_def)
  moreover have "use_log busy (read ?sh) ?st1 = fold (wake_view busy) (drop (length (sh_woken (rp_log st))) (sh_woken (read ?sh))) (st\<lparr>rp_log := read ?sh\<rparr>)"
    by (simp add: use_log_def)
  ultimately show ?thesis using Inr a by (simp add: log_grows_def use_log_def)
qed

section \<open>Every sequence of steps\<close>

text \<open>A token operation of another node writes well-formed tokens only.\<close>

fun op_ok :: "int \<times> token_op \<Rightarrow> bool" where
  "op_ok (now, OpStore p a t ow) \<longleftrightarrow> wf_token t \<and> 0 \<le> position t"
| "op_ok _ \<longleftrightarrow> True"

lemma rows_ok_token_step: "rows_ok ts \<Longrightarrow> op_ok op \<Longrightarrow> rows_ok (token_step op ts)"
  by (cases "(op, ts)" rule: token_step.cases) (auto split: sum.splits intro: rows_ok_ops)

inductive run_step :: "'o run_config \<Rightarrow> 'o running \<Rightarrow> 'o running \<Rightarrow> bool" for c where
  rs_poll: "pollOnce plain_batch_host c schedule i st = Some st' \<Longrightarrow> run_step c st st'"
| rs_renew: "run_step c st (renew c i st)"
| rs_claim: "run_step c st (claimSoon c st)"
| rs_start: "run_step c st (start c st)"
| rs_stop: "run_step c st (stop c st)"
| rs_release: "run_step c st (releaseSegment c i ms st)"
| rs_reset: "0 \<le> p \<Longrightarrow> resetTokens plain_batch_host c p reset st = Some (r, st') \<Longrightarrow> run_step c st st'"
| rs_split: "processor_splitSegment plain_batch_host c i st = Some (r, st') \<Longrightarrow> run_step c st st'"
| rs_merge: "processor_mergeSegment plain_batch_host c i st = Some (r, st') \<Longrightarrow> run_step c st st'"
| rs_append: "run_step c st (log_grows busy es cond st)"
| rs_other_node: "op_ok op \<Longrightarrow> run_step c st (with_tokens (token_step op (rp_tokens st)) st)"
| rs_outside: "pw_tokens w = rp_tokens st \<Longrightarrow> run_step c st (st\<lparr>rp_world := w\<rparr>)"

inductive run_reachable :: "'o run_config \<Rightarrow> 'o running \<Rightarrow> bool" for c where
  rr_init: "reachable_store store \<Longrightarrow> rows_ok (pw_tokens w) \<Longrightarrow> run_reachable c (runEventProcessor c store w)"
| rr_step: "run_reachable c st \<Longrightarrow> run_step c st st' \<Longrightarrow> run_reachable c st'"

lemma initially_ok:
  assumes "reachable_store store" "rows_ok (pw_tokens w)"
  shows "running_ok c (runEventProcessor c store w)"
proof -
  have "wf_shared (sharedStream store q n)" for q n by (rule shared_reachable_wf [OF sr_init [OF assms(1)]])
  then show ?thesis using assms(2)
    by (intro running_okI) (simp_all add: runEventProcessor_def sharedStream_def own_streams_def known_ok_def)
qed

lemma run_step_ok: "run_step c st st' \<Longrightarrow> sizes_ok c \<Longrightarrow> running_ok c st \<Longrightarrow> running_ok c st'"
proof (induction rule: run_step.induct)
  case (rs_other_node op st)
  then show ?case using rows_ok_token_step running_okD(5) by (blast intro: running_ok_with_tokens)
next
  case (rs_outside w st)
  then show ?case using running_okD(5) [of c st] by (intro running_ok_world) simp_all
qed (auto simp: claimSoon_def intro: pollOnce_ok renew_ok claimRound_ok start_ok stop_ok releaseSegment_ok resetTokens_ok split_ok merge_ok log_grows_ok)

lemma run_reachable_ok: "run_reachable c st \<Longrightarrow> sizes_ok c \<Longrightarrow> running_ok c st"
  by (induction rule: run_reachable.induct) (auto intro: initially_ok run_step_ok)

text \<open>A poll always ends.\<close>

lemma pollOnce_returns:
  fixes c :: "'o run_config"
  shows "pollOnce plain_batch_host c schedule i st \<noteq> None"
proof -
  have "processBatch plain_batch_host d schedule i ow t batch w \<noteq> None" for d :: "'o processor_deps" and ow t batch w
    using processBatch_effect [of d schedule i ow t batch w] by auto
  then have "handle_batch plain_batch_host c schedule i k batch st \<noteq> None" for k batch st
    by (simp del: not_None_eq add: handle_batch_def Let_def split: option.split sum.split)
  then have "poll_stream plain_batch_host c schedule i st \<noteq> None" for st
    by (simp del: not_None_eq add: poll_stream_def Let_def split: option.split prod.split)
  then show ?thesis by (simp del: not_None_eq add: pollOnce_def Let_def split: option.split prod.split)
qed

end
