(* ===== verification/Processor_Guarantees.thy ===== *)
theory Processor_Guarantees
  imports Processor_Runs "HOL-Library.Code_Target_Numeral"
begin

text \<open>
  The properties of a running processor (\<open>event-processing/running-processor.ts\<close>), in every state its steps can
  reach: what a poll delivers and where it leaves the token, and how a failed batch is retried. It ends with two
  worked examples, of a wake-up that is lost and of an event that two nodes handle after a lapsed claim.
\<close>

section \<open>A failed poll\<close>

lemma poll_failed_world [simp]: "rp_world (poll_failed c i err st) = rp_world st"
  by (simp add: poll_failed_def lose_def schedule_poll_def Let_def split: option.split poll_error.split batch_error.split)

text \<open>What the \<open>catch\<close> of a poll makes of a worker that keeps its claim.\<close>

definition backed_off :: "'o run_config \<Rightarrow> poll_error \<Rightarrow> worker \<Rightarrow> worker" where
  "backed_off c err wk =
     wk\<lparr>wk_lastError := Some err, wk_cautiousUntil := wk_attemptEnd wk, wk_stream := None,
        wk_retryDelayMs := min (wk_retryDelayMs wk * 2) (max MAX_RETRY_DELAY_MS (firstRetryDelayMs c)),
        wk_timer := Some (PollAfter (wk_retryDelayMs wk))\<rparr>"

lemma lose_gone: "map_get (rp_workers st) i = Some wk \<Longrightarrow> wk_active wk \<Longrightarrow> map_get (rp_workers (lose i st)) i = None"
  by (simp add: lose_def Let_def)

lemma poll_failed_get:
  assumes "map_get (rp_workers st) i = Some wk" "wk_active wk"
  shows "map_get (rp_workers (poll_failed c i err st)) i =
     (if \<exists>e. err = BatchFailed (ClaimLost e) then None else Some (backed_off c err wk))"
  using assms lose_gone [OF assms]
  by (auto simp: poll_failed_def Let_def schedule_poll_def backed_off_def split: poll_error.split batch_error.split)

section \<open>What a poll delivers\<close>

lemma owed_batch_past:
  assumes "batch \<noteq> []" "batch = owed q acc p (sq_sequence (last batch) + 1) log"
  shows "p < sq_sequence (last batch) + 1"
proof -
  have "last batch \<in> set (owed q acc p (sq_sequence (last batch) + 1) log)" using last_in_set [OF assms(1)] assms(2) by argo
  from owed_elem [OF this] show ?thesis by linarith
qed

text \<open>The two ways a poll ends, with the claim lost in either or not.\<close>

lemma poll_cases:
  fixes c :: "'o run_config" and st :: "'o running"
  assumes reach: "run_reachable c st" "sizes_ok c" and w: "map_get (rp_workers st) i = Some wk"
    and p: "pollOnce plain_batch_host c schedule i st = Some st'"
  obtains (quiet) "pw_dlq (rp_world st') = pw_dlq (rp_world st)"
      "\<And>wk'. map_get (rp_workers st') i = Some wk' \<Longrightarrow> wk_stream wk' \<noteq> None \<and> position (wk_token wk) \<le> position (wk_token wk') \<and>
         owed_to c (wk_segment wk) (position (wk_token wk)) (position (wk_token wk')) st = []"
  | (batch) batch res w where "batch \<noteq> []" "batch = owed_to c (wk_segment wk) (position (wk_token wk)) (sq_sequence (last batch) + 1) st"
      "length batch \<le> target_size c (rp_backlogEnd st) wk"
      "processBatch plain_batch_host (rc_deps c) schedule i (rc_owner c) (wk_token wk) batch (rp_world st) = Some (res, w)"
      "pw_dlq (rp_world st') = pw_dlq w"
      "\<And>t wk'. res = Inr t \<Longrightarrow> map_get (rp_workers st') i = Some wk' \<Longrightarrow> wk_stream wk' \<noteq> None \<and> sq_sequence (last batch) + 1 \<le> position (wk_token wk') \<and>
         owed_to c (wk_segment wk) (sq_sequence (last batch) + 1) (position (wk_token wk')) st = []"
      "\<And>err. res = Inl err \<Longrightarrow> rp_tokens st' = rp_tokens st"
      "\<And>err. res = Inl err \<Longrightarrow> map_get (rp_workers st') i =
         (if \<exists>e. err = ClaimLost e then None
          else Some (backed_off c (BatchFailed err) (wk\<lparr>wk_caughtUp := False, wk_attemptEnd := sq_sequence (last batch) + 1\<rparr>)))"
proof -
  have ok: "running_ok c st" by (rule run_reachable_ok [OF reach])
  have act: "wk_active wk" by (rule worker_okD(2) [OF running_okD(3) [OF ok w]])
  have gone: "map_get (rp_workers (poll_failed c i err st2)) i = None" if "only_claim_lost (Some err)" "running_ok c st2"
    "map_get (rp_workers st2) i = Some wk2" for err wk2 and st2 :: "'o running"
    using that poll_failed_get [OF that(3) worker_okD(2) [OF running_okD(3) [OF that(2,3)]]] by (simp add: only_claim_lost_def)
  from pollOnce_outcome [OF ok w reach(2) p] obtain st2 r where e: "st' = (case r of None \<Rightarrow> st2 | Some err \<Rightarrow> poll_failed c i err st2)"
    and o: "(passes_nothing c i wk st st2 \<and> only_claim_lost r) \<or>
         (\<exists>k batch. batch \<noteq> [] \<and> batch = owed_to c (wk_segment wk) (position (wk_token wk)) (sq_sequence (last batch) + 1) st \<and>
            length batch \<le> target_size c (rp_backlogEnd st) wk \<and>
            batch_outcome c schedule i (wk\<lparr>wk_timer := None, wk_stream := Some k\<rparr>) batch st r st2)"
    unfolding poll_outcome_def by blast
  have wd: "rp_world st' = rp_world st2" using e by (simp split: option.splits)
  from o show ?thesis
  proof (elim disjE exE conjE)
    assume pn: "passes_nothing c i wk st st2" and r: "only_claim_lost r"
    show ?thesis
      by (rule quiet) (use pn r e wd gone in \<open>auto simp: passes_nothing_def split: option.splits\<close>)
  next
    fix k bt assume b: "bt \<noteq> []" "bt = owed_to c (wk_segment wk) (position (wk_token wk)) (sq_sequence (last bt) + 1) st"
      "length bt \<le> target_size c (rp_backlogEnd st) wk" and bo: "batch_outcome c schedule i (wk\<lparr>wk_timer := None, wk_stream := Some k\<rparr>) bt st r st2"
    have sg: "wk_segment (wk\<lparr>wk_timer := None, wk_stream := Some k\<rparr>) = wk_segment wk"
      "wk_token (wk\<lparr>wk_timer := None, wk_stream := Some k\<rparr>) = wk_token wk" by simp_all
    from bo obtain res w' where pb: "processBatch plain_batch_host (rc_deps c) schedule i (rc_owner c) (wk_token wk) bt (rp_world st) = Some (res, w')"
      "pw_dlq (rp_world st2) = pw_dlq w'"
      and res: "case res of
           Inl err \<Rightarrow> r = Some (BatchFailed err) \<and> polling_ok c i st2 \<and> rp_tokens st2 = rp_tokens st \<and>
             map_get (rp_workers st2) i = Some (wk\<lparr>wk_timer := None, wk_stream := Some k, wk_caughtUp := False, wk_attemptEnd := sq_sequence (last bt) + 1\<rparr>)
         | Inr t \<Rightarrow> running_ok c st2 \<and> only_claim_lost r \<and>
             (\<exists>wk'. map_get (rp_workers st2) i = Some wk' \<and> wk_stream wk' \<noteq> None \<and> sq_sequence (last bt) + 1 \<le> position (wk_token wk') \<and>
                owed_to c (wk_segment wk) (sq_sequence (last bt) + 1) (position (wk_token wk')) st = [])"
      unfolding batch_outcome_def sg by blast
    show ?thesis
    proof (rule batch [OF b pb(1)])
      show "pw_dlq (rp_world st') = pw_dlq w'" using pb(2) wd by simp
    next
      fix t wk' assume "res = Inr t" "map_get (rp_workers st') i = Some wk'"
      then show "wk_stream wk' \<noteq> None \<and> sq_sequence (last bt) + 1 \<le> position (wk_token wk') \<and>
         owed_to c (wk_segment wk) (sq_sequence (last bt) + 1) (position (wk_token wk')) st = []"
        using res e gone by (auto split: option.splits)
    next
      fix err assume "res = Inl err"
      then show "rp_tokens st' = rp_tokens st" using res wd by simp
    next
      fix err assume "res = Inl err"
      then show "map_get (rp_workers st') i = (if \<exists>e. err = ClaimLost e then None
          else Some (backed_off c (BatchFailed err) (wk\<lparr>wk_caughtUp := False, wk_attemptEnd := sq_sequence (last bt) + 1\<rparr>)))"
        using res e act by (simp add: poll_failed_get) (simp add: backed_off_def)
    qed
  qed
qed

text \<open>
  C1: In every state a processor can reach, whatever the other nodes, the writers of the log and its own segment
  operations did before, polling a segment ends. Either no handler runs, and the token moves only past events that
  are not for the segment; or the handlers get exactly the events of the segment from the token on, none left out
  and none twice, at most as many as the target size, and if they succeed the token ends where it has passed these
  events and no other event of the segment. When they fail nothing is written to the token store and the
  token stays, so the same events come again.
\<close>

theorem poll_delivers_what_it_passes:
  fixes c :: "'o run_config"
  assumes "run_reachable c st" "sizes_ok c" "map_get (rp_workers st) i = Some wk"
  shows "\<exists>st'. pollOnce plain_batch_host c schedule i st = Some st' \<and>
    ((pw_dlq (rp_world st') = pw_dlq (rp_world st) \<and>
      (\<forall>wk'. map_get (rp_workers st') i = Some wk' \<longrightarrow>
         position (wk_token wk) \<le> position (wk_token wk') \<and>
         owed_to c (wk_segment wk) (position (wk_token wk)) (position (wk_token wk')) st = [])) \<or>
     (\<exists>batch res w. batch \<noteq> [] \<and> length batch \<le> target_size c (rp_backlogEnd st) wk \<and>
        batch = owed_to c (wk_segment wk) (position (wk_token wk)) (sq_sequence (last batch) + 1) st \<and>
        processBatch plain_batch_host (rc_deps c) schedule i (rc_owner c) (wk_token wk) batch (rp_world st) = Some (res, w) \<and>
        pw_dlq (rp_world st') = pw_dlq w \<and>
        (\<forall>wk'. map_get (rp_workers st') i = Some wk' \<longrightarrow>
           (case res of
              Inr t \<Rightarrow> batch = owed_to c (wk_segment wk) (position (wk_token wk)) (position (wk_token wk')) st
            | Inl err \<Rightarrow> rp_tokens st' = rp_tokens st \<and> wk_token wk' = wk_token wk))))"
proof -
  obtain st' where p: "pollOnce plain_batch_host c schedule i st = Some st'" using pollOnce_returns [of c schedule i st] by auto
  have srt: "sorted_wrt (<) (map se_position (log_events st))"
    using log_sorted running_okD(1) [OF run_reachable_ok [OF assms(1,2)]] by simp
  from assms p show ?thesis
  proof (cases rule: poll_cases)
    case quiet
    then show ?thesis using p by blast
  next
    case (batch batch res w)
    have lt: "position (wk_token wk) \<le> sq_sequence (last batch) + 1"
      using owed_batch_past [OF batch(1,2)] by simp
    have "case res of
        Inr t \<Rightarrow> batch = owed_to c (wk_segment wk) (position (wk_token wk)) (position (wk_token wk')) st
      | Inl err \<Rightarrow> rp_tokens st' = rp_tokens st \<and> wk_token wk' = wk_token wk" if g: "map_get (rp_workers st') i = Some wk'" for wk'
    proof (cases res)
      case (Inl err)
      then show ?thesis using batch(7,8) [OF Inl] g by (auto simp: backed_off_def split: if_splits)
    next
      case (Inr t)
      then show ?thesis using owed_split [OF srt lt, of "position (wk_token wk')"] batch(2) batch(6) [OF Inr g] by simp
    qed
    then show ?thesis using p batch(1-5) by blast
  qed
qed


section \<open>Examples\<close>

text \<open>Equations to run the model with: the loop that fills a batch, and the drains of a unit of work.\<close>

lemma collect_code [code]:
  "collect k n ev sh =
     (if n = 0 then ([], sh)
      else (case ev of
              None \<Rightarrow> ([], sh)
            | Some e \<Rightarrow>
                if n = 1 then ([e], sh)
                else (case view_hasNextAvailable k sh of
                        (False, sh1) \<Rightarrow> ([e], sh1)
                      | (True, sh1) \<Rightarrow>
                          (case take_view k sh1 of (ev, sh2) \<Rightarrow> (case collect k (n - 1) ev sh2 of (es, sh3) \<Rightarrow> (e # es, sh3))))))"
  by (cases n; cases ev) (simp_all split: prod.split bool.split)

declare notify_complete.simps [code] notify_errors.simps [code] drain_bucket.simps [code]

text \<open>
  A processor of orders. Its handler writes down the time of every event it gets and fails on an event
  from before time zero.
\<close>

definition order_run :: "string \<Rightarrow> sequence_fn option \<Rightarrow> int list run_config" where
  "order_run owner sequenceOf =
     \<lparr>rc_deps = \<lparr>pd_name = ''orders'',
        pd_handlers = handler_map_of [\<lparr>he_name = qn ''shop'' ''Placed'',
          he_handler = (\<lambda>e replaying seen. (if em_timestamp (sq_event e) < 0 then Some (JsError ''boom'') else None, seen @ [em_timestamp (sq_event e)]))\<rparr>],
        pd_parking = None, pd_concurrent = None, pd_sequenceOf = sequenceOf\<rparr>,
      rc_batchSize = 1, rc_replayBatchSize = 2, rc_pollingIntervalMs = 500, rc_initialSegments = 1, rc_owner = owner\<rparr>"

definition placed_at :: "int \<Rightarrow> event_message" where
  "placed_at n = order_event\<lparr>em_timestamp := n\<rparr>"

definition shipped :: event_message where
  "shipped = tagged_event ''shop'' ''Shipped'' ''order'' ''1''"

definition orders_world :: "int list proc_world" where
  "orders_world = \<lparr>pw_tokens = inMemoryTokenStore 10, 
     pw_dlq = \<lparr>dw_queue = inMemoryDeadLetterQueue None None, dw_nextRef = 0, dw_now = 9, dw_outside = []\<rparr>\<rparr>"

definition orders_started :: "string \<Rightarrow> sequence_fn option \<Rightarrow> event_message list \<Rightarrow> int list running" where
  "orders_started owner sequenceOf es =
     (let c = order_run owner sequenceOf
      in start c (log_grows None es None (runEventProcessor c inMemoryEventStore orders_world)))"

abbreviation seen_by :: "int list running \<Rightarrow> int list" where
  "seen_by st \<equiv> dw_outside (pw_dlq (rp_world st))"

definition poisoned :: "int list running" where
  "poisoned = orders_started ''a'' None [placed_at 1, placed_at (- 1)]"

definition poll_order :: "string \<Rightarrow> sequence_fn option \<Rightarrow> nat \<Rightarrow> int list running \<Rightarrow> int list running" where
  "poll_order owner sequenceOf i st = the (pollOnce plain_batch_host (order_run owner sequenceOf) [] i st)"

lemma orders_reachable: "run_reachable (order_run owner sequenceOf) (orders_started owner sequenceOf es)"
proof -
  have "reachable_store inMemoryEventStore" by (rule reach_init)
  moreover have "rows_ok (pw_tokens orders_world)" by (simp add: orders_world_def rows_ok_def get_token_def inMemoryTokenStore_def getEntry_def)
  ultimately have "run_reachable (order_run owner sequenceOf) (runEventProcessor (order_run owner sequenceOf) inMemoryEventStore orders_world)"
    by (rule rr_init)
  then show ?thesis unfolding orders_started_def Let_def by (blast intro: rr_step rs_append rs_start)
qed

lemma order_sizes: "sizes_ok (order_run owner sequenceOf)"
  by (simp add: sizes_ok_def order_run_def)

lemma poll_order_returns: "pollOnce plain_batch_host (order_run owner sequenceOf) [] i st = Some (poll_order owner sequenceOf i st)"
  using pollOnce_returns [of "order_run owner sequenceOf" "[]" i st] by (simp add: poll_order_def)

lemma poisoned_worker:
  "map_option (\<lambda>wk. (wk_token wk, wk_retryDelayMs wk)) (map_get (rp_workers poisoned) 0) = Some (GlobalSequenceToken 0, 1000)"
  by code_simp

lemma poisoned_poll: "map_option wk_stream (map_get (rp_workers (poll_order ''a'' None 0 poisoned)) 0) = Some None"
  by code_simp

theorem poll_delivers_what_it_passes_witness:
  "\<exists>wk st'. map_get (rp_workers poisoned) 0 = Some wk \<and> pollOnce plain_batch_host (order_run ''a'' None) [] 0 poisoned = Some st' \<and>
     seen_by st' \<noteq> seen_by poisoned \<and>
     (\<exists>batch res w. batch \<noteq> [] \<and> length batch \<le> target_size (order_run ''a'' None) (rp_backlogEnd poisoned) wk \<and>
        processBatch plain_batch_host (rc_deps (order_run ''a'' None)) [] 0 (rc_owner (order_run ''a'' None)) (wk_token wk) batch (rp_world poisoned) = Some (res, w))"
proof -
  obtain wk where wk: "map_get (rp_workers poisoned) 0 = Some wk" using poisoned_worker by auto
  have seen: "seen_by (poll_order ''a'' None 0 poisoned) = [1, - 1]" "seen_by poisoned = []" by code_simp+
  have "run_reachable (order_run ''a'' None) poisoned" unfolding poisoned_def by (rule orders_reachable)
  from poll_delivers_what_it_passes [OF this order_sizes wk, of "[]"] seen wk show ?thesis
    unfolding poll_order_returns by fastforce
qed


section \<open>A wake-up and a claim that are lost\<close>

definition quiet_end :: "int list running" where
  "quiet_end = log_grows (Some 0) [placed_at 2] None (poll_order ''a'' None 0 (orders_started ''a'' None [placed_at 1, shipped]))"

text \<open>
  An event that arrives while a worker writes the token of a quiet stretch after a batch is not polled. The poll
  found its stream empty and sets no timer, since the stream's callback is to wake it; the callback comes while
  the poll is still waiting for the write and is dropped because the worker is processing. The event is
  owed to the segment, no poll is scheduled, and a round of claims schedules none either: it stays unhandled until
  another event arrives.
\<close>

theorem wakeup_during_quiet_write_is_lost:
  "map_option (\<lambda>wk. (wk_active wk, wk_caughtUp wk, wk_timer wk)) (map_get (rp_workers quiet_end) 0) = Some (True, True, None) \<and>
   map_option (\<lambda>wk. map sq_event (owed_to (order_run ''a'' None) (wk_segment wk) (position (wk_token wk)) 3 quiet_end)) (map_get (rp_workers quiet_end) 0) =
     Some [placed_at 2] \<and>
   map_option wk_timer (map_get (rp_workers (claimSoon (order_run ''a'' None) quiet_end)) 0) = Some None"
proof -
  have "map_option (\<lambda>wk. (wk_active wk, wk_caughtUp wk, wk_timer wk)) (map_get (rp_workers quiet_end) 0) = Some (True, True, None)" by code_simp
  moreover have "map_option (\<lambda>wk. map sq_event (owed_to (order_run ''a'' None) (wk_segment wk) (position (wk_token wk)) 3 quiet_end))
      (map_get (rp_workers quiet_end) 0) = Some [placed_at 2]" by code_simp
  moreover have "map_option wk_timer (map_get (rp_workers (claimSoon (order_run ''a'' None) quiet_end)) 0) = Some None" by code_simp
  ultimately show ?thesis by blast
qed

text \<open>Two nodes on one token store. Node \<open>b\<close> starts after the claim of node \<open>a\<close> has lapsed; then \<open>a\<close> splits the segment.\<close>

definition sharing :: "int list running \<Rightarrow> int list running \<Rightarrow> int list running" where
  "sharing other st = st\<lparr>rp_world := rp_world other\<rparr>"

definition lapsed_a :: "int list running" where
  "lapsed_a = (let a = orders_started ''a'' (Some by_parity) [placed_at 0]
               in a\<lparr>rp_world := (rp_world a)\<lparr>pw_dlq := (pw_dlq (rp_world a))\<lparr>dw_now := 29\<rparr>\<rparr>\<rparr>)"

definition takes_over_b :: "int list running" where
  "takes_over_b = start (order_run ''b'' (Some by_parity)) (sharing lapsed_a (runEventProcessor (order_run ''b'' (Some by_parity)) (sh_store (rp_log lapsed_a)) orders_world))"

definition split_by_a :: "int list running" where
  "split_by_a = (case processor_splitSegment plain_batch_host (order_run ''a'' (Some by_parity)) 0 (sharing takes_over_b lapsed_a) of
     Some (Inr (), st) \<Rightarrow> st | _ \<Rightarrow> lapsed_a)"

definition polled_b :: "int list running" where
  "polled_b = poll_order ''b'' (Some by_parity) 0 (sharing split_by_a takes_over_b)"

definition polled_a :: "int list running" where
  "polled_a = poll_order ''a'' (Some by_parity) 1 (sharing polled_b split_by_a)"

text \<open>
  Splitting a segment does not check that this node still has its claim. Node a held the whole log, its claim
  lapsed and node b took the segment over; a, which has not noticed, splits it. Only the row of the second half is
  claimed, and that succeeds. Now b handles every event and a those of the second half, each under a claim of its
  own: the event is handled twice, and renewing the claims does not end it.
\<close>

theorem split_after_lapse_handles_twice:
  "inSegment \<lparr>seg_id = 1, seg_mask = 1\<rparr> (hashOf (Some by_parity) (placed_at 0)) \<and>
   seen_by polled_b = [0] \<and> seen_by polled_a = [0, 0] \<and>
   map (wk_segment \<circ> snd) (rp_workers (claimSoon (order_run ''b'' (Some by_parity)) (sharing polled_a polled_b))) = [\<lparr>seg_id = 0, seg_mask = 0\<rparr>] \<and>
   map (wk_segment \<circ> snd) (rp_workers (claimSoon (order_run ''a'' (Some by_parity)) polled_a)) = [\<lparr>seg_id = 1, seg_mask = 1\<rparr>]"
proof -
  have "inSegment \<lparr>seg_id = 1, seg_mask = 1\<rparr> (hashOf (Some by_parity) (placed_at 0))" by code_simp
  moreover have "seen_by polled_b = [0]" by code_simp
  moreover have "seen_by polled_a = [0, 0]" by code_simp
  moreover have "map (wk_segment \<circ> snd) (rp_workers (claimSoon (order_run ''b'' (Some by_parity)) (sharing polled_a polled_b))) =
    [\<lparr>seg_id = 0, seg_mask = 0\<rparr>]" by code_simp
  moreover have "map (wk_segment \<circ> snd) (rp_workers (claimSoon (order_run ''a'' (Some by_parity)) polled_a)) = [\<lparr>seg_id = 1, seg_mask = 1\<rparr>]" by code_simp
  ultimately show ?thesis by blast
qed

end
