(* ===== verification/Processor_Operations.thy ===== *)
theory Processor_Operations
  imports Processor_Guarantees
begin

text \<open>
  What the operations on segments write to the token store (\<open>resetTokens\<close>, \<open>splitSegment\<close> and \<open>mergeSegment\<close>
  of \<open>event-processing/running-processor.ts\<close>): the tokens of a reset, of the halves of a split and of a merge,
  and what becomes of the claims when a node splits a segment that another node has taken over.
\<close>

section \<open>Rows under the operations of the token store\<close>

lemma claim_row:
  assumes "claimToken now p a ow ts = Inr (stored, ts')"
  shows "get_token q b ts' = get_token q b ts" "entry_owner ts' (q, b) = (if q = p \<and> b = a then Some ow else entry_owner ts (q, b))"
    "stored = get_token p a ts"
  using assms by (auto simp: claimToken_def get_token_def entry_owner_def split: option.splits if_splits)

lemma release_row:
  "get_token q b (releaseClaim p a ow ts) = get_token q b ts"
  "entry_owner (releaseClaim p a ow ts) (q, b) =
     (if q = p \<and> b = a \<and> entry_owner ts (q, b) = Some ow then None else entry_owner ts (q, b))"
  by (auto simp: releaseClaim_def get_token_def entry_owner_def split: option.split)

lemma initialize_row: "get_token q b (initializeSegments p n ts) = get_token q b ts"
proof -
  have "get_token q b (fold (initialize_one p) xs ts) = get_token q b ts" for xs
    by (induction xs arbitrary: ts) (auto simp: initialize_one_def get_token_def)
  then show ?thesis by (simp add: initializeSegments_def)
qed


lemma segmentsNow_owner:
  assumes "segmentsNow c st = (segments, st')"
  shows "entry_owner (rp_tokens st') (q, b) = entry_owner (rp_tokens st) (q, b)" "rp_workers st' = rp_workers st"
  using assms by (auto simp: segmentsNow_def Let_def with_tokens_def initialize_owner split: if_splits)

lemma segmentsNow_row:
  assumes "segmentsNow c st = (segments, st')"
  shows "get_token q b (rp_tokens st') = get_token q b (rp_tokens st)" "pw_dlq (rp_world st') = pw_dlq (rp_world st)" "rp_known st' = rp_known st"
    "rp_isRunning st' = rp_isRunning st"
  using assms by (auto simp: segmentsNow_def Let_def with_tokens_def initialize_row split: if_splits)

lemma release_claims_row:
  "get_token q b (rp_tokens (release_claims c is st)) = get_token q b (rp_tokens st)"
  "entry_owner (rp_tokens (release_claims c is st)) (q, b) =
     (if q = rc_name c \<and> b \<in> set is \<and> entry_owner (rp_tokens st) (q, b) = Some (rc_owner c) then None else entry_owner (rp_tokens st) (q, b))"
proof -
  let ?f = "\<lambda>i. releaseClaim (rc_name c) i (rc_owner c)"
  have "get_token q b (fold ?f is ts) = get_token q b ts \<and>
      entry_owner (fold ?f is ts) (q, b) =
       (if q = rc_name c \<and> b \<in> set is \<and> entry_owner ts (q, b) = Some (rc_owner c) then None else entry_owner ts (q, b))" for ts
    by (induction "is" arbitrary: ts) (auto simp: release_row)
  then show "get_token q b (rp_tokens (release_claims c is st)) = get_token q b (rp_tokens st)"
    "entry_owner (rp_tokens (release_claims c is st)) (q, b) =
     (if q = rc_name c \<and> b \<in> set is \<and> entry_owner (rp_tokens st) (q, b) = Some (rc_owner c) then None else entry_owner (rp_tokens st) (q, b))"
    by (simp_all add: release_claims_def with_tokens_def)
qed

lemma claim_all_row:
  "claim_all c is claimed st = (r, claimed', st') \<Longrightarrow>
     (\<forall>q b. get_token q b (rp_tokens st') = get_token q b (rp_tokens st)) \<and> (r = None \<longrightarrow> claimed' = claimed @ is) \<and>
     (\<forall>b. entry_owner (rp_tokens st) (rc_name c, b) = Some (rc_owner c) \<or> (r = None \<and> b \<in> set is) \<longrightarrow>
        entry_owner (rp_tokens st') (rc_name c, b) = Some (rc_owner c)) \<and>
     pw_dlq (rp_world st') = pw_dlq (rp_world st)"
proof (induction c "is" claimed st rule: claim_all.induct)
  case (2 c i "is" claimed st)
  show ?case
  proof (cases "claimToken (rp_now st) (rc_name c) i (rc_owner c) (rp_tokens st)")
    case (Inl e)
    with 2(2) show ?thesis by auto
  next
    case (Inr a)
    obtain stored ts where a: "a = (stored, ts)" by fastforce
    have "claim_all c is (claimed @ [i]) (with_tokens ts st) = (r, claimed', st')" using 2(2) Inr a by simp
    from 2(1) [OF Inr a [symmetric] this] claim_row [OF Inr [unfolded a]] show ?thesis by (auto simp: with_tokens_def)
  qed
qed simp

lemma write_owned:
  assumes "entry_owner (pw_tokens w) (name, i) = Some ow"
  shows "\<exists>w'. write_token name i t ow w = (None, w') \<and> pw_dlq w' = pw_dlq w \<and>
    (\<forall>q b. get_token q b (pw_tokens w') = (if q = name \<and> b = i then Some t else get_token q b (pw_tokens w))) \<and>
    (\<forall>k. entry_owner (pw_tokens w') k = entry_owner (pw_tokens w) k)"
  using assms by (auto simp: write_token_def store_token_def entry_owner_def get_token_def Let_def split: option.splits)

lemma store_owned:
  assumes "\<And>i. i \<in> set is \<Longrightarrow> entry_owner (pw_tokens w) (name, i) = Some ow"
  shows "\<exists>w'. store_tokens name ow (map (\<lambda>i. (i, f i)) is) w = (None, w') \<and> pw_dlq w' = pw_dlq w \<and>
    (\<forall>q b. get_token q b (pw_tokens w') = (if q = name \<and> b \<in> set is then Some (f b) else get_token q b (pw_tokens w))) \<and>
    (\<forall>k. entry_owner (pw_tokens w') k = entry_owner (pw_tokens w) k)"
  using assms
proof (induction "is" arbitrary: w)
  case (Cons i "is")
  from write_owned [of w name i ow "f i"] Cons.prems obtain w1 where w1: "write_token name i (f i) ow w = (None, w1)" "pw_dlq w1 = pw_dlq w"
    "\<And>q b. get_token q b (pw_tokens w1) = (if q = name \<and> b = i then Some (f i) else get_token q b (pw_tokens w))"
    "\<And>k. entry_owner (pw_tokens w1) k = entry_owner (pw_tokens w) k" by auto
  from Cons.IH [of w1] Cons.prems w1(4) obtain w2 where "store_tokens name ow (map (\<lambda>i. (i, f i)) is) w1 = (None, w2)" "pw_dlq w2 = pw_dlq w1"
    "\<And>q b. get_token q b (pw_tokens w2) = (if q = name \<and> b \<in> set is then Some (f b) else get_token q b (pw_tokens w1))"
    "\<And>k. entry_owner (pw_tokens w2) k = entry_owner (pw_tokens w1) k" by auto
  with w1 show ?case by (intro exI [of _ w2]) auto
qed simp

section \<open>Reset\<close>

lemma reset_target_replays:
  assumes "\<And>t. stored = Some t \<Longrightarrow> wf_token t" "0 \<le> p"
  shows "position (reset_target (GlobalSequenceToken p) stored) = p"
    "replayed (reset_target (GlobalSequenceToken p) stored) q \<longleftrightarrow> p < position (reachedBy (or_zero stored)) \<and> q \<le> position (reachedBy (or_zero stored))"
  using assms reachedBy_plain [of "the stored"]
  by (auto simp: reset_target_def or_zero_def not_le split: option.split)

text \<open>A reset that is let through has written the target of every segment and released what it claimed.\<close>

lemma resetTokens_effect:
  fixes st :: "'o running"
  assumes s: "segmentsNow c st = (segments, st1)"
  shows "\<exists>res st'. resetTokens plain_batch_host c p reset st = Some (res, st') \<and>
    (case res of
       Inl err \<Rightarrow> (\<forall>q b. get_token q b (rp_tokens st') = get_token q b (rp_tokens st))
     | Inr _ \<Rightarrow> \<not> rp_isRunning st \<and>
         (\<forall>q b. get_token q b (rp_tokens st') =
            (if q = rc_name c \<and> b \<in> seg_id ` set segments
             then Some (reset_target (GlobalSequenceToken p) (get_token q b (rp_tokens st))) else get_token q b (rp_tokens st))) \<and>
         (\<forall>b \<in> seg_id ` set segments. entry_owner (rp_tokens st') (rc_name c, b) = None))"
proof (cases "rp_isRunning st")
  case True
  then show ?thesis by (simp add: resetTokens_def)
next
  case False
  let ?is = "map seg_id segments"
  obtain r claimed st2 where cl: "claim_all c ?is [] st1 = (r, claimed, st2)" by (metis prod.exhaust)
  have same: "get_token q b (rp_tokens st2) = get_token q b (rp_tokens st)" for q b
    using claim_all_row [OF cl] segmentsNow_row(1) [OF s] by simp
  show ?thesis
  proof (cases r)
    case (Some i)
    then show ?thesis using False s cl same by (simp add: resetTokens_def release_claims_row)
  next
    case None
    have own: "entry_owner (rp_tokens st2) (rc_name c, b) = Some (rc_owner c)" if "b \<in> set ?is" for b
      using claim_all_row [OF cl] None that by blast
    have claimed: "claimed = ?is" using claim_all_row [OF cl] None by simp
    let ?w = "rp_world st2"
    obtain r0 out where f: "(case reset of None \<Rightarrow> (None, dw_outside (pw_dlq ?w)) | Some g \<Rightarrow> g (dw_outside (pw_dlq ?w))) = (r0, out)"
      by fastforce
    let ?w1 = "?w\<lparr>pw_dlq := (pw_dlq ?w)\<lparr>dw_outside := out\<rparr>\<rparr>"
    note task = reset_task [OF f, of c ?is p]
    show ?thesis
    proof (cases r0)
      case (Some err)
      then show ?thesis using False s cl None same task by (simp add: resetTokens_def release_claims_row)
    next
      case none: None
      let ?t = "\<lambda>i. reset_target (GlobalSequenceToken p) (get_token (rc_name c) i (pw_tokens ?w))"
      from store_owned [of ?is ?w1 "rc_name c" "rc_owner c" ?t] own obtain w' where
        w': "store_tokens (rc_name c) (rc_owner c) (reset_targets c ?is p (pw_tokens ?w)) ?w1 = (None, w')"
        "\<And>q b. get_token q b (pw_tokens w') = (if q = rc_name c \<and> b \<in> set ?is then Some (?t b) else get_token q b (pw_tokens ?w))"
        "\<And>k. entry_owner (pw_tokens w') k = entry_owner (pw_tokens ?w) k" by (auto simp: reset_targets_def o_def)
      then show ?thesis using False s cl None none task claimed own
        by (simp add: resetTokens_def release_claims_row same)
    qed
  qed
qed

text \<open>
  C15: A reset ends, and all or nothing. If it fails, because the processor is running, a segment is held elsewhere or
  the reset hook throws, every token is as it was. If it succeeds the processor was stopped, every segment stands
  at the start position, no segment stays claimed, and what each segment had reached before is what it will replay: an event is
  marked replayed exactly when the segment had got past it, also when an earlier replay or a merge had not
  finished. Tokens of other processors stay.
\<close>

theorem reset_replays_what_was_reached:
  assumes "run_reachable c st" "sizes_ok c" "0 \<le> p"
  shows "\<exists>res st'. resetTokens plain_batch_host c p reset st = Some (res, st') \<and>
    (case res of
       Inl err \<Rightarrow> (\<forall>q b. get_token q b (rp_tokens st') = get_token q b (rp_tokens st))
     | Inr _ \<Rightarrow> \<not> rp_isRunning st \<and>
         (\<forall>s \<in> set (fst (segmentsNow c st)). \<exists>t reached.
            reached = position (reachedBy (or_zero (get_token (rc_name c) (seg_id s) (rp_tokens st)))) \<and>
            get_token (rc_name c) (seg_id s) (rp_tokens st') = Some t \<and> position t = p \<and>
            (\<forall>q. replayed t q \<longleftrightarrow> p < reached \<and> q \<le> reached) \<and>
            entry_owner (rp_tokens st') (rc_name c, seg_id s) = None) \<and>
         (\<forall>q b. q \<noteq> rc_name c \<longrightarrow> get_token q b (rp_tokens st') = get_token q b (rp_tokens st)))"
proof -
  obtain segments st1 where s: "segmentsNow c st = (segments, st1)" by fastforce
  have wf: "wf_token t" if "get_token (rc_name c) i (rp_tokens st) = Some t" for i t
    using get_token_ok [OF run_reachable_ok [OF assms(1,2)] that] by blast
  let ?old = "\<lambda>i. get_token (rc_name c) i (rp_tokens st)"
  have target: "position (reset_target (GlobalSequenceToken p) (?old i)) = p"
    "replayed (reset_target (GlobalSequenceToken p) (?old i)) q \<longleftrightarrow> p < position (reachedBy (or_zero (?old i))) \<and> q \<le> position (reachedBy (or_zero (?old i)))"
    for i q using reset_target_replays [of "?old i" p] wf assms(3) by blast+
  from resetTokens_effect [OF s, of p reset] obtain res st' where r: "resetTokens plain_batch_host c p reset st = Some (res, st')"
    and e: "case res of
       Inl err \<Rightarrow> (\<forall>q b. get_token q b (rp_tokens st') = get_token q b (rp_tokens st))
     | Inr _ \<Rightarrow> \<not> rp_isRunning st \<and>
         (\<forall>q b. get_token q b (rp_tokens st') =
            (if q = rc_name c \<and> b \<in> seg_id ` set segments
             then Some (reset_target (GlobalSequenceToken p) (get_token q b (rp_tokens st))) else get_token q b (rp_tokens st))) \<and>
         (\<forall>b \<in> seg_id ` set segments. entry_owner (rp_tokens st') (rc_name c, b) = None)" by blast
  show ?thesis unfolding s fst_conv
    by (rule exI [of _ res], rule exI [of _ st'], rule conjI [OF r]) (use e target in \<open>cases res; simp\<close>)
qed

section \<open>Taking a segment for an operation\<close>

text \<open>The token a segment has once it is taken: what its worker had not written yet, if the claim is still held.\<close>

definition taken_token :: "'o run_config \<Rightarrow> nat \<Rightarrow> 'o running \<Rightarrow> tracking_token option" where
  "taken_token c i st =
     (case map_get (rp_workers st) i of
        Some wk \<Rightarrow> if wk_unwritten wk \<and> entry_owner (rp_tokens st) (rc_name c, i) = Some (rc_owner c) then Some (wk_token wk)
                   else get_token (rc_name c) i (rp_tokens st)
      | None \<Rightarrow> get_token (rc_name c) i (rp_tokens st))"

lemma write_row_row:
  assumes "write_row c i t st = (r, st')"
  shows "get_token q b (rp_tokens st') =
      (if q = rc_name c \<and> b = i \<and> entry_owner (rp_tokens st) (q, b) = Some (rc_owner c) then Some t else get_token q b (rp_tokens st))"
    "entry_owner (rp_tokens st') (q, b) = entry_owner (rp_tokens st) (q, b)"
  using assms
  by (auto simp: write_row_def write_token_def store_token_def entry_owner_def get_token_def Let_def split: prod.splits option.splits sum.splits if_splits)

lemma stop_worker_row:
  assumes "seg_id (wk_segment wk) = i" "wk_active wk"
  shows "get_token q b (rp_tokens (stop_worker c False wk st)) =
      (if q = rc_name c \<and> b = i \<and> wk_unwritten wk \<and> entry_owner (rp_tokens st) (q, b) = Some (rc_owner c) then Some (wk_token wk)
       else get_token q b (rp_tokens st))"
    "entry_owner (rp_tokens (stop_worker c False wk st)) (q, b) = entry_owner (rp_tokens st) (q, b)"
proof -
  let ?st1 = "case wk_stream wk of None \<Rightarrow> st | Some k \<Rightarrow> st\<lparr>rp_log := close_view k (rp_log st)\<rparr>"
  have w: "rp_world ?st1 = rp_world st" by (simp split: option.split)
  obtain r st2 where wr: "write_row c i (wk_token wk) ?st1 = (r, st2)" by fastforce
  have "stop_worker c False wk st = (if wk_unwritten wk then st2 else ?st1)"
    using assms wr by (simp add: stop_worker_def Let_def split: option.split)
  then show "get_token q b (rp_tokens (stop_worker c False wk st)) =
      (if q = rc_name c \<and> b = i \<and> wk_unwritten wk \<and> entry_owner (rp_tokens st) (q, b) = Some (rc_owner c) then Some (wk_token wk)
       else get_token q b (rp_tokens st))"
    "entry_owner (rp_tokens (stop_worker c False wk st)) (q, b) = entry_owner (rp_tokens st) (q, b)"
    using write_row_row [OF wr] w by auto
qed

lemma hold_row:
  assumes ok: "running_ok c st" and h: "holdForOperation c i st = Inr (held, st')"
  shows "get_token q b (rp_tokens st') = (if q = rc_name c \<and> b = i then taken_token c i st else get_token q b (rp_tokens st))"
    "b \<noteq> i \<Longrightarrow> taken_token c b st' = taken_token c b st" "rp_isRunning st' = rp_isRunning st"
proof -
  have "get_token q b (rp_tokens st') = (if q = rc_name c \<and> b = i then taken_token c i st else get_token q b (rp_tokens st)) \<and>
    (b \<noteq> i \<longrightarrow> taken_token c b st' = taken_token c b st) \<and> rp_isRunning st' = rp_isRunning st" for q b
  proof (cases "map_get (rp_workers st) i")
    case (Some wk)
    note wok = running_okD(3) [OF ok Some]
    note row = stop_worker_row [OF worker_okD(1,2) [OF wok], where c = c and st = "st\<lparr>rp_workers := map_delete i (rp_workers st)\<rparr>"]
    have st': "st' = stop_worker c False wk (st\<lparr>rp_workers := map_delete i (rp_workers st)\<rparr>)"
      using h Some by (simp add: holdForOperation_def)
    with take_out_ok(2,3) [OF ok Some, where release = False] have "rp_workers st' = map_delete i (rp_workers st)" "rp_isRunning st' = rp_isRunning st"
      by simp_all
    with st' row Some show ?thesis by (auto simp: taken_token_def split: option.split)
  next
    case None
    then obtain stored ts where cl: "claimToken (rp_now st) (rc_name c) i (rc_owner c) (rp_tokens st) = Inr (stored, ts)" "st' = with_tokens ts st"
      using h by (auto simp: holdForOperation_def split: sum.splits)
    with None claim_row [OF cl(1)] show ?thesis by (auto simp: with_tokens_def taken_token_def split: option.split)
  qed
  then show "get_token q b (rp_tokens st') = (if q = rc_name c \<and> b = i then taken_token c i st else get_token q b (rp_tokens st))"
    "b \<noteq> i \<Longrightarrow> taken_token c b st' = taken_token c b st" "rp_isRunning st' = rp_isRunning st" by blast+
qed

lemma resume_row:
  "get_token q b (rp_tokens (resume c s token st)) = get_token q b (rp_tokens st)" "rp_isRunning (resume c s token st) = rp_isRunning st"
  by (simp_all add: resume_def startWorker_def put_worker_def Let_def release_claims_row) (simp add: release_claims_def with_tokens_def)

text \<open>The worker that handles a segment from a token on.\<close>

definition works_from :: "'o running \<Rightarrow> segment \<Rightarrow> tracking_token \<Rightarrow> bool" where
  "works_from st s t \<longleftrightarrow> (\<exists>wk. map_get (rp_workers st) (seg_id s) = Some wk \<and> wk_segment wk = s \<and> wk_token wk = t \<and> wk_timer wk = Some PollImmediate)"

lemma resume_works: "rp_isRunning st \<Longrightarrow> works_from (resume c s token st) s (or_zero token)"
  by (simp add: resume_def startWorker_def put_worker_def works_from_def or_zero_def Let_def split: option.split)

lemma resume_works_other: "works_from st u t \<Longrightarrow> seg_id s \<noteq> seg_id u \<Longrightarrow> works_from (resume c s token st) u t"
  by (auto simp: resume_def startWorker_def put_worker_def works_from_def release_claims_def with_tokens_def Let_def)

section \<open>Split\<close>

lemma split_write:
  assumes "run_task plain_batch_host (rc_name c) (split_action c i second) w = Some (Inr token, w')" "second \<noteq> i"
  shows "token = get_token (rc_name c) i (pw_tokens w)"
    "get_token q b (pw_tokens w') = (if q = rc_name c \<and> b = second then Some (or_zero token) else get_token q b (pw_tokens w))"
    "entry_owner (pw_tokens w') (q, b) = (if q = rc_name c \<and> b = second then Some (rc_owner c) else entry_owner (pw_tokens w) (q, b))"
proof -
  let ?tok = "get_token (rc_name c) i (pw_tokens w)"
  obtain stored ts where cl: "claimToken (dw_now (pw_dlq w)) (rc_name c) second (rc_owner c) (pw_tokens w) = Inr (stored, ts)"
    and st: "store_tokens (rc_name c) (rc_owner c) [(second, or_zero ?tok)] (w\<lparr>pw_tokens := ts\<rparr>) = (None, w')" and t: "token = ?tok"
    using assms(1) unfolding split_task by (auto simp: Let_def split: if_splits sum.splits prod.splits option.splits)
  show "token = ?tok" by (rule t)
  have "entry_owner (pw_tokens (w\<lparr>pw_tokens := ts\<rparr>)) (rc_name c, second) = Some (rc_owner c)" using claim_row(2) [OF cl] by simp
  from write_owned [OF this, of "or_zero ?tok"] st claim_row(1,2) [OF cl] t
  show "get_token q b (pw_tokens w') = (if q = rc_name c \<and> b = second then Some (or_zero token) else get_token q b (pw_tokens w))"
    "entry_owner (pw_tokens w') (q, b) = (if q = rc_name c \<and> b = second then Some (rc_owner c) else entry_owner (pw_tokens w) (q, b))"
    by auto
qed

lemma second_id: "splitSegment s = (first, second) \<Longrightarrow> seg_id first = seg_id s \<and> seg_id s < seg_id second"
  by (auto simp: splitSegment_def Let_def)

lemma split_succeeded:
  assumes "processor_splitSegment plain_batch_host c i st = Some (Inr (), st')"
  obtains segments st1 s first second held st2 token w' where "segmentsNow c st = (segments, st1)" "s \<in> set segments" "seg_id s = i"
    "splitSegment s = (first, second)" "holdForOperation c i st1 = Inr (held, st2)"
    "run_task plain_batch_host (rc_name c) (split_action c i (seg_id second)) (rp_world st2) = Some (Inr token, w')"
    "st' = resume c second token (resume c first token (st2\<lparr>rp_world := w', rp_known := map_delete i (rp_known st2)\<rparr>))"
proof -
  obtain segments st1 where s: "segmentsNow c st = (segments, st1)" by fastforce
  obtain sg where f: "find (\<lambda>s. seg_id s = i) segments = Some sg" "pd_sequenceOf (rc_deps c) \<noteq> None"
    using assms s by (auto simp: processor_splitSegment_def split: if_splits option.splits)
  then have sg: "sg \<in> set segments" "seg_id sg = i" by (auto simp: find_Some_iff)
  obtain first second where sp: "splitSegment sg = (first, second)" by fastforce
  obtain held st2 where h: "holdForOperation c i st1 = Inr (held, st2)"
    using assms s f sp by (auto simp: processor_splitSegment_def split: sum.splits)
  obtain token w' where "run_task plain_batch_host (rc_name c) (split_action c i (seg_id second)) (rp_world st2) = Some (Inr token, w')"
    "st' = resume c second token (resume c first token (st2\<lparr>rp_world := w', rp_known := map_delete i (rp_known st2)\<rparr>))"
    using assms s f sp h by (auto simp: processor_splitSegment_def split: option.splits sum.splits)
  with s sg sp h show thesis by (rule that)
qed

text \<open>
  C16: A split that succeeds gives both halves the token the segment had when it was taken, including what its worker had moved
  past without writing it: the row of the first half keeps it, the row of the second half gets it, no other
  row changes, and on a running node both halves are handled from there on. So each event of the segment after the
  token is due in exactly one half.
\<close>

theorem split_hands_token_to_both_halves:
  assumes reach: "run_reachable c st" "sizes_ok c" and r: "processor_splitSegment plain_batch_host c i st = Some (Inr (), st')"
  shows "\<exists>s first second. s \<in> set (fst (segmentsNow c st)) \<and> seg_id s = i \<and> splitSegment s = (first, second) \<and>
    (\<forall>q b. get_token q b (rp_tokens st') =
       (if q = rc_name c \<and> b = seg_id second then Some (or_zero (taken_token c i (snd (segmentsNow c st))))
        else if q = rc_name c \<and> b = i then taken_token c i (snd (segmentsNow c st)) else get_token q b (rp_tokens st))) \<and>
    (rp_isRunning st \<longrightarrow>
       works_from st' first (or_zero (taken_token c i (snd (segmentsNow c st)))) \<and>
       works_from st' second (or_zero (taken_token c i (snd (segmentsNow c st)))))"
proof (rule split_succeeded [OF r])
  fix segments st1 sg first second held st2 token w'
  assume s: "segmentsNow c st = (segments, st1)" and sg: "sg \<in> set segments" "seg_id sg = i" and sp: "splitSegment sg = (first, second)"
    and h: "holdForOperation c i st1 = Inr (held, st2)"
    and tk: "run_task plain_batch_host (rc_name c) (split_action c i (seg_id second)) (rp_world st2) = Some (Inr token, w')"
    and st': "st' = resume c second token (resume c first token (st2\<lparr>rp_world := w', rp_known := map_delete i (rp_known st2)\<rparr>))"
  have ok1: "running_ok c st1" by (rule segmentsNow_ok(1) [OF run_reachable_ok [OF reach] s])
  have ids: "seg_id first = i" "seg_id second \<noteq> i" using second_id [OF sp] sg(2) by simp_all
  note hr = hold_row [OF ok1 h]
  note sw = split_write [OF tk ids(2)]
  have tok: "token = taken_token c i st1" using sw(1) hr(1) by simp
  have run: "rp_isRunning st2 = rp_isRunning st" using hr(3) segmentsNow_row(4) [OF s] by simp
  have "get_token q b (rp_tokens st') =
       (if q = rc_name c \<and> b = seg_id second then Some (or_zero (taken_token c i st1))
        else if q = rc_name c \<and> b = i then taken_token c i st1 else get_token q b (rp_tokens st))" for q b
    unfolding st' resume_row using sw(2) hr(1) tok segmentsNow_row(1) [OF s] by simp
  moreover have "works_from st' first (or_zero token) \<and> works_from st' second (or_zero token)" if "rp_isRunning st"
    unfolding st' using that run ids by (auto intro!: resume_works resume_works_other simp: resume_row)
  ultimately show ?thesis unfolding s fst_conv snd_conv using sg sp tok by blast
qed

text \<open>
  C34: Splitting a segment does not check that this node still has its claim. In every state a node can come to in which it
  runs a worker for a segment whose row another node has claimed in the meantime: if the split succeeds, the row of the
  segment, from now on that of the first half, still belongs to the other node, which was handling the whole segment; the
  row of the second half belongs to this node; and this node works both halves. So the events of the second half are
  handled by both nodes, each under a claim of its own.
\<close>

theorem split_ignores_lost_claim:
  assumes reach: "run_reachable c st" "sizes_ok c" and r: "processor_splitSegment plain_batch_host c i st = Some (Inr (), st')"
    and lost: "rp_isRunning st" "map_get (rp_workers st) i = Some wk"
      "entry_owner (rp_tokens st) (rc_name c, i) = Some other" "other \<noteq> rc_owner c"
  shows "\<exists>s first second t. s \<in> set (fst (segmentsNow c st)) \<and> seg_id s = i \<and> splitSegment s = (first, second) \<and>
    entry_owner (rp_tokens st') (rc_name c, i) = Some other \<and>
    entry_owner (rp_tokens st') (rc_name c, seg_id second) = Some (rc_owner c) \<and>
    works_from st' first t \<and> works_from st' second t"
proof (rule split_succeeded [OF r])
  fix segments st1 s first second held st2 token w'
  assume s: "segmentsNow c st = (segments, st1)" and sg: "s \<in> set segments" "seg_id s = i" and sp: "splitSegment s = (first, second)"
    and h: "holdForOperation c i st1 = Inr (held, st2)"
    and tk: "run_task plain_batch_host (rc_name c) (split_action c i (seg_id second)) (rp_world st2) = Some (Inr token, w')"
    and st': "st' = resume c second token (resume c first token (st2\<lparr>rp_world := w', rp_known := map_delete i (rp_known st2)\<rparr>))"
  have ok1: "running_ok c st1" by (rule segmentsNow_ok(1) [OF run_reachable_ok [OF reach] s])
  have ids: "seg_id first = i" "seg_id second \<noteq> i" using second_id [OF sp] sg(2) by simp_all
  have wk: "map_get (rp_workers st1) i = Some wk" using segmentsNow_owner(2) [OF s] lost(2) by simp
  then have st2: "st2 = stop_worker c False wk (st1\<lparr>rp_workers := map_delete i (rp_workers st1)\<rparr>)"
    using h by (simp add: holdForOperation_def)
  have "entry_owner (rp_tokens st2) (rc_name c, i) = entry_owner (rp_tokens (st1\<lparr>rp_workers := map_delete i (rp_workers st1)\<rparr>)) (rc_name c, i)"
    unfolding st2 by (rule stop_worker_row(2) [OF worker_okD(1,2) [OF running_okD(3) [OF ok1 wk]]])
  also have "\<dots> = Some other" using segmentsNow_owner(1) [OF s] lost(3) by simp
  finally have own: "entry_owner (pw_tokens w') (rc_name c, i) = Some other"
    "entry_owner (pw_tokens w') (rc_name c, seg_id second) = Some (rc_owner c)"
    using split_write(3) [OF tk ids(2)] ids(2) by simp_all
  have run: "rp_isRunning st2" using hold_row(3) [OF ok1 h] segmentsNow_row(4) [OF s] lost(1) by simp
  then have "rp_tokens st' = pw_tokens w'" unfolding st' by (simp add: resume_def startWorker_def put_worker_def Let_def)
  moreover have "works_from st' first (or_zero token) \<and> works_from st' second (or_zero token)"
    unfolding st' using run ids by (auto intro!: resume_works resume_works_other simp: resume_row)
  ultimately show ?thesis unfolding s fst_conv using own sg sp by auto
qed

section \<open>Merge\<close>

lemma half_of:
  assumes "wf_segment s" "seg_mask s \<noteq> 0"
  obtains parent a b where "wf_segment parent" "seg_mask parent < 2 ^ 30" "splitSegment parent = (a, b)" "s = a \<or> s = b"
proof -
  from assms(1) obtain k where k: "k \<le> 31" "seg_mask s = 2 ^ k - 1" "seg_id s < 2 ^ k" by (rule wf_segmentE)
  with assms(2) obtain l where l: "k = Suc l" by (cases k) auto
  let ?p = "\<lparr>seg_id = seg_id s mod 2 ^ l, seg_mask = 2 ^ l - 1\<rparr> :: segment"
  have sp: "splitSegment ?p = (\<lparr>seg_id = seg_id s mod 2 ^ l, seg_mask = 2 ^ Suc l - 1\<rparr>, \<lparr>seg_id = seg_id s mod 2 ^ l + 2 ^ l, seg_mask = 2 ^ Suc l - 1\<rparr>)"
    using splitSegment_shape [of ?p l] by simp
  have "wf_segment ?p" using k(1) l by (auto simp: wf_segment_def intro!: exI [of _ l])
  moreover have "(2::nat) ^ l \<le> 2 ^ 30" using k(1) l by (intro power_increasing) auto
  then have "seg_mask ?p < 2 ^ 30" by (simp add: less_imp_diff_less order.strict_trans2 [of "2 ^ l - 1" "2 ^ l"])
  moreover have "seg_id s = seg_id s mod 2 ^ l \<or> seg_id s = seg_id s mod 2 ^ l + 2 ^ l"
  proof (cases "seg_id s < 2 ^ l")
    case False
    then have "seg_id s mod 2 ^ l = seg_id s - 2 ^ l" using k(3) l by (simp add: mod_if)
    with False show ?thesis by simp
  qed simp
  then have "s = \<lparr>seg_id = seg_id s mod 2 ^ l, seg_mask = 2 ^ Suc l - 1\<rparr> \<or> s = \<lparr>seg_id = seg_id s mod 2 ^ l + 2 ^ l, seg_mask = 2 ^ Suc l - 1\<rparr>"
    using k(2) l by (cases s) auto
  ultimately show ?thesis using sp that by blast
qed

text \<open>The partner of a merge is the other half, and what is merged is the segment they were split from.\<close>

lemma merge_pair:
  assumes "wf_segment s" "seg_mask s \<noteq> 0" "int (seg_id partner) = mergeableSegmentId s" "seg_mask partner = seg_mask s"
  obtains parent a b where "wf_segment parent" "seg_mask parent < 2 ^ 30" "splitSegment parent = (a, b)"
    "(s = a \<and> partner = b) \<or> (s = b \<and> partner = a)"
    "parent = \<lparr>seg_id = min (seg_id s) (seg_id partner), seg_mask = nat (js_shr (int (seg_mask s)) 1)\<rparr>"
proof -
  from half_of [OF assms(1,2)] obtain parent a b where p: "wf_segment parent" "seg_mask parent < 2 ^ 30" "splitSegment parent = (a, b)" "s = a \<or> s = b"
    by blast
  have wa: "wf_segment a" by (rule split_wf(1) [OF p(1-3)])
  have same: "seg_mask a = seg_mask b" "seg_id a = seg_id parent" "seg_id a < seg_id b" using p(3) by (auto simp: splitSegment_def Let_def)
  note mh = mergeable_halves [OF wa p(3) p(1)]
  have pair: "(s = a \<and> partner = b) \<or> (s = b \<and> partner = a)"
    using p(4) mh(1,2) assms(3,4) same by (cases partner; cases a; cases b) auto
  then have "seg_mask s = seg_mask a" "min (seg_id s) (seg_id partner) = seg_id a" using same by auto
  then have "parent = \<lparr>seg_id = min (seg_id s) (seg_id partner), seg_mask = nat (js_shr (int (seg_mask s)) 1)\<rparr>"
    using mh(3) same(2) by (cases parent) simp
  with p pair that show ?thesis by blast
qed

lemma segments_wf: "s \<in> set (fst (segmentsNow c st)) \<Longrightarrow> wf_segment s"
  using walk_partition [OF wf_WHOLE, where h = 0] by (auto simp: segmentsNow_def segments_listed_def Let_def list_all_iff split: if_splits)

lemma merged_new_to:
  assumes "plain_token ta" "plain_token tb" "sa \<noteq> sb" "position (mergedToken mk (sa, ta) (sb, tb)) < q"
  shows "js_and h mk = int sa \<Longrightarrow> new_to (mergedToken mk (sa, ta) (sb, tb)) h q \<longleftrightarrow> position ta < q"
    "js_and h mk = int sb \<Longrightarrow> new_to (mergedToken mk (sa, ta) (sb, tb)) h q \<longleftrightarrow> position tb < q"
  using assms by (cases ta; cases tb; auto simp: mergedToken_def plain_samePosition split: if_splits)+

lemma merge_write:
  assumes "run_task plain_batch_host (rc_name c) (merge_action c s partner) w = Some (Inr t, w')" "rows_ok (pw_tokens w)"
    and ids: "seg_id s \<noteq> seg_id partner"
  defines "a \<equiv> or_zero (get_token (rc_name c) (seg_id s) (pw_tokens w))" and "b \<equiv> or_zero (get_token (rc_name c) (seg_id partner) (pw_tokens w))"
  shows "t = mergedToken (seg_mask s) (seg_id s, a) (seg_id partner, b)" "plain_token a" "plain_token b"
    "get_token (rc_name c) (min (seg_id s) (seg_id partner)) (pw_tokens w') = Some t"
    "getEntry (rc_name c) (max (seg_id s) (seg_id partner)) (pw_tokens w') = None"
proof -
  have plain: "plain_token (or_zero tok)" if "\<not> not_mergeable tok" "\<And>t. tok = Some t \<Longrightarrow> wf_token t" for tok
  proof (cases tok)
    case (Some t)
    with that show ?thesis by (cases t) (auto simp: not_mergeable_def or_zero_def)
  qed (simp add: or_zero_def)
  have m: "\<not> not_mergeable (get_token (rc_name c) (seg_id s) (pw_tokens w))" "\<not> not_mergeable (get_token (rc_name c) (seg_id partner) (pw_tokens w))"
    and sd: "store_and_drop (rc_name c) (min (seg_id s) (seg_id partner)) t (max (seg_id s) (seg_id partner)) (rc_owner c) w = (None, w')"
    and t: "t = mergedToken (seg_mask s) (seg_id s, a) (seg_id partner, b)"
    using assms(1) unfolding merge_task a_def b_def by (auto simp: Let_def split: if_splits prod.splits option.splits)
  show "t = mergedToken (seg_mask s) (seg_id s, a) (seg_id partner, b)" by (rule t)
  show "plain_token a" "plain_token b" using m plain assms(2) by (auto simp: a_def b_def rows_ok_def)
  have "min (seg_id s) (seg_id partner) \<noteq> max (seg_id s) (seg_id partner)" using ids by (simp add: min_def max_def)
  then show "get_token (rc_name c) (min (seg_id s) (seg_id partner)) (pw_tokens w') = Some t"
    "getEntry (rc_name c) (max (seg_id s) (seg_id partner)) (pw_tokens w') = None"
    using sd by (auto simp: store_and_drop_def write_token_def store_token_def get_token_def Let_def split: sum.splits option.splits if_splits)
qed

lemma resume_entry: "getEntry q b (rp_tokens st) = None \<Longrightarrow> getEntry q b (rp_tokens (resume c s token st)) = None"
  by (auto simp: resume_def startWorker_def put_worker_def Let_def release_claims_def with_tokens_def releaseClaim_def split: option.split)

text \<open>The two cases of which half the merge was asked for, with the tokens the halves had when they were taken.\<close>

lemma merge_effect:
  assumes ok: "running_ok c st1" and s: "sg \<in> set segs" "partner \<in> set segs" "sg \<noteq> partner" "seg_id sg \<noteq> seg_id partner"
    and h1: "holdForOperation c (seg_id sg) st1 = Inr (how1, st2)" and h2: "holdForOperation c (seg_id partner) st2 = Inr (how2, st3)"
    and tk: "run_task plain_batch_host (rc_name c) (merge_action c sg partner) (rp_world st3) = Some (Inr t, w')"
  defines "a \<equiv> or_zero (taken_token c (seg_id sg) st1)" and "b \<equiv> or_zero (taken_token c (seg_id partner) st1)"
  shows "t = mergedToken (seg_mask sg) (seg_id sg, a) (seg_id partner, b)" "plain_token a" "plain_token b"
    "get_token (rc_name c) (min (seg_id sg) (seg_id partner)) (pw_tokens w') = Some t"
    "getEntry (rc_name c) (max (seg_id sg) (seg_id partner)) (pw_tokens w') = None"
    "rp_isRunning st3 = rp_isRunning st1"
proof -
  have ok2: "running_ok c st2" by (rule hold_ok(1) [OF ok h1])
  have ok3: "running_ok c st3" by (rule hold_ok(1) [OF ok2 h2])
  note r1 = hold_row [OF ok h1] and r2 = hold_row [OF ok2 h2]
  have "get_token (rc_name c) (seg_id sg) (rp_tokens st3) = taken_token c (seg_id sg) st1"
    "get_token (rc_name c) (seg_id partner) (rp_tokens st3) = taken_token c (seg_id partner) st1"
    using s(4) r1 r2 by simp_all
  with merge_write [OF tk running_okD(5) [OF ok3] s(4)]
  show "t = mergedToken (seg_mask sg) (seg_id sg, a) (seg_id partner, b)" "plain_token a" "plain_token b"
    "get_token (rc_name c) (min (seg_id sg) (seg_id partner)) (pw_tokens w') = Some t"
    "getEntry (rc_name c) (max (seg_id sg) (seg_id partner)) (pw_tokens w') = None" by (simp_all add: a_def b_def)
  show "rp_isRunning st3 = rp_isRunning st1" using r1(3) r2(3) by simp
qed

text \<open>
  C7: A merge that succeeds puts back the segment the two halves were split from. The row of the first half keeps one token,
  the row of the second is gone, and on a running node the whole segment is handled from the lower of the two tokens on.
  Nothing is lost and nothing repeated: from that point on an event of either half is delivered exactly when that half had
  not got past it when it was taken.
\<close>

theorem merge_keeps_each_half_where_it_was:
  assumes reach: "run_reachable c st" "sizes_ok c" and r: "processor_mergeSegment plain_batch_host c i st = Some (Inr (), st')"
  shows "\<exists>parent first second t ta tb. {first, second} \<subseteq> set (fst (segmentsNow c st)) \<and> i \<in> {seg_id first, seg_id second} \<and>
    splitSegment parent = (first, second) \<and>
    ta = or_zero (taken_token c (seg_id first) (snd (segmentsNow c st))) \<and> tb = or_zero (taken_token c (seg_id second) (snd (segmentsNow c st))) \<and>
    get_token (rc_name c) (seg_id first) (rp_tokens st') = Some t \<and> getEntry (rc_name c) (seg_id second) (rp_tokens st') = None \<and>
    position t = min (position ta) (position tb) \<and>
    (\<forall>h q. position t < q \<longrightarrow> (inSegment first h \<longrightarrow> new_to t h q = (position ta < q)) \<and> (inSegment second h \<longrightarrow> new_to t h q = (position tb < q))) \<and>
    (rp_isRunning st \<longrightarrow> works_from st' parent t)"
proof -
  obtain segments st1 where s: "segmentsNow c st = (segments, st1)" by fastforce
  have ok1: "running_ok c st1" by (rule segmentsNow_ok(1) [OF run_reachable_ok [OF reach] s])
  obtain sg partner where f: "find (\<lambda>s. seg_id s = i) segments = Some sg" "seg_mask sg \<noteq> 0"
    "find (\<lambda>p. int (seg_id p) = mergeableSegmentId sg \<and> seg_mask p = seg_mask sg) segments = Some partner"
    using r s by (auto simp: processor_mergeSegment_def split: option.splits if_splits)
  have sg: "sg \<in> set segments" "seg_id sg = i" and pt: "partner \<in> set segments" "int (seg_id partner) = mergeableSegmentId sg" "seg_mask partner = seg_mask sg"
    using f(1,3) by (auto simp: find_Some_iff)
  have "wf_segment sg" using segments_wf [of sg c st] sg(1) s by simp
  from merge_pair [OF this f(2) pt(2,3)] obtain parent first second where p: "splitSegment parent = (first, second)"
    "(sg = first \<and> partner = second) \<or> (sg = second \<and> partner = first)"
    "parent = \<lparr>seg_id = min (seg_id sg) (seg_id partner), seg_mask = nat (js_shr (int (seg_mask sg)) 1)\<rparr>" by blast
  have ids: "seg_id first < seg_id second" "seg_mask first = seg_mask second" using p(1) by (auto simp: splitSegment_def Let_def)
  obtain how1 st2 where h1: "holdForOperation c (seg_id sg) st1 = Inr (how1, st2)"
    using r s f by (auto simp: processor_mergeSegment_def split: sum.splits)
  obtain how2 st3 where h2: "holdForOperation c (seg_id partner) st2 = Inr (how2, st3)"
    using r s f h1 by (auto simp: processor_mergeSegment_def split: sum.splits)
  obtain t w' where tk: "run_task plain_batch_host (rc_name c) (merge_action c sg partner) (rp_world st3) = Some (Inr t, w')"
    and st': "st' = resume c parent (Some t) (st3\<lparr>rp_world := w', rp_known := map_delete (min (seg_id sg) (seg_id partner))
       (map_delete (max (seg_id sg) (seg_id partner)) (rp_known st3))\<rparr>)"
    using r s f h1 h2 p(3) by (auto simp: processor_mergeSegment_def split: option.splits sum.splits)
  let ?a = "or_zero (taken_token c (seg_id sg) st1)" and ?b = "or_zero (taken_token c (seg_id partner) st1)"
  let ?ta = "or_zero (taken_token c (seg_id first) st1)" and ?tb = "or_zero (taken_token c (seg_id second) st1)"
  have ne: "sg \<noteq> partner" "seg_id sg \<noteq> seg_id partner" using p(2) ids by auto
  note e = merge_effect [OF ok1 sg(1) pt(1) ne h1 h2 tk]
  have pos: "position t = min (position ?a) (position ?b)" using position_mergedToken [of "(seg_id sg, ?a)" "(seg_id partner, ?b)"] e(1-3) by simp
  have mm: "min (seg_id sg) (seg_id partner) = seg_id first" "max (seg_id sg) (seg_id partner) = seg_id second" using p(2) ids by auto
  have new: "(inSegment sg h \<longrightarrow> new_to t h q = (position ?a < q)) \<and> (inSegment partner h \<longrightarrow> new_to t h q = (position ?b < q))"
    if "position t < q" for h q
    using merged_new_to [OF e(2,3) ne(2), of "seg_mask sg" q h] that e(1) f(2) pt(3) by (simp add: inSegment_def)
  have works: "works_from st' parent t" if "rp_isRunning st"
    unfolding st' using resume_works [of _ c parent "Some t"] that e(6) segmentsNow_row(4) [OF s] by (simp add: or_zero_def)
  have sym: "position t = min (position ?ta) (position ?tb)" "{first, second} \<subseteq> set segments" "i \<in> {seg_id first, seg_id second}"
    using p(2) pos sg pt(1) by auto
  have each: "\<forall>h q. position t < q \<longrightarrow> (inSegment first h \<longrightarrow> new_to t h q = (position ?ta < q)) \<and> (inSegment second h \<longrightarrow> new_to t h q = (position ?tb < q))"
    using p(2) new by blast
  have rows: "get_token (rc_name c) (seg_id first) (rp_tokens st') = Some t" "getEntry (rc_name c) (seg_id second) (rp_tokens st') = None"
    unfolding st' using e(4,5) mm by (simp_all add: resume_row resume_entry)
  show ?thesis unfolding s fst_conv snd_conv
    by (intro exI [of _ parent] exI [of _ first] exI [of _ second] exI [of _ t] exI [of _ ?ta] exI [of _ ?tb] conjI impI sym each rows works p(1) refl)
qed

section \<open>Examples\<close>

definition handled_one :: "sequence_fn option \<Rightarrow> int list running" where
  "handled_one sequenceOf = poll_order ''a'' sequenceOf 0 (orders_started ''a'' sequenceOf [placed_at 0])"

lemma handled_one_reachable: "run_reachable (order_run ''a'' sequenceOf) (handled_one sequenceOf)"
  unfolding handled_one_def by (rule rr_step [OF orders_reachable rs_poll [OF poll_order_returns]])

definition stopped_one :: "int list running" where
  "stopped_one = stop (order_run ''a'' None) (handled_one None)"

theorem reset_replays_what_was_reached_witness:
  "\<exists>st' t. resetTokens plain_batch_host (order_run ''a'' None) 0 None stopped_one = Some (Inr (), st') \<and>
     get_token (rc_name (order_run ''a'' None)) 0 (rp_tokens st') = Some t \<and> position t = 0 \<and> replayed t 1 \<and> \<not> replayed t 2"
proof -
  have reach: "run_reachable (order_run ''a'' None) stopped_one"
    unfolding stopped_one_def by (rule rr_step [OF handled_one_reachable rs_stop])
  have res: "map_option fst (resetTokens plain_batch_host (order_run ''a'' None) 0 None stopped_one) = Some (Inr ())" by code_simp
  have segs: "fst (segmentsNow (order_run ''a'' None) stopped_one) = [\<lparr>seg_id = 0, seg_mask = 0\<rparr>]" by code_simp
  have at: "position (reachedBy (or_zero (get_token (rc_name (order_run ''a'' None)) 0 (rp_tokens stopped_one)))) = 1" by code_simp
  from res obtain st' where r: "resetTokens plain_batch_host (order_run ''a'' None) 0 None stopped_one = Some (Inr (), st')" by auto
  from reset_replays_what_was_reached [OF reach order_sizes, of 0 None] r segs at show ?thesis by auto
qed

definition split_one :: "int list running" where
  "split_one = snd (the (processor_splitSegment plain_batch_host (order_run ''a'' (Some by_parity)) 0 (handled_one (Some by_parity))))"

lemma split_one_result:
  "processor_splitSegment plain_batch_host (order_run ''a'' (Some by_parity)) 0 (handled_one (Some by_parity)) = Some (Inr (), split_one)"
proof -
  have "map_option fst (processor_splitSegment plain_batch_host (order_run ''a'' (Some by_parity)) 0 (handled_one (Some by_parity))) = Some (Inr ())"
    by code_simp
  then show ?thesis by (auto simp: split_one_def)
qed

theorem split_hands_token_to_both_halves_witness:
  "\<exists>t. get_token (rc_name (order_run ''a'' (Some by_parity))) 0 (rp_tokens split_one) = Some t \<and>
     works_from split_one \<lparr>seg_id = 0, seg_mask = 1\<rparr> t \<and> works_from split_one \<lparr>seg_id = 1, seg_mask = 1\<rparr> t \<and> position t = 1"
proof -
  let ?c = "order_run ''a'' (Some by_parity)" and ?st = "handled_one (Some by_parity)"
  have run: "rp_isRunning ?st" by code_simp
  have tok: "taken_token ?c 0 (snd (segmentsNow ?c ?st)) = Some (GlobalSequenceToken 1)" by code_simp
  have segs: "fst (segmentsNow ?c ?st) = [\<lparr>seg_id = 0, seg_mask = 0\<rparr>]" by code_simp
  have sp: "splitSegment \<lparr>seg_id = 0, seg_mask = 0\<rparr> = (\<lparr>seg_id = 0, seg_mask = 1\<rparr>, \<lparr>seg_id = 1, seg_mask = 1\<rparr>)" by code_simp
  from split_hands_token_to_both_halves [OF handled_one_reachable order_sizes split_one_result] run tok segs sp
  show ?thesis by (auto simp: or_zero_def)
qed

text \<open>Node \<open>a\<close> runs the segment, its claim lapses, node \<open>b\<close> claims the row, and \<open>a\<close> splits.\<close>

definition claimed_by_b :: "int list running" where
  "claimed_by_b = with_tokens (token_step (29, OpClaim ''orders'' 0 ''b'') (rp_tokens lapsed_a)) lapsed_a"

definition split_without_claim :: "int list running" where
  "split_without_claim = snd (the (processor_splitSegment plain_batch_host (order_run ''a'' (Some by_parity)) 0 claimed_by_b))"

theorem split_ignores_lost_claim_witness:
  "entry_owner (rp_tokens split_without_claim) (rc_name (order_run ''a'' (Some by_parity)), 0) = Some ''b'' \<and>
   entry_owner (rp_tokens split_without_claim) (rc_name (order_run ''a'' (Some by_parity)), 1) = Some ''a'' \<and>
   (\<exists>t. works_from split_without_claim \<lparr>seg_id = 0, seg_mask = 1\<rparr> t \<and> works_from split_without_claim \<lparr>seg_id = 1, seg_mask = 1\<rparr> t)"
proof -
  let ?c = "order_run ''a'' (Some by_parity)"
  have "run_reachable ?c lapsed_a"
    unfolding lapsed_a_def Let_def by (rule rr_step [OF orders_reachable rs_outside]) simp
  then have reach: "run_reachable ?c claimed_by_b" unfolding claimed_by_b_def by (rule rr_step) (rule rs_other_node, simp)
  have "map_option fst (processor_splitSegment plain_batch_host ?c 0 claimed_by_b) = Some (Inr ())" by code_simp
  then have r: "processor_splitSegment plain_batch_host ?c 0 claimed_by_b = Some (Inr (), split_without_claim)"
    by (auto simp: split_without_claim_def)
  have "rp_isRunning claimed_by_b" "map_get (rp_workers claimed_by_b) 0 \<noteq> None"
    "entry_owner (rp_tokens claimed_by_b) (rc_name ?c, 0) = Some ''b''" "''b'' \<noteq> rc_owner ?c" by code_simp+
  then obtain wk where lost: "rp_isRunning claimed_by_b" "map_get (rp_workers claimed_by_b) 0 = Some wk"
    "entry_owner (rp_tokens claimed_by_b) (rc_name ?c, 0) = Some ''b''" "''b'' \<noteq> rc_owner ?c" by blast
  have segs: "fst (segmentsNow ?c claimed_by_b) = [\<lparr>seg_id = 0, seg_mask = 0\<rparr>]" by code_simp
  have sp: "splitSegment \<lparr>seg_id = 0, seg_mask = 0\<rparr> = (\<lparr>seg_id = 0, seg_mask = 1\<rparr>, \<lparr>seg_id = 1, seg_mask = 1\<rparr>)" by code_simp
  have "rc_owner ?c = ''a''" by code_simp
  with split_ignores_lost_claim [OF reach order_sizes r lost] segs sp show ?thesis by auto
qed

definition merged_one :: "int list running" where
  "merged_one = snd (the (processor_mergeSegment plain_batch_host (order_run ''a'' (Some by_parity)) 1 split_one))"

theorem merge_keeps_each_half_where_it_was_witness:
  "\<exists>parent first second t. splitSegment parent = (first, second) \<and> get_token (rc_name (order_run ''a'' (Some by_parity))) (seg_id first) (rp_tokens merged_one) = Some t \<and>
     getEntry (rc_name (order_run ''a'' (Some by_parity))) (seg_id second) (rp_tokens merged_one) = None \<and> works_from merged_one parent t"
proof -
  let ?c = "order_run ''a'' (Some by_parity)"
  have reach: "run_reachable ?c split_one" by (rule rr_step [OF handled_one_reachable rs_split [OF split_one_result]])
  have "map_option fst (processor_mergeSegment plain_batch_host ?c 1 split_one) = Some (Inr ())" by code_simp
  then have m: "processor_mergeSegment plain_batch_host ?c 1 split_one = Some (Inr (), merged_one)" by (auto simp: merged_one_def)
  have run: "rp_isRunning split_one" by code_simp
  from merge_keeps_each_half_where_it_was [OF reach order_sizes m] run show ?thesis by blast
qed

end
