(* ===== verification/Upcasting.thy ===== *)
theory Upcasting
  imports State_Query Event_Store
begin

text \<open>
  The upcasting event store (\<open>upcasting/upcasting-event-store.ts\<close>) over the in-memory store. The upcaster and the
  stored type names are the application's functions. Every member that is not here is the wrapped store's own,
  so the log is never rewritten.

  The theory shows that a stream opened through the wrapper misses no event whose upcast form the reader asked for,
  and that a sourced read, which passes its query on as it is, does.
\<close>

section \<open>The wrapper\<close>

type_synonym upcaster = "event_message \<Rightarrow> event_message"

definition stored_item :: "(string \<Rightarrow> string list) option \<Rightarrow> query_item \<Rightarrow> query_item" where
  "stored_item storedTypes it =
     (case qi_types it of
        None \<Rightarrow> it
      | Some tys \<Rightarrow>
          if tys = [] then it
          else (case storedTypes of
                  None \<Rightarrow> it\<lparr>qi_types := None\<rparr>
                | Some f \<Rightarrow> it\<lparr>qi_types := Some (map TypeName (js_set (concat (map (f \<circ> resolveTypeName) tys))))\<rparr>))"

definition storedQuery :: "(string \<Rightarrow> string list) option \<Rightarrow> event_query \<Rightarrow> query_error + event_query" where
  "storedQuery storedTypes q =
     (case queryItems q of
        Inl e \<Rightarrow> Inl e
      | Inr its \<Rightarrow>
          (let items = map (stored_item storedTypes) its
           in Inr (if length items = 1 then QItem (hd items) else QArray (map QItem items))))"

definition upcasting_source :: "upcaster \<Rightarrow> event_store \<Rightarrow> sourcing_condition \<Rightarrow> store_error + sourcing_result" where
  "upcasting_source upcast s c =
     (case source s c of Inl e \<Rightarrow> Inl e | Inr r \<Rightarrow> Inr (r\<lparr>sr_events := map upcast (sr_events r)\<rparr>))"

definition upcasting_open ::
  "(string \<Rightarrow> string list) option \<Rightarrow> event_store \<Rightarrow> streaming_condition \<Rightarrow> store_error + (nat \<times> event_store)" where
  "upcasting_open storedTypes s c =
     (case str_query c of
        None \<Rightarrow> open_stream s c
      | Some q \<Rightarrow>
          (case storedQuery storedTypes q of
             Inl e \<Rightarrow> Inl (QueryRefused e)
           | Inr q' \<Rightarrow> open_stream s (c\<lparr>str_query := Some q'\<rparr>)))"

definition lift_event :: "upcaster \<Rightarrow> sequenced_event \<Rightarrow> sequenced_event" where
  "lift_event upcast e = e\<lparr>sq_event := upcast (sq_event e)\<rparr>"

definition upcasting_next :: "upcaster \<Rightarrow> nat \<Rightarrow> event_store \<Rightarrow> sequenced_event option \<times> event_store" where
  "upcasting_next upcast i s = (case stream_next i s of (ev, s') \<Rightarrow> (map_option (lift_event upcast) ev, s'))"

definition upcasting_peek :: "upcaster \<Rightarrow> nat \<Rightarrow> event_store \<Rightarrow> sequenced_event option" where
  "upcasting_peek upcast i s = map_option (lift_event upcast) (stream_peek i s)"

text \<open>A reader that takes what there is, at most \<open>n\<close> events.\<close>

fun upcasting_drain :: "nat \<Rightarrow> upcaster \<Rightarrow> nat \<Rightarrow> event_store \<Rightarrow> sequenced_event list \<times> event_store" where
  "upcasting_drain 0 upcast i s = ([], s)"
| "upcasting_drain (Suc n) upcast i s =
     (case upcasting_next upcast i s of
        (None, s') \<Rightarrow> ([], s')
      | (Some e, s') \<Rightarrow> (case upcasting_drain n upcast i s' of (es, s'') \<Rightarrow> (e # es, s'')))"

section \<open>What the stored query asks for\<close>

text \<open>
  What the wrapper relies on: the upcaster leaves tags alone, and the stored names of a type include the name of every event that
  becomes one of that type.
\<close>

definition keeps_tags :: "upcaster \<Rightarrow> bool" where
  "keeps_tags upcast \<longleftrightarrow> (\<forall>e. em_tags (upcast e) = em_tags e)"

definition names_stored :: "upcaster \<Rightarrow> (string \<Rightarrow> string list) option \<Rightarrow> bool" where
  "names_stored upcast storedTypes \<longleftrightarrow>
     (case storedTypes of None \<Rightarrow> True | Some f \<Rightarrow> \<forall>e. event_type e \<in> set (f (event_type (upcast e))))"

lemma stored_item_matches:
  assumes "keeps_tags upcast" "names_stored upcast storedTypes" "item_matches it (upcast e)"
  shows "item_matches (stored_item storedTypes it) e"
proof -
  have tags: "em_tags (upcast e) = em_tags e" using assms(1) by (simp add: keeps_tags_def)
  show ?thesis
  proof (cases storedTypes)
    case None
    then show ?thesis using assms(3) tags by (auto simp: item_matches_def stored_item_def split: option.splits)
  next
    case (Some f)
    then have "event_type e \<in> set (f (event_type (upcast e)))" using assms(2) by (simp add: names_stored_def)
    then show ?thesis using assms(3) tags Some
      by (auto simp: item_matches_def stored_item_def image_iff split: option.splits)
  qed
qed

lemma storedQuery_items:
  assumes "storedQuery storedTypes q = Inr q'"
  shows "\<exists>its. queryItems q = Inr its \<and> queryItems q' = Inr (map (stored_item storedTypes) its)"
proof -
  obtain its where its: "queryItems q = Inr its" using assms by (auto simp: storedQuery_def split: sum.splits)
  have ne: "its \<noteq> []" by (rule queryItems_nonempty [OF its])
  have "q' = (if length its = 1 then QItem (hd (map (stored_item storedTypes) its)) else QArray (map QItem (map (stored_item storedTypes) its)))"
    using assms its by (simp add: storedQuery_def Let_def)
  then have "queryItems q' = Inr (map (stored_item storedTypes) its)"
  proof (cases "length its = 1")
    case True
    then obtain it where "its = [it]" by (cases its) auto
    with \<open>q' = _\<close> show ?thesis by simp
  next
    case False
    then have "q' = QArray (map QItem (map (stored_item storedTypes) its))" using \<open>q' = _\<close> by simp
    then show ?thesis using queryItems_array [of "map (stored_item storedTypes) its"] ne by simp
  qed
  with its show ?thesis by blast
qed

lemma storedQuery_matches:
  assumes "keeps_tags upcast" "names_stored upcast storedTypes" "storedQuery storedTypes q = Inr q'" "query_matches q (upcast e)"
  shows "query_matches q' e"
  using storedQuery_items [OF assms(3)] assms(4) stored_item_matches [OF assms(1,2)] by (fastforce simp: query_matches_def)

lemma upcasting_drain_lifts: "upcasting_drain n upcast i s = (map (lift_event upcast) (fst (drain n i s)), snd (drain n i s))"
  by (induction n upcast i s rule: upcasting_drain.induct) (auto simp: upcasting_next_def split: prod.splits option.splits)

lemma open_stream_state:
  assumes "open_stream s c = Inr (i, s')"
  obtains st where "map_get (es_streams s') i = Some st" "ms_cursor st = str_position c" "\<not> ms_closed st" "es_events s' = es_events s"
    "es_nextPosition s' = es_nextPosition s"
    "\<And>e. (case ms_criteria st of None \<Rightarrow> True | Some cr \<Rightarrow> matchesCriteria e cr) \<longleftrightarrow> (case str_query c of None \<Rightarrow> True | Some q \<Rightarrow> query_matches q e)"
  using assms by (auto simp: open_stream_def throw_simps Let_def compile_correct split: option.splits sum.splits)

section \<open>Properties\<close>

text \<open>
  C21: A reader of a stream opened through the upcasting store gets, among whatever else it gets, every event of the log from its
  start on whose upcast form is what it asked for, upcast, in order and once each. This needs an upcaster that leaves tags alone and, if
  stored names are given, that they name every event that becomes one of the type; without stored names it needs nothing of types.
\<close>

theorem upcast_stream_misses_nothing:
  assumes "wf_store s" "keeps_tags upcast" "names_stored upcast storedTypes"
    and op: "upcasting_open storedTypes s \<lparr>str_position = p, str_query = Some q\<rparr> = Inr (i, s')" and "length (es_events s) \<le> n"
  shows "filter (\<lambda>e. query_matches q (sq_event e)) (fst (upcasting_drain n upcast i s')) =
    map (lift_event upcast \<circ> sequenced) (filter (\<lambda>en. p \<le> se_position en \<and> query_matches q (upcast (se_event en))) (es_events s))"
proof -
  obtain q' where q': "storedQuery storedTypes q = Inr q'" "open_stream s \<lparr>str_position = p, str_query = Some q'\<rparr> = Inr (i, s')"
    using op by (auto simp: upcasting_open_def split: sum.splits)
  from open_stream_state [OF q'(2)] obtain st where st: "map_get (es_streams s') i = Some st" "ms_cursor st = p" "\<not> ms_closed st"
    "es_events s' = es_events s" "es_nextPosition s' = es_nextPosition s"
    "\<And>e. (case ms_criteria st of None \<Rightarrow> True | Some cr \<Rightarrow> matchesCriteria e cr) \<longleftrightarrow> query_matches q' e" by auto
  have wf: "wf_store s'" using assms(1) st(4,5) by (simp add: wf_store_def)
  have "length (filter (stream_accepts st) (es_events s')) \<le> n"
    using order_trans [OF length_filter_le assms(5)] st(4) by simp
  then have "fst (drain n i s') = map sequenced (filter (stream_accepts st) (es_events s))"
    using drain_stream [OF wf st(1,3), of n] st(4) by simp
  then have "filter (\<lambda>e. query_matches q (sq_event e)) (fst (upcasting_drain n upcast i s')) =
      map (lift_event upcast \<circ> sequenced) (filter (\<lambda>en. stream_accepts st en \<and> query_matches q (upcast (se_event en))) (es_events s))"
    by (simp add: upcasting_drain_lifts filter_map o_def lift_event_def sequenced_def conj_commute)
  moreover have "stream_accepts st en \<and> query_matches q (upcast (se_event en)) \<longleftrightarrow> p \<le> se_position en \<and> query_matches q (upcast (se_event en))" for en
    using storedQuery_matches [OF assms(2,3) q'(1)] st(2,6) by (auto simp: stream_accepts_def)
  ultimately show ?thesis by simp
qed

text \<open>An event type that was renamed, and the names it is stored under.\<close>

definition renamed :: upcaster where
  "renamed e = (if event_type e = ''shop.Ordered'' then e\<lparr>em_name := qn ''shop'' ''Placed''\<rparr> else e)"

definition renamed_names :: "string \<Rightarrow> string list" where
  "renamed_names t = (if t = ''shop.Placed'' then [t, ''shop.Ordered''] else if t = ''shop.Ordered'' then [] else [t])"

definition old_order :: event_message where
  "old_order = tagged_event ''shop'' ''Ordered'' ''order'' ''1''"

definition old_log :: event_store where
  "old_log = push_events inMemoryEventStore [old_order]"

lemma renamed_ok: "keeps_tags renamed" "names_stored renamed (Some renamed_names)"
  by (auto simp: keeps_tags_def renamed_def names_stored_def renamed_names_def qn_def qualifiedNameToString_def)

theorem upcast_stream_misses_nothing_witness:
  "\<exists>i s'. upcasting_open (Some renamed_names) old_log \<lparr>str_position = 0, str_query = Some order_query\<rparr> = Inr (i, s') \<and>
     filter (\<lambda>e. query_matches order_query (sq_event e)) (fst (upcasting_drain 1 renamed i s')) =
       [\<lparr>sq_sequence = 0, sq_event = renamed old_order, sq_token = None\<rparr>]"
proof -
  have wf: "wf_store old_log" unfolding old_log_def by (rule wf_push [OF wf_store_init])
  have ev: "es_events old_log = [\<lparr>se_position = 0, se_event = old_order\<rparr>]" by (simp add: old_log_def inMemoryEventStore_def)
  have m: "query_matches order_query (renamed old_order)"
    by (simp add: query_matches_def order_query_def tag_query_def item_matches_def renamed_def old_order_def tagged_event_def qn_def qualifiedNameToString_def)
  obtain i s' where op: "upcasting_open (Some renamed_names) old_log \<lparr>str_position = 0, str_query = Some order_query\<rparr> = Inr (i, s')"
    by (simp add: upcasting_open_def storedQuery_def order_query_def tag_query_def stored_item_def open_stream_def compileQuery_def compileItem_def
        tagsFromRecord_def mk_tag_def Let_def throw_simps js_set_def renamed_names_def)
  have "length (es_events old_log) \<le> 1" by (simp add: ev)
  from upcast_stream_misses_nothing [OF wf renamed_ok op this] op show ?thesis by (simp add: ev m lift_event_def sequenced_def)
qed

lemma upcasting_source_exact:
  assumes "wf_store s" "valid_query q"
  shows "upcasting_source upcast s (sourcingCondition q None None) =
    Inr \<lparr>sr_events = map upcast (filter (query_matches q) (map se_event (es_events s))), sr_marker = markerAt (store_head s), sr_snapshot = None\<rparr>"
  using assms source_full [OF assms(1)] by (auto simp: upcasting_source_def store_entries_def filter_map o_def)

text \<open>Two filters of a list agree exactly if the stronger condition follows from the weaker on its elements.\<close>

lemma filter_conj_eq_iff: "map f (filter (\<lambda>x. P x \<and> Q x) xs) = map f (filter Q xs) \<longleftrightarrow> (\<forall>x \<in> set xs. Q x \<longrightarrow> P x)"
proof
  assume "map f (filter (\<lambda>x. P x \<and> Q x) xs) = map f (filter Q xs)"
  from arg_cong [OF this, of length] have "length (filter P (filter Q xs)) = length (filter Q xs)" by (simp add: conj_commute)
  then have "\<not> (\<exists>x \<in> set (filter Q xs). \<not> P x)" using length_filter_less [of _ "filter Q xs" P] by fastforce
  then show "\<forall>x \<in> set xs. Q x \<longrightarrow> P x" by auto
next
  assume "\<forall>x \<in> set xs. Q x \<longrightarrow> P x"
  then show "map f (filter (\<lambda>x. P x \<and> Q x) xs) = map f (filter Q xs)" by (intro arg_cong [of _ _ "map f"] filter_cong) auto
qed

text \<open>
  C37: A sourced read through the upcasting store does miss renamed events. Its query is passed on with the names the reader
  knows, so of the events whose upcast form was asked for it returns those whose stored form matches the query as well, and no
  others. It returns all that was asked for exactly if no event of the log matches in its upcast form only. A stream opened with
  the same query misses none, as shown above.
\<close>

theorem upcast_load_misses_renamed_event:
  assumes "wf_store s" "valid_query q"
  shows "\<exists>r. upcasting_source upcast s (sourcingCondition q None None) = Inr r \<and>
    filter (query_matches q) (sr_events r) =
      map upcast (filter (\<lambda>e. query_matches q e \<and> query_matches q (upcast e)) (map se_event (es_events s))) \<and>
    (filter (query_matches q) (sr_events r) = map upcast (filter (\<lambda>e. query_matches q (upcast e)) (map se_event (es_events s))) \<longleftrightarrow>
       (\<forall>e \<in> set (map se_event (es_events s)). query_matches q (upcast e) \<longrightarrow> query_matches q e))"
proof -
  have "filter (query_matches q) (map upcast (filter (query_matches q) es)) =
      map upcast (filter (\<lambda>e. query_matches q e \<and> query_matches q (upcast e)) es)" for es
    by (simp add: filter_map o_def conj_commute)
  then show ?thesis
    using upcasting_source_exact [OF assms, of upcast]
      filter_conj_eq_iff [of upcast "query_matches q" "\<lambda>e. query_matches q (upcast e)" "map se_event (es_events s)"] by simp
qed

theorem upcast_load_misses_renamed_event_witness:
  "\<exists>r. upcasting_source renamed old_log (sourcingCondition order_query None None) = Inr r \<and>
     query_matches order_query (renamed old_order) \<and> old_order \<in> set (map se_event (es_events old_log)) \<and>
     filter (query_matches order_query) (sr_events r) \<noteq>
       map renamed (filter (\<lambda>e. query_matches order_query (renamed e)) (map se_event (es_events old_log)))"
proof -
  have wf: "wf_store old_log" unfolding old_log_def by (rule wf_push [OF wf_store_init])
  have vq: "valid_query order_query" by (simp add: compile_order_query)
  have ev: "es_events old_log = [\<lparr>se_position = 0, se_event = old_order\<rparr>]" by (simp add: old_log_def inMemoryEventStore_def)
  have m: "query_matches order_query (renamed old_order)" "\<not> query_matches order_query old_order"
    by (simp_all add: query_matches_def order_query_def tag_query_def item_matches_def renamed_def old_order_def tagged_event_def qn_def qualifiedNameToString_def)
  from upcast_load_misses_renamed_event [OF wf vq, of renamed] m ev show ?thesis by auto
qed

end
