(* ===== verification/Scheduling.thy ===== *)
theory Scheduling
  imports Unit_Of_Work
begin

text \<open>
  Scheduled events: the in-memory tier (\<open>event-scheduling/in-memory-scheduling-event-store.ts\<close>) and the verbs of a context
  (\<open>event-scheduling/schedule.ts\<close>).

  The records of the tier, the log it fires into, the clock and the identifiers the \<open>uuid\<close> package will hand out are one
  world. The callbacks the tier registers on a unit of work are the values \<open>ArmIfPending\<close>, \<open>DropIfPending\<close> and
  \<open>RestoreIfCancelled\<close>. A timer is the pair of when it was set and when it is due; \<open>setTimeout\<close> takes a delay from one millisecond to
  \<open>TIMEOUT_MAX\<close> and anything else as one millisecond. \<open>sw_fired\<close> is history: which schedule fired, with its event, the time asked for,
  when its timer was set and when it fired.
\<close>

section \<open>State\<close>

datatype record_status = StPending | StAppended | StCancelled

record sched_timer =
  tm_setAt :: int
  tm_due :: int

record schedule_record =
  sd_status :: record_status
  sd_event :: event_message
  sd_fireAt :: int
  sd_timer :: "sched_timer option"

datatype cancel_result = CrCancelled | CrAlreadyAppended | CrNotFound

datatype sched_error =
    SchedRefused uow_error
  | NotCapable string
  | InvalidDate
  | InvalidDelay
  | SchedTagFailed js_error
  | BodyThrew js_error

record fired =
  fi_id :: string
  fi_event :: event_message
  fi_fireAt :: int
  fi_setAt :: int
  fi_at :: int

record sched_world =
  sw_records :: "(string, schedule_record) jsmap"
  sw_log :: event_store
  sw_now :: int
  sw_ids :: "nat \<Rightarrow> string"
  sw_nextId :: nat
  sw_fired :: "fired list"

datatype sched_action = ArmIfPending string

datatype sched_handler = DropIfPending string | RestoreIfCancelled string

type_synonym sched_uow = "(sched_action, sched_handler, sched_world) uow"

definition inMemorySchedulingEventStore :: "event_store \<Rightarrow> int \<Rightarrow> (nat \<Rightarrow> string) \<Rightarrow> sched_world" where
  "inMemorySchedulingEventStore next now ids =
     \<lparr>sw_records = [], sw_log = next, sw_now = now, sw_ids = ids, sw_nextId = 0, sw_fired = []\<rparr>"

definition sched_identifier :: "sched_world \<Rightarrow> string \<times> sched_world" where
  "sched_identifier w = (sw_ids w (sw_nextId w), w\<lparr>sw_nextId := Suc (sw_nextId w)\<rparr>)"

section \<open>Timers\<close>

definition TIMEOUT_MAX :: int where
  "TIMEOUT_MAX = 2147483647"

definition timeout_delay :: "int \<Rightarrow> int" where
  "timeout_delay d = (if 1 \<le> d \<and> d \<le> TIMEOUT_MAX then d else 1)"

definition put_record :: "string \<Rightarrow> schedule_record \<Rightarrow> sched_world \<Rightarrow> sched_world" where
  "put_record i r w = w\<lparr>sw_records := map_set i r (sw_records w)\<rparr>"

definition armTimer :: "string \<Rightarrow> schedule_record \<Rightarrow> sched_world \<Rightarrow> sched_world" where
  "armTimer i r w =
     put_record i (r\<lparr>sd_timer := Some \<lparr>tm_setAt = sw_now w, tm_due = sw_now w + timeout_delay (max 0 (sd_fireAt r - sw_now w))\<rparr>\<rparr>) w"

text \<open>The callback of a timer that was set at \<open>set_at\<close>.\<close>

definition timer_fires :: "string \<Rightarrow> int \<Rightarrow> sched_world \<Rightarrow> sched_world" where
  "timer_fires i set_at w =
     (case map_get (sw_records w) i of
        None \<Rightarrow> w
      | Some r \<Rightarrow>
          if sd_status r \<noteq> StPending then w
          else (let w1 = (put_record i (r\<lparr>sd_status := StAppended, sd_timer := None\<rparr>) w)
                      \<lparr>sw_fired := sw_fired w @ [\<lparr>fi_id = i, fi_event = sd_event r, fi_fireAt = sd_fireAt r, fi_setAt = set_at, fi_at = sw_now w\<rparr>]\<rparr>
                in case append (sw_log w) [sd_event r] None of
                     Inl _ \<Rightarrow> w1
                   | Inr (_, s) \<Rightarrow> w1\<lparr>sw_log := s\<rparr>))"

section \<open>The tier\<close>

definition schedule_in :: "event_message \<Rightarrow> int \<Rightarrow> sched_uow \<Rightarrow> (sched_error + string) \<times> sched_uow" where
  "schedule_in e fire_at u =
     (case requireInvocation u of
        Inl err \<Rightarrow> (Inl (SchedRefused err), u)
      | Inr _ \<Rightarrow>
          (case sched_identifier (uw_world u) of
             (i, w) \<Rightarrow>
               (Inr i, onError (DropIfPending i) (onAfterCommit (ArmIfPending i)
                  (u\<lparr>uw_world := put_record i \<lparr>sd_status = StPending, sd_event = e, sd_fireAt = fire_at, sd_timer = None\<rparr> w\<rparr>)))))"

text \<open>\<open>schedule\<close> with the trailing unit of work left out is refused.\<close>

definition store_schedule :: "event_message \<Rightarrow> int \<Rightarrow> sched_uow option \<Rightarrow> (sched_error + string) \<times> sched_uow option" where
  "store_schedule e fire_at uo =
     (case uo of
        None \<Rightarrow> (Inl (SchedRefused NoActiveUnitOfWork), None)
      | Some u \<Rightarrow> (case schedule_in e fire_at u of (r, u') \<Rightarrow> (r, Some u')))"

definition cancel_world :: "string \<Rightarrow> sched_world \<Rightarrow> cancel_result \<times> sched_world" where
  "cancel_world i w =
     (case map_get (sw_records w) i of
        None \<Rightarrow> (CrNotFound, w)
      | Some r \<Rightarrow>
          (case sd_status r of
             StAppended \<Rightarrow> (CrAlreadyAppended, w)
           | StCancelled \<Rightarrow> (CrNotFound, w)
           | StPending \<Rightarrow> (CrCancelled, put_record i (r\<lparr>sd_status := StCancelled, sd_timer := None\<rparr>) w)))"

definition cancel_in :: "string \<Rightarrow> sched_uow \<Rightarrow> cancel_result \<times> sched_uow" where
  "cancel_in i u =
     (case cancel_world i (uw_world u) of
        (r, w) \<Rightarrow>
          (let u1 = u\<lparr>uw_world := w\<rparr>
           in (r, if r = CrCancelled \<and> \<not> uw_closed u then onError (RestoreIfCancelled i) u1 else u1)))"

definition stopScheduling :: "sched_world \<Rightarrow> sched_world" where
  "stopScheduling w = w\<lparr>sw_records := []\<rparr>"

text \<open>The callbacks.\<close>

fun sched_act :: "sched_action \<Rightarrow> sched_uow \<Rightarrow> sched_error option \<times> sched_uow" where
  "sched_act (ArmIfPending i) u =
     (None, u\<lparr>uw_world :=
        (case map_get (sw_records (uw_world u)) i of
           Some r \<Rightarrow> if sd_status r = StPending then armTimer i r (uw_world u) else uw_world u
         | None \<Rightarrow> uw_world u)\<rparr>)"

fun undo_world :: "sched_handler \<Rightarrow> sched_world \<Rightarrow> sched_world" where
  "undo_world (DropIfPending i) w =
     (case map_get (sw_records w) i of
        Some r \<Rightarrow> if sd_status r = StPending then w\<lparr>sw_records := map_delete i (sw_records w)\<rparr> else w
      | None \<Rightarrow> w)"
| "undo_world (RestoreIfCancelled i) w =
     (case map_get (sw_records w) i of
        Some r \<Rightarrow> if sd_status r = StCancelled then put_record i (r\<lparr>sd_status := StPending\<rparr>) w else w
      | None \<Rightarrow> w)"

definition sched_undo :: "sched_handler \<Rightarrow> sched_error \<Rightarrow> phase option \<Rightarrow> sched_uow \<Rightarrow> sched_uow" where
  "sched_undo h e p u = u\<lparr>uw_world := undo_world h (uw_world u)\<rparr>"

section \<open>The verbs of a context\<close>

text \<open>\<open>capable\<close>: the entry's log was wrapped. A date is its time, or \<open>None\<close> when it is not a valid one; likewise a delay that is not finite.\<close>

definition requireScheduling :: "bool \<Rightarrow> string \<Rightarrow> sched_error + unit" where
  "requireScheduling capable call = (if capable then Inr () else Inl (NotCapable call))"

definition ctx_schedule ::
  "bool \<Rightarrow> event_descriptor \<Rightarrow> js \<Rightarrow> int option \<Rightarrow> metadata option \<Rightarrow> sched_uow \<Rightarrow> (sched_error + string) \<times> sched_uow" where
  "ctx_schedule capable d payload fire_at md u =
     (case requireInvocation u of
        Inl err \<Rightarrow> (Inl (SchedRefused err), u)
      | Inr _ \<Rightarrow>
          (case requireScheduling capable ''ctx.schedule(...)'' of
             Inl err \<Rightarrow> (Inl err, u)
           | Inr _ \<Rightarrow>
               (case fire_at of
                  None \<Rightarrow> (Inl InvalidDate, u)
                | Some t \<Rightarrow>
                    (let m = (case md of None \<Rightarrow> emptyMetadata | Some m \<Rightarrow> m);
                         (ident, w) = sched_identifier (uw_world u);
                         u1 = u\<lparr>uw_world := w\<rparr>
                     in case tagsOf d payload m of
                          Inl err \<Rightarrow> (Inl (SchedTagFailed err), u1)
                        | Inr tags \<Rightarrow>
                            schedule_in \<lparr>em_identifier = ident, em_name = ed_name d, em_payload = payload, em_metadata = m,
                              em_version = ed_version d, em_timestamp = sw_now w, em_tags = tags\<rparr> t u1))))"

text \<open>A date holds a time up to 100 million days from the epoch; any other number makes an invalid date.\<close>

definition js_date :: "int \<Rightarrow> int option" where
  "js_date t = (if abs t \<le> 8640000000000000 then Some t else None)"

definition ctx_scheduleAfter ::
  "bool \<Rightarrow> event_descriptor \<Rightarrow> js \<Rightarrow> int option \<Rightarrow> metadata option \<Rightarrow> sched_uow \<Rightarrow> (sched_error + string) \<times> sched_uow" where
  "ctx_scheduleAfter capable d payload delay md u =
     (case delay of
        None \<Rightarrow> (Inl InvalidDelay, u)
      | Some ms \<Rightarrow> ctx_schedule capable d payload (js_date (sw_now (uw_world u) + ms)) md u)"

definition ctx_cancelSchedule :: "bool \<Rightarrow> string \<Rightarrow> sched_uow \<Rightarrow> (sched_error + cancel_result) \<times> sched_uow" where
  "ctx_cancelSchedule capable i u =
     (case requireInvocation u of
        Inl err \<Rightarrow> (Inl (SchedRefused err), u)
      | Inr _ \<Rightarrow>
          (case requireScheduling capable ''ctx.cancelSchedule(...)'' of
             Inl err \<Rightarrow> (Inl err, u)
           | Inr _ \<Rightarrow> (case cancel_in i u of (r, u') \<Rightarrow> (Inr r, u'))))"

section \<open>Tasks that schedule\<close>

text \<open>
  What else happens to the tier, between tasks or while a task waits: time passes, a due timer runs its callback, a schedule is cancelled
  or the tier disarmed by code with no unit of work, somebody appends to the log.
\<close>

datatype meanwhile =
    Elapse nat
  | TimerRuns string
  | CancelOutside string
  | OthersAppend "event_message list" "append_condition option"
  | Disarm

fun meanwhile_world :: "meanwhile \<Rightarrow> sched_world \<Rightarrow> sched_world" where
  "meanwhile_world (Elapse ms) w = w\<lparr>sw_now := sw_now w + int ms\<rparr>"
| "meanwhile_world (TimerRuns i) w =
     (case map_get (sw_records w) i of
        None \<Rightarrow> w
      | Some r \<Rightarrow> (case sd_timer r of None \<Rightarrow> w | Some t \<Rightarrow> if tm_due t \<le> sw_now w then timer_fires i (tm_setAt t) w else w))"
| "meanwhile_world (CancelOutside i) w = snd (cancel_world i w)"
| "meanwhile_world (OthersAppend es c) w = (case append (sw_log w) es c of Inl _ \<Rightarrow> w | Inr (_, s) \<Rightarrow> w\<lparr>sw_log := s\<rparr>)"
| "meanwhile_world Disarm w = stopScheduling w"

text \<open>What a handler does with the verbs, in order; a refusal it catches leaves the records alone. In the end it returns or throws.\<close>

datatype sched_op =
    OpScheduleAt event_descriptor js "int option" "metadata option"
  | OpScheduleAfter event_descriptor js "int option" "metadata option"
  | OpCancelSchedule string
  | OpAwait meanwhile

fun run_op :: "bool \<Rightarrow> sched_op \<Rightarrow> sched_uow \<Rightarrow> sched_uow" where
  "run_op capable (OpScheduleAt d payload t md) u = snd (ctx_schedule capable d payload t md u)"
| "run_op capable (OpScheduleAfter d payload ms md) u = snd (ctx_scheduleAfter capable d payload ms md u)"
| "run_op capable (OpCancelSchedule i) u = snd (ctx_cancelSchedule capable i u)"
| "run_op capable (OpAwait m) u = u\<lparr>uw_world := meanwhile_world m (uw_world u)\<rparr>"

definition sched_body :: "bool \<Rightarrow> sched_op list \<Rightarrow> js_error option \<Rightarrow> sched_uow \<Rightarrow> (sched_error + unit) \<times> sched_uow" where
  "sched_body capable ops throws u = (case throws of None \<Rightarrow> Inr () | Some e \<Rightarrow> Inl (BodyThrew e), fold (run_op capable) ops u)"

definition sched_task :: "bool \<Rightarrow> sched_op list \<Rightarrow> js_error option \<Rightarrow> sched_world \<Rightarrow> ((sched_error + unit) \<times> sched_world) option" where
  "sched_task capable ops throws w =
     (case execute sched_act sched_undo (\<lambda>h u. u) (sched_body capable ops throws) (unitOfWork w) of
        Inr (Some (r, u)) \<Rightarrow> Some (r, uw_world u)
      | _ \<Rightarrow> None)"

definition arm_world :: "sched_action \<Rightarrow> sched_world \<Rightarrow> sched_world" where
  "arm_world a w = (case a of ArmIfPending i \<Rightarrow>
     (case map_get (sw_records w) i of Some r \<Rightarrow> if sd_status r = StPending then armTimer i r w else w | None \<Rightarrow> w))"

lemma sched_act_world: "sched_act a u = (None, u\<lparr>uw_world := arm_world a (uw_world u)\<rparr>)"
  by (cases a) (simp add: arm_world_def)

lemma run_arm:
  "\<exists>calls. run_actions sched_act at as u = (None, u\<lparr>uw_world := fold arm_world as (uw_world u), uw_calls := calls\<rparr>)"
proof (induction as arbitrary: u)
  case Nil
  show ?case by (rule exI [of _ "uw_calls u"]) simp
next
  case (Cons a as)
  from Cons [of "u\<lparr>uw_calls := uw_calls u @ [(at, a)], uw_world := arm_world a (uw_world u)\<rparr>"]
  show ?case by (simp add: sched_act_world)
qed

lemma phase_arms:
  "\<exists>u'. runPhase sched_act at u = Some (None, u') \<and> uw_world u' = fold arm_world (bucket at u) (uw_world u) \<and>
     (\<forall>p. p \<noteq> at \<longrightarrow> bucket p u' = bucket p u) \<and> uw_phase u' = Some at \<and> uw_closed u' = uw_closed u \<and> uw_errorHandlers u' = uw_errorHandlers u"
proof (cases "bucket at u = []")
  case True
  then show ?thesis by (simp add: runPhase_empty)
next
  case False
  let ?u = "u\<lparr>uw_phase := Some at, uw_phaseActions := map_set at [] (uw_phaseActions u)\<rparr>"
  from run_arm [of at "bucket at u" ?u] obtain calls where
    r: "run_actions sched_act at (bucket at u) ?u = (None, ?u\<lparr>uw_world := fold arm_world (bucket at u) (uw_world u), uw_calls := calls\<rparr>)"
    by auto
  let ?v = "?u\<lparr>uw_world := fold arm_world (bucket at u) (uw_world u), uw_calls := calls\<rparr>"
  have b: "bucket p ?v = (if p = at then [] else bucket p u)" for p by (simp add: bucket_def)
  then have "drain_bucket sched_act at ?v = Some (None, ?v)" by (subst drain_bucket.simps) simp
  then have "runPhase sched_act at u = Some (None, ?v)" unfolding runPhase_def by (subst drain_bucket.simps) (use False r in simp)
  with b show ?thesis by simp
qed

lemma notify_undoes:
  "\<exists>u'. notify_errors sched_undo e p i u = Some u' \<and> uw_world u' = fold undo_world (drop i (uw_errorHandlers u)) (uw_world u)"
proof (induction "length (uw_errorHandlers u) - i" arbitrary: i u)
  case 0
  then show ?case by (subst notify_errors.simps) simp
next
  case (Suc n)
  then have i: "i < length (uw_errorHandlers u)" by simp
  let ?u = "sched_undo (uw_errorHandlers u ! i) e p (u\<lparr>uw_notified := uw_notified u @ [(uw_errorHandlers u ! i, p)]\<rparr>)"
  have h: "uw_errorHandlers ?u = uw_errorHandlers u" "uw_world ?u = undo_world (uw_errorHandlers u ! i) (uw_world u)" by (simp_all add: sched_undo_def)
  have "n = length (uw_errorHandlers ?u) - Suc i" using Suc.hyps(2) i h(1) by auto
  from Suc.hyps(1) [OF this] obtain u' where "notify_errors sched_undo e p (Suc i) ?u = Some u'"
    "uw_world u' = fold undo_world (drop (Suc i) (uw_errorHandlers u)) (undo_world (uw_errorHandlers u ! i) (uw_world u))" using h by auto
  moreover have "drop i (uw_errorHandlers u) = uw_errorHandlers u ! i # drop (Suc i) (uw_errorHandlers u)" using i by (simp add: Cons_nth_drop_Suc)
  ultimately show ?case using i by (subst notify_errors.simps) (simp add: Let_def)
qed

text \<open>The unit of work as the body sees it.\<close>

definition in_body :: "sched_world \<Rightarrow> sched_uow" where
  "in_body w = (unitOfWork w)\<lparr>uw_status := Started, uw_phase := Some INVOCATION\<rparr>"

lemma bucket_world [simp]: "bucket p (u\<lparr>uw_world := w\<rparr>) = bucket p u" "bucket p (onError h u) = bucket p u"
  by (simp_all add: bucket_def onError_def)

text \<open>What the verbs do to a unit of work: nothing, take an identifier, stage a record or cancel one; or something happens meanwhile.\<close>

lemma run_op_cases:
  obtains (none) "run_op capable op u = u"
  | (ident) "run_op capable op u = u\<lparr>uw_world := snd (sched_identifier (uw_world u))\<rparr>"
  | (staged) e t where "run_op capable op u = snd (schedule_in e t (u\<lparr>uw_world := snd (sched_identifier (uw_world u))\<rparr>))" "requireInvocation u = Inr ()"
  | (cancel) i where "run_op capable op u = snd (cancel_in i u)" "requireInvocation u = Inr ()"
  | (await) m where "run_op capable op u = u\<lparr>uw_world := meanwhile_world m (uw_world u)\<rparr>"
proof -
  have sch: "snd (ctx_schedule capable d payload fire_at md u) = u \<or>
      snd (ctx_schedule capable d payload fire_at md u) = u\<lparr>uw_world := snd (sched_identifier (uw_world u))\<rparr> \<or>
      (\<exists>e t. snd (ctx_schedule capable d payload fire_at md u) = snd (schedule_in e t (u\<lparr>uw_world := snd (sched_identifier (uw_world u))\<rparr>)) \<and> requireInvocation u = Inr ())"
    for d payload fire_at md
  proof (cases "requireInvocation u = Inr () \<and> requireScheduling capable ''ctx.schedule(...)'' = Inr () \<and> fire_at \<noteq> None")
    case False
    then have "snd (ctx_schedule capable d payload fire_at md u) = u"
      unfolding ctx_schedule_def by (simp split: sum.split unit.split option.split)
    then show ?thesis by simp
  next
    case True
    then obtain t where t: "requireInvocation u = Inr ()" "requireScheduling capable ''ctx.schedule(...)'' = Inr ()" "fire_at = Some t" by auto
    let ?m = "case md of None \<Rightarrow> emptyMetadata | Some m \<Rightarrow> m"
    show ?thesis
    proof (cases "tagsOf d payload ?m")
      case (Inl err)
      then show ?thesis unfolding ctx_schedule_def t by (simp add: Let_def sched_identifier_def)
    next
      case (Inr tags)
      let ?e = "\<lparr>em_identifier = fst (sched_identifier (uw_world u)), em_name = ed_name d, em_payload = payload, em_metadata = ?m,
        em_version = ed_version d, em_timestamp = sw_now (uw_world u), em_tags = tags\<rparr>"
      have "snd (ctx_schedule capable d payload fire_at md u) = snd (schedule_in ?e t (u\<lparr>uw_world := snd (sched_identifier (uw_world u))\<rparr>))"
        unfolding ctx_schedule_def t using Inr by (simp add: Let_def sched_identifier_def)
      with t(1) show ?thesis by blast
    qed
  qed
  have can: "snd (ctx_cancelSchedule capable i u) = u \<or> (snd (ctx_cancelSchedule capable i u) = snd (cancel_in i u) \<and> requireInvocation u = Inr ())" for i
    unfolding ctx_cancelSchedule_def by (simp split: sum.split unit.split prod.split)
  show thesis
  proof (cases op)
    case (OpScheduleAt d payload t md)
    with sch [of d payload t md] none ident staged show ?thesis by auto
  next
    case (OpScheduleAfter d payload ms md)
    show ?thesis
    proof (cases ms)
      case None
      with OpScheduleAfter none show ?thesis by (simp add: ctx_scheduleAfter_def)
    next
      case (Some n)
      with OpScheduleAfter have "run_op capable op u = snd (ctx_schedule capable d payload (js_date (sw_now (uw_world u) + n)) md u)"
        by (simp add: ctx_scheduleAfter_def)
      with sch [of d payload "js_date (sw_now (uw_world u) + n)" md] none ident staged show ?thesis by auto
    qed
  next
    case (OpCancelSchedule i)
    with can [of i] none cancel show ?thesis by auto
  next
    case (OpAwait m)
    with await show ?thesis by simp
  qed
qed

lemma schedule_in_live:
  assumes "requireInvocation u = Inr ()"
  shows "schedule_in e t u =
     (let i = sw_ids (uw_world u) (sw_nextId (uw_world u))
      in (Inr i, onError (DropIfPending i) (onAfterCommit (ArmIfPending i)
           (u\<lparr>uw_world := put_record i \<lparr>sd_status = StPending, sd_event = e, sd_fireAt = t, sd_timer = None\<rparr> (snd (sched_identifier (uw_world u)))\<rparr>))))"
  unfolding schedule_in_def assms by (simp add: sched_identifier_def Let_def)

lemma require_world [simp]: "requireInvocation (u\<lparr>uw_world := w\<rparr>) = requireInvocation u"
  by (simp add: requireInvocation_def)

lemma op_buckets:
  assumes "p \<noteq> AFTER_COMMIT"
  shows "bucket p (run_op capable op u) = bucket p u"
proof (cases rule: run_op_cases [of capable op u])
  case (staged e t)
  then show ?thesis using assms by (simp add: schedule_in_live Let_def onAfterCommit_def bucket_on_phase)
next
  case (cancel i)
  then show ?thesis by (simp add: cancel_in_def Let_def split: prod.split)
qed simp_all

lemma ops_buckets: "p \<noteq> AFTER_COMMIT \<Longrightarrow> bucket p (fold (run_op capable) ops u) = bucket p u"
  by (induction ops arbitrary: u) (simp_all add: op_buckets)

lemma sched_task_effect:
  "sched_task capable ops throws w =
     (let u = fold (run_op capable) ops (in_body w)
      in Some (case throws of
           None \<Rightarrow> (Inr (), fold arm_world (bucket AFTER_COMMIT u) (uw_world u))
         | Some e \<Rightarrow> (Inl (BodyThrew e), fold undo_world (uw_errorHandlers u) (uw_world u))))"
proof -
  let ?start = "(unitOfWork w)\<lparr>uw_status := Started\<rparr> :: sched_uow"
  let ?u = "fold (run_op capable) ops (in_body w)"
  have e0: "bucket p (unitOfWork w :: sched_uow) = []" for p by (simp add: bucket_def unitOfWork_def)
  then have eb: "bucket p (in_body w) = []" for p by (simp add: in_body_def)
  have pre: "and_then (runPhase sched_act PRE_INVOCATION ?start) (runPhase sched_act INVOCATION) = Some (None, in_body w)"
    by (simp add: runPhase_empty e0 in_body_def)
  show ?thesis
  proof (cases throws)
    case (Some e)
    then have "try_phases sched_act (sched_body capable ops throws) ?start = Some (Inl (BodyThrew e), ?u)"
      by (simp add: try_phases_def pre sched_body_def)
    moreover obtain u' where "notify_errors sched_undo (BodyThrew e) (uw_phase ?u) 0 (?u\<lparr>uw_status := Errored, uw_closed := True\<rparr>) = Some u'"
      "uw_world u' = fold undo_world (uw_errorHandlers ?u) (uw_world ?u)"
      using notify_undoes [of "BodyThrew e" "uw_phase ?u" 0 "?u\<lparr>uw_status := Errored, uw_closed := True\<rparr>"] by auto
    ultimately show ?thesis using Some
      by (simp add: sched_task_def execute_def drivePhases_def unitOfWork_def Let_def)
  next
    case None
    have b: "bucket PREPARE_COMMIT ?u = []" "bucket COMMIT ?u = []" by (simp_all add: ops_buckets eb)
    from phase_arms [of PREPARE_COMMIT ?u] obtain u3 where u3: "runPhase sched_act PREPARE_COMMIT ?u = Some (None, u3)"
      "uw_world u3 = uw_world ?u" "bucket COMMIT u3 = []" "bucket AFTER_COMMIT u3 = bucket AFTER_COMMIT ?u" using b by auto
    from phase_arms [of COMMIT u3] obtain u4 where u4: "runPhase sched_act COMMIT u3 = Some (None, u4)"
      "uw_world u4 = uw_world ?u" "bucket AFTER_COMMIT u4 = bucket AFTER_COMMIT ?u" using u3 by auto
    from phase_arms [of AFTER_COMMIT u4] obtain u5 where u5: "runPhase sched_act AFTER_COMMIT u4 = Some (None, u5)"
      "uw_world u5 = fold arm_world (bucket AFTER_COMMIT ?u) (uw_world ?u)" using u4 by auto
    have "try_phases sched_act (sched_body capable ops throws) ?start = Some (Inr (), u5)"
      using u3(1) u4(1) u5(1) None by (simp add: try_phases_def pre sched_body_def)
    then show ?thesis using None u5(2)
      by (simp add: sched_task_def execute_def drivePhases_def unitOfWork_def notify_complete_nothing Let_def)
  qed
qed

section \<open>The life of the tier\<close>

text \<open>Tasks run one after another; timers, time and other writers interleave with them at will.\<close>

inductive sched_step :: "sched_world \<Rightarrow> sched_world \<Rightarrow> bool" where
  task: "sched_task capable ops throws w = Some (r, w') \<Longrightarrow> sched_step w w'"
| wait: "sched_step w (meanwhile_world m w)"

inductive sched_reaches :: "sched_world \<Rightarrow> sched_world \<Rightarrow> bool" where
  here: "sched_reaches w w"
| there: "sched_reaches w w' \<Longrightarrow> sched_step w' w'' \<Longrightarrow> sched_reaches w w''"

text \<open>
  The contract of an invariant of the tier: \<open>winv\<close> holds between tasks and \<open>inv\<close> inside one; the tier's operations keep \<open>inv\<close>, and the
  end of a task, by commit or by error, gives \<open>winv\<close> back.
\<close>

locale kept_by_schedules =
  fixes winv :: "sched_world \<Rightarrow> bool" and inv :: "sched_uow \<Rightarrow> bool"
  assumes starts: "winv w \<Longrightarrow> inv (in_body w)"
    and ident: "inv u \<Longrightarrow> inv (u\<lparr>uw_world := snd (sched_identifier (uw_world u))\<rparr>)"
    and stages: "inv u \<Longrightarrow> requireInvocation u = Inr () \<Longrightarrow> inv (snd (schedule_in e t u))"
    and cancels: "inv u \<Longrightarrow> inv (snd (cancel_in i u))"
    and awaits: "inv u \<Longrightarrow> inv (u\<lparr>uw_world := meanwhile_world m (uw_world u)\<rparr>)"
    and commits: "inv u \<Longrightarrow> winv (fold arm_world (bucket AFTER_COMMIT u) (uw_world u))"
    and rolls_back: "inv u \<Longrightarrow> winv (fold undo_world (uw_errorHandlers u) (uw_world u))"
    and waits: "winv w \<Longrightarrow> winv (meanwhile_world m w)"
begin

lemma op_keeps: "inv u \<Longrightarrow> inv (run_op capable op u)"
  by (cases rule: run_op_cases [of capable op u]) (simp_all add: ident stages cancels awaits)

lemma ops_keep: "inv u \<Longrightarrow> inv (fold (run_op capable) ops u)"
  by (induction ops arbitrary: u) (simp_all add: op_keeps)

lemma task_keeps:
  assumes "winv w" "sched_task capable ops throws w = Some (r, w')"
  shows "winv w'"
proof -
  have "inv (fold (run_op capable) ops (in_body w))" by (intro ops_keep starts assms)
  then show ?thesis using assms(2) commits rolls_back by (cases throws) (auto simp: sched_task_effect Let_def)
qed

lemma step_keeps: "sched_step w w' \<Longrightarrow> winv w \<Longrightarrow> winv w'"
  by (induction rule: sched_step.induct) (simp_all add: task_keeps waits)

lemma reaches_keeps: "sched_reaches w w' \<Longrightarrow> winv w \<Longrightarrow> winv w'"
  by (induction rule: sched_reaches.induct) (simp_all add: step_keeps)

end

section \<open>The invariant of the records\<close>

definition issued :: "sched_world \<Rightarrow> string \<Rightarrow> bool" where
  "issued w i = (\<exists>n < sw_nextId w. i = sw_ids w n)"

definition fired_ids :: "sched_world \<Rightarrow> string list" where
  "fired_ids w = map fi_id (sw_fired w)"

definition timer_ok :: "schedule_record \<Rightarrow> bool" where
  "timer_ok r = (\<forall>t. sd_timer r = Some t \<longrightarrow>
     sd_status r = StPending \<and> (sd_fireAt r \<le> tm_due t \<or> TIMEOUT_MAX < sd_fireAt r - tm_setAt t))"

definition fired_ok :: "sched_world \<Rightarrow> fired \<Rightarrow> bool" where
  "fired_ok w f =
     (issued w (fi_id f) \<and> fi_event f \<in> se_event ` set (es_events (sw_log w)) \<and>
      (fi_fireAt f \<le> fi_at f \<or> TIMEOUT_MAX < fi_fireAt f - fi_setAt f))"

definition record_ok :: "sched_world \<Rightarrow> string \<Rightarrow> schedule_record \<Rightarrow> bool" where
  "record_ok w i r = (issued w i \<and> (sd_status r = StAppended \<or> i \<notin> set (fired_ids w)) \<and> timer_ok r)"

definition sched_ok :: "sched_world \<Rightarrow> bool" where
  "sched_ok w =
     (inj (sw_ids w) \<and> distinct (fired_ids w) \<and> (\<forall>f \<in> set (sw_fired w). fired_ok w f) \<and>
      (\<forall>i r. map_get (sw_records w) i = Some r \<longrightarrow> record_ok w i r))"

lemma armed_timer_ok:
  "sd_status r = StPending \<Longrightarrow>
   timer_ok (r\<lparr>sd_timer := Some \<lparr>tm_setAt = now, tm_due = now + timeout_delay (max 0 (sd_fireAt r - now))\<rparr>\<rparr>)"
  by (auto simp: timer_ok_def timeout_delay_def max_def)

text \<open>A record is changed, keeping what the invariant asks of it.\<close>

lemma put_keeps:
  assumes "sched_ok w" "record_ok w i r"
  shows "sched_ok (put_record i r w)"
  using assms by (auto simp: sched_ok_def put_record_def record_ok_def issued_def fired_ids_def fired_ok_def)

lemma dropped_keeps: "sched_ok w \<Longrightarrow> sched_ok (w\<lparr>sw_records := map_delete i (sw_records w)\<rparr>)"
  by (auto simp: sched_ok_def record_ok_def issued_def fired_ids_def fired_ok_def)

lemma issued_later: "issued w i \<Longrightarrow> issued (snd (sched_identifier w)) i"
  by (auto simp: issued_def sched_identifier_def intro: less_SucI)

lemma ident_same [simp]:
  "sw_ids (snd (sched_identifier w)) = sw_ids w" "sw_records (snd (sched_identifier w)) = sw_records w"
  "sw_fired (snd (sched_identifier w)) = sw_fired w" "sw_log (snd (sched_identifier w)) = sw_log w" "sw_now (snd (sched_identifier w)) = sw_now w"
  by (simp_all add: sched_identifier_def)

lemma ident_keeps: "sched_ok w \<Longrightarrow> sched_ok (snd (sched_identifier w))"
  by (auto simp: sched_ok_def record_ok_def fired_ids_def fired_ok_def issued_later)

lemma ident_fresh:
  assumes "sched_ok w"
  shows "sw_ids w (sw_nextId w) \<notin> set (fired_ids w)" "issued (snd (sched_identifier w)) (sw_ids w (sw_nextId w))"
proof -
  have "\<not> issued w (sw_ids w (sw_nextId w))" using assms by (auto simp: sched_ok_def issued_def inj_def)
  then show "sw_ids w (sw_nextId w) \<notin> set (fired_ids w)" using assms by (auto simp: sched_ok_def fired_ok_def fired_ids_def)
  show "issued (snd (sched_identifier w)) (sw_ids w (sw_nextId w))" by (auto simp: issued_def sched_identifier_def)
qed

lemma record_known: "sched_ok w \<Longrightarrow> map_get (sw_records w) i = Some r \<Longrightarrow> record_ok w i r"
  by (simp add: sched_ok_def)

lemma changed_keeps:
  assumes "sched_ok w" "map_get (sw_records w) i = Some r" "record_ok w i r \<Longrightarrow> record_ok w i r'"
  shows "sched_ok (put_record i r' w)"
  by (rule put_keeps [OF assms(1) assms(3) [OF record_known [OF assms(1,2)]]])

lemma cancel_keeps: "sched_ok w \<Longrightarrow> sched_ok (snd (cancel_world i w))"
  by (auto simp: cancel_world_def record_ok_def timer_ok_def split: option.split record_status.split intro!: changed_keeps)

lemma arm_keeps: "sched_ok w \<Longrightarrow> sched_ok (arm_world a w)"
  by (auto simp: arm_world_def armTimer_def record_ok_def armed_timer_ok split: option.split sched_action.split intro!: changed_keeps)

lemma undo_keeps: "sched_ok w \<Longrightarrow> sched_ok (undo_world h w)"
  by (cases h) (auto simp: record_ok_def timer_ok_def dropped_keeps split: option.split intro!: changed_keeps)

lemma append_keeps: "append s es c = Inr (m, s') \<Longrightarrow> se_event ` set (es_events s) \<subseteq> se_event ` set (es_events s')"
  by (auto simp: append_fields(1))

lemma log_keeps:
  assumes "sched_ok w" "se_event ` set (es_events (sw_log w)) \<subseteq> se_event ` set (es_events s)"
  shows "sched_ok (w\<lparr>sw_log := s\<rparr>)"
  using assms by (auto simp: sched_ok_def record_ok_def issued_def fired_ids_def fired_ok_def)

lemma fire_keeps:
  assumes "sched_ok w" "map_get (sw_records w) i = Some r" "sd_timer r = Some t" "tm_due t \<le> sw_now w"
  shows "sched_ok (timer_fires i (tm_setAt t) w)"
proof -
  let ?f = "\<lparr>fi_id = i, fi_event = sd_event r, fi_fireAt = sd_fireAt r, fi_setAt = tm_setAt t, fi_at = sw_now w\<rparr>"
  let ?r = "r\<lparr>sd_status := StAppended, sd_timer := None\<rparr>"
  obtain m s where s: "append (sw_log w) [sd_event r] None = Inr (m, s)" by (simp add: append_def check_condition_def Let_def)
  from record_known [OF assms(1,2)] assms(3,4) have r: "issued w i" "i \<notin> set (fired_ids w)" "sd_status r = StPending"
      "sd_fireAt r \<le> sw_now w \<or> TIMEOUT_MAX < sd_fireAt r - tm_setAt t"
    by (auto simp: record_ok_def timer_ok_def)
  let ?w = "w\<lparr>sw_records := map_set i ?r (sw_records w), sw_fired := sw_fired w @ [?f], sw_log := s\<rparr>"
  have "timer_fires i (tm_setAt t) w = ?w" by (simp add: timer_fires_def assms(2) r(3) s put_record_def)
  moreover have "fired_ok ?w ?f" using r append_fields(1) [OF s] by (auto simp: fired_ok_def issued_def)
  moreover have "fired_ok ?w f" if "f \<in> set (sw_fired w)" for f
    using that assms(1) append_keeps [OF s] by (auto simp: sched_ok_def fired_ok_def issued_def)
  moreover have "record_ok ?w j r'" if "map_get (sw_records ?w) j = Some r'" for j r'
    using that assms(1) r(1) by (auto simp: sched_ok_def record_ok_def issued_def timer_ok_def fired_ids_def split: if_splits)
  moreover have "distinct (fired_ids ?w)" using assms(1) r(2) by (auto simp: sched_ok_def fired_ids_def)
  ultimately show ?thesis using assms(1) by (auto simp: sched_ok_def)
qed

lemma meanwhile_keeps: "sched_ok w \<Longrightarrow> sched_ok (meanwhile_world m w)"
proof (cases m)
  case (TimerRuns i)
  assume "sched_ok w"
  with TimerRuns show ?thesis by (auto split: option.split intro: fire_keeps)
next
  case (OthersAppend es c)
  assume "sched_ok w"
  with OthersAppend show ?thesis by (auto split: sum.split intro!: log_keeps dest: append_keeps)
next
  case (CancelOutside i)
  assume "sched_ok w"
  with CancelOutside show ?thesis by (simp add: cancel_keeps)
qed (auto simp: stopScheduling_def sched_ok_def record_ok_def issued_def fired_ids_def fired_ok_def)

interpretation sound: kept_by_schedules sched_ok "\<lambda>u. sched_ok (uw_world u)"
proof unfold_locales
  fix u :: sched_uow and e t
  assume u: "sched_ok (uw_world u)" "requireInvocation u = Inr ()"
  let ?w = "snd (sched_identifier (uw_world u))"
  have "record_ok ?w (sw_ids (uw_world u) (sw_nextId (uw_world u))) \<lparr>sd_status = StPending, sd_event = e, sd_fireAt = t, sd_timer = None\<rparr>"
    using ident_fresh [OF u(1)] by (auto simp: record_ok_def timer_ok_def fired_ids_def sched_identifier_def)
  from put_keeps [OF ident_keeps [OF u(1)] this] show "sched_ok (uw_world (snd (schedule_in e t u)))"
    by (simp add: schedule_in_live [OF u(2)] Let_def onError_def onAfterCommit_def on_phase_def)
next
  fix u :: sched_uow and i
  assume "sched_ok (uw_world u)"
  then show "sched_ok (uw_world (snd (cancel_in i u)))"
    using cancel_keeps [of "uw_world u" i] by (auto simp: cancel_in_def Let_def onError_def split: prod.split)
next
  fix u :: sched_uow
  assume u: "sched_ok (uw_world u)"
  have "sched_ok w \<Longrightarrow> sched_ok (fold arm_world as w)" for as w by (induction as arbitrary: w) (simp_all add: arm_keeps)
  then show "sched_ok (fold arm_world (bucket AFTER_COMMIT u) (uw_world u))" using u by simp
  have "sched_ok w \<Longrightarrow> sched_ok (fold undo_world hs w)" for hs w by (induction hs arbitrary: w) (simp_all add: undo_keeps)
  then show "sched_ok (fold undo_world (uw_errorHandlers u) (uw_world u))" using u by simp
qed (simp_all add: ident_keeps meanwhile_keeps in_body_def unitOfWork_def)

section \<open>A schedule without a timer\<close>

definition unarmed :: "string \<Rightarrow> sched_world \<Rightarrow> bool" where
  "unarmed i w =
     (inj (sw_ids w) \<and> issued w i \<and> i \<notin> set (fired_ids w) \<and>
      (case map_get (sw_records w) i of None \<Rightarrow> True | Some r \<Rightarrow> sd_timer r = None))"

text \<open>Nothing but the \<open>AFTER_COMMIT\<close> action of its own \<open>schedule\<close> call sets a timer.\<close>

lemma arm_other: "a \<noteq> ArmIfPending i \<Longrightarrow> unarmed i w \<Longrightarrow> unarmed i (arm_world a w)"
  by (cases a) (auto simp: arm_world_def armTimer_def put_record_def unarmed_def issued_def fired_ids_def split: option.split)

lemma arm_others: "ArmIfPending i \<notin> set as \<Longrightarrow> unarmed i w \<Longrightarrow> unarmed i (fold arm_world as w)"
  by (induction as arbitrary: w) (auto simp: arm_other [OF not_sym])

lemma undo_unarmed: "unarmed i w \<Longrightarrow> unarmed i (undo_world h w)"
  by (cases h) (auto simp: unarmed_def issued_def fired_ids_def put_record_def split: option.split)

lemma undos_unarmed: "unarmed i w \<Longrightarrow> unarmed i (fold undo_world hs w)"
  by (induction hs arbitrary: w) (simp_all add: undo_unarmed)

lemma cancel_unarmed: "unarmed i w \<Longrightarrow> unarmed i (snd (cancel_world j w))"
  by (auto simp: cancel_world_def unarmed_def issued_def fired_ids_def put_record_def split: option.split record_status.split)

lemma fire_other:
  assumes "i \<noteq> j" "unarmed i w"
  shows "unarmed i (timer_fires j s w)"
  using assms by (auto simp: timer_fires_def put_record_def unarmed_def issued_def fired_ids_def Let_def split: option.split sum.split)

lemma meanwhile_unarmed: "unarmed i w \<Longrightarrow> unarmed i (meanwhile_world m w)"
proof (cases m)
  case (TimerRuns j)
  assume "unarmed i w"
  moreover from this have "meanwhile_world (TimerRuns i) w = w" by (auto simp: unarmed_def split: option.splits)
  ultimately show ?thesis using TimerRuns by (cases "i = j") (auto simp: fire_other split: option.split)
next
  case (CancelOutside j)
  assume "unarmed i w"
  with CancelOutside show ?thesis by (simp add: cancel_unarmed)
qed (auto simp: stopScheduling_def unarmed_def issued_def fired_ids_def split: option.split sum.split)

lemma ident_unarmed: "unarmed i w \<Longrightarrow> unarmed i (snd (sched_identifier w)) \<and> sw_ids w (sw_nextId w) \<noteq> i"
  by (auto simp: unarmed_def fired_ids_def issued_later) (auto simp: issued_def inj_def)

interpretation dormant: kept_by_schedules "unarmed i" "\<lambda>u. unarmed i (uw_world u) \<and> ArmIfPending i \<notin> set (bucket AFTER_COMMIT u)" for i
proof unfold_locales
  fix u :: sched_uow and e t
  assume u: "unarmed i (uw_world u) \<and> ArmIfPending i \<notin> set (bucket AFTER_COMMIT u)" "requireInvocation u = Inr ()"
  let ?j = "sw_ids (uw_world u) (sw_nextId (uw_world u))"
  from u ident_unarmed [of i "uw_world u"] have w: "unarmed i (snd (sched_identifier (uw_world u)))" "?j \<noteq> i" by auto
  then have "unarmed i (put_record ?j r (snd (sched_identifier (uw_world u))))" for r
    by (auto simp: unarmed_def put_record_def issued_def fired_ids_def)
  then show "unarmed i (uw_world (snd (schedule_in e t u))) \<and> ArmIfPending i \<notin> set (bucket AFTER_COMMIT (snd (schedule_in e t u)))"
    using u(1) w(2) by (simp add: schedule_in_live [OF u(2)] Let_def onAfterCommit_def bucket_on_phase) (simp add: onError_def on_phase_def)
next
  fix u :: sched_uow and j
  assume "unarmed i (uw_world u) \<and> ArmIfPending i \<notin> set (bucket AFTER_COMMIT u)"
  then show "unarmed i (uw_world (snd (cancel_in j u))) \<and> ArmIfPending i \<notin> set (bucket AFTER_COMMIT (snd (cancel_in j u)))"
    using cancel_unarmed [of i "uw_world u" j] by (auto simp: cancel_in_def Let_def split: prod.split) (simp_all add: onError_def)
qed (auto simp: ident_unarmed meanwhile_unarmed arm_others undos_unarmed in_body_def unitOfWork_def bucket_def)

section \<open>Properties\<close>

lemma starts_sound: "inj ids \<Longrightarrow> sched_ok (inMemorySchedulingEventStore next now ids)"
  by (simp add: sched_ok_def inMemorySchedulingEventStore_def fired_ids_def)

text \<open>
  C22: Whatever tasks, timers and other callers do, a schedule fires at most once, the event it fires is in the log, and it does not fire
  before the time asked for, unless that time was further from the setting of the timer than setTimeout can count. The hypothesis is
  that the generated identifiers differ.
\<close>
theorem schedule_fires_once_and_not_early:
  assumes "inj ids" "sched_reaches (inMemorySchedulingEventStore next now ids) w"
  shows "distinct (map fi_id (sw_fired w)) \<and>
    (\<forall>f \<in> set (sw_fired w). fi_event f \<in> se_event ` set (es_events (sw_log w)) \<and>
       (fi_fireAt f \<le> fi_at f \<or> TIMEOUT_MAX < fi_fireAt f - fi_setAt f))"
  using sound.reaches_keeps [OF assms(2) starts_sound [OF assms(1)]] by (simp add: sched_ok_def fired_ids_def fired_ok_def)

text \<open>
  C23: When cancelSchedule, called between two tasks of the tier's life, answers cancelled, that schedule has not fired and never fires,
  whatever tasks commit or roll back, whichever timers run and whoever cancels later.
\<close>
theorem cancelled_schedule_never_fires:
  assumes "inj ids" "sched_reaches (inMemorySchedulingEventStore next now ids) w"
    and "cancel_world i w = (CrCancelled, w1)" "sched_reaches w1 w2"
  shows "i \<notin> fi_id ` set (sw_fired w2)"
proof -
  from assms(3) obtain r where r: "map_get (sw_records w) i = Some r" "sd_status r = StPending"
      "w1 = put_record i (r\<lparr>sd_status := StCancelled, sd_timer := None\<rparr>) w"
    by (auto simp: cancel_world_def split: option.splits record_status.splits)
  have ok: "sched_ok w" by (rule sound.reaches_keeps [OF assms(2) starts_sound [OF assms(1)]])
  with record_known [OF ok r(1)] r have "unarmed i w1"
    by (auto simp: unarmed_def record_ok_def sched_ok_def put_record_def issued_def fired_ids_def)
  from dormant.reaches_keeps [OF assms(4) this] show ?thesis by (simp add: unarmed_def fired_ids_def)
qed

section \<open>One schedule, from the call to the log\<close>

text \<open>What \<open>ctx.schedule\<close> puts into the records, and when the timer set at the commit is due.\<close>

definition scheduled_event :: "event_descriptor \<Rightarrow> js \<Rightarrow> metadata \<Rightarrow> tag list \<Rightarrow> sched_world \<Rightarrow> event_message" where
  "scheduled_event d payload md tags w =
     \<lparr>em_identifier = sw_ids w (sw_nextId w), em_name = ed_name d, em_payload = payload, em_metadata = md,
      em_version = ed_version d, em_timestamp = sw_now w, em_tags = tags\<rparr>"

definition due_at :: "int \<Rightarrow> int \<Rightarrow> int" where
  "due_at now t = (if now < t \<and> t \<le> now + TIMEOUT_MAX then t else now + 1)"

definition armed_record :: "event_message \<Rightarrow> int \<Rightarrow> int \<Rightarrow> schedule_record" where
  "armed_record e t now = \<lparr>sd_status = StPending, sd_event = e, sd_fireAt = t, sd_timer = Some \<lparr>tm_setAt = now, tm_due = due_at now t\<rparr>\<rparr>"

definition staged_world :: "event_message \<Rightarrow> int \<Rightarrow> sched_world \<Rightarrow> sched_world" where
  "staged_world e t w =
     put_record (sw_ids w (Suc (sw_nextId w))) \<lparr>sd_status = StPending, sd_event = e, sd_fireAt = t, sd_timer = None\<rparr>
       (snd (sched_identifier (snd (sched_identifier w))))"

lemma op_schedules:
  assumes "tagsOf d payload md = Inr tags"
  shows "run_op True (OpScheduleAt d payload (Some t) (Some md)) (in_body w) =
     onError (DropIfPending (sw_ids w (Suc (sw_nextId w)))) (onAfterCommit (ArmIfPending (sw_ids w (Suc (sw_nextId w))))
       ((in_body w)\<lparr>uw_world := staged_world (scheduled_event d payload md tags w) t w\<rparr>))"
proof -
  have live: "requireInvocation (in_body w) = Inr ()" by (simp add: requireInvocation_def in_body_def unitOfWork_def)
  show ?thesis
    by (simp add: ctx_schedule_def live requireScheduling_def assms(1) sched_identifier_def Let_def schedule_in_live scheduled_event_def staged_world_def)
      (simp add: in_body_def unitOfWork_def)
qed

lemma task_schedules:
  fixes w :: sched_world
  assumes "tagsOf d payload md = Inr tags"
  obtains w' where "sched_task True [OpScheduleAt d payload (Some t) (Some md)] None w = Some (Inr (), w')"
    "map_get (sw_records w') (sw_ids w (Suc (sw_nextId w))) = Some (armed_record (scheduled_event d payload md tags w) t (sw_now w))"
    "sw_log w' = sw_log w" "sw_now w' = sw_now w" "sw_fired w' = sw_fired w"
proof -
  let ?i = "sw_ids w (Suc (sw_nextId w))"
  let ?w = "staged_world (scheduled_event d payload md tags w) t w"
  note op_schedules [OF assms, of t w]
  moreover have "bucket AFTER_COMMIT (in_body w) = []" by (simp add: in_body_def bucket_def unitOfWork_def)
  moreover have "uw_world (onError h (onAfterCommit a u)) = uw_world u" for h a and u :: sched_uow
    by (simp add: onError_def onAfterCommit_def on_phase_def)
  ultimately have "sched_task True [OpScheduleAt d payload (Some t) (Some md)] None w = Some (Inr (), arm_world (ArmIfPending ?i) ?w)"
    by (simp add: sched_task_effect Let_def onAfterCommit_def bucket_on_phase)
  moreover have "arm_world (ArmIfPending ?i) ?w = put_record ?i (armed_record (scheduled_event d payload md tags w) t (sw_now w)) ?w"
    by (auto simp: arm_world_def armTimer_def armed_record_def staged_world_def put_record_def due_at_def timeout_delay_def max_def)
  ultimately show ?thesis using that by (simp add: put_record_def staged_world_def)
qed

lemma armed_runs:
  assumes "map_get (sw_records w) i = Some (armed_record e t now)"
  shows "es_events (sw_log (meanwhile_world (TimerRuns i) w)) =
      (if due_at now t \<le> sw_now w then es_events (sw_log w) @ [\<lparr>se_position = es_nextPosition (sw_log w), se_event = e\<rparr>] else es_events (sw_log w))"
    and "map fi_id (sw_fired (meanwhile_world (TimerRuns i) w)) = map fi_id (sw_fired w) @ (if due_at now t \<le> sw_now w then [i] else [])"
  using assms by (auto simp: armed_record_def put_record_def timer_fires_def append_def check_condition_def Let_def log_simps)

text \<open>
  C24: A task that schedules one event and commits leaves a timer for it, and once that timer is due the event is appended, whole, at the
  end of the log. The timer is due at the time asked for if that is between one millisecond and TIMEOUT_MAX milliseconds ahead, and
  after one millisecond otherwise: for a past time as intended, but for a time further ahead than TIMEOUT_MAX (24.8 days) too.
\<close>
theorem committed_schedule_lands:
  assumes "tagsOf d payload md = Inr tags"
  shows "\<exists>w'. sched_task True [OpScheduleAt d payload (Some t) (Some md)] None w = Some (Inr (), w') \<and>
    es_events (sw_log w') = es_events (sw_log w) \<and>
    (\<forall>ms. es_events (sw_log (meanwhile_world (TimerRuns (sw_ids w (Suc (sw_nextId w)))) (meanwhile_world (Elapse ms) w'))) =
       (if (if sw_now w < t \<and> t \<le> sw_now w + TIMEOUT_MAX then t else sw_now w + 1) \<le> sw_now w + int ms
        then es_events (sw_log w) @ [\<lparr>se_position = es_nextPosition (sw_log w), se_event = scheduled_event d payload md tags w\<rparr>]
        else es_events (sw_log w)))"
  by (rule task_schedules [OF assms, of t w]) (simp add: armed_runs(1) due_at_def del: meanwhile_world.simps(2))

section \<open>Examples\<close>

definition reminder :: event_descriptor where
  "reminder = event_descriptor_of (qn ''shop'' ''Reminder'') None None"

definition counted_id :: "nat \<Rightarrow> string" where
  "counted_id n = replicate n CHR ''i''"

definition empty_tier :: sched_world where
  "empty_tier = inMemorySchedulingEventStore inMemoryEventStore 1000 counted_id"

lemma counted_inj: "inj counted_id"
  by (rule injI) (metis counted_id_def length_replicate)

lemma reminder_tags: "tagsOf reminder JNull emptyMetadata = Inr []"
  by (simp add: reminder_def tagsOf_def event_descriptor_of_def)

text \<open>A reminder asked for at 1005 and committed.\<close>

lemma reminder_armed:
  obtains w where "sched_reaches empty_tier w" "map_get (sw_records w) ''i'' = Some (armed_record (scheduled_event reminder JNull emptyMetadata [] empty_tier) 1005 1000)"
    "sw_log w = inMemoryEventStore" "sw_now w = 1000" "sw_fired w = []"
proof -
  have f: "sw_ids empty_tier (Suc (sw_nextId empty_tier)) = ''i''" "sw_log empty_tier = inMemoryEventStore" "sw_now empty_tier = 1000" "sw_fired empty_tier = []"
    by (simp_all add: empty_tier_def inMemorySchedulingEventStore_def counted_id_def)
  obtain w where "sched_task True [OpScheduleAt reminder JNull (Some 1005) (Some emptyMetadata)] None empty_tier = Some (Inr (), w)"
    "map_get (sw_records w) ''i'' = Some (armed_record (scheduled_event reminder JNull emptyMetadata [] empty_tier) 1005 1000)"
    "sw_log w = inMemoryEventStore" "sw_now w = 1000" "sw_fired w = []"
    by (rule task_schedules [OF reminder_tags, of 1005 empty_tier]) (simp add: f)
  then show ?thesis using that there [OF here task] by blast
qed

theorem schedule_fires_once_and_not_early_witness:
  "\<exists>w. sched_reaches (inMemorySchedulingEventStore inMemoryEventStore 1000 counted_id) w \<and> map fi_id (sw_fired w) = [''i''] \<and>
     (\<forall>f \<in> set (sw_fired w). fi_event f \<in> se_event ` set (es_events (sw_log w)) \<and>
        (fi_fireAt f \<le> fi_at f \<or> TIMEOUT_MAX < fi_fireAt f - fi_setAt f))"
proof -
  obtain w where w: "sched_reaches empty_tier w" "map_get (sw_records w) ''i'' = Some (armed_record (scheduled_event reminder JNull emptyMetadata [] empty_tier) 1005 1000)"
    "sw_now w = 1000" "sw_fired w = []" by (rule reminder_armed)
  let ?w = "meanwhile_world (TimerRuns ''i'') (meanwhile_world (Elapse 5) w)"
  have r: "sched_reaches (inMemorySchedulingEventStore inMemoryEventStore 1000 counted_id) ?w"
    using there [OF there [OF w(1) wait] wait] unfolding empty_tier_def .
  have ids: "map fi_id (sw_fired ?w) = [''i'']"
    using armed_runs(2) [of "meanwhile_world (Elapse 5) w" "''i''"] w(2-4) by (simp add: due_at_def TIMEOUT_MAX_def del: meanwhile_world.simps(2))
  show ?thesis
    by (rule exI [of _ ?w]) (intro conjI r ids schedule_fires_once_and_not_early [OF counted_inj r, THEN conjunct2])
qed

theorem cancelled_schedule_never_fires_witness:
  "\<exists>w w1. sched_reaches (inMemorySchedulingEventStore inMemoryEventStore 1000 counted_id) w \<and> cancel_world ''i'' w = (CrCancelled, w1) \<and>
     ''i'' \<notin> fi_id ` set (sw_fired (meanwhile_world (TimerRuns ''i'') (meanwhile_world (Elapse 5) w1)))"
proof -
  obtain w where w: "sched_reaches empty_tier w" "map_get (sw_records w) ''i'' = Some (armed_record (scheduled_event reminder JNull emptyMetadata [] empty_tier) 1005 1000)"
    by (rule reminder_armed)
  then obtain w1 where c: "cancel_world ''i'' w = (CrCancelled, w1)" by (simp add: cancel_world_def armed_record_def)
  note r = w(1) [unfolded empty_tier_def]
  from cancelled_schedule_never_fires [OF counted_inj r c there [OF there [OF here wait] wait]] r c show ?thesis by blast
qed

text \<open>A reminder in about 25 days is in the log two milliseconds later.\<close>

theorem committed_schedule_lands_witness:
  "\<exists>w'. sched_task True [OpScheduleAt reminder JNull (Some 2147484648) (Some emptyMetadata)] None empty_tier = Some (Inr (), w') \<and>
     es_events (sw_log (meanwhile_world (TimerRuns ''i'') (meanwhile_world (Elapse 2) w'))) =
       [\<lparr>se_position = 0, se_event = scheduled_event reminder JNull emptyMetadata [] empty_tier\<rparr>]"
proof -
  have f: "sw_ids empty_tier (Suc (sw_nextId empty_tier)) = ''i''" "es_events (sw_log empty_tier) = []" "es_nextPosition (sw_log empty_tier) = 0" "sw_now empty_tier = 1000"
    by (simp_all add: empty_tier_def inMemorySchedulingEventStore_def inMemoryEventStore_def counted_id_def)
  from committed_schedule_lands [OF reminder_tags, of 2147484648 empty_tier, unfolded f] obtain w' where
    w': "sched_task True [OpScheduleAt reminder JNull (Some 2147484648) (Some emptyMetadata)] None empty_tier = Some (Inr (), w')"
    "\<forall>ms. es_events (sw_log (meanwhile_world (TimerRuns ''i'') (meanwhile_world (Elapse ms) w'))) =
       (if (if 1000 < (2147484648::int) \<and> 2147484648 \<le> 1000 + TIMEOUT_MAX then 2147484648 else 1000 + 1) \<le> 1000 + int ms
        then [] @ [\<lparr>se_position = 0, se_event = scheduled_event reminder JNull emptyMetadata [] empty_tier\<rparr>] else [])"
    by blast
  from w'(2) [rule_format, of 2] have "es_events (sw_log (meanwhile_world (TimerRuns ''i'') (meanwhile_world (Elapse 2) w'))) =
       [\<lparr>se_position = 0, se_event = scheduled_event reminder JNull emptyMetadata [] empty_tier\<rparr>]" unfolding TIMEOUT_MAX_def by simp
  with w'(1) show ?thesis by blast
qed

section \<open>A rollback that keeps a schedule\<close>

text \<open>
  A task that schedules, cancels what it scheduled and throws leaves the record behind: when the handler that drops a pending record runs,
  the record is still cancelled, and then the handler of the cancel makes it pending. It has no timer, but a later cancel answers
  \<open>cancelled\<close> for a schedule that was rolled back.
\<close>

lemma rolled_back_schedule_stays:
  assumes "tagsOf d payload md = Inr tags"
  shows "\<exists>w'. sched_task True [OpScheduleAt d payload (Some t) (Some md), OpCancelSchedule (sw_ids w (Suc (sw_nextId w)))] (Some err) w =
      Some (Inl (BodyThrew err), w') \<and> fst (cancel_world (sw_ids w (Suc (sw_nextId w))) w') = CrCancelled"
proof -
  note op_schedules [OF assms, of t w]
  then show ?thesis
    by (simp add: sched_task_effect Let_def ctx_cancelSchedule_def cancel_in_def cancel_world_def requireScheduling_def requireInvocation_def
        onError_def onAfterCommit_def on_phase_def in_body_def unitOfWork_def put_record_def staged_world_def)
qed

end
