(* ===== verification/Update_Buffer.thy ===== *)
theory Update_Buffer
  imports State_Query
begin

text \<open>
  The buffer between the emitter of updates and one subscriber (\<open>updateHandler\<close> in \<open>query-handling/subscription-query.ts\<close>) and
  the filters that choose subscribers (\<open>query-handling/subscription-filter.ts\<close>).

  A call of \<open>next\<close> on the iterator answers a promise. \<open>uh_reads\<close> lists these promises in the order of the calls, \<open>None\<close> for one that
  is still pending, and \<open>uh_waiting\<close> is the place of the one the buffer remembers. \<open>complete\<close>, \<open>completeExceptionally\<close> and
  \<open>return\<close> also say whether they call \<open>onClose\<close>.
\<close>

section \<open>The buffer\<close>

record query_message =
  qm_identifier :: string
  qm_name :: qualified_name
  qm_payload :: js
  qm_metadata :: metadata
  qm_timestamp :: "int option"

datatype sub_error =
    BadBufferSize
  | ConcurrentReads
  | BufferOverflow
  | InitialClosed
  | AlreadySubscribed string
  | CapacityExhausted
  | NoQueryHandler string
  | OtherQueryHandler string
  | NoQueryBus
  | NotSubscriptionCapable
  | GivenError js_error

datatype read_result = RValue js | RDone | RError sub_error

record update_handler =
  uh_query :: query_message
  uh_bufferSize :: nat
  uh_buffer :: "js list"
  uh_completed :: bool
  uh_error :: "sub_error option"
  uh_waiting :: "nat option"
  uh_reads :: "read_result option list"

definition MAX_SAFE_INTEGER :: int where
  "MAX_SAFE_INTEGER = 9007199254740991"

definition updateHandler :: "query_message \<Rightarrow> int option \<Rightarrow> sub_error + update_handler" where
  "updateHandler q bufferSize =
     (let size = (case bufferSize of None \<Rightarrow> 256 | Some n \<Rightarrow> n)
      in if MAX_SAFE_INTEGER < abs size \<or> size \<le> 0 then Inl BadBufferSize
         else Inr \<lparr>uh_query = q, uh_bufferSize = nat size, uh_buffer = [], uh_completed = False, uh_error = None,
                   uh_waiting = None, uh_reads = []\<rparr>)"

definition the_end :: "update_handler \<Rightarrow> read_result" where
  "the_end h = (case uh_error h of None \<Rightarrow> RDone | Some e \<Rightarrow> RError e)"

definition wake :: "update_handler \<Rightarrow> update_handler" where
  "wake h =
     (case uh_waiting h of
        None \<Rightarrow> h
      | Some i \<Rightarrow>
          (case uh_buffer h of
             v # rest \<Rightarrow> h\<lparr>uh_waiting := None, uh_buffer := rest, uh_reads := (uh_reads h)[i := Some (RValue v)]\<rparr>
           | [] \<Rightarrow> if uh_completed h then h\<lparr>uh_waiting := None, uh_reads := (uh_reads h)[i := Some (the_end h)]\<rparr> else h))"

definition offer :: "js \<Rightarrow> update_handler \<Rightarrow> bool \<times> update_handler" where
  "offer update h =
     (if uh_completed h then (False, h)
      else if length (uh_buffer h) \<ge> uh_bufferSize h then (False, h)
      else (True, wake (h\<lparr>uh_buffer := uh_buffer h @ [update]\<rparr>)))"

definition complete :: "update_handler \<Rightarrow> bool \<times> update_handler" where
  "complete h = (if uh_completed h then (False, h) else (True, wake (h\<lparr>uh_completed := True\<rparr>)))"

definition completeExceptionally :: "sub_error \<Rightarrow> update_handler \<Rightarrow> bool \<times> update_handler" where
  "completeExceptionally err h =
     (if uh_completed h then (False, h) else (True, wake (h\<lparr>uh_error := Some err, uh_completed := True\<rparr>)))"

definition active :: "update_handler \<Rightarrow> bool" where
  "active h = (\<not> uh_completed h)"

definition iter_next :: "update_handler \<Rightarrow> update_handler" where
  "iter_next h =
     (case uh_buffer h of
        v # rest \<Rightarrow> h\<lparr>uh_buffer := rest, uh_reads := uh_reads h @ [Some (RValue v)]\<rparr>
      | [] \<Rightarrow>
          if uh_completed h then h\<lparr>uh_reads := uh_reads h @ [Some (the_end h)]\<rparr>
          else if uh_waiting h \<noteq> None then h\<lparr>uh_reads := uh_reads h @ [Some (RError ConcurrentReads)]\<rparr>
          else h\<lparr>uh_waiting := Some (length (uh_reads h)), uh_reads := uh_reads h @ [None]\<rparr>)"

definition iter_return :: "update_handler \<Rightarrow> bool \<times> update_handler" where
  "iter_return h = (\<not> uh_completed h, wake (h\<lparr>uh_completed := True, uh_buffer := []\<rparr>))"

section \<open>Filters\<close>

text \<open>A filter function is the application's and may throw. The keys of a \<open>payloadEquals\<close> filter are its entries.\<close>

datatype sub_filter = FilterFunction "js \<Rightarrow> js_error + bool" | PayloadEquals "(string \<times> js) list"

definition property_of :: "(string \<times> js) list \<Rightarrow> string \<Rightarrow> js" where
  "property_of entries key = (case map_get entries key of None \<Rightarrow> JUndefined | Some v \<Rightarrow> v)"

lemma zip_size_left [termination_simp]: "(x, y) \<in> set (zip xs ys) \<Longrightarrow> size x < Suc (size_list size xs)"
  by (drule set_zip_leftD) (simp add: size_list_estimation' less_Suc_eq_le)

fun deepEqual :: "js \<Rightarrow> js \<Rightarrow> bool" where
  "deepEqual (JArray xs) (JArray ys) = (length xs = length ys \<and> list_all (\<lambda>(x, y). deepEqual x y) (zip xs ys))"
| "deepEqual (JObject xs) (JObject ys) = (length xs = length ys \<and> list_all (\<lambda>(k, v). deepEqual v (property_of ys k)) xs)"
| "deepEqual a b = (a = b)"

text \<open>A property of a payload that is an object or an array; an array has its places and its length.\<close>

fun payload_property :: "js \<Rightarrow> string \<Rightarrow> js" where
  "payload_property (JObject entries) key = property_of entries key"
| "payload_property (JArray xs) key =
     (if key = ''length'' then JNumber (int (length xs))
      else (case find (\<lambda>i. show_nat i = key) [0 ..< length xs] of Some i \<Rightarrow> xs ! i | None \<Rightarrow> JUndefined))"
| "payload_property v key = JUndefined"

fun is_object :: "js \<Rightarrow> bool" where
  "is_object (JObject _) = True"
| "is_object (JArray _) = True"
| "is_object _ = False"

definition matchesPayloadEquals :: "js \<Rightarrow> (string \<times> js) list \<Rightarrow> bool" where
  "matchesPayloadEquals payload expected =
     (if \<not> is_object payload then expected = []
      else list_all (\<lambda>(key, v). deepEqual (payload_property payload key) v) expected)"

fun applySubscriptionFilter :: "sub_filter \<Rightarrow> js \<Rightarrow> js_error + bool" where
  "applySubscriptionFilter (FilterFunction f) payload = f payload"
| "applySubscriptionFilter (PayloadEquals expected) payload = Inr (matchesPayloadEquals payload expected)"

definition extractStructuredFilter :: "sub_filter option \<Rightarrow> (string \<times> js) list option" where
  "extractStructuredFilter f =
     (case f of None \<Rightarrow> None | Some (FilterFunction _) \<Rightarrow> None | Some (PayloadEquals expected) \<Rightarrow> Some expected)"

text \<open>
  Two objects with as many keys compare equal when every key of the first has the value the second has for it, and a missing key
  has \<open>undefined\<close>: the keys of the second are not looked at.
\<close>

lemma deepEqual_ignores_keys: "deepEqual (JObject [(''a'', JUndefined)]) (JObject [(''b'', JNumber 1)])"
  by (simp add: property_of_def)

text \<open>On values in which nothing is \<open>undefined\<close> and no object names a key twice, equal means the same up to the order of keys.\<close>

fun definite :: "js \<Rightarrow> bool" where
  "definite JUndefined = False"
| "definite (JArray xs) = list_all definite xs"
| "definite (JObject xs) = (wf_map xs \<and> list_all (\<lambda>(k, v). definite v) xs)"
| "definite _ = True"

inductive same_value :: "js \<Rightarrow> js \<Rightarrow> bool" where
  same: "same_value a a"
| arrays: "length xs = length ys \<Longrightarrow> (\<And>i. i < length xs \<Longrightarrow> same_value (xs ! i) (ys ! i)) \<Longrightarrow> same_value (JArray xs) (JArray ys)"
| objects: "dom (map_get xs) = dom (map_get ys) \<Longrightarrow>
    (\<And>k v w. map_get xs k = Some v \<Longrightarrow> map_get ys k = Some w \<Longrightarrow> same_value v w) \<Longrightarrow> same_value (JObject xs) (JObject ys)"

section \<open>The invariant of a buffer\<close>

definition read_values :: "read_result option list \<Rightarrow> js list" where
  "read_values rs = concat (map (\<lambda>r. case r of Some (RValue v) \<Rightarrow> [v] | _ \<Rightarrow> []) rs)"

lemma read_values_simps [simp]:
  "read_values [] = []" "read_values (rs @ [Some (RValue v)]) = read_values rs @ [v]"
  "read_values (rs @ [Some RDone]) = read_values rs" "read_values (rs @ [Some (RError e)]) = read_values rs"
  "read_values (rs @ [None]) = read_values rs" "read_values (rs @ rs') = read_values rs @ read_values rs'"
  by (simp_all add: read_values_def)

lemma read_values_end [simp]: "read_values (rs @ [Some (the_end h)]) = read_values rs"
  by (simp add: the_end_def read_values_def split: option.split)

text \<open>
  Only one read waits, with nothing buffered and the handler active, and the reads after it were refused.
\<close>

definition buffer_ok :: "update_handler \<Rightarrow> bool" where
  "buffer_ok h =
     (0 < uh_bufferSize h \<and> length (uh_buffer h) \<le> uh_bufferSize h \<and> (uh_error h \<noteq> None \<longrightarrow> uh_completed h) \<and>
      (case uh_waiting h of
         None \<Rightarrow> None \<notin> set (uh_reads h)
       | Some i \<Rightarrow> uh_buffer h = [] \<and> \<not> uh_completed h \<and>
           (\<exists>before refused. uh_reads h = before @ None # replicate refused (Some (RError ConcurrentReads)) \<and> i = length before \<and> None \<notin> set before)))"

lemma buffer_okE:
  assumes "buffer_ok h"
  obtains (idle) "uh_waiting h = None" "None \<notin> set (uh_reads h)"
  | (waiting) before refused where "uh_waiting h = Some (length before)" "uh_reads h = before @ None # replicate refused (Some (RError ConcurrentReads))"
      "None \<notin> set before" "uh_buffer h = []" "\<not> uh_completed h" "uh_error h = None"
  using assms by (auto simp: buffer_ok_def split: option.splits)

lemma no_values_refused [simp]: "read_values (replicate n (Some (RError e))) = []"
  by (induction n) (simp_all add: read_values_def)

section \<open>The life of a buffer\<close>

datatype buffer_op = Offer js | Complete | Fail sub_error | Read | Leave

fun buffer_step :: "buffer_op \<Rightarrow> update_handler \<Rightarrow> update_handler" where
  "buffer_step (Offer v) h = snd (offer v h)"
| "buffer_step Complete h = snd (complete h)"
| "buffer_step (Fail e) h = snd (completeExceptionally e h)"
| "buffer_step Read h = iter_next h"
| "buffer_step Leave h = snd (iter_return h)"

text \<open>The updates the emitter was told were accepted.\<close>

fun accepted_by :: "buffer_op \<Rightarrow> update_handler \<Rightarrow> js list" where
  "accepted_by (Offer v) h = (if fst (offer v h) then [v] else [])"
| "accepted_by _ h = []"

fun accepted :: "buffer_op list \<Rightarrow> update_handler \<Rightarrow> js list" where
  "accepted [] h = []"
| "accepted (op # ops) h = accepted_by op h @ accepted ops (buffer_step op h)"

lemma wake_idle [simp]: "uh_waiting h = None \<Longrightarrow> wake h = h"
  by (simp add: wake_def)

lemma read_values_the_end [simp]: "read_values (Some (the_end h) # rs) = read_values rs"
  by (simp add: read_values_def the_end_def split: option.split)

lemma read_values_Cons [simp]: "read_values (None # rs) = read_values rs" "read_values (Some (RValue v) # rs) = v # read_values rs"
  "read_values (Some (RError e) # rs) = read_values rs"
  by (simp_all add: read_values_def)

lemma wake_fields [simp]:
  "uh_bufferSize (wake h) = uh_bufferSize h" "uh_completed (wake h) = uh_completed h" "uh_error (wake h) = uh_error h" "uh_query (wake h) = uh_query h"
  by (simp_all add: wake_def split: option.split list.split)

lemma offer_keeps:
  assumes "buffer_ok h"
  shows "buffer_ok (snd (offer v h)) \<and>
    read_values (uh_reads (snd (offer v h))) @ uh_buffer (snd (offer v h)) =
      read_values (uh_reads h) @ uh_buffer h @ (if fst (offer v h) then [v] else [])"
  using assms
proof (cases rule: buffer_okE)
  case idle
  then show ?thesis using assms by (auto simp: offer_def buffer_ok_def)
next
  case (waiting before refused)
  then show ?thesis using assms by (auto simp: offer_def buffer_ok_def wake_def)
qed

lemma waiting_ok:
  assumes "0 < uh_bufferSize h" "\<not> uh_completed h" "uh_error h = None" "uh_buffer h = []" "None \<notin> set before"
    "uh_waiting h = Some (length before)" "uh_reads h = before @ None # replicate refused (Some (RError ConcurrentReads))"
  shows "buffer_ok h"
  unfolding buffer_ok_def assms(6) option.case
  by (intro conjI exI [of _ before] exI [of _ refused]) (simp_all add: assms)

lemma ended_keeps:
  assumes "buffer_ok h" "uh_completed h' " "uh_waiting h' = uh_waiting h" "uh_reads h' = uh_reads h" "uh_bufferSize h' = uh_bufferSize h"
    "uh_buffer h' = uh_buffer h \<or> uh_buffer h' = []"
  shows "buffer_ok (wake h') \<and> read_values (uh_reads (wake h')) = read_values (uh_reads h) \<and> uh_buffer (wake h') = uh_buffer h'"
  using assms(1)
proof (cases rule: buffer_okE)
  case idle
  then show ?thesis using assms by (auto simp: buffer_ok_def)
next
  case (waiting before refused)
  then have "uh_buffer h' = []" using assms(6) by auto
  then show ?thesis using assms waiting by (auto simp: buffer_ok_def wake_def)
qed

lemma read_keeps:
  assumes "buffer_ok h"
  shows "buffer_ok (iter_next h) \<and> read_values (uh_reads (iter_next h)) @ uh_buffer (iter_next h) = read_values (uh_reads h) @ uh_buffer h"
  using assms
proof (cases rule: buffer_okE)
  case idle
  show ?thesis
  proof (cases "uh_buffer h = [] \<and> \<not> uh_completed h")
    case True
    with idle assms have "buffer_ok (iter_next h)"
      by (intro waiting_ok [of _ "uh_reads h" 0]) (auto simp: iter_next_def buffer_ok_def)
    with True idle show ?thesis by (simp add: iter_next_def)
  next
    case False
    with idle show ?thesis using assms by (auto simp: iter_next_def buffer_ok_def split: list.split)
  qed
next
  case (waiting before refused)
  have "iter_next h = h\<lparr>uh_reads := uh_reads h @ [Some (RError ConcurrentReads)]\<rparr>" using waiting by (simp add: iter_next_def)
  moreover have "uh_reads h @ [Some (RError ConcurrentReads)] = before @ None # replicate (Suc refused) (Some (RError ConcurrentReads))"
    using waiting by (simp add: replicate_append_same)
  ultimately show ?thesis using assms waiting waiting_ok [of "iter_next h" before "Suc refused"] by (simp add: buffer_ok_def [of h])
qed

lemma buffer_step_keeps:
  assumes "buffer_ok h"
  shows "buffer_ok (buffer_step op h)"
    and "op \<noteq> Leave \<Longrightarrow> read_values (uh_reads (buffer_step op h)) @ uh_buffer (buffer_step op h) = read_values (uh_reads h) @ uh_buffer h @ accepted_by op h"
  using offer_keeps [OF assms] read_keeps [OF assms] ended_keeps [OF assms, of "h\<lparr>uh_completed := True\<rparr>"]
    ended_keeps [OF assms, of "h\<lparr>uh_error := Some _, uh_completed := True\<rparr>"] ended_keeps [OF assms, of "h\<lparr>uh_completed := True, uh_buffer := []\<rparr>"] assms
  by (cases op; auto simp: complete_def completeExceptionally_def iter_return_def)+

lemma leave_values: "buffer_ok h \<Longrightarrow> read_values (uh_reads (buffer_step Leave h)) = read_values (uh_reads h) \<and> uh_buffer (buffer_step Leave h) = []"
  using ended_keeps [of h "h\<lparr>uh_completed := True, uh_buffer := []\<rparr>"] by (simp add: iter_return_def)

lemma completed_stays: "uh_completed h \<Longrightarrow> uh_completed (buffer_step op h) \<and> accepted_by op h = []"
  by (cases op) (auto simp: offer_def complete_def completeExceptionally_def iter_next_def iter_return_def split: list.split)

lemma nothing_accepted_after_end: "uh_completed h \<Longrightarrow> accepted ops h = []"
  by (induction ops arbitrary: h) (simp_all add: completed_stays)

lemma size_stays: "uh_bufferSize (buffer_step op h) = uh_bufferSize h"
  by (cases op) (auto simp: offer_def complete_def completeExceptionally_def iter_next_def iter_return_def split: list.split)

lemma sizes_stay: "uh_bufferSize (fold buffer_step ops h) = uh_bufferSize h"
  by (induction ops arbitrary: h) (simp_all add: size_stays)

lemma steps_keep: "buffer_ok h \<Longrightarrow> buffer_ok (fold buffer_step ops h)"
  by (induction ops arbitrary: h) (simp_all add: buffer_step_keeps)

lemma steps_flow:
  assumes "buffer_ok h"
  shows "\<exists>dropped. read_values (uh_reads h) @ uh_buffer h @ accepted ops h =
      read_values (uh_reads (fold buffer_step ops h)) @ uh_buffer (fold buffer_step ops h) @ dropped \<and> (Leave \<notin> set ops \<longrightarrow> dropped = [])"
  using assms
proof (induction ops arbitrary: h)
  case Nil
  show ?case by simp
next
  case (Cons op ops)
  let ?h = "buffer_step op h"
  from Cons.IH [OF buffer_step_keeps(1) [OF Cons.prems]] obtain dropped where
    d: "read_values (uh_reads ?h) @ uh_buffer ?h @ accepted ops ?h = read_values (uh_reads (fold buffer_step ops ?h)) @ uh_buffer (fold buffer_step ops ?h) @ dropped"
      "Leave \<notin> set ops \<longrightarrow> dropped = []" by blast
  show ?case
  proof (cases "op = Leave")
    case True
    have "accepted ops ?h = []" by (rule nothing_accepted_after_end) (simp add: True iter_return_def)
    with d(1) leave_values [OF Cons.prems] True have "read_values (uh_reads h) @ uh_buffer h @ accepted (op # ops) h =
        read_values (uh_reads (fold buffer_step ops ?h)) @ uh_buffer (fold buffer_step ops ?h) @ (dropped @ uh_buffer h)" by simp
    with True show ?thesis by auto
  next
    case False
    from d buffer_step_keeps(2) [OF Cons.prems False] have "read_values (uh_reads h) @ uh_buffer h @ accepted (op # ops) h =
        read_values (uh_reads (fold buffer_step ops ?h)) @ uh_buffer (fold buffer_step ops ?h) @ dropped"
      by (metis accepted.simps(2) append.assoc)
    with d(2) False show ?thesis by auto
  qed
qed

lemma updateHandler_ok: "updateHandler q bufferSize = Inr h \<Longrightarrow> buffer_ok h \<and> uh_reads h = [] \<and> uh_buffer h = [] \<and> \<not> uh_completed h \<and> uh_query h = q"
  by (auto simp: updateHandler_def buffer_ok_def Let_def split: if_splits)

text \<open>
  C20: Whatever an emitter and a subscriber do with a new buffer, in any order: the values the reads got so far, in the order of the reads,
  followed by what is buffered, are the accepted updates in the order they were offered, and only a subscriber that leaves drops any.
  The buffer never holds more than its size. A read waits only while nothing is buffered and the subscription is open.
\<close>
theorem subscriber_reads_accepted_updates:
  assumes "updateHandler q bufferSize = Inr h0"
  shows "let h = fold buffer_step ops h0 in
    length (uh_buffer h) \<le> uh_bufferSize h0 \<and>
    (None \<in> set (uh_reads h) \<longrightarrow> uh_buffer h = [] \<and> active h) \<and>
    (\<exists>dropped. accepted ops h0 = read_values (uh_reads h) @ uh_buffer h @ dropped \<and> (Leave \<notin> set ops \<longrightarrow> dropped = []))"
proof -
  note new = updateHandler_ok [OF assms]
  have ok: "buffer_ok (fold buffer_step ops h0)" using steps_keep new by blast
  then have "length (uh_buffer (fold buffer_step ops h0)) \<le> uh_bufferSize h0" using sizes_stay [of ops h0] by (simp add: buffer_ok_def)
  moreover have "None \<in> set (uh_reads (fold buffer_step ops h0)) \<longrightarrow> uh_buffer (fold buffer_step ops h0) = [] \<and> active (fold buffer_step ops h0)"
    using ok by (cases rule: buffer_okE) (simp_all add: active_def)
  ultimately show ?thesis using steps_flow [of h0 ops] new by (simp add: Let_def)
qed

definition price_query :: query_message where
  "price_query = \<lparr>qm_identifier = ''q1'', qm_name = qn ''shop'' ''GetPrice'', qm_payload = JObject [(''sku'', JString ''a'')], qm_metadata = [], qm_timestamp = None\<rparr>"

theorem subscriber_reads_accepted_updates_witness:
  "\<exists>h0. updateHandler price_query (Some 2) = Inr h0 \<and>
     (let ops = [Read, Read, Offer (JNumber 1), Offer (JNumber 2), Offer (JNumber 3), Offer (JNumber 4), Complete, Read]; h = fold buffer_step ops h0
      in read_values (uh_reads h) = [JNumber 1, JNumber 2] \<and> uh_buffer h = [JNumber 3] \<and>
         accepted ops h0 = read_values (uh_reads h) @ uh_buffer h)"
proof -
  obtain h0 where h0: "updateHandler price_query (Some 2) = Inr h0" by (simp add: updateHandler_def MAX_SAFE_INTEGER_def)
  let ?ops = "[Read, Read, Offer (JNumber 1), Offer (JNumber 2), Offer (JNumber 3), Offer (JNumber 4), Complete, Read]"
  let ?h = "fold buffer_step ?ops h0"
  from h0 have "h0 = \<lparr>uh_query = price_query, uh_bufferSize = 2, uh_buffer = [], uh_completed = False, uh_error = None, uh_waiting = None, uh_reads = []\<rparr>"
    by (simp add: updateHandler_def MAX_SAFE_INTEGER_def)
  then have "read_values (uh_reads ?h) = [JNumber 1, JNumber 2] \<and> uh_buffer ?h = [JNumber 3]"
    by (simp add: iter_next_def offer_def complete_def wake_def read_values_def)
  with subscriber_reads_accepted_updates [OF h0, of ?ops] h0 show ?thesis by (auto simp: Let_def)
qed

section \<open>What a structured filter compares\<close>

inductive_cases same_array: "same_value (JArray xs) (JArray ys)"
inductive_cases same_object: "same_value (JObject xs) (JObject ys)"

lemma same_array_iff: "same_value (JArray xs) (JArray ys) \<longleftrightarrow> length xs = length ys \<and> (\<forall>i < length xs. same_value (xs ! i) (ys ! i))"
  by (auto elim: same_array intro: same arrays)

lemma same_object_iff:
  "same_value (JObject xs) (JObject ys) \<longleftrightarrow>
     dom (map_get xs) = dom (map_get ys) \<and> (\<forall>k v w. map_get xs k = Some v \<longrightarrow> map_get ys k = Some w \<longrightarrow> same_value v w)"
  by (auto elim!: same_object intro: same objects)

lemma wf_length: "wf_map m \<Longrightarrow> length m = card (dom (map_get m))"
  by (simp add: dom_map_of_conv_image_fst distinct_card flip: set_map)

lemma not_undefined: "definite v \<Longrightarrow> \<not> deepEqual v JUndefined"
  by (cases v) simp_all

lemma deepEqual_object:
  assumes "definite (JObject xs)" "definite (JObject ys)"
    and "\<And>k v w. map_get xs k = Some v \<Longrightarrow> map_get ys k = Some w \<Longrightarrow> deepEqual v w = same_value v w"
  shows "deepEqual (JObject xs) (JObject ys) = same_value (JObject xs) (JObject ys)"
proof -
  have wf: "wf_map xs" "wf_map ys" using assms by simp_all
  have mem: "(k, v) \<in> set xs \<longleftrightarrow> map_get xs k = Some v" for k v using wf(1) by (simp add: map_of_eq_Some_iff)
  have vals: "definite v" if "map_get xs k = Some v" for k v
    using assms(1) mem that by (auto simp: list_all_iff)
  have "deepEqual (JObject xs) (JObject ys) \<longleftrightarrow>
      length xs = length ys \<and> (\<forall>k v. map_get xs k = Some v \<longrightarrow> deepEqual v (property_of ys k))"
    by (auto simp: list_all_iff mem)
  also have "\<dots> \<longleftrightarrow> length xs = length ys \<and> (\<forall>k v. map_get xs k = Some v \<longrightarrow> (\<exists>w. map_get ys k = Some w \<and> same_value v w))"
    using vals not_undefined assms(3) by (fastforce simp: property_of_def split: option.splits)
  also have "\<dots> \<longleftrightarrow> dom (map_get xs) = dom (map_get ys) \<and> (\<forall>k v w. map_get xs k = Some v \<longrightarrow> map_get ys k = Some w \<longrightarrow> same_value v w)"
  proof
    assume l: "length xs = length ys \<and> (\<forall>k v. map_get xs k = Some v \<longrightarrow> (\<exists>w. map_get ys k = Some w \<and> same_value v w))"
    then have "dom (map_get xs) \<subseteq> dom (map_get ys)" by blast
    then have "dom (map_get xs) = dom (map_get ys)" using l wf by (intro card_subset_eq) (simp_all add: wf_length finite_dom_map_of)
    with l show "dom (map_get xs) = dom (map_get ys) \<and> (\<forall>k v w. map_get xs k = Some v \<longrightarrow> map_get ys k = Some w \<longrightarrow> same_value v w)"
      by (metis option.inject)
  next
    assume d: "dom (map_get xs) = dom (map_get ys) \<and> (\<forall>k v w. map_get xs k = Some v \<longrightarrow> map_get ys k = Some w \<longrightarrow> same_value v w)"
    then have "length xs = length ys" using wf by (simp add: wf_length)
    moreover have "\<exists>w. map_get ys k = Some w \<and> same_value v w" if "map_get xs k = Some v" for k v
      using d that by (metis domD domI)
    ultimately show "length xs = length ys \<and> (\<forall>k v. map_get xs k = Some v \<longrightarrow> (\<exists>w. map_get ys k = Some w \<and> same_value v w))"
      by blast
  qed
  finally show ?thesis by (simp add: same_object_iff)
qed

lemma deepEqual_exact: "definite a \<Longrightarrow> definite b \<Longrightarrow> deepEqual a b \<longleftrightarrow> same_value a b"
proof (induction a b rule: deepEqual.induct)
  case (1 xs ys)
  then have "deepEqual (xs ! i) (ys ! i) = same_value (xs ! i) (ys ! i)" if "length xs = length ys" "i < length xs" for i
    using that by (force simp: list_all_iff set_zip)
  moreover have "deepEqual (JArray xs) (JArray ys) \<longleftrightarrow> length xs = length ys \<and> (\<forall>i < length xs. deepEqual (xs ! i) (ys ! i))"
    by (auto simp: list_all_length)
  ultimately show ?case unfolding same_array_iff by blast
next
  case (2 xs ys)
  show ?case
  proof (rule deepEqual_object [OF 2(2,3)])
    fix k v w
    assume m: "map_get xs k = Some v" "map_get ys k = Some w"
    then have "(k, v) \<in> set xs" "property_of ys k = w" "(k, w) \<in> set ys" by (auto simp: property_of_def dest: map_of_SomeD)
    with 2 show "deepEqual v w = same_value v w" by (fastforce simp: list_all_iff)
  qed
qed (auto elim: same_value.cases intro: same)

end
