(* ===== verification/Subscription_Bus.thy ===== *)
theory Subscription_Bus
  imports Update_Buffer Unit_Of_Work
begin

text \<open>
  The local query bus (\<open>query-handling/local-bus.ts\<close>) with its subscriptions, the verbs that reach it from a context
  (\<open>emit-update.ts\<close>, \<open>query.ts\<close>) and the deferral of updates to the commit (\<open>runAfterCommitOrImmediately\<close>).

  A subscriber keeps its handler after the bus has forgotten it, so the handlers are objects: \<open>bs_objects\<close> lists them in the order
  they were made, and the map of subscriptions holds their numbers. A subscription query also has its initial result, a promise.
  The handler of a query answers later; \<open>initial_settles\<close> is the moment it does.
\<close>

section \<open>State\<close>

datatype initial_result = InitPending | InitResolved js | InitRejected sub_error

record subscription =
  sb_handler :: update_handler
  sb_queryId :: string
  sb_initial :: "initial_result option"

record bus_state =
  bs_subscriptions :: "(string, nat) jsmap"
  bs_objects :: "subscription list"
  bs_now :: int

definition localQueryBus :: "int \<Rightarrow> bus_state" where
  "localQueryBus now = \<lparr>bs_subscriptions = [], bs_objects = [], bs_now = now\<rparr>"

abbreviation the_sub :: "nat \<Rightarrow> bus_state \<Rightarrow> subscription" where
  "the_sub r b \<equiv> bs_objects b ! r"

abbreviation sub_handler :: "nat \<Rightarrow> bus_state \<Rightarrow> update_handler" where
  "sub_handler r b \<equiv> sb_handler (bs_objects b ! r)"

definition set_handler :: "nat \<Rightarrow> update_handler \<Rightarrow> bus_state \<Rightarrow> bus_state" where
  "set_handler r h b = b\<lparr>bs_objects := (bs_objects b)[r := (the_sub r b)\<lparr>sb_handler := h\<rparr>]\<rparr>"

definition unregister :: "string \<Rightarrow> bus_state \<Rightarrow> bus_state" where
  "unregister i b = b\<lparr>bs_subscriptions := map_delete i (bs_subscriptions b)\<rparr>"

text \<open>The initial result of a subscription is rejected when it closes first.\<close>

definition closeInitial :: "nat \<Rightarrow> bus_state \<Rightarrow> bus_state" where
  "closeInitial r b =
     (if sb_initial (the_sub r b) = Some InitPending
      then b\<lparr>bs_objects := (bs_objects b)[r := (the_sub r b)\<lparr>sb_initial := Some (InitRejected InitialClosed)\<rparr>]\<rparr> else b)"

definition onClose :: "nat \<Rightarrow> bus_state \<Rightarrow> bus_state" where
  "onClose r b = closeInitial r (unregister (sb_queryId (the_sub r b)) b)"

text \<open>The operations of a handler, with the callback it was made with.\<close>

definition after_close :: "nat \<Rightarrow> bool \<times> update_handler \<Rightarrow> bus_state \<Rightarrow> bus_state" where
  "after_close r res b = (case res of (closed, h) \<Rightarrow> let b' = set_handler r h b in if closed then onClose r b' else b')"

definition sub_complete :: "nat \<Rightarrow> bus_state \<Rightarrow> bus_state" where
  "sub_complete r b = after_close r (complete (sub_handler r b)) b"

definition sub_fail :: "nat \<Rightarrow> sub_error \<Rightarrow> bus_state \<Rightarrow> bus_state" where
  "sub_fail r e b = after_close r (completeExceptionally e (sub_handler r b)) b"

definition sub_return :: "nat \<Rightarrow> bus_state \<Rightarrow> bus_state" where
  "sub_return r b = after_close r (iter_return (sub_handler r b)) b"

definition sub_next :: "nat \<Rightarrow> bus_state \<Rightarrow> bus_state" where
  "sub_next r b = set_handler r (iter_next (sub_handler r b)) b"

section \<open>Subscribing\<close>

definition query_withInstant :: "query_message \<Rightarrow> int \<Rightarrow> query_message" where
  "query_withInstant m instant = (if qm_timestamp m = None then m\<lparr>qm_timestamp := Some instant\<rparr> else m)"

definition register_subscription :: "initial_result option \<Rightarrow> query_message \<Rightarrow> int option \<Rightarrow> bus_state \<Rightarrow> (sub_error + nat) \<times> bus_state" where
  "register_subscription initial unstamped bufferSize b =
     (let message = query_withInstant unstamped (bs_now b); queryId = qm_identifier message
      in if map_get (bs_subscriptions b) queryId \<noteq> None then (Inl (AlreadySubscribed queryId), b)
         else if length (bs_subscriptions b) \<ge> 1024 then (Inl CapacityExhausted, b)
         else (case updateHandler message bufferSize of
                 Inl e \<Rightarrow> (Inl e, b)
               | Inr h \<Rightarrow>
                   (let r = length (bs_objects b)
                    in (Inr r, b\<lparr>bs_objects := bs_objects b @ [\<lparr>sb_handler = h, sb_queryId = queryId, sb_initial = initial\<rparr>],
                                 bs_subscriptions := map_set queryId r (bs_subscriptions b)\<rparr>))))"

definition subscriptionQuery :: "query_message \<Rightarrow> int option \<Rightarrow> bus_state \<Rightarrow> (sub_error + nat) \<times> bus_state" where
  "subscriptionQuery = register_subscription (Some InitPending)"

definition subscribeToUpdates :: "query_message \<Rightarrow> int option \<Rightarrow> bus_state \<Rightarrow> (sub_error + nat) \<times> bus_state" where
  "subscribeToUpdates = register_subscription None"

text \<open>The query behind the initial result is answered.\<close>

definition initial_settles :: "nat \<Rightarrow> sub_error + js \<Rightarrow> bus_state \<Rightarrow> bus_state" where
  "initial_settles r outcome b =
     (if sb_initial (the_sub r b) \<noteq> Some InitPending then b
      else (case outcome of
              Inr v \<Rightarrow> b\<lparr>bs_objects := (bs_objects b)[r := (the_sub r b)\<lparr>sb_initial := Some (InitResolved v)\<rparr>]\<rparr>
            | Inl e \<Rightarrow> sub_fail r e (b\<lparr>bs_objects := (bs_objects b)[r := (the_sub r b)\<lparr>sb_initial := Some (InitRejected e)\<rparr>]\<rparr>)))"

text \<open>\<open>close\<close> of a subscription.\<close>

definition sub_close :: "nat \<Rightarrow> bus_state \<Rightarrow> bus_state" where
  "sub_close r b = sub_complete r (unregister (sb_queryId (the_sub r b)) b)"

section \<open>Updates\<close>

definition query_name_of :: "nat \<Rightarrow> bus_state \<Rightarrow> string" where
  "query_name_of r b = qualifiedNameToString (qm_name (uh_query (sub_handler r b)))"

definition filter_of :: "sub_filter \<Rightarrow> nat \<Rightarrow> bus_state \<Rightarrow> sub_error + bool" where
  "filter_of f r b = (case applySubscriptionFilter f (qm_payload (uh_query (sub_handler r b))) of Inl e \<Rightarrow> Inl (GivenError e) | Inr m \<Rightarrow> Inr m)"

definition optional_filter :: "sub_filter option \<Rightarrow> nat \<Rightarrow> bus_state \<Rightarrow> sub_error + bool" where
  "optional_filter f r b = (case f of None \<Rightarrow> Inr True | Some g \<Rightarrow> filter_of g r b)"

text \<open>One round of the loop of \<open>emitUpdate\<close>; a filter that throws ends the loop.\<close>

definition emit_one :: "string \<Rightarrow> sub_filter \<Rightarrow> js \<Rightarrow> string \<times> nat \<Rightarrow> bus_state \<Rightarrow> sub_error option \<times> bus_state" where
  "emit_one queryName f update entry b =
     (case entry of (i, r) \<Rightarrow>
        if \<not> active (sub_handler r b) then (None, unregister i b)
        else if query_name_of r b \<noteq> queryName then (None, b)
        else (case filter_of f r b of
                Inl e \<Rightarrow> (Some e, b)
              | Inr False \<Rightarrow> (None, b)
              | Inr True \<Rightarrow>
                  (case offer update (sub_handler r b) of
                     (True, h) \<Rightarrow> (None, set_handler r h b)
                   | (False, h) \<Rightarrow> (None, unregister i (sub_fail r BufferOverflow (set_handler r h b))))))"

text \<open>The rounds of \<open>completeSubscription\<close> and \<open>completeSubscriptionExceptionally\<close>.\<close>

definition end_one :: "(nat \<Rightarrow> bus_state \<Rightarrow> bus_state) \<Rightarrow> string \<Rightarrow> sub_filter option \<Rightarrow> string \<times> nat \<Rightarrow> bus_state \<Rightarrow> sub_error option \<times> bus_state" where
  "end_one finish queryName f entry b =
     (case entry of (i, r) \<Rightarrow>
        if query_name_of r b \<noteq> queryName then (None, b)
        else (case optional_filter f r b of
                Inl e \<Rightarrow> (Some e, b)
              | Inr False \<Rightarrow> (None, b)
              | Inr True \<Rightarrow> (None, unregister i (finish r b))))"

text \<open>
  A \<open>for\<close> loop over the subscriptions. A round removes at most its own entry, so the loop visits the entries the map had at its start.
\<close>

fun loop_over :: "('x \<Rightarrow> 'b \<Rightarrow> 'e option \<times> 'b) \<Rightarrow> 'x list \<Rightarrow> 'b \<Rightarrow> 'e option \<times> 'b" where
  "loop_over body [] b = (None, b)"
| "loop_over body (x # xs) b = (case body x b of (Some e, b') \<Rightarrow> (Some e, b') | (None, b') \<Rightarrow> loop_over body xs b')"

datatype update_task =
    EmitTask string sub_filter js
  | CompleteTask string "sub_filter option"
  | FailTask string sub_error "sub_filter option"

fun run_update_task :: "update_task \<Rightarrow> bus_state \<Rightarrow> sub_error option \<times> bus_state" where
  "run_update_task (EmitTask queryName f update) b = loop_over (emit_one queryName f update) (bs_subscriptions b) b"
| "run_update_task (CompleteTask queryName f) b = loop_over (end_one sub_complete queryName f) (bs_subscriptions b) b"
| "run_update_task (FailTask queryName e f) b = loop_over (end_one (\<lambda>r. sub_fail r e) queryName f) (bs_subscriptions b) b"

section \<open>Queries\<close>

text \<open>
  A registered handler of queries is a closure with its identity. Every query is a task of its own. The world, the clock and the other
  closures of the task are the host's.
\<close>

type_synonym ('a, 'h, 'w) query_entry = "nat \<times> (query_message \<Rightarrow> ('a, 'h, 'w) uow \<Rightarrow> (sub_error + js) \<times> ('a, 'h, 'w) uow)"

definition query_subscribe :: "string \<Rightarrow> ('a, 'h, 'w) query_entry \<Rightarrow> (string, ('a, 'h, 'w) query_entry) jsmap \<Rightarrow> sub_error + (string, ('a, 'h, 'w) query_entry) jsmap" where
  "query_subscribe queryName handler handlers =
     (case map_get handlers queryName of
        Some existing \<Rightarrow> if fst existing \<noteq> fst handler then Inl (OtherQueryHandler queryName) else Inr (map_set queryName handler handlers)
      | None \<Rightarrow> Inr (map_set queryName handler handlers))"

fun subscribeQueryHandlers ::
  "(qualified_name \<times> ('a, 'h, 'w) query_entry) list \<Rightarrow> (string, ('a, 'h, 'w) query_entry) jsmap \<Rightarrow> sub_error + (string, ('a, 'h, 'w) query_entry) jsmap" where
  "subscribeQueryHandlers [] handlers = Inr handlers"
| "subscribeQueryHandlers ((name, h) # rest) handlers =
     bind_result (query_subscribe (qualifiedNameToString name) h handlers) (subscribeQueryHandlers rest)"

definition bus_query ::
  "('a \<Rightarrow> ('a, 'h, 'w) uow \<Rightarrow> sub_error option \<times> ('a, 'h, 'w) uow) \<Rightarrow>
   ('h \<Rightarrow> sub_error \<Rightarrow> phase option \<Rightarrow> ('a, 'h, 'w) uow \<Rightarrow> ('a, 'h, 'w) uow) \<Rightarrow> ('h \<Rightarrow> ('a, 'h, 'w) uow \<Rightarrow> ('a, 'h, 'w) uow) \<Rightarrow> ('w \<Rightarrow> int) \<Rightarrow>
   (string, ('a, 'h, 'w) query_entry) jsmap \<Rightarrow> query_message \<Rightarrow> 'w \<Rightarrow> uow_error + ((sub_error + js) \<times> ('a, 'h, 'w) uow) option" where
  "bus_query act onErr onDone now handlers message w =
     (let key = qualifiedNameToString (qm_name message)
      in case map_get handlers key of
           None \<Rightarrow> Inr (Some (Inl (NoQueryHandler key), unitOfWork w))
         | Some (_, handler) \<Rightarrow>
             execute act onErr onDone (\<lambda>opened. handler (query_withInstant message (now (uw_world opened))) opened) (unitOfWork w))"

text \<open>The two births of a query: at the edge with no instant, in a handler with the task's.\<close>

definition edge_query :: "string \<Rightarrow> qualified_name \<Rightarrow> js \<Rightarrow> metadata option \<Rightarrow> query_message" where
  "edge_query ident name payload md =
     \<lparr>qm_identifier = ident, qm_name = name, qm_payload = payload, qm_metadata = (case md of None \<Rightarrow> emptyMetadata | Some m \<Rightarrow> m), qm_timestamp = None\<rparr>"

datatype emit_error = EmitRefused uow_error | EmitThrew sub_error

definition ctx_query ::
  "(query_message \<Rightarrow> 'r) option \<Rightarrow> string \<Rightarrow> int \<Rightarrow> qualified_name \<Rightarrow> js \<Rightarrow> metadata option \<Rightarrow> ('a, 'h, 'w) uow \<Rightarrow> emit_error + 'r" where
  "ctx_query bus ident now name payload md u =
     (case requireInvocation u of
        Inl e \<Rightarrow> Inl (EmitRefused e)
      | Inr _ \<Rightarrow> (case bus of None \<Rightarrow> Inl (EmitThrew NoQueryBus) | Some ask \<Rightarrow> Inr (ask ((edge_query ident name payload md)\<lparr>qm_timestamp := Some now\<rparr>))))"

section \<open>Updates of a task\<close>

record sub_world =
  tw_bus :: bus_state
  tw_tasks :: "update_task list option"

datatype sub_action = RunUpdateTasks

type_synonym sub_uow = "(sub_action, unit, sub_world) uow"

definition runAfterCommitOrImmediately :: "update_task \<Rightarrow> sub_uow \<Rightarrow> sub_error option \<times> sub_uow" where
  "runAfterCommitOrImmediately t u =
     (let w = uw_world u
      in if uw_closed u then (case run_update_task t (tw_bus w) of (e, b) \<Rightarrow> (e, u\<lparr>uw_world := w\<lparr>tw_bus := b\<rparr>\<rparr>))
         else (None, case tw_tasks w of
                 None \<Rightarrow> onAfterCommit RunUpdateTasks (u\<lparr>uw_world := w\<lparr>tw_tasks := Some [t]\<rparr>\<rparr>)
               | Some ts \<Rightarrow> u\<lparr>uw_world := w\<lparr>tw_tasks := Some (ts @ [t])\<rparr>\<rparr>))"

fun sub_act :: "sub_action \<Rightarrow> sub_uow \<Rightarrow> sub_error option \<times> sub_uow" where
  "sub_act RunUpdateTasks u =
     (case loop_over run_update_task (case tw_tasks (uw_world u) of None \<Rightarrow> [] | Some ts \<Rightarrow> ts) (tw_bus (uw_world u)) of
        (e, b) \<Rightarrow> (e, u\<lparr>uw_world := (uw_world u)\<lparr>tw_bus := b\<rparr>\<rparr>))"

text \<open>\<open>ctx.emitUpdate\<close>; the entry has no bus, one without the capability, or one with it.\<close>

definition emitUpdateFunction :: "bool option \<Rightarrow> qualified_name \<Rightarrow> sub_filter \<Rightarrow> js \<Rightarrow> sub_uow \<Rightarrow> emit_error option \<times> sub_uow" where
  "emitUpdateFunction queryBus name f update u =
     (case requireInvocation u of
        Inl e \<Rightarrow> (Some (EmitRefused e), u)
      | Inr _ \<Rightarrow>
          (case queryBus of
             None \<Rightarrow> (Some (EmitThrew NoQueryBus), u)
           | Some capable \<Rightarrow>
               if \<not> capable then (Some (EmitThrew NotSubscriptionCapable), u)
               else (None, snd (runAfterCommitOrImmediately (EmitTask (qualifiedNameToString name) f update) u))))"

text \<open>What anybody may do to the bus at any moment, a handler's task aside.\<close>

datatype bus_op =
    SubscribeQuery query_message "int option"
  | SubscribeUpdates query_message "int option"
  | ReadNext nat
  | LeaveLoop nat
  | CloseSub nat
  | Settle nat "sub_error + js"
  | RunNow update_task
  | Tick nat

fun bus_step :: "bus_op \<Rightarrow> bus_state \<Rightarrow> bus_state" where
  "bus_step (SubscribeQuery m n) b = snd (subscriptionQuery m n b)"
| "bus_step (SubscribeUpdates m n) b = snd (subscribeToUpdates m n b)"
| "bus_step (ReadNext r) b = (if r < length (bs_objects b) then sub_next r b else b)"
| "bus_step (LeaveLoop r) b = (if r < length (bs_objects b) then sub_return r b else b)"
| "bus_step (CloseSub r) b = (if r < length (bs_objects b) then sub_close r b else b)"
| "bus_step (Settle r outcome) b = (if r < length (bs_objects b) then initial_settles r outcome b else b)"
| "bus_step (RunNow t) b = snd (run_update_task t b)"
| "bus_step (Tick ms) b = b\<lparr>bs_now := bs_now b + int ms\<rparr>"

text \<open>What happens during a task: its handler emits or ends subscriptions, and others use the bus while it waits.\<close>

datatype sub_op = SubEmit qualified_name sub_filter js | SubDefer update_task | SubMeanwhile bus_op

fun run_sub_op :: "sub_op \<Rightarrow> sub_uow \<Rightarrow> sub_uow" where
  "run_sub_op (SubEmit name f update) u = snd (emitUpdateFunction (Some True) name f update u)"
| "run_sub_op (SubDefer t) u = snd (runAfterCommitOrImmediately t u)"
| "run_sub_op (SubMeanwhile s) u = u\<lparr>uw_world := (uw_world u)\<lparr>tw_bus := bus_step s (tw_bus (uw_world u))\<rparr>\<rparr>"

definition sub_task :: "sub_op list \<Rightarrow> sub_error option \<Rightarrow> bus_state \<Rightarrow> ((sub_error + unit) \<times> bus_state) option" where
  "sub_task ops throws b =
     (case execute sub_act (\<lambda>_ _ _ u. u) (\<lambda>_ u. u)
             (\<lambda>u. (case throws of None \<Rightarrow> Inr () | Some e \<Rightarrow> Inl e, fold run_sub_op ops u)) (unitOfWork \<lparr>tw_bus = b, tw_tasks = None\<rparr>) of
        Inr (Some (r, u)) \<Rightarrow> Some (r, tw_bus (uw_world u))
      | _ \<Rightarrow> None)"

fun deferred :: "sub_op list \<Rightarrow> update_task list" where
  "deferred [] = []"
| "deferred (SubEmit name f update # ops) = EmitTask (qualifiedNameToString name) f update # deferred ops"
| "deferred (SubDefer t # ops) = t # deferred ops"
| "deferred (SubMeanwhile s # ops) = deferred ops"

fun meanwhile_ops :: "sub_op list \<Rightarrow> bus_op list" where
  "meanwhile_ops [] = []"
| "meanwhile_ops (SubMeanwhile s # ops) = s # meanwhile_ops ops"
| "meanwhile_ops (_ # ops) = meanwhile_ops ops"

text \<open>The unit of work as the handler sees it, with some updates put off.\<close>

definition sub_body :: "update_task list \<Rightarrow> bus_state \<Rightarrow> sub_uow" where
  "sub_body ts b =
     (let u = (unitOfWork \<lparr>tw_bus = b, tw_tasks = if ts = [] then None else Some ts\<rparr>)\<lparr>uw_status := Started, uw_phase := Some INVOCATION\<rparr>
      in if ts = [] then u else onAfterCommit RunUpdateTasks u)"

lemma sub_body_fields [simp]:
  "uw_closed (sub_body ts b) = False" "uw_phase (sub_body ts b) = Some INVOCATION"
  "uw_world (sub_body ts b) = \<lparr>tw_bus = b, tw_tasks = if ts = [] then None else Some ts\<rparr>"
  "uw_errorHandlers (sub_body ts b) = []" "uw_completeHandlers (sub_body ts b) = []"
  "bucket p (sub_body ts b) = (if p = AFTER_COMMIT \<and> ts \<noteq> [] then [RunUpdateTasks] else [])"
  by (simp_all add: sub_body_def Let_def unitOfWork_def onAfterCommit_def bucket_on_phase) (simp_all add: on_phase_def bucket_def)

lemma defer_body: "runAfterCommitOrImmediately t (sub_body ts b) = (None, sub_body (ts @ [t]) b)"
  by (simp add: runAfterCommitOrImmediately_def Let_def) (simp add: sub_body_def Let_def unitOfWork_def onAfterCommit_def on_phase_def bucket_def)

lemma ops_body: "fold run_sub_op ops (sub_body ts b) = sub_body (ts @ deferred ops) (fold bus_step (meanwhile_ops ops) b)"
proof (induction ops arbitrary: ts b)
  case (Cons op ops)
  show ?case
  proof (cases op)
    case (SubEmit name f update)
    then show ?thesis using Cons by (simp add: emitUpdateFunction_def requireInvocation_def defer_body)
  next
    case (SubDefer t)
    then show ?thesis using Cons by (simp add: defer_body)
  next
    case (SubMeanwhile s)
    have "run_sub_op op (sub_body ts b) = sub_body ts (bus_step s b)"
      unfolding SubMeanwhile by (simp add: sub_body_def Let_def unitOfWork_def onAfterCommit_def on_phase_def bucket_def)
    then show ?thesis using Cons SubMeanwhile by simp
  qed
qed simp

lemma no_error_handlers: "uw_errorHandlers u = [] \<Longrightarrow> notify_errors onErr e p i u = Some u"
  by (subst notify_errors.simps) simp

lemma after_commit_runs:
  fixes b :: bus_state
  assumes "u = (sub_body ts b)\<lparr>uw_phase := p\<rparr>"
  shows "\<exists>u'. runPhase sub_act AFTER_COMMIT u = Some (fst (loop_over run_update_task ts b), u') \<and> tw_bus (uw_world u') = snd (loop_over run_update_task ts b) \<and> uw_errorHandlers u' = []"
proof (cases "ts = []")
  case True
  then show ?thesis using assms by (simp add: runPhase_empty)
next
  case False
  let ?u = "u\<lparr>uw_phase := Some AFTER_COMMIT, uw_phaseActions := map_set AFTER_COMMIT [] (uw_phaseActions u),
      uw_calls := uw_calls u @ [(AFTER_COMMIT, RunUpdateTasks)]\<rparr>"
  obtain e b' where run: "loop_over run_update_task ts b = (e, b')" by fastforce
  have act: "sub_act RunUpdateTasks ?u = (e, ?u\<lparr>uw_world := (uw_world u)\<lparr>tw_bus := b'\<rparr>\<rparr>)" using False assms run by simp
  have one: "bucket AFTER_COMMIT u = [RunUpdateTasks]" using False assms by simp
  from runPhase_single [where act = sub_act, OF one act] have "runPhase sub_act AFTER_COMMIT u = Some (e, ?u\<lparr>uw_world := (uw_world u)\<lparr>tw_bus := b'\<rparr>\<rparr>)"
    by (simp add: bucket_def)
  with run assms show ?thesis by simp
qed


section \<open>The invariant of the bus\<close>

text \<open>
  What is registered is an open subscription under its own identifier, and a subscription that is closed has settled its initial result.
\<close>

definition sub_ok :: "subscription \<Rightarrow> bool" where
  "sub_ok s = (buffer_ok (sb_handler s) \<and> (active (sb_handler s) \<or> sb_initial s \<noteq> Some InitPending))"

definition registered_ok :: "bus_state \<Rightarrow> bool" where
  "registered_ok b = (\<forall>i r. map_get (bs_subscriptions b) i = Some r \<longrightarrow>
     r < length (bs_objects b) \<and> sb_queryId (the_sub r b) = i \<and> active (sub_handler r b))"

definition bus_ok :: "bus_state \<Rightarrow> bool" where
  "bus_ok b = (wf_map (bs_subscriptions b) \<and> length (bs_subscriptions b) \<le> 1024 \<and> registered_ok b \<and> (\<forall>s \<in> set (bs_objects b). sub_ok s))"

lemma put_objects_ok: "bus_ok b \<Longrightarrow> sub_ok x \<Longrightarrow> \<forall>s \<in> set ((bs_objects b)[r := x]). sub_ok s"
  using set_update_subset_insert [of "bs_objects b" r x] by (auto simp: bus_ok_def)

lemma unregister_ok: "bus_ok b \<Longrightarrow> bus_ok (unregister i b)"
  using length_delete_le [of i "bs_subscriptions b"] by (auto simp: bus_ok_def registered_ok_def unregister_def distinct_delete)

lemma after_close_ok:
  assumes "bus_ok b" "r < length (bs_objects b)" "buffer_ok h" "uh_completed h" "closed = active (sub_handler r b)"
  shows "bus_ok (after_close r (closed, h) b)"
proof (cases closed)
  case True
  let ?s = "the_sub r b"
  let ?i = "if sb_initial ?s = Some InitPending then Some (InitRejected InitialClosed) else sb_initial ?s"
  let ?b = "b\<lparr>bs_objects := (bs_objects b)[r := ?s\<lparr>sb_handler := h, sb_initial := ?i\<rparr>], bs_subscriptions := map_delete (sb_queryId ?s) (bs_subscriptions b)\<rparr>"
  have eq: "after_close r (closed, h) b = ?b"
    using True assms(2) by (auto simp: after_close_def set_handler_def onClose_def closeInitial_def unregister_def Let_def)
  have "sub_ok (?s\<lparr>sb_handler := h, sb_initial := ?i\<rparr>)" using assms(3) by (simp add: sub_ok_def)
  from put_objects_ok [OF assms(1) this, of r] have "\<forall>s \<in> set (bs_objects ?b). sub_ok s" by simp
  moreover have "registered_ok ?b" using assms(1,2) by (auto simp: bus_ok_def registered_ok_def nth_list_update)
  ultimately show ?thesis unfolding eq using assms(1) length_delete_le [of "sb_queryId ?s" "bs_subscriptions b"] by (simp add: bus_ok_def distinct_delete)
next
  case False
  let ?s = "the_sub r b"
  have "sub_ok ?s" using assms(1,2) by (simp add: bus_ok_def)
  then have "sub_ok (?s\<lparr>sb_handler := h\<rparr>)" using assms(3,5) False by (simp add: sub_ok_def)
  from put_objects_ok [OF assms(1) this] have "\<forall>s \<in> set ((bs_objects b)[r := ?s\<lparr>sb_handler := h\<rparr>]). sub_ok s" .
  moreover have "registered_ok (set_handler r h b)"
    using assms False by (auto simp: bus_ok_def registered_ok_def set_handler_def nth_list_update)
  ultimately show ?thesis using assms(1) False by (simp add: after_close_def set_handler_def bus_ok_def Let_def)
qed

lemma object_ok: "bus_ok b \<Longrightarrow> r < length (bs_objects b) \<Longrightarrow> buffer_ok (sub_handler r b)"
  by (simp add: bus_ok_def sub_ok_def)

lemma ended_facts:
  assumes "buffer_ok h"
  shows "buffer_ok (snd (complete h))" "uh_completed (snd (complete h))" "fst (complete h) = active h"
    "buffer_ok (snd (completeExceptionally e h))" "uh_completed (snd (completeExceptionally e h))" "fst (completeExceptionally e h) = active h"
    "buffer_ok (snd (iter_return h))" "uh_completed (snd (iter_return h))" "fst (iter_return h) = active h"
  using buffer_step_keeps(1) [OF assms, of Complete] buffer_step_keeps(1) [OF assms, of "Fail e"] buffer_step_keeps(1) [OF assms, of Leave]
  by (simp_all add: complete_def completeExceptionally_def iter_return_def active_def)

lemma ends_ok:
  assumes "bus_ok b" "r < length (bs_objects b)"
  shows "bus_ok (sub_complete r b)" "bus_ok (sub_fail r e b)" "bus_ok (sub_return r b)"
  unfolding sub_complete_def sub_fail_def sub_return_def
  by (subst prod.collapse [symmetric], rule after_close_ok, simp_all add: assms ended_facts object_ok)+

lemma set_handler_ok:
  assumes "bus_ok b" "r < length (bs_objects b)" "buffer_ok h" "active h = active (sub_handler r b)"
  shows "bus_ok (set_handler r h b)"
proof -
  have "sub_ok (the_sub r b)" using assms(1,2) by (simp add: bus_ok_def)
  then have "sub_ok ((the_sub r b)\<lparr>sb_handler := h\<rparr>)" using assms(3,4) by (simp add: sub_ok_def)
  from put_objects_ok [OF assms(1) this] have "\<forall>s \<in> set ((bs_objects b)[r := (the_sub r b)\<lparr>sb_handler := h\<rparr>]). sub_ok s" .
  moreover have "registered_ok (set_handler r h b)"
    using assms by (auto simp: bus_ok_def registered_ok_def set_handler_def nth_list_update)
  ultimately show ?thesis using assms(1) by (simp add: set_handler_def bus_ok_def)
qed

lemma settled_ok:
  assumes "bus_ok b" "r < length (bs_objects b)" "x \<noteq> InitPending"
  shows "bus_ok (b\<lparr>bs_objects := (bs_objects b)[r := (the_sub r b)\<lparr>sb_initial := Some x\<rparr>]\<rparr>)"
proof -
  have "sub_ok ((the_sub r b)\<lparr>sb_initial := Some x\<rparr>)" using assms by (simp add: bus_ok_def sub_ok_def)
  from put_objects_ok [OF assms(1) this] have "\<forall>s \<in> set ((bs_objects b)[r := (the_sub r b)\<lparr>sb_initial := Some x\<rparr>]). sub_ok s" .
  then show ?thesis using assms by (auto simp: bus_ok_def registered_ok_def nth_list_update)
qed

lemma register_ok:
  assumes "bus_ok b"
  shows "bus_ok (snd (register_subscription initial m n b))"
proof (cases "\<exists>r. fst (register_subscription initial m n b) = Inr r")
  case False
  then have "snd (register_subscription initial m n b) = b" by (auto simp: register_subscription_def Let_def split: sum.splits)
  with assms show ?thesis by simp
next
  case True
  let ?m = "query_withInstant m (bs_now b)"
  from True obtain h where h: "updateHandler ?m n = Inr h" "map_get (bs_subscriptions b) (qm_identifier ?m) = None" "length (bs_subscriptions b) < 1024"
    "snd (register_subscription initial m n b) = b\<lparr>bs_objects := bs_objects b @ [\<lparr>sb_handler = h, sb_queryId = qm_identifier ?m, sb_initial = initial\<rparr>],
       bs_subscriptions := map_set (qm_identifier ?m) (length (bs_objects b)) (bs_subscriptions b)\<rparr>"
    by (auto simp: register_subscription_def Let_def not_le split: sum.splits if_splits)
  have "length (map_set (qm_identifier ?m) (length (bs_objects b)) (bs_subscriptions b)) = Suc (length (bs_subscriptions b))"
    using alist.length_keys_set [of "qm_identifier ?m" "length (bs_objects b)" "bs_subscriptions b"] h(2) by simp
  then show ?thesis using assms h updateHandler_ok [OF h(1)]
    by (auto simp: bus_ok_def registered_ok_def sub_ok_def active_def nth_append distinct_update intro: less_SucI)
qed

text \<open>What a loop over the subscriptions keeps when each of its rounds does.\<close>

lemma loop_keeps:
  assumes "\<And>x b. x \<in> set xs \<Longrightarrow> P b \<Longrightarrow> P (snd (body x b))" "P b"
  shows "P (snd (loop_over body xs b))"
  using assms
proof (induction xs arbitrary: b)
  case (Cons x xs)
  obtain e b' where r: "body x b = (e, b')" by fastforce
  then have "P b'" using Cons.prems(1) [of x b] Cons.prems(2) by simp
  with r Cons show ?case by (cases e) simp_all
qed simp

lemma objects_count [simp]:
  "length (bs_objects (set_handler r h b)) = length (bs_objects b)" "length (bs_objects (unregister i b)) = length (bs_objects b)"
  "length (bs_objects (closeInitial r b)) = length (bs_objects b)" "length (bs_objects (onClose r b)) = length (bs_objects b)"
  "length (bs_objects (after_close r res b)) = length (bs_objects b)"
  by (simp_all add: set_handler_def unregister_def closeInitial_def onClose_def after_close_def Let_def split: prod.split)

lemma emit_one_ok:
  assumes "bus_ok b" "r < length (bs_objects b)"
  shows "bus_ok (snd (emit_one queryName f update (i, r) b)) \<and> length (bs_objects (snd (emit_one queryName f update (i, r) b))) = length (bs_objects b)"
proof -
  obtain ok h where o: "offer update (sub_handler r b) = (ok, h)" by fastforce
  from offer_keeps [OF object_ok [OF assms], of update] o have h: "buffer_ok h" by simp
  have "active h = active (sub_handler r b)" using o by (auto simp: offer_def active_def split: if_splits)
  from set_handler_ok [OF assms h this] have s: "bus_ok (set_handler r h b)" .
  then have "bus_ok (unregister i (sub_fail r BufferOverflow (set_handler r h b)))" using assms(2) by (intro unregister_ok ends_ok) simp_all
  with s o show ?thesis using assms(1)
    by (auto simp: emit_one_def unregister_ok sub_fail_def split: sum.split bool.split)
qed

lemma end_one_ok:
  assumes "bus_ok b" "r < length (bs_objects b)" "bus_ok (finish r b) \<and> length (bs_objects (finish r b)) = length (bs_objects b)"
  shows "bus_ok (snd (end_one finish queryName f (i, r) b)) \<and> length (bs_objects (snd (end_one finish queryName f (i, r) b))) = length (bs_objects b)"
  using assms by (auto simp: end_one_def unregister_ok split: sum.split bool.split)

lemma registered: "bus_ok b \<Longrightarrow> (i, r) \<in> set (bs_subscriptions b) \<Longrightarrow> r < length (bs_objects b) \<and> sb_queryId (the_sub r b) = i \<and> active (sub_handler r b)"
  by (auto simp: bus_ok_def registered_ok_def)

lemma run_update_task_ok:
  assumes "bus_ok b"
  shows "bus_ok (snd (run_update_task t b))"
proof -
  let ?P = "\<lambda>b'. bus_ok b' \<and> length (bs_objects b') = length (bs_objects b)"
  have loop: "?P (snd (loop_over body (bs_subscriptions b) b))"
    if "\<And>i r b'. r < length (bs_objects b') \<Longrightarrow> bus_ok b' \<Longrightarrow> bus_ok (snd (body (i, r) b')) \<and> length (bs_objects (snd (body (i, r) b'))) = length (bs_objects b')" for body
  proof (rule loop_keeps)
    fix x :: "string \<times> nat" and b'
    assume "x \<in> set (bs_subscriptions b)" "?P b'"
    then show "?P (snd (body x b'))" using that [of "snd x" b' "fst x"] registered [OF assms, of "fst x" "snd x"] by (cases x) auto
  qed (use assms in simp)
  show ?thesis
  proof (cases t)
    case (EmitTask n f v)
    have "?P (snd (loop_over (emit_one n f v) (bs_subscriptions b) b))" by (rule loop) (rule emit_one_ok)
    with EmitTask show ?thesis by simp
  next
    case (CompleteTask n f)
    have "bus_ok (sub_complete r b') \<and> length (bs_objects (sub_complete r b')) = length (bs_objects b')" if "r < length (bs_objects b')" "bus_ok b'" for r b'
      using ends_ok(1) [OF that(2,1)] by (simp add: sub_complete_def)
    then have "?P (snd (loop_over (end_one sub_complete n f) (bs_subscriptions b) b))" by (intro loop end_one_ok) simp_all
    with CompleteTask show ?thesis by simp
  next
    case (FailTask n e f)
    have "bus_ok (sub_fail r e b') \<and> length (bs_objects (sub_fail r e b')) = length (bs_objects b')" if "r < length (bs_objects b')" "bus_ok b'" for r b'
      using ends_ok(2) [OF that(2,1)] by (simp add: sub_fail_def)
    then have "?P (snd (loop_over (end_one (\<lambda>r. sub_fail r e) n f) (bs_subscriptions b) b))" by (intro loop end_one_ok) simp_all
    with FailTask show ?thesis by simp
  qed
qed

lemma settle_ok: "bus_ok b \<Longrightarrow> r < length (bs_objects b) \<Longrightarrow> bus_ok (initial_settles r outcome b)"
  by (auto simp: initial_settles_def settled_ok ends_ok split: sum.split)

lemma next_ok: "bus_ok b \<Longrightarrow> r < length (bs_objects b) \<Longrightarrow> bus_ok (sub_next r b)"
  unfolding sub_next_def
  by (rule set_handler_ok) (simp_all add: read_keeps object_ok, simp add: active_def iter_next_def split: list.split)

lemma close_ok: "bus_ok b \<Longrightarrow> r < length (bs_objects b) \<Longrightarrow> bus_ok (sub_close r b)"
  unfolding sub_close_def by (intro ends_ok(1) unregister_ok) simp_all

lemma bus_step_ok: "bus_ok b \<Longrightarrow> bus_ok (bus_step s b)"
proof (cases s)
  case (Tick ms)
  assume "bus_ok b"
  then show ?thesis using Tick by (simp add: bus_ok_def registered_ok_def)
qed (simp_all add: subscriptionQuery_def subscribeToUpdates_def register_ok ends_ok next_ok close_ok settle_ok run_update_task_ok)

lemma bus_steps_ok: "bus_ok b \<Longrightarrow> bus_ok (fold bus_step ss b)"
  by (induction ss arbitrary: b) (simp_all add: bus_step_ok)

lemma new_bus_ok: "bus_ok (localQueryBus now)"
  by (simp add: localQueryBus_def bus_ok_def registered_ok_def)

section \<open>Who gets an update\<close>

lemma map_of_filter_entry:
  "wf_map m \<Longrightarrow> map_get (filter P m) k = (case map_get m k of None \<Rightarrow> None | Some v \<Rightarrow> if P (k, v) then Some v else None)"
  by (induction m) (force split: option.splits simp: map_of_eq_None_iff)+

definition wants :: "string \<Rightarrow> sub_filter \<Rightarrow> update_handler \<Rightarrow> bool" where
  "wants queryName f h = (qualifiedNameToString (qm_name (uh_query h)) = queryName \<and> applySubscriptionFilter f (qm_payload (uh_query h)) = Inr True)"

definition buffer_full :: "update_handler \<Rightarrow> bool" where
  "buffer_full h = (uh_bufferSize h \<le> length (uh_buffer h))"

text \<open>An open subscription takes the update, or ends with the overflow when its buffer is full.\<close>

definition told :: "js \<Rightarrow> update_handler \<Rightarrow> update_handler" where
  "told update h = (if buffer_full h then snd (completeExceptionally BufferOverflow h) else snd (offer update h))"

lemma emit_one_effect:
  fixes b :: bus_state and i queryName :: string and r r' :: nat and update :: js and f :: sub_filter
  assumes "bus_ok b" "(i, r) \<in> set (bs_subscriptions b)" "\<And>x. \<exists>m. applySubscriptionFilter f x = Inr m"
  defines "b' \<equiv> snd (emit_one queryName f update (i, r) b)"
  shows "fst (emit_one queryName f update (i, r) b) = None"
    and "sub_handler r b' = (if wants queryName f (sub_handler r b) then told update (sub_handler r b) else sub_handler r b)"
    and "r' \<noteq> r \<Longrightarrow> the_sub r' b' = the_sub r' b"
    and "bs_subscriptions b' = (if wants queryName f (sub_handler r b) \<and> buffer_full (sub_handler r b) then map_delete i (bs_subscriptions b) else bs_subscriptions b)"
proof -
  from registered [OF assms(1,2)] have r: "r < length (bs_objects b)" "sb_queryId (the_sub r b) = i" "active (sub_handler r b)" by auto
  obtain m where m: "applySubscriptionFilter f (qm_payload (uh_query (sub_handler r b))) = Inr m" using assms(3) by blast
  have "fst (emit_one queryName f update (i, r) b) = None \<and>
      sub_handler r b' = (if wants queryName f (sub_handler r b) then told update (sub_handler r b) else sub_handler r b) \<and>
      (r' \<noteq> r \<longrightarrow> the_sub r' b' = the_sub r' b) \<and>
      bs_subscriptions b' = (if wants queryName f (sub_handler r b) \<and> buffer_full (sub_handler r b) then map_delete i (bs_subscriptions b) else bs_subscriptions b)"
  proof (cases "wants queryName f (sub_handler r b)")
    case False
    then have "emit_one queryName f update (i, r) b = (None, b)"
      using r m by (cases m) (auto simp: emit_one_def query_name_of_def filter_of_def wants_def)
    with False show ?thesis by (simp add: b'_def)
  next
    case True
    then have e: "emit_one queryName f update (i, r) b =
        (case offer update (sub_handler r b) of (True, h) \<Rightarrow> (None, set_handler r h b) | (False, h) \<Rightarrow> (None, unregister i (sub_fail r BufferOverflow (set_handler r h b))))"
      using r by (simp add: emit_one_def query_name_of_def filter_of_def wants_def)
    show ?thesis
    proof (cases "buffer_full (sub_handler r b)")
      case False
      then have "offer update (sub_handler r b) = (True, told update (sub_handler r b))"
        using r(3) by (simp add: offer_def told_def buffer_full_def active_def)
      with True False e r(1) show ?thesis by (simp add: b'_def set_handler_def)
    next
      case buffer_full: True
      then have "offer update (sub_handler r b) = (False, sub_handler r b)" using r(3) by (simp add: offer_def buffer_full_def active_def)
      moreover have "set_handler r (sub_handler r b) b = b" by (simp add: set_handler_def)
      ultimately have "emit_one queryName f update (i, r) b = (None, unregister i (sub_fail r BufferOverflow b))" using e by simp
      moreover have "completeExceptionally BufferOverflow (sub_handler r b) = (True, told update (sub_handler r b))"
        using r(3) buffer_full by (simp add: told_def completeExceptionally_def active_def)
      ultimately show ?thesis using True buffer_full r
        by (auto simp: b'_def sub_fail_def after_close_def set_handler_def onClose_def closeInitial_def unregister_def delete_idem Let_def)
    qed
  qed
  then show "fst (emit_one queryName f update (i, r) b) = None"
    and "sub_handler r b' = (if wants queryName f (sub_handler r b) then told update (sub_handler r b) else sub_handler r b)"
    and "r' \<noteq> r \<Longrightarrow> the_sub r' b' = the_sub r' b"
    and "bs_subscriptions b' = (if wants queryName f (sub_handler r b) \<and> buffer_full (sub_handler r b) then map_delete i (bs_subscriptions b) else bs_subscriptions b)"
    by blast+
qed

lemma emit_loop_effect:
  assumes "bus_ok b" "set es \<subseteq> set (bs_subscriptions b)" "distinct (map fst es)" "\<And>x. \<exists>m. applySubscriptionFilter f x = Inr m"
  shows "\<exists>b'. loop_over (emit_one queryName f update) es b = (None, b') \<and>
    (\<forall>r. sub_handler r b' = (if r \<in> snd ` set es \<and> wants queryName f (sub_handler r b) then told update (sub_handler r b) else sub_handler r b)) \<and>
    bs_subscriptions b' = filter (\<lambda>(i, r). \<not> ((i, r) \<in> set es \<and> wants queryName f (sub_handler r b) \<and> buffer_full (sub_handler r b))) (bs_subscriptions b)"
  using assms(1-3)
proof (induction es arbitrary: b)
  case Nil
  then show ?case by simp
next
  case (Cons x es)
  obtain i r where x: "x = (i, r)" by fastforce
  let ?b = "snd (emit_one queryName f update (i, r) b)"
  have mem: "(i, r) \<in> set (bs_subscriptions b)" using Cons.prems x by simp
  note eff = emit_one_effect [OF Cons.prems(1) mem assms(4), where queryName = queryName and update = update]
  have reg: "r < length (bs_objects b)" "sb_queryId (the_sub r b) = i" using registered [OF Cons.prems(1) mem] by auto
  have wf: "wf_map (bs_subscriptions b)" using Cons.prems(1) by (simp add: bus_ok_def)
  have only: "r' = r" if "(i, r') \<in> set (bs_subscriptions b)" for r' by (rule eq_key_imp_eq_value [OF wf that mem])
  have fresh: "i' \<noteq> i" if "(i', r') \<in> set es" for i' r' using that Cons.prems(3) x by force
  have other: "r' \<noteq> r" if "(i', r') \<in> set es" for i' r'
    using fresh [OF that] registered [OF Cons.prems(1), of i' r'] Cons.prems(2) that reg(2) by auto
  have "(i', r') \<in> set (bs_subscriptions ?b)" if "(i', r') \<in> set es" for i' r'
    using fresh [OF that] Cons.prems(2) that by (auto simp: eff(4) AList.delete_eq)
  then have "set es \<subseteq> set (bs_subscriptions ?b)" by auto
  moreover have "bus_ok ?b" using emit_one_ok [OF Cons.prems(1) reg(1)] by simp
  ultimately obtain b' where b': "loop_over (emit_one queryName f update) es ?b = (None, b')"
    "\<forall>r. sub_handler r b' = (if r \<in> snd ` set es \<and> wants queryName f (sub_handler r ?b) then told update (sub_handler r ?b) else sub_handler r ?b)"
    "bs_subscriptions b' = filter (\<lambda>(i, r). \<not> ((i, r) \<in> set es \<and> wants queryName f (sub_handler r ?b) \<and> buffer_full (sub_handler r ?b))) (bs_subscriptions ?b)"
    using Cons.IH [of ?b] Cons.prems(3) by auto
  have loop: "loop_over (emit_one queryName f update) (x # es) b = (None, b')"
    using b'(1) eff(1) by (cases "emit_one queryName f update (i, r) b") (simp add: x)
  have "r \<notin> snd ` set es" using other by force
  then have h: "sub_handler r' b' = (if r' \<in> snd ` set (x # es) \<and> wants queryName f (sub_handler r' b) then told update (sub_handler r' b) else sub_handler r' b)" for r'
    using b'(2) eff(2) eff(3) [of r'] x by (cases "r' = r") simp_all
  have "bs_subscriptions b' = filter (\<lambda>(i', r'). \<not> ((i', r') \<in> set es \<and> wants queryName f (sub_handler r' b) \<and> buffer_full (sub_handler r' b))) (bs_subscriptions ?b)"
    unfolding b'(3) by (rule filter_cong [OF refl]) (use other eff(3) in \<open>auto; metis\<close>)
  also have "\<dots> = filter (\<lambda>(i', r'). \<not> ((i', r') \<in> set (x # es) \<and> wants queryName f (sub_handler r' b) \<and> buffer_full (sub_handler r' b))) (bs_subscriptions b)"
    unfolding eff(4) x AList.delete_eq by (auto simp: filter_filter intro!: filter_cong dest: only)
  finally show ?case using loop h by blast
qed

text \<open>
  C19: In every state the bus can come to, emitting an update with a filter that does not throw hands it to exactly the registered subscriptions
  of that query whose payload the filter accepts, and every one of these is open: one with room takes the update, one whose buffer is full
  ends with the overflow error and is no longer registered. All other subscriptions stay as they were.
\<close>
theorem update_reaches_matching_subscribers:
  assumes "\<And>x. \<exists>m. applySubscriptionFilter f x = Inr m"
  shows "let b = fold bus_step ss (localQueryBus now); to = {r. \<exists>i. map_get (bs_subscriptions b) i = Some r \<and> wants queryName f (sub_handler r b)} in
    (\<exists>b'. run_update_task (EmitTask queryName f update) b = (None, b') \<and>
      (\<forall>r. sub_handler r b' =
         (if r \<notin> to then sub_handler r b
          else if buffer_full (sub_handler r b) then snd (completeExceptionally BufferOverflow (sub_handler r b)) else snd (offer update (sub_handler r b)))) \<and>
      (\<forall>i. map_get (bs_subscriptions b') i = (case map_get (bs_subscriptions b) i of None \<Rightarrow> None | Some r \<Rightarrow> if r \<in> to \<and> buffer_full (sub_handler r b) then None else Some r))) \<and>
    (\<forall>r. r \<in> to \<longrightarrow> active (sub_handler r b))"
proof -
  let ?b = "fold bus_step ss (localQueryBus now)"
  let ?to = "{r. \<exists>i. map_get (bs_subscriptions ?b) i = Some r \<and> wants queryName f (sub_handler r ?b)}"
  have ok: "bus_ok ?b" by (rule bus_steps_ok [OF new_bus_ok])
  then have wf: "wf_map (bs_subscriptions ?b)" by (simp add: bus_ok_def)
  have refs: "r \<in> snd ` set (bs_subscriptions ?b) \<longleftrightarrow> (\<exists>i. map_get (bs_subscriptions ?b) i = Some r)" for r
    using wf by force
  obtain b' where b': "run_update_task (EmitTask queryName f update) ?b = (None, b')"
    "\<forall>r. sub_handler r b' = (if r \<in> snd ` set (bs_subscriptions ?b) \<and> wants queryName f (sub_handler r ?b) then told update (sub_handler r ?b) else sub_handler r ?b)"
    "bs_subscriptions b' = filter (\<lambda>(i, r). \<not> ((i, r) \<in> set (bs_subscriptions ?b) \<and> wants queryName f (sub_handler r ?b) \<and> buffer_full (sub_handler r ?b))) (bs_subscriptions ?b)"
    using emit_loop_effect [OF ok subset_refl wf assms, where queryName = queryName and update = update] by auto
  have "sub_handler r b' = (if r \<notin> ?to then sub_handler r ?b else if buffer_full (sub_handler r ?b) then snd (completeExceptionally BufferOverflow (sub_handler r ?b))
      else snd (offer update (sub_handler r ?b)))" for r
    using b'(2) refs [of r] by (auto simp: told_def)
  moreover have "map_get (bs_subscriptions b') i = (case map_get (bs_subscriptions ?b) i of None \<Rightarrow> None | Some r \<Rightarrow> if r \<in> ?to \<and> buffer_full (sub_handler r ?b) then None else Some r)" for i
    unfolding b'(3) using wf by (subst map_of_filter_entry) (auto split: option.split)
  moreover have "active (sub_handler r ?b)" if "r \<in> ?to" for r using that ok by (auto simp: bus_ok_def registered_ok_def)
  ultimately show ?thesis using b'(1) unfolding Let_def by blast
qed

text \<open>A subscription object nothing is registered for: only its own operations reach it from then on.\<close>

definition stranded :: "nat \<Rightarrow> subscription \<Rightarrow> bus_state \<Rightarrow> bool" where
  "stranded r s b \<longleftrightarrow> r < length (bs_objects b) \<and> the_sub r b = s \<and> r \<notin> snd ` set (bs_subscriptions b)"

fun acts_on :: "nat \<Rightarrow> bus_op \<Rightarrow> bool" where
  "acts_on r (ReadNext x) = (x = r)"
| "acts_on r (LeaveLoop x) = (x = r)"
| "acts_on r (CloseSub x) = (x = r)"
| "acts_on r (Settle x outcome) = (x = r)"
| "acts_on r _ = False"

lemma stranded_parts:
  assumes "stranded r s b"
  shows "stranded r s (unregister i b)"
    and "x \<noteq> r \<Longrightarrow> stranded r s (set_handler x h b)" "x \<noteq> r \<Longrightarrow> stranded r s (closeInitial x b)"
    and "x \<noteq> r \<Longrightarrow> stranded r s (b\<lparr>bs_objects := (bs_objects b)[x := y]\<rparr>)"
  using assms by (auto simp: stranded_def unregister_def set_handler_def closeInitial_def AList.delete_eq image_iff)

lemma stranded_after_close: "stranded r s b \<Longrightarrow> x \<noteq> r \<Longrightarrow> stranded r s (after_close x res b)"
  by (auto simp: after_close_def onClose_def Let_def intro: stranded_parts split: prod.split)

lemma stranded_ends:
  assumes "stranded r s b" "x \<noteq> r"
  shows "stranded r s (sub_complete x b)" "stranded r s (sub_fail x e b)" "stranded r s (sub_return x b)"
    "stranded r s (sub_next x b)" "stranded r s (sub_close x b)" "stranded r s (initial_settles x outcome b)"
  using assms
  by (auto simp: sub_complete_def sub_fail_def sub_return_def sub_next_def sub_close_def initial_settles_def
      intro!: stranded_after_close stranded_parts split: sum.split)

lemma stranded_task: "stranded r s b \<Longrightarrow> stranded r s (snd (run_update_task t b))"
proof -
  assume st: "stranded r s b"
  have loop: "stranded r s (snd (loop_over body (bs_subscriptions b) b))"
    if "\<And>i x b'. x \<noteq> r \<Longrightarrow> stranded r s b' \<Longrightarrow> stranded r s (snd (body (i, x) b'))" for body
  proof (rule loop_keeps)
    fix x b' assume "x \<in> set (bs_subscriptions b)" "stranded r s b'"
    moreover from this st have "snd x \<noteq> r" by (auto simp: stranded_def)
    ultimately show "stranded r s (snd (body x b'))" using that [of "snd x" b' "fst x"] by simp
  qed (rule st)
  show ?thesis
    by (cases t) (auto simp: emit_one_def end_one_def intro!: loop stranded_parts stranded_ends split: sum.split bool.split prod.split)
qed

lemma stranded_register: "stranded r s b \<Longrightarrow> stranded r s (snd (register_subscription initial m n b))"
proof -
  have vals: "snd ` set (map_set k v xs) \<subseteq> insert v (snd ` set xs)" for k :: string and v :: nat and xs
    by (induction xs) auto
  assume st: "stranded r s b"
  then have "r \<notin> snd ` set (map_set k (length (bs_objects b)) (bs_subscriptions b))" for k
    using vals [of k "length (bs_objects b)" "bs_subscriptions b"] by (auto simp: stranded_def)
  with st have "stranded r s (b\<lparr>bs_objects := bs_objects b @ [x], bs_subscriptions := map_set k (length (bs_objects b)) (bs_subscriptions b)\<rparr>)"
    for k x by (simp add: stranded_def nth_append)
  with st show ?thesis by (simp add: register_subscription_def Let_def split: sum.split)
qed

lemma stranded_step: "stranded r s b \<Longrightarrow> \<not> acts_on r op \<Longrightarrow> stranded r s (bus_step op b)"
proof (cases op)
  case (Tick ms)
  assume "stranded r s b"
  then show ?thesis using Tick by (simp add: stranded_def)
next
  case (SubscribeQuery m n)
  assume "stranded r s b"
  then show ?thesis using SubscribeQuery
    by (simp add: subscriptionQuery_def stranded_register)
next
  case (SubscribeUpdates m n)
  assume "stranded r s b"
  then show ?thesis using SubscribeUpdates
    by (simp add: subscribeToUpdates_def stranded_register)
qed (auto intro: stranded_ends stranded_task)

lemma stranded_steps: "stranded r s b \<Longrightarrow> \<forall>op \<in> set ops. \<not> acts_on r op \<Longrightarrow> stranded r s (fold bus_step ops b)"
  by (induction ops arbitrary: b) (auto intro: stranded_step)

text \<open>
  C38: Closing a subscription that has already ended removes whatever is registered under its identifier by then. In every state the bus can come to
  in which the identifier of an ended subscription is registered for another one: once the first is closed, the other is still open but registered
  under no identifier, and whatever is emitted, completed, subscribed or closed on the bus afterwards, as long as it is not an operation on that other
  subscription itself, it gets no update and no end.
\<close>
theorem stale_close_unsubscribes_other:
  fixes ss now
  defines "b \<equiv> fold bus_step ss (localQueryBus now)"
  assumes "r < length (bs_objects b)" "\<not> active (sub_handler r b)"
    and "map_get (bs_subscriptions b) (sb_queryId (the_sub r b)) = Some other" "\<forall>op \<in> set later. \<not> acts_on other op"
  shows "let b' = fold bus_step later (bus_step (CloseSub r) b) in
    sub_handler other b' = sub_handler other b \<and> active (sub_handler other b') \<and> (\<forall>i. map_get (bs_subscriptions b') i \<noteq> Some other)"
proof -
  let ?i = "sb_queryId (the_sub r b)"
  have ok: "bus_ok b" unfolding b_def by (rule bus_steps_ok [OF new_bus_ok])
  then have o: "other < length (bs_objects b)" "active (sub_handler other b)" using assms(4) by (auto simp: bus_ok_def registered_ok_def)
  with assms(3) have ne: "r \<noteq> other" by auto
  have "i = ?i" if "(i, other) \<in> set (bs_subscriptions b)" for i
    using registered [OF ok that] registered [OF ok map_of_SomeD [OF assms(4)]] by simp
  then have "stranded other (the_sub other b) (unregister ?i b)"
    using o(1) by (auto simp: stranded_def unregister_def AList.delete_eq)
  from stranded_ends(1) [OF this ne] have "stranded other (the_sub other b) (sub_close r b)" by (simp add: sub_close_def)
  with stranded_steps assms(2,5) have "stranded other (the_sub other b) (fold bus_step later (bus_step (CloseSub r) b))" by simp
  then show ?thesis using o(2) by (force simp: stranded_def Let_def dest: map_of_SomeD)
qed

theorem stale_close_unsubscribes_other_witness:
  "let b = fold bus_step [SubscribeUpdates price_query None, LeaveLoop 0, SubscribeUpdates price_query None] (localQueryBus 0);
       b' = fold bus_step [RunNow (EmitTask ''shop.GetPrice'' (PayloadEquals [(''sku'', JString ''a'')]) (JNumber 5))] (bus_step (CloseSub 0) b)
   in active (sub_handler 1 b') \<and> uh_buffer (sub_handler 1 b') = [] \<and> (\<forall>i. map_get (bs_subscriptions b') i \<noteq> Some 1)"
proof -
  let ?ss = "[SubscribeUpdates price_query None, LeaveLoop 0, SubscribeUpdates price_query None]"
  let ?b = "fold bus_step ?ss (localQueryBus 0)"
  have "0 < length (bs_objects ?b)" "\<not> active (sub_handler 0 ?b)"
    "map_get (bs_subscriptions ?b) (sb_queryId (the_sub 0 ?b)) = Some 1" and e: "uh_buffer (sub_handler 1 ?b) = []" by code_simp+
  moreover have "\<forall>op \<in> set [RunNow (EmitTask ''shop.GetPrice'' (PayloadEquals [(''sku'', JString ''a'')]) (JNumber 5))]. \<not> acts_on 1 op"
    by simp
  ultimately show ?thesis using stale_close_unsubscribes_other [of 0 ?ss 0 1] unfolding Let_def by metis
qed

text \<open>Without the late \<open>close\<close> the second subscription gets the update.\<close>

lemma second_subscription_gets_update:
  "let b = fold bus_step [SubscribeUpdates price_query None, LeaveLoop 0, SubscribeUpdates price_query None,
       RunNow (EmitTask ''shop.GetPrice'' (PayloadEquals [(''sku'', JString ''a'')]) (JNumber 5))] (localQueryBus 0)
   in active (sub_handler 1 b) \<and> uh_buffer (sub_handler 1 b) = [JNumber 5]"
  by code_simp

theorem update_reaches_matching_subscribers_witness:
  "let b = fold bus_step [SubscribeUpdates price_query (Some 1)] (localQueryBus 0)
   in \<exists>b'. run_update_task (EmitTask ''shop.GetPrice'' (PayloadEquals []) (JNumber 5)) b = (None, b') \<and> uh_buffer (sub_handler 0 b') = [JNumber 5]"
proof -
  let ?b = "fold bus_step [SubscribeUpdates price_query (Some 1)] (localQueryBus 0)"
  have total: "\<exists>m. applySubscriptionFilter (PayloadEquals []) x = Inr m" for x by simp
  have "map_get (bs_subscriptions ?b) ''q1'' = Some 0 \<and> uh_query (sub_handler 0 ?b) = price_query\<lparr>qm_timestamp := Some 0\<rparr> \<and>
      \<not> buffer_full (sub_handler 0 ?b) \<and> uh_buffer (snd (offer (JNumber 5) (sub_handler 0 ?b))) = [JNumber 5]"
    by code_simp
  moreover have "wants ''shop.GetPrice'' (PayloadEquals []) h" if "uh_query h = price_query\<lparr>qm_timestamp := Some 0\<rparr>" for h
    using that by (simp add: wants_def price_query_def qualifiedNameToString_def qn_def matchesPayloadEquals_def)
  ultimately have in_to: "0 \<in> {r. \<exists>i. map_get (bs_subscriptions ?b) i = Some r \<and> wants ''shop.GetPrice'' (PayloadEquals []) (sub_handler r ?b)}"
    and room: "\<not> buffer_full (sub_handler 0 ?b)" "uh_buffer (snd (offer (JNumber 5) (sub_handler 0 ?b))) = [JNumber 5]" by blast+
  from update_reaches_matching_subscribers [OF total, of "[SubscribeUpdates price_query (Some 1)]" 0 "''shop.GetPrice''" "JNumber 5", unfolded Let_def, THEN conjunct1]
  obtain b' where b': "run_update_task (EmitTask ''shop.GetPrice'' (PayloadEquals []) (JNumber 5)) ?b = (None, b')"
    and h: "sub_handler 0 b' = (if 0 \<notin> {r. \<exists>i. map_get (bs_subscriptions ?b) i = Some r \<and> wants ''shop.GetPrice'' (PayloadEquals []) (sub_handler r ?b)}
      then sub_handler 0 ?b else if buffer_full (sub_handler 0 ?b) then snd (completeExceptionally BufferOverflow (sub_handler 0 ?b)) else snd (offer (JNumber 5) (sub_handler 0 ?b)))"
    by blast
  have "sub_handler 0 b' = snd (offer (JNumber 5) (sub_handler 0 ?b))" using h in_to room(1) by (simp only: not_not if_False if_True not_True_eq_False)
  with room(2) have "uh_buffer (sub_handler 0 b') = [JNumber 5]" by (simp only:)
  with b' show ?thesis unfolding Let_def by blast
qed

end
