(* ===== verification/Messaging_Admission.thy ===== *)
theory Messaging_Admission
  imports Prelude
begin

text \<open>
  Admission of work to a bus or a transport (\<open>messaging-reliability.ts\<close>): a counter with a limit and no queue.

  \<open>enter\<close> answers an object whose \<open>end\<close> gives the place back. These objects are numbered in the order they were answered;
  \<open>ad_tickets\<close> holds for each the identifier it was entered with and whether it has ended. \<open>ad_reports\<close> lists what the observer was told;
  what an observer throws is swallowed.
\<close>

record messaging_activity =
  ma_active :: int
  ma_peak :: int
  ma_accepted :: int
  ma_rejected :: int
  ma_completed :: int
  ma_limit :: int

datatype admission_error = NotPositive string | Overloaded string int | AlreadyPending string | ExceedsTimer

definition positiveInteger :: "int \<Rightarrow> string \<Rightarrow> admission_error + int" where
  "positiveInteger v name = (if \<bar>v\<bar> > 9007199254740991 \<or> v \<le> 0 then Inl (NotPositive name) else Inr v)"

record admission =
  ad_name :: string
  ad_identifiers :: "string list"
  ad_state :: messaging_activity
  ad_tickets :: "(string option \<times> bool) list"
  ad_reports :: "messaging_activity list"

definition messagingAdmission :: "string \<Rightarrow> int \<Rightarrow> admission_error + admission" where
  "messagingAdmission name limit =
     bind_result (positiveInteger limit name) (\<lambda>_. Inr
       \<lparr>ad_name = name, ad_identifiers = [],
        ad_state = \<lparr>ma_active = 0, ma_peak = 0, ma_accepted = 0, ma_rejected = 0, ma_completed = 0, ma_limit = limit\<rparr>,
        ad_tickets = [], ad_reports = []\<rparr>)"

definition report :: "admission \<Rightarrow> admission" where
  "report a = a\<lparr>ad_reports := ad_reports a @ [ad_state a]\<rparr>"

definition reject :: "admission \<Rightarrow> admission" where
  "reject a = report (a\<lparr>ad_state := (ad_state a)\<lparr>ma_rejected := ma_rejected (ad_state a) + 1\<rparr>\<rparr>)"

definition enter :: "string option \<Rightarrow> admission \<Rightarrow> (admission_error + nat) \<times> admission" where
  "enter identifier a =
     (let st = ad_state a
      in if identifier \<noteq> None \<and> the identifier \<in> set (ad_identifiers a) then (Inl (AlreadyPending (the identifier)), reject a)
         else if ma_active st \<ge> ma_limit st then (Inl (Overloaded (ad_name a) (ma_limit st)), reject a)
         else (Inr (length (ad_tickets a)), report (a\<lparr>
                 ad_identifiers := (case identifier of None \<Rightarrow> ad_identifiers a | Some i \<Rightarrow> ad_identifiers a @ [i]),
                 ad_state := st\<lparr>ma_active := ma_active st + 1, ma_accepted := ma_accepted st + 1, ma_peak := max (ma_peak st) (ma_active st + 1)\<rparr>,
                 ad_tickets := ad_tickets a @ [(identifier, False)]\<rparr>)))"

definition end_ticket :: "nat \<Rightarrow> admission \<Rightarrow> admission" where
  "end_ticket t a =
     (case ad_tickets a ! t of (identifier, ended) \<Rightarrow>
        if ended then a
        else (let st = ad_state a
              in report (a\<lparr>
                   ad_tickets := (ad_tickets a)[t := (identifier, True)],
                   ad_identifiers := (case identifier of None \<Rightarrow> ad_identifiers a | Some i \<Rightarrow> removeAll i (ad_identifiers a)),
                   ad_state := st\<lparr>ma_active := ma_active st - 1, ma_completed := ma_completed st + 1\<rparr>\<rparr>)))"

text \<open>The guard of \<open>withMessagingTimeout\<close> and \<open>messagingDeadline\<close>.\<close>

definition messaging_timeout :: "int \<Rightarrow> admission_error + int" where
  "messaging_timeout timeoutMs =
     bind_result (positiveInteger timeoutMs ''timeoutMs'') (\<lambda>ms. if ms > 2147483647 then Inl ExceedsTimer else Inr ms)"

section \<open>The life of an admission\<close>

text \<open>\<open>end\<close> may be called again and again, on any of the objects answered so far.\<close>

datatype admission_op = Enter "string option" | End nat

fun admission_step :: "admission_op \<Rightarrow> admission \<Rightarrow> admission" where
  "admission_step (Enter i) a = snd (enter i a)"
| "admission_step (End t) a = (if t < length (ad_tickets a) then end_ticket t a else a)"

definition running_tickets :: "admission \<Rightarrow> (string option \<times> bool) list" where
  "running_tickets a = filter (\<lambda>(_, ended). \<not> ended) (ad_tickets a)"

definition pending_ids :: "admission \<Rightarrow> string list" where
  "pending_ids a = List.map_filter fst (running_tickets a)"

text \<open>The counters count the tickets, and the identifiers are those of running tickets, each once.\<close>

definition admission_ok :: "admission \<Rightarrow> bool" where
  "admission_ok a =
     (let st = ad_state a
      in ma_active st = int (length (running_tickets a)) \<and> ma_accepted st = int (length (ad_tickets a)) \<and> ma_completed st = ma_accepted st - ma_active st \<and>
         ma_active st \<le> ma_peak st \<and> ma_peak st \<le> ma_limit st \<and>
         distinct (pending_ids a) \<and> distinct (ad_identifiers a) \<and> set (ad_identifiers a) = set (pending_ids a))"

lemma report_ok [simp]: "admission_ok (report a) = admission_ok a" "ad_state (report a) = ad_state a" "ad_tickets (report a) = ad_tickets a"
  by (simp_all add: report_def admission_ok_def running_tickets_def pending_ids_def)

lemma reject_ok [simp]: "admission_ok (reject a) = admission_ok a"
  by (simp add: reject_def) (simp add: admission_ok_def running_tickets_def pending_ids_def Let_def)

lemma map_filter_append: "List.map_filter f (xs @ ys) = List.map_filter f xs @ List.map_filter f ys"
  by (simp add: List.map_filter_def)

lemma enter_ok:
  assumes "admission_ok a"
  shows "admission_ok (snd (enter i a))"
proof (cases "fst (enter i a)")
  case (Inl e)
  then have "snd (enter i a) = reject a" by (auto simp: enter_def Let_def split: if_splits)
  with assms show ?thesis by simp
next
  case (Inr t)
  then have g: "\<not> (i \<noteq> None \<and> the i \<in> set (ad_identifiers a))" "ma_active (ad_state a) < ma_limit (ad_state a)"
    by (auto simp: enter_def Let_def split: if_splits)
  have e: "snd (enter i a) = report (a\<lparr>
                 ad_identifiers := (case i of None \<Rightarrow> ad_identifiers a | Some i \<Rightarrow> ad_identifiers a @ [i]),
                 ad_state := (ad_state a)\<lparr>ma_active := ma_active (ad_state a) + 1, ma_accepted := ma_accepted (ad_state a) + 1,
                   ma_peak := max (ma_peak (ad_state a)) (ma_active (ad_state a) + 1)\<rparr>,
                 ad_tickets := ad_tickets a @ [(i, False)]\<rparr>)"
    using g by (auto simp: enter_def Let_def)
  show ?thesis unfolding e report_ok using assms g
    by (cases i) (auto simp: admission_ok_def running_tickets_def pending_ids_def Let_def map_filter_append List.map_filter_simps)
qed

lemma split_at: "t < length xs \<Longrightarrow> xs = take t xs @ xs ! t # drop (Suc t) xs"
  by (simp add: id_take_nth_drop)

lemma end_ok:
  assumes "admission_ok a" "t < length (ad_tickets a)"
  shows "admission_ok (end_ticket t a)"
proof (cases "snd (ad_tickets a ! t)")
  case True
  then have "end_ticket t a = a" by (cases "ad_tickets a ! t") (simp add: end_ticket_def)
  with assms show ?thesis by simp
next
  case False
  obtain i where i: "ad_tickets a ! t = (i, False)" using False by (cases "ad_tickets a ! t") simp
  obtain bs cs where old: "ad_tickets a = bs @ (i, False) # cs" and t: "length bs = t"
    using split_at [OF assms(2)] i assms(2) by (metis length_take min.absorb4)
  let ?P = "\<lambda>(_, ended). \<not> ended" and ?ids = "case i of None \<Rightarrow> ad_identifiers a | Some i \<Rightarrow> removeAll i (ad_identifiers a)"
  let ?a = "a\<lparr>ad_tickets := bs @ (i, True) # cs, ad_identifiers := ?ids,
     ad_state := (ad_state a)\<lparr>ma_active := ma_active (ad_state a) - 1, ma_completed := ma_completed (ad_state a) + 1\<rparr>\<rparr>"
  have new: "end_ticket t a = report ?a" using i old by (simp add: end_ticket_def Let_def flip: t)
  have run: "running_tickets a = filter ?P bs @ (i, False) # filter ?P cs" "running_tickets ?a = filter ?P bs @ filter ?P cs"
    by (simp_all add: running_tickets_def old)
  then have ids: "pending_ids a = List.map_filter fst (filter ?P bs) @ (case i of None \<Rightarrow> [] | Some x \<Rightarrow> [x]) @ List.map_filter fst (filter ?P cs)"
      "pending_ids ?a = List.map_filter fst (filter ?P bs) @ List.map_filter fst (filter ?P cs)"
    by (simp_all add: pending_ids_def map_filter_append List.map_filter_simps split: option.split)
  have "distinct (pending_ids ?a) \<and> distinct ?ids \<and> set ?ids = set (pending_ids ?a)"
    using assms(1) unfolding ids admission_ok_def Let_def by (cases i) (auto simp: distinct_removeAll)
  then show ?thesis unfolding new report_ok using assms(1) run old by (simp add: admission_ok_def Let_def)
qed

lemma step_ok: "admission_ok a \<Longrightarrow> admission_ok (admission_step s a)"
  by (cases s) (simp_all add: enter_ok end_ok)

lemma steps_ok: "admission_ok a \<Longrightarrow> admission_ok (fold admission_step ss a)"
  by (induction ss arbitrary: a) (simp_all add: step_ok)

lemma limit_stays: "ma_limit (ad_state (admission_step s a)) = ma_limit (ad_state a)"
  by (cases s) (auto simp: enter_def end_ticket_def reject_def report_def Let_def split: prod.split)

lemma limits_stay: "ma_limit (ad_state (fold admission_step ss a)) = ma_limit (ad_state a)"
  by (induction ss arbitrary: a) (simp_all add: limit_stays)

text \<open>
  C29: However enter and end are called, and end as often as anybody likes: the work counted active is the work let in and not yet ended, and
  it never exceeds the limit, nor does the peak. Work is refused exactly if its identifier is that of running work or the limit is reached,
  and refusing changes nothing but the count of refusals.
\<close>
theorem admission_counts_running_work:
  assumes "messagingAdmission name limit = Inr a0"
  shows "let a = fold admission_step ss a0 in
    ma_active (ad_state a) = int (length (running_tickets a)) \<and> ma_active (ad_state a) \<le> ma_peak (ad_state a) \<and> ma_peak (ad_state a) \<le> limit \<and>
    ma_accepted (ad_state a) = ma_active (ad_state a) + ma_completed (ad_state a) \<and>
    ((\<exists>e. fst (enter i a) = Inl e) \<longleftrightarrow> (\<exists>x. i = Some x \<and> (i, False) \<in> set (ad_tickets a)) \<or> length (running_tickets a) = nat limit) \<and>
    (case enter i a of (Inl _, a') \<Rightarrow> running_tickets a' = running_tickets a \<and> ad_state a' = (ad_state a)\<lparr>ma_rejected := ma_rejected (ad_state a) + 1\<rparr>
      | (Inr _, a') \<Rightarrow> running_tickets a' = running_tickets a @ [(i, False)])"
proof -
  have a0: "a0 = \<lparr>ad_name = name, ad_identifiers = [],
      ad_state = \<lparr>ma_active = 0, ma_peak = 0, ma_accepted = 0, ma_rejected = 0, ma_completed = 0, ma_limit = limit\<rparr>, ad_tickets = [], ad_reports = []\<rparr>"
    and pos: "0 < limit" using assms by (auto simp: messagingAdmission_def throw_simps positiveInteger_def split: if_splits)
  then have "admission_ok a0" by (simp add: admission_ok_def running_tickets_def pending_ids_def Let_def)
  then have ok: "admission_ok (fold admission_step ss a0)" by (rule steps_ok)
  have lim: "ma_limit (ad_state (fold admission_step ss a0)) = limit" using limits_stay [of ss a0] a0 by simp
  show ?thesis
  proof (cases "fold admission_step ss a0")
    case (fields nm ids st tks rs)
    let ?a = "fold admission_step ss a0"
    have ids: "x \<in> set (ad_identifiers ?a) \<longleftrightarrow> (Some x, False) \<in> set (ad_tickets ?a)" for x
      using ok by (force simp: admission_ok_def pending_ids_def running_tickets_def Let_def List.map_filter_def)
    have full: "ma_limit (ad_state ?a) \<le> ma_active (ad_state ?a) \<longleftrightarrow> length (running_tickets ?a) = nat limit"
      using ok lim pos by (auto simp: admission_ok_def Let_def)
    have "(\<exists>e. fst (enter i ?a) = Inl e) \<longleftrightarrow> (\<exists>x. i = Some x \<and> (i, False) \<in> set (ad_tickets ?a)) \<or> length (running_tickets ?a) = nat limit"
      using ids full by (cases i) (auto simp: enter_def Let_def)
    moreover have "(case enter i ?a of (Inl _, a') \<Rightarrow> running_tickets a' = running_tickets ?a \<and> ad_state a' = (ad_state ?a)\<lparr>ma_rejected := ma_rejected (ad_state ?a) + 1\<rparr>
        | (Inr _, a') \<Rightarrow> running_tickets a' = running_tickets ?a @ [(i, False)])"
      by (simp add: enter_def reject_def report_def running_tickets_def Let_def)
    ultimately show ?thesis using ok lim by (simp add: Let_def admission_ok_def)
  qed
qed

definition bus_admission :: admission where
  "bus_admission = projr (messagingAdmission ''bus'' 1)"

theorem admission_counts_running_work_witness:
  "messagingAdmission ''bus'' 1 = Inr bus_admission \<and>
   (let a = fold admission_step [Enter (Some ''x''), Enter (Some ''y''), End 0, End 0, Enter (Some ''y'')] bus_admission
    in running_tickets a = [(Some ''y'', False)] \<and> ma_active (ad_state a) = int (length (running_tickets a)) \<and> ma_peak (ad_state a) \<le> 1)"
proof -
  have a0: "messagingAdmission ''bus'' 1 = Inr bus_admission" by code_simp
  have "running_tickets (fold admission_step [Enter (Some ''x''), Enter (Some ''y''), End 0, End 0, Enter (Some ''y'')] bus_admission) = [(Some ''y'', False)]"
    by code_simp
  with admission_counts_running_work [OF a0, of "[Enter (Some ''x''), Enter (Some ''y''), End 0, End 0, Enter (Some ''y'')]" None] a0
  show ?thesis unfolding Let_def by blast
qed

end
