(* ===== verification/Handler_Wrappers.thy ===== *)
theory Handler_Wrappers
  imports Snapshotting
begin

text \<open>
  What hosts wrap around handlers and buses: correlation (\<open>correlation/\<close>), validation (\<open>validation/\<close>), interception
  (\<open>interception/intercepting-bus.ts\<close>) and the local-first bus (\<open>local-first/local-first-bus.ts\<close>).

  A handler gets a message and a context and works on a state of the host's. The verbs of a context that give birth to messages are one
  function on \<open>birth\<close>, which says which verb was called with what. A descriptor has the schema of its payload, a function of
  the application that answers at once or by a promise.
\<close>

section \<open>Messages and births\<close>

record message =
  ms_identifier :: string
  ms_payload :: js
  ms_metadata :: metadata

datatype schema_result = Parsed js | Issues "string list"

datatype schema_answer = AtOnce schema_result | Promised schema_result

record message_descriptor =
  md_name :: qualified_name
  md_validate :: "js \<Rightarrow> schema_answer"

datatype birth =
    Send message_descriptor js "metadata option"
  | Query message_descriptor js "metadata option"
  | AppendOne message_descriptor js "metadata option"
  | AppendMany "(message_descriptor \<times> js \<times> metadata option) list"
  | Schedule message_descriptor js "int option" "metadata option"
  | ScheduleAfter message_descriptor js int "metadata option"

datatype wrapper_error = FailedValidation string "string list" | SchemaIsAsync string string

type_synonym 'w verbs = "birth \<Rightarrow> 'w \<Rightarrow> (wrapper_error + js) \<times> 'w"

type_synonym 'w handler_fn = "message \<Rightarrow> 'w verbs \<Rightarrow> 'w \<Rightarrow> (wrapper_error + js) \<times> 'w"

section \<open>Correlation\<close>

text \<open>\<open>String(v)\<close>. Numbers are integers, which print as digits.\<close>

fun js_String :: "js \<Rightarrow> string" where
  "js_String JUndefined = ''undefined''"
| "js_String JNull = ''null''"
| "js_String (JBool v) = (if v then ''true'' else ''false'')"
| "js_String (JNumber n) = show_int n"
| "js_String (JBigint n) = show_int n"
| "js_String (JString s) = s"
| "js_String (JArray xs) = join '','' (map (\<lambda>x. case x of JUndefined \<Rightarrow> '''' | JNull \<Rightarrow> '''' | _ \<Rightarrow> js_String x) xs)"
| "js_String (JObject _) = ''[object Object]''"

text \<open>\<open>??\<close> on a property of a record.\<close>

definition or_else :: "js option \<Rightarrow> js \<Rightarrow> js" where
  "or_else v d = (case v of None \<Rightarrow> d | Some JUndefined \<Rightarrow> d | Some JNull \<Rightarrow> d | Some x \<Rightarrow> x)"

definition correlation :: "message \<Rightarrow> message" where
  "correlation m =
     (let md = spread [] (ms_metadata m); get = map_get (ms_metadata m); self = JString (ms_identifier m)
      in m\<lparr>ms_metadata := map_set ''causationId'' (JString (js_String (or_else (get ''causationId'') self)))
                           (map_set ''correlationId'' (JString (js_String (or_else (get ''correlationId'') self))) md)\<rparr>)"

definition messageOrigin :: "message \<Rightarrow> metadata" where
  "messageOrigin parent =
     spread [(''correlationId'', JString (js_String (or_else (map_get (ms_metadata parent) ''correlationId'') (JString (ms_identifier parent))))),
             (''causationId'', JString (ms_identifier parent))]
       (case map_get (ms_metadata parent) ''traceparent'' of Some (JString t) \<Rightarrow> [(''traceparent'', JString t)] | _ \<Rightarrow> [])"

definition stringly :: "metadata \<Rightarrow> metadata" where
  "stringly md = fold (\<lambda>(key, v) carried. map_set key (JString (js_String v)) carried) md []"

definition overlay :: "metadata \<Rightarrow> metadata option \<Rightarrow> metadata" where
  "overlay cargo provided = mergeMetadata cargo (case provided of None \<Rightarrow> emptyMetadata | Some md \<Rightarrow> md)"

fun overlay_birth :: "metadata \<Rightarrow> birth \<Rightarrow> birth" where
  "overlay_birth cargo (Send d p md) = Send d p (Some (overlay cargo md))"
| "overlay_birth cargo (Query d p md) = Query d p (Some (overlay cargo md))"
| "overlay_birth cargo (AppendOne d p md) = AppendOne d p (Some (overlay cargo md))"
| "overlay_birth cargo (AppendMany entries) = AppendMany (map (\<lambda>(d, p, md). (d, p, Some (overlay cargo md))) entries)"
| "overlay_birth cargo (Schedule d p at md) = Schedule d p at (Some (overlay cargo md))"
| "overlay_birth cargo (ScheduleAfter d p ms md) = ScheduleAfter d p ms (Some (overlay cargo md))"

definition overlaid :: "'w verbs \<Rightarrow> metadata \<Rightarrow> 'w verbs" where
  "overlaid context cargo = (\<lambda>b. context (overlay_birth cargo b))"

definition correlatingHandler :: "'w handler_fn \<Rightarrow> (message \<Rightarrow> metadata) \<Rightarrow> 'w handler_fn" where
  "correlatingHandler next from = (\<lambda>m context. next m (overlaid context (stringly (from m))))"

section \<open>Validation\<close>

definition accepted_payload :: "message_descriptor \<Rightarrow> schema_result \<Rightarrow> wrapper_error + js" where
  "accepted_payload d outcome =
     (case outcome of Issues messages \<Rightarrow> Inl (FailedValidation (qualifiedNameToString (md_name d)) messages) | Parsed v \<Rightarrow> Inr v)"

text \<open>Awaited, a promised answer is the answer.\<close>

definition validate :: "message_descriptor \<Rightarrow> js \<Rightarrow> wrapper_error + js" where
  "validate d payload = accepted_payload d (case md_validate d payload of AtOnce r \<Rightarrow> r | Promised r \<Rightarrow> r)"

definition validatedNow :: "message_descriptor \<Rightarrow> js \<Rightarrow> string \<Rightarrow> wrapper_error + js" where
  "validatedNow d payload verb =
     (case md_validate d payload of
        Promised _ \<Rightarrow> Inl (SchemaIsAsync (qualifiedNameToString (md_name d)) verb)
      | AtOnce r \<Rightarrow> accepted_payload d r)"

fun validate_birth :: "birth \<Rightarrow> wrapper_error + birth" where
  "validate_birth (Send d p md) = bind_result (validate d p) (\<lambda>v. Inr (Send d v md))"
| "validate_birth (Query d p md) = bind_result (validate d p) (\<lambda>v. Inr (Query d v md))"
| "validate_birth (AppendOne d p md) = bind_result (validatedNow d p ''append'') (\<lambda>v. Inr (AppendOne d v md))"
| "validate_birth (AppendMany entries) =
     bind_result (map_result (\<lambda>(d, p, md). bind_result (validatedNow d p ''append'') (\<lambda>v. Inr (d, v, md))) entries) (\<lambda>vs. Inr (AppendMany vs))"
| "validate_birth (Schedule d p at md) = bind_result (validatedNow d p ''schedule'') (\<lambda>v. Inr (Schedule d v at md))"
| "validate_birth (ScheduleAfter d p ms md) = bind_result (validatedNow d p ''scheduleAfter'') (\<lambda>v. Inr (ScheduleAfter d v ms md))"

definition gated :: "'w verbs \<Rightarrow> 'w verbs" where
  "gated context = (\<lambda>b w. case validate_birth b of Inl e \<Rightarrow> (Inl e, w) | Inr b' \<Rightarrow> context b' w)"

definition validatingHandler :: "'w handler_fn \<Rightarrow> message_descriptor \<Rightarrow> 'w handler_fn" where
  "validatingHandler next d =
     (\<lambda>m context w. case validate d (ms_payload m) of
        Inl e \<Rightarrow> (Inl e, w)
      | Inr payload \<Rightarrow> next (m\<lparr>ms_payload := payload\<rparr>) (gated context) w)"

section \<open>Buses\<close>

definition intercepting_dispatch :: "('m \<Rightarrow> 'r) \<Rightarrow> ('m \<Rightarrow> 'm) \<Rightarrow> 'm \<Rightarrow> 'r" where
  "intercepting_dispatch next_dispatch intercept m = next_dispatch (intercept m)"

text \<open>The names subscribed through a local-first bus, and where it sends a message.\<close>

definition localFirst_subscribe :: "string \<Rightarrow> string list \<Rightarrow> string list" where
  "localFirst_subscribe name subscribed = (if name \<in> set subscribed then subscribed else subscribed @ [name])"

definition localFirst_dispatch :: "string list \<Rightarrow> ('m \<Rightarrow> qualified_name) \<Rightarrow> ('m \<Rightarrow> 'r) \<Rightarrow> ('m \<Rightarrow> 'r) \<Rightarrow> 'm \<Rightarrow> 'r" where
  "localFirst_dispatch subscribed name_of local_dispatch next_dispatch m =
     (if qualifiedNameToString (name_of m) \<in> set subscribed then local_dispatch m else next_dispatch m)"

section \<open>A chain of messages\<close>

text \<open>The message a handling of \<open>parent\<close> gives birth to under the standard cargo.\<close>

definition born :: "message \<Rightarrow> string \<times> js \<times> metadata option \<Rightarrow> message" where
  "born parent x = (case x of (ident, payload, provided) \<Rightarrow>
     \<lparr>ms_identifier = ident, ms_payload = payload, ms_metadata = overlay (stringly (messageOrigin parent)) provided\<rparr>)"

fun chain :: "message \<Rightarrow> (string \<times> js \<times> metadata option) list \<Rightarrow> message list" where
  "chain m [] = [m]"
| "chain m (x # xs) = m # chain (born m x) xs"

definition chain_id :: "message \<Rightarrow> string" where
  "chain_id m = js_String (or_else (map_get (ms_metadata m) ''correlationId'') (JString (ms_identifier m)))"

text \<open>Metadata in which the caller names neither key of the chain.\<close>

definition plain :: "metadata option \<Rightarrow> bool" where
  "plain provided = (case provided of None \<Rightarrow> True | Some md \<Rightarrow>
     wf_map md \<and> map_get md ''correlationId'' = None \<and> map_get md ''causationId'' = None)"

lemma origin_ids:
  "map_get (stringly (messageOrigin m)) ''correlationId'' = Some (JString (chain_id m))"
  "map_get (stringly (messageOrigin m)) ''causationId'' = Some (JString (ms_identifier m))"
  "wf_map (stringly (messageOrigin m))"
  by (auto simp: messageOrigin_def stringly_def spread_def chain_id_def split: option.split js.split)

lemma born_ids:
  assumes "plain provided"
  shows "map_get (ms_metadata (born m (ident, payload, provided))) ''correlationId'' = Some (JString (chain_id m))"
    and "map_get (ms_metadata (born m (ident, payload, provided))) ''causationId'' = Some (JString (ms_identifier m))"
    and "chain_id (born m (ident, payload, provided)) = chain_id m"
proof -
  have "map_get (overlay (stringly (messageOrigin m)) provided) k = map_get (stringly (messageOrigin m)) k"
    if "k = ''correlationId'' \<or> k = ''causationId''" for k
    using assms that origin_ids(3) [of m]
    by (auto simp: overlay_def mergeMetadata_def map_get_spread plain_def emptyMetadata_def split: option.splits)
  then show "map_get (ms_metadata (born m (ident, payload, provided))) ''correlationId'' = Some (JString (chain_id m))"
    and "map_get (ms_metadata (born m (ident, payload, provided))) ''causationId'' = Some (JString (ms_identifier m))"
    by (simp_all add: born_def origin_ids)
  then show "chain_id (born m (ident, payload, provided)) = chain_id m" by (simp add: chain_id_def [of "born m _"] or_else_def)
qed

lemma length_chain [simp]: "length (chain m xs) = Suc (length xs)"
  by (induction xs arbitrary: m) simp_all

lemma chain_ids:
  assumes "list_all (\<lambda>(_, _, provided). plain provided) xs" "k < length xs"
  shows "map_get (ms_metadata (chain m xs ! Suc k)) ''correlationId'' = Some (JString (chain_id m)) \<and>
    map_get (ms_metadata (chain m xs ! Suc k)) ''causationId'' = Some (JString (ms_identifier (chain m xs ! k)))"
  using assms
proof (induction xs arbitrary: m k)
  case (Cons x xs)
  obtain ident payload provided where x: "x = (ident, payload, provided)" by (cases x)
  with Cons.prems have p: "plain provided" "list_all (\<lambda>(_, _, provided). plain provided) xs" by simp_all
  have hd: "chain (born m x) xs ! 0 = born m x" by (cases xs) simp_all
  show ?case
  proof (cases k)
    case 0
    then show ?thesis using born_ids [OF p(1), of m ident payload] hd x by simp
  next
    case (Suc j)
    then show ?thesis using Cons.IH [OF p(2), of j "born m x"] Cons.prems born_ids(3) [OF p(1), of m ident payload] x by simp
  qed
qed simp

text \<open>A bus that seeds the keys leaves a message that already carries them as it is.\<close>

lemma correlation_keeps_origin:
  assumes "wf_map (ms_metadata m)" "map_get (ms_metadata m) ''correlationId'' = Some (JString c)" "map_get (ms_metadata m) ''causationId'' = Some (JString d)"
  shows "map_get (ms_metadata (correlation m)) = map_get (ms_metadata m)"
  by (rule ext) (simp add: correlation_def Let_def map_get_spread [OF assms(1)] assms(2,3) or_else_def split: option.split)

lemma correlation_seeds:
  "map_get (ms_metadata (correlation m)) ''correlationId'' = Some (JString (chain_id m))"
  by (simp add: correlation_def Let_def chain_id_def)

text \<open>
  C28: Along a chain of messages, each born while the one before is handled under correlatingHandler with its standard cargo, every message
  after the first carries the correlation id of the first (or its identifier, when it has none) and, as its cause, the identifier of the message
  before it, as long as no caller names one of the two keys itself. A bus that seeds the keys on the way changes neither.
\<close>
theorem chain_carries_origin:
  assumes "list_all (\<lambda>(_, _, provided). plain provided) xs" "k < length xs"
  shows "let child = chain root xs ! Suc k; parent = chain root xs ! k in
    map_get (ms_metadata child) ''correlationId'' = Some (JString (chain_id root)) \<and>
    map_get (ms_metadata child) ''causationId'' = Some (JString (ms_identifier parent)) \<and>
    map_get (ms_metadata (correlation child)) ''correlationId'' = Some (JString (chain_id root)) \<and>
    map_get (ms_metadata (correlation child)) ''causationId'' = Some (JString (ms_identifier parent))"
  using chain_ids [OF assms, of root] by (simp add: Let_def correlation_def or_else_def)

definition order_placed :: message where
  "order_placed = \<lparr>ms_identifier = ''m1'', ms_payload = JNull, ms_metadata = []\<rparr>"

theorem chain_carries_origin_witness:
  "let births = [(''m2'', JNull, None), (''m3'', JNull, Some [(''actor'', JString ''bob'')])]; child = chain order_placed births ! 2 in
     map_get (ms_metadata child) ''correlationId'' = Some (JString ''m1'') \<and> map_get (ms_metadata child) ''causationId'' = Some (JString ''m2'')"
proof -
  let ?births = "[(''m2'', JNull, None), (''m3'', JNull, Some [(''actor'', JString ''bob'')])]"
  have "list_all (\<lambda>(_, _, provided). plain provided) ?births" by (simp add: plain_def)
  from chain_carries_origin [OF this, of 1 order_placed] show ?thesis
    by (simp add: Let_def numeral_2_eq_2 chain_id_def order_placed_def or_else_def born_def)
qed

section \<open>The order of wrappers\<close>

lemma validate_overlaid:
  "validate_birth (overlay_birth cargo b) = (case validate_birth b of Inl e \<Rightarrow> Inl e | Inr b' \<Rightarrow> Inr (overlay_birth cargo b'))"
proof (cases b)
  case (AppendMany entries)
  have "map_result (\<lambda>(d, p, md). bind_result (validatedNow d p ''append'') (\<lambda>v. Inr (d, v, md))) (map (\<lambda>(d, p, md). (d, p, Some (overlay cargo md))) entries) =
      (case map_result (\<lambda>(d, p, md). bind_result (validatedNow d p ''append'') (\<lambda>v. Inr (d, v, md))) entries of
         Inl e \<Rightarrow> Inl e | Inr vs \<Rightarrow> Inr (map (\<lambda>(d, p, md). (d, p, Some (overlay cargo md))) vs))"
  proof (induction entries)
    case (Cons x entries)
    obtain d p md where "x = (d, p, md)" by (cases x)
    with Cons show ?case by (cases "validatedNow d p ''append''") (simp_all split: sum.split)
  qed simp
  then show ?thesis using AppendMany by (simp add: bind_result_def split: sum.split)
qed (simp_all add: bind_result_def split: sum.split)

lemma gated_overlaid: "gated (overlaid context cargo) = overlaid (gated context) cargo"
  by (intro ext) (simp add: gated_def overlaid_def validate_overlaid split: sum.split)

text \<open>
  Correlation and validation may be wrapped around a handler in either order: the result is the same function of the message, the context and
  the state, refusals included, whenever the cargo does not look at the payload, as the standard cargo does not.
\<close>
theorem wrappers_compose_in_any_order:
  assumes "\<And>m p. from (m\<lparr>ms_payload := p\<rparr>) = from m"
  shows "correlatingHandler (validatingHandler next d) from = validatingHandler (correlatingHandler next from) d"
  by (intro ext) (simp add: correlatingHandler_def validatingHandler_def gated_overlaid assms split: sum.split)

definition ship_order :: message_descriptor where
  "ship_order = \<lparr>md_name = qn ''shop'' ''ShipOrder'', md_validate = (\<lambda>p. if p = JNull then AtOnce (Issues [''empty'']) else AtOnce (Parsed p))\<rparr>"

definition forwarding :: "nat handler_fn" where
  "forwarding = (\<lambda>m context w. context (Send ship_order (ms_payload m) None) w)"

theorem wrappers_compose_in_any_order_witness:
  "correlatingHandler (validatingHandler forwarding ship_order) messageOrigin = validatingHandler (correlatingHandler forwarding messageOrigin) ship_order \<and>
   validatingHandler (correlatingHandler forwarding messageOrigin) ship_order order_placed (\<lambda>b w. (Inr JNull, Suc w)) 0 =
     (Inl (FailedValidation ''shop.ShipOrder'' [''empty'']), 0)"
proof
  show "correlatingHandler (validatingHandler forwarding ship_order) messageOrigin = validatingHandler (correlatingHandler forwarding messageOrigin) ship_order"
    by (rule wrappers_compose_in_any_order) (simp add: messageOrigin_def)
qed (simp add: validatingHandler_def validate_def accepted_payload_def ship_order_def order_placed_def qn_def qualifiedNameToString_def)

text \<open>Through a validating handler only values a schema produced reach the verbs.\<close>

fun birth_payloads :: "birth \<Rightarrow> (message_descriptor \<times> js) list" where
  "birth_payloads (Send d p _) = [(d, p)]"
| "birth_payloads (Query d p _) = [(d, p)]"
| "birth_payloads (AppendOne d p _) = [(d, p)]"
| "birth_payloads (AppendMany entries) = map (\<lambda>(d, p, _). (d, p)) entries"
| "birth_payloads (Schedule d p _ _) = [(d, p)]"
| "birth_payloads (ScheduleAfter d p _ _) = [(d, p)]"

definition produced :: "message_descriptor \<Rightarrow> js \<Rightarrow> bool" where
  "produced d v = (\<exists>p. md_validate d p = AtOnce (Parsed v) \<or> md_validate d p = Promised (Parsed v))"

lemma validated_produced:
  "validate d p = Inr v \<Longrightarrow> produced d v" "validatedNow d p verb = Inr v \<Longrightarrow> produced d v"
  by (auto simp: validate_def validatedNow_def accepted_payload_def produced_def split: schema_answer.splits schema_result.splits)

lemma gate_passes_parsed:
  assumes "validate_birth b = Inr b'"
  shows "list_all (\<lambda>(d, v). produced d v) (birth_payloads b')"
proof (cases b)
  case (AppendMany entries)
  then obtain vs where "list_all2 (\<lambda>x y. (case x of (d, p, md) \<Rightarrow> bind_result (validatedNow d p ''append'') (\<lambda>v. Inr (d, v, md))) = Inr y) entries vs" "b' = AppendMany vs"
    using assms by (auto simp: throw_simps)
  then show ?thesis by (induction entries vs arbitrary: b' rule: list_all2_induct) (auto simp: throw_simps validated_produced)
qed (use assms in \<open>auto simp: throw_simps validated_produced\<close>)

end
