(* ===== verification/Wrapper_Chains.thy ===== *)
theory Wrapper_Chains
  imports Prelude
begin

text \<open>
  The boot check of wrapped handlers (\<open>composition/describe.ts\<close>): a wrapper says what it supplies to the context, uses of it, stamps
  onto the message and reads off it, and \<open>chainProblems\<close> lists every way a chain of wrappers cannot work. A problem is the facts its
  sentence names. The theory shows that the list is empty exactly when the three rules of the file hold.
\<close>

section \<open>Descriptions\<close>

text \<open>A list that is left out is empty. \<open>hints\<close> gives a sentence for a capability.\<close>

record wrapper_description =
  wd_name :: string
  wd_supplies :: "string list"
  wd_uses :: "string list"
  wd_stamps :: "string list"
  wd_reads :: "string list"
  wd_hints :: "(string, string) jsmap"

text \<open>A function that carries no description, or one that describes the wrapper around another function.\<close>

datatype described_fn = PlainFn | DescribedFn wrapper_description described_fn

fun descriptionOf :: "described_fn \<Rightarrow> (wrapper_description \<times> described_fn) option" where
  "descriptionOf PlainFn = None"
| "descriptionOf (DescribedFn d next) = Some (d, next)"

text \<open>The loop gives up after 256 links.\<close>

fun chain_links :: "nat \<Rightarrow> described_fn \<Rightarrow> wrapper_description list" where
  "chain_links 0 f = []"
| "chain_links (Suc n) f = (case descriptionOf f of None \<Rightarrow> [] | Some (d, next) \<Rightarrow> d # chain_links n next)"

definition chainOf :: "described_fn \<Rightarrow> wrapper_description list" where
  "chainOf f = chain_links 256 f"

section \<open>Problems\<close>

datatype chain_problem =
    UsesUnsupplied string string "string option"
  | SuppliedTwice string string string
  | StampedInside string string string

type_synonym suppliers = "(string, wrapper_description) jsmap"

definition uses_problems :: "suppliers \<Rightarrow> wrapper_description \<Rightarrow> chain_problem list" where
  "uses_problems suppliedBy link =
     map (\<lambda>used. UsesUnsupplied (wd_name link) used (map_get (wd_hints link) used))
       (filter (\<lambda>used. map_get suppliedBy used = None) (wd_uses link))"

fun supplies_problems :: "wrapper_description \<Rightarrow> string list \<Rightarrow> suppliers \<Rightarrow> chain_problem list \<times> suppliers" where
  "supplies_problems link [] suppliedBy = ([], suppliedBy)"
| "supplies_problems link (supplied # rest) suppliedBy =
     (case map_get suppliedBy supplied of
        Some earlier \<Rightarrow>
          (case supplies_problems link rest suppliedBy of (ps, m) \<Rightarrow> (SuppliedTwice supplied (wd_name earlier) (wd_name link) # ps, m))
      | None \<Rightarrow> supplies_problems link rest (map_set supplied link suppliedBy))"

definition reads_problems :: "wrapper_description \<Rightarrow> wrapper_description list \<Rightarrow> chain_problem list" where
  "reads_problems link inside =
     concat (map (\<lambda>read. map (\<lambda>inner. StampedInside (wd_name inner) read (wd_name link)) (filter (\<lambda>inner. read \<in> set (wd_stamps inner)) inside))
       (wd_reads link))"

fun chain_problems :: "wrapper_description list \<Rightarrow> suppliers \<Rightarrow> chain_problem list" where
  "chain_problems [] suppliedBy = []"
| "chain_problems (link # inside) suppliedBy =
     (case supplies_problems link (wd_supplies link) suppliedBy of
        (ps, suppliedBy') \<Rightarrow> uses_problems suppliedBy link @ ps @ reads_problems link inside @ chain_problems inside suppliedBy')"

definition chainProblems :: "wrapper_description list \<Rightarrow> chain_problem list" where
  "chainProblems chain = chain_problems chain []"

text \<open>The boot error: the label, the names of the chain and its problems.\<close>

definition chainError :: "string \<Rightarrow> described_fn \<Rightarrow> (string \<times> string list \<times> chain_problem list) option" where
  "chainError label f =
     (let chain = chainOf f; problems = chainProblems chain
      in if problems = [] then None else Some (label, map wd_name chain, problems))"

section \<open>The three rules\<close>

definition uses_are_supplied :: "wrapper_description list \<Rightarrow> bool" where
  "uses_are_supplied chain = (\<forall>i < length chain. \<forall>u \<in> set (wd_uses (chain ! i)). \<exists>j < i. u \<in> set (wd_supplies (chain ! j)))"

definition supplied_once :: "wrapper_description list \<Rightarrow> bool" where
  "supplied_once chain = distinct (concat (map wd_supplies chain))"

definition stamps_before_reads :: "wrapper_description list \<Rightarrow> bool" where
  "stamps_before_reads chain =
     (\<forall>i j. i < j \<and> j < length chain \<longrightarrow> set (wd_reads (chain ! i)) \<inter> set (wd_stamps (chain ! j)) = {})"

lemma supplies_ok:
  "fst (supplies_problems link xs m) = [] \<longleftrightarrow> distinct xs \<and> set xs \<inter> dom (map_get m) = {}"
  "dom (map_get (snd (supplies_problems link xs m))) = dom (map_get m) \<union> set xs"
proof (induction xs arbitrary: m)
  case (Cons x xs)
  have d: "dom (map_get (map_set x link m)) = insert x (dom (map_get m))" for m by (auto simp: dom_def)
  {
    case 1
    show ?case
    proof (cases "map_get m x")
      case None
      then have "x \<notin> dom (map_get m)" by blast
      with None show ?thesis using Cons(1) [of "map_set x link m", unfolded d] by (auto simp del: domIff)
    next
      case (Some e)
      then have "x \<in> dom (map_get m)" by blast
      with Some show ?thesis by (auto split: prod.split)
    qed
  next
    case 2
    show ?case
    proof (cases "map_get m x")
      case None
      then show ?thesis using Cons(2) [of "map_set x link m", unfolded d] by simp
    next
      case (Some e)
      then have "x \<in> dom (map_get m)" by blast
      then have "dom (map_get m) \<union> set (x # xs) = dom (map_get m) \<union> set xs" by auto
      moreover have "snd (supplies_problems link (x # xs) m) = snd (supplies_problems link xs m)" using Some by (simp split: prod.split)
      ultimately show ?thesis using Cons(2) [of m] by (simp only:)
    qed
  }
qed simp_all

lemma uses_ok: "uses_problems m link = [] \<longleftrightarrow> set (wd_uses link) \<subseteq> dom (map_get m)"
  by (auto simp: uses_problems_def filter_empty_conv)

lemma reads_ok: "reads_problems link inside = [] \<longleftrightarrow> (\<forall>inner \<in> set inside. set (wd_reads link) \<inter> set (wd_stamps inner) = {})"
  by (auto simp: reads_problems_def filter_empty_conv)

lemma all_less_Suc: "(\<forall>i < Suc n. P i) \<longleftrightarrow> P 0 \<and> (\<forall>i < n. P (Suc i))"
  using less_Suc_eq_0_disj by auto

lemma stamps_Cons:
  "stamps_before_reads (link # inside) \<longleftrightarrow> (\<forall>inner \<in> set inside. set (wd_reads link) \<inter> set (wd_stamps inner) = {}) \<and> stamps_before_reads inside"
proof -
  have "stamps_before_reads chain \<longleftrightarrow> sorted_wrt (\<lambda>a b. set (wd_reads a) \<inter> set (wd_stamps b) = {}) chain" for chain
    by (auto simp: stamps_before_reads_def sorted_wrt_iff_nth_less)
  then show ?thesis by simp
qed

text \<open>What the loop has seen: the capabilities supplied further out.\<close>

definition uses_from :: "string set \<Rightarrow> wrapper_description list \<Rightarrow> bool" where
  "uses_from outside chain =
     (\<forall>i < length chain. \<forall>u \<in> set (wd_uses (chain ! i)). u \<in> outside \<or> (\<exists>j < i. u \<in> set (wd_supplies (chain ! j))))"

lemma ex_less_Suc: "(\<exists>j < Suc n. P j) \<longleftrightarrow> P 0 \<or> (\<exists>j < n. P (Suc j))"
  using less_Suc_eq_0_disj by auto

lemma uses_Cons: "uses_from outside (link # inside) \<longleftrightarrow> set (wd_uses link) \<subseteq> outside \<and> uses_from (outside \<union> set (wd_supplies link)) inside"
  by (auto simp: uses_from_def all_less_Suc ex_less_Suc)

lemma problems_ok:
  "chain_problems chain m = [] \<longleftrightarrow>
     uses_from (dom (map_get m)) chain \<and> distinct (concat (map wd_supplies chain)) \<and> set (concat (map wd_supplies chain)) \<inter> dom (map_get m) = {} \<and>
     stamps_before_reads chain"
proof (induction chain arbitrary: m)
  case Nil
  then show ?case by (simp add: uses_from_def stamps_before_reads_def)
next
  case (Cons link inside)
  let ?ps = "fst (supplies_problems link (wd_supplies link) m)" and ?m = "snd (supplies_problems link (wd_supplies link) m)"
  have "chain_problems (link # inside) m = [] \<longleftrightarrow> uses_problems m link = [] \<and> ?ps = [] \<and> reads_problems link inside = [] \<and> chain_problems inside ?m = []"
    by (simp split: prod.split)
  then show ?case unfolding Cons.IH uses_ok reads_ok supplies_ok uses_Cons stamps_Cons by auto
qed

text \<open>
  A chain of wrappers boots without a complaint exactly when every capability a wrapper uses is supplied by a wrapper outside it, no
  capability is supplied twice, and no wrapper stamps something on the message that a wrapper outside it has already read.
\<close>
theorem chain_accepted_iff_rules_hold:
  "chainError label f = None \<longleftrightarrow>
     uses_are_supplied (chainOf f) \<and> supplied_once (chainOf f) \<and> stamps_before_reads (chainOf f)"
  by (simp add: chainError_def chainProblems_def problems_ok uses_are_supplied_def supplied_once_def uses_from_def Let_def)

text \<open>The guard of the loop cuts no chain that is shorter.\<close>

fun all_links :: "described_fn \<Rightarrow> wrapper_description list" where
  "all_links PlainFn = []"
| "all_links (DescribedFn d next) = d # all_links next"

lemma chain_links_take: "chain_links n f = take n (all_links f)"
  by (induction n f rule: chain_links.induct) (auto split: option.split elim: descriptionOf.elims)

lemma chainOf_all: "length (all_links f) \<le> 256 \<Longrightarrow> chainOf f = all_links f"
  by (simp add: chainOf_def chain_links_take)

end
