(* ===== verification/Application.thy ===== *)
theory Application
  imports Wrapper_Chains Messages
begin

text \<open>
  Wiring an application (\<open>kronos.ts\<close>): the boot checks, the subscriptions, and the processors that event handlers are grouped into.

  Stores, buses, queues, units of work and sequence functions are compared by identity and are numbers here. \<open>refuses\<close> says what a bus
  throws when a handler is subscribed, given what has been subscribed before; subscribing and running are the business of the components
  that do it, and the model records that they were asked to, in the order of the calls.
\<close>

section \<open>Entries\<close>

datatype descriptor_name = TextName string | PartsName "string option" "string option" "string option"

record processor_value =
  pv_name :: string
  pv_eventStore :: nat
  pv_tokenStore :: nat
  pv_unitOfWork :: nat
  pv_sequence :: "nat option"
  pv_deadLetterQueue :: "nat option"
  pv_batchSize :: "nat option"
  pv_pollingIntervalMs :: "int option"
  pv_concurrent :: "nat option"
  pv_segments :: "(nat \<times> nat) option"

text \<open>\<open>en_processor\<close> is a processor with the identity of its object; only event handlers have one.\<close>

record app_entry =
  en_name :: "string option"
  en_kind :: "string option"
  en_descriptor :: "descriptor_name option"
  en_handler :: described_fn
  en_eventStore :: "nat option"
  en_processor :: "(nat \<times> processor_value) option"

definition nullish :: "string option \<Rightarrow> string" where
  "nullish x = (case x of None \<Rightarrow> '''' | Some s \<Rightarrow> s)"

text \<open>The empty text is false as a name; an object is true.\<close>

definition labelOf :: "app_entry \<Rightarrow> string" where
  "labelOf en =
     (if nullish (en_name en) \<noteq> '''' then nullish (en_name en)
      else case en_descriptor en of
             Some (PartsName namespace name localName) \<Rightarrow>
               nullish namespace @ ''.'' @ (case name of Some n \<Rightarrow> n | None \<Rightarrow> nullish localName)
           | Some (TextName t) \<Rightarrow> if t \<noteq> '''' then t else (case en_kind en of Some k \<Rightarrow> k | None \<Rightarrow> ''<unnamed entry>'')
           | None \<Rightarrow> (case en_kind en of Some k \<Rightarrow> k | None \<Rightarrow> ''<unnamed entry>''))"

datatype boot_error =
    BadChain "string \<times> string list \<times> chain_problem list"
  | NoEventStore string
  | Refused js_error
  | NoProcessor string
  | ProcessorsDiffer string "string list" string string

definition requireEventStore :: "app_entry \<Rightarrow> boot_error + nat" where
  "requireEventStore en = (case en_eventStore en of None \<Rightarrow> Inl (NoEventStore (labelOf en)) | Some s \<Rightarrow> Inr s)"

definition processorConflicts :: "processor_value \<Rightarrow> processor_value \<Rightarrow> string list" where
  "processorConflicts a b =
     (if pv_eventStore a \<noteq> pv_eventStore b then [''eventStore''] else []) @
     (if pv_tokenStore a \<noteq> pv_tokenStore b then [''tokenStore''] else []) @
     (if pv_unitOfWork a \<noteq> pv_unitOfWork b then [''unitOfWork''] else []) @
     (if pv_sequence a \<noteq> pv_sequence b \<or> pv_deadLetterQueue a \<noteq> pv_deadLetterQueue b then [''deadLettering''] else []) @
     (if pv_batchSize a \<noteq> pv_batchSize b then [''batched''] else []) @
     (if pv_pollingIntervalMs a \<noteq> pv_pollingIntervalMs b then [''polling''] else []) @
     (if pv_concurrent a \<noteq> pv_concurrent b then [''concurrent''] else []) @
     (if map_option fst (pv_segments a) \<noteq> map_option fst (pv_segments b) \<or>
         map_option snd (pv_segments a) \<noteq> map_option snd (pv_segments b) then [''segmented''] else [])"

section \<open>Boot\<close>

datatype boot_call = SubscribeCommand app_entry nat | SubscribeQuery app_entry | StartProcessor string | StopProcessor string

record processor_group =
  pg_processor :: "nat \<times> processor_value"
  pg_firstLabel :: string
  pg_handlers :: "app_entry list"

fun check_chains :: "app_entry list \<Rightarrow> boot_error option" where
  "check_chains [] = None"
| "check_chains (en # ens) = (case chainError (labelOf en) (en_handler en) of Some p \<Rightarrow> Some (BadChain p) | None \<Rightarrow> check_chains ens)"

fun subscribe_commands ::
  "(boot_call list \<Rightarrow> boot_call \<Rightarrow> js_error option) \<Rightarrow> app_entry list \<Rightarrow> boot_call list \<Rightarrow> boot_error option \<times> boot_call list" where
  "subscribe_commands refuses [] calls = (None, calls)"
| "subscribe_commands refuses (en # ens) calls =
     (case requireEventStore en of
        Inl e \<Rightarrow> (Some e, calls)
      | Inr s \<Rightarrow>
          (case refuses calls (SubscribeCommand en s) of
             Some e \<Rightarrow> (Some (Refused e), calls)
           | None \<Rightarrow> subscribe_commands refuses ens (calls @ [SubscribeCommand en s])))"

fun subscribe_queries ::
  "(boot_call list \<Rightarrow> boot_call \<Rightarrow> js_error option) \<Rightarrow> app_entry list \<Rightarrow> boot_call list \<Rightarrow> boot_error option \<times> boot_call list" where
  "subscribe_queries refuses [] calls = (None, calls)"
| "subscribe_queries refuses (en # ens) calls =
     (case refuses calls (SubscribeQuery en) of
        Some e \<Rightarrow> (Some (Refused e), calls)
      | None \<Rightarrow> subscribe_queries refuses ens (calls @ [SubscribeQuery en]))"

text \<open>Event handlers are grouped by the name of their processor, not by its identity.\<close>

fun group_handlers :: "app_entry list \<Rightarrow> (string, processor_group) jsmap \<Rightarrow> boot_error + (string, processor_group) jsmap" where
  "group_handlers [] groups = Inr groups"
| "group_handlers (en # ens) groups =
     (case en_processor en of
        None \<Rightarrow> Inl (NoProcessor (labelOf en))
      | Some (ref, p) \<Rightarrow>
          (case map_get groups (pv_name p) of
             None \<Rightarrow>
               group_handlers ens (map_set (pv_name p) \<lparr>pg_processor = (ref, p), pg_firstLabel = labelOf en, pg_handlers = [en]\<rparr> groups)
           | Some g \<Rightarrow>
               (let conflicts = (if fst (pg_processor g) \<noteq> ref then processorConflicts (snd (pg_processor g)) p else [])
                in if conflicts \<noteq> [] then Inl (ProcessorsDiffer (pv_name p) conflicts (pg_firstLabel g) (labelOf en))
                   else group_handlers ens (map_set (pv_name p) (g\<lparr>pg_handlers := pg_handlers g @ [en]\<rparr>) groups))))"

record app_options =
  op_commandHandlers :: "app_entry list"
  op_queryHandlers :: "app_entry list"
  op_eventHandlers :: "app_entry list"

definition kronos ::
  "(boot_call list \<Rightarrow> boot_call \<Rightarrow> js_error option) \<Rightarrow> app_options
     \<Rightarrow> (boot_error + (string, processor_group) jsmap) \<times> boot_call list" where
  "kronos refuses opts =
     (case check_chains (op_commandHandlers opts @ op_queryHandlers opts @ op_eventHandlers opts) of
        Some e \<Rightarrow> (Inl e, [])
      | None \<Rightarrow>
          (case subscribe_commands refuses (op_commandHandlers opts) [] of
             (Some e, calls) \<Rightarrow> (Inl e, calls)
           | (None, calls) \<Rightarrow>
               (case subscribe_queries refuses (op_queryHandlers opts) calls of
                  (Some e, calls) \<Rightarrow> (Inl e, calls)
                | (None, calls) \<Rightarrow>
                    (case group_handlers (op_eventHandlers opts) [] of
                       Inl e \<Rightarrow> (Inl e, calls)
                     | Inr groups \<Rightarrow> (Inr groups, calls @ map (\<lambda>(_, g). StartProcessor (pv_name (snd (pg_processor g)))) groups)))))"

definition app_stop :: "(string, processor_group) jsmap \<Rightarrow> boot_call list" where
  "app_stop groups = map (\<lambda>(_, g). StopProcessor (pv_name (snd (pg_processor g)))) groups"

section \<open>What a booted application runs\<close>

text \<open>Two entries that name the same processor configure it alike; one object has one configuration.\<close>

definition processors_agree :: "app_entry list \<Rightarrow> bool" where
  "processors_agree ens =
     ((\<forall>en \<in> set ens. en_processor en \<noteq> None) \<and>
      (\<forall>a \<in> set ens. \<forall>b \<in> set ens. pv_name (snd (the (en_processor a))) = pv_name (snd (the (en_processor b))) \<longrightarrow>
         snd (the (en_processor a)) = snd (the (en_processor b))))"

definition objects_ok :: "app_entry list \<Rightarrow> bool" where
  "objects_ok ens = (\<forall>a \<in> set ens. \<forall>b \<in> set ens. \<forall>ref p q. en_processor a = Some (ref, p) \<longrightarrow> en_processor b = Some (ref, q) \<longrightarrow> p = q)"

definition names_processor :: "string \<Rightarrow> app_entry \<Rightarrow> bool" where
  "names_processor n en = (case en_processor en of None \<Rightarrow> False | Some (_, p) \<Rightarrow> pv_name p = n)"

lemma option_pair_eq: "map_option fst x = map_option fst y \<and> map_option snd x = map_option snd y \<longleftrightarrow> x = y"
  by (cases x; cases y) (auto intro: prod_eqI)

lemma conflicts_none:
  assumes "pv_name a = pv_name b"
  shows "processorConflicts a b = [] \<longleftrightarrow> a = b"
proof -
  have "processorConflicts a b = [] \<longleftrightarrow>
      pv_eventStore a = pv_eventStore b \<and> pv_tokenStore a = pv_tokenStore b \<and> pv_unitOfWork a = pv_unitOfWork b \<and>
      pv_sequence a = pv_sequence b \<and> pv_deadLetterQueue a = pv_deadLetterQueue b \<and> pv_batchSize a = pv_batchSize b \<and>
      pv_pollingIntervalMs a = pv_pollingIntervalMs b \<and> pv_concurrent a = pv_concurrent b \<and> pv_segments a = pv_segments b"
    unfolding processorConflicts_def option_pair_eq [of "pv_segments a", symmetric] by auto
  with assms show ?thesis
    by (cases a; cases b) auto
qed

definition group_ok :: "app_entry list \<Rightarrow> string \<Rightarrow> processor_group \<Rightarrow> bool" where
  "group_ok ens n g =
     (pg_handlers g = filter (names_processor n) ens \<and> pg_handlers g \<noteq> [] \<and> pv_name (snd (pg_processor g)) = n \<and>
      en_processor (hd (pg_handlers g)) = Some (pg_processor g) \<and>
      (\<forall>en \<in> set (pg_handlers g). map_option snd (en_processor en) = Some (snd (pg_processor g))))"

definition groups_ok :: "app_entry list \<Rightarrow> (string, processor_group) jsmap \<Rightarrow> bool" where
  "groups_ok ens groups =
     (distinct (map fst groups) \<and> (\<forall>en \<in> set ens. en_processor en \<noteq> None) \<and>
      (\<forall>n. case map_get groups n of None \<Rightarrow> filter (names_processor n) ens = [] | Some g \<Rightarrow> group_ok ens n g))"

lemma groups_okD:
  assumes "groups_ok ens groups"
  shows "map_get groups n = None \<Longrightarrow> filter (names_processor n) ens = []" "map_get groups n = Some g \<Longrightarrow> group_ok ens n g"
  using assms unfolding groups_ok_def by (auto dest: spec [of _ n])

lemma group_one:
  assumes ok: "groups_ok done groups" and p: "en_processor en = Some (ref, p)" and n: "n = pv_name p"
    and g: "map_get groups n = None \<Longrightarrow> g = \<lparr>pg_processor = (ref, p), pg_firstLabel = l, pg_handlers = [en]\<rparr>"
      "\<And>g0. map_get groups n = Some g0 \<Longrightarrow> g = g0\<lparr>pg_handlers := pg_handlers g0 @ [en]\<rparr> \<and> snd (pg_processor g0) = p"
  shows "groups_ok (done @ [en]) (map_set n g groups)"
proof -
  have names: "names_processor m en \<longleftrightarrow> m = n" for m
    using p n by (auto simp: names_processor_def)
  have "group_ok (done @ [en]) n g"
  proof (cases "map_get groups n")
    case None
    then show ?thesis
      using groups_okD(1) [OF ok None] g(1) p n names by (simp add: group_ok_def)
  next
    case (Some g0)
    then show ?thesis
      using groups_okD(2) [OF ok Some] g(2) [OF Some] p n names by (auto simp: group_ok_def hd_append)
  qed
  moreover have "case map_get groups m of None \<Rightarrow> filter (names_processor m) (done @ [en]) = [] | Some g \<Rightarrow> group_ok (done @ [en]) m g"
    if "m \<noteq> n" for m
    using groups_okD [OF ok, of m] that names by (auto simp: group_ok_def split: option.splits)
  ultimately show ?thesis
    using ok p by (simp add: groups_ok_def distinct_update)
qed

lemma grouped:
  assumes "groups_ok done groups" "objects_ok (done @ ens)"
  shows "group_handlers ens groups = Inr groups' \<Longrightarrow> groups_ok (done @ ens) groups'"
    and "processors_agree (done @ ens) \<Longrightarrow> \<exists>groups'. group_handlers ens groups = Inr groups'"
proof -
  have "(group_handlers ens groups = Inr groups' \<longrightarrow> groups_ok (done @ ens) groups') \<and>
      (processors_agree (done @ ens) \<longrightarrow> (\<exists>groups'. group_handlers ens groups = Inr groups'))" for groups'
    using assms
  proof (induction ens arbitrary: "done" groups)
    case (Cons en ens)
    show ?case
    proof (cases "en_processor en")
      case None
      then show ?thesis
        by (auto simp: processors_agree_def)
    next
      case (Some rp)
      obtain ref p where rp: "rp = (ref, p)"
        by fastforce
      note p = Some [unfolded rp]
      have step: "(group_handlers ens (map_set (pv_name p) g groups) = Inr groups' \<longrightarrow> groups_ok (done @ en # ens) groups') \<and>
          (processors_agree (done @ en # ens) \<longrightarrow> (\<exists>groups'. group_handlers ens (map_set (pv_name p) g groups) = Inr groups'))"
        if "groups_ok (done @ [en]) (map_set (pv_name p) g groups)" for g
        using Cons.IH [OF that] Cons.prems(2) by simp
      show ?thesis
      proof (cases "map_get groups (pv_name p)")
        case None
        show ?thesis
          using step [OF group_one [OF Cons.prems(1) p refl]] None p by simp
      next
        case g: (Some g)
        note gok = groups_okD(2) [OF Cons.prems(1) g]
        have first: "hd (pg_handlers g) \<in> set done" "en_processor (hd (pg_handlers g)) = Some (pg_processor g)"
            "pv_name (snd (pg_processor g)) = pv_name p"
          using gok hd_in_set [of "pg_handlers g"] by (auto simp: group_ok_def)
        have same: "fst (pg_processor g) = ref \<Longrightarrow> snd (pg_processor g) = p"
          using Cons.prems(2) first p unfolding objects_ok_def by (cases "pg_processor g") auto
        have agree: "processors_agree (done @ en # ens) \<Longrightarrow> snd (pg_processor g) = p"
          using first p unfolding processors_agree_def by (metis UnCI list.set_intros(1) option.sel set_append snd_conv)
        show ?thesis
        proof (cases "snd (pg_processor g) = p")
          case True
          then have "groups_ok (done @ [en]) (map_set (pv_name p) (g\<lparr>pg_handlers := pg_handlers g @ [en]\<rparr>) groups)"
            using g by (intro group_one [OF Cons.prems(1) p refl]) auto
          from step [OF this] show ?thesis
            using g p True conflicts_none [of p p] by simp
        next
          case False
          then show ?thesis
            using g p same agree conflicts_none [OF first(3)] by (auto simp: Let_def)
        qed
      qed
    qed
  qed auto
  then show "group_handlers ens groups = Inr groups' \<Longrightarrow> groups_ok (done @ ens) groups'"
    "processors_agree (done @ ens) \<Longrightarrow> \<exists>groups'. group_handlers ens groups = Inr groups'"
    by blast+
qed

lemma grouped_agree: "groups_ok ens groups \<Longrightarrow> processors_agree ens"
proof -
  assume ok: "groups_ok ens groups"
  have known: "\<exists>g. map_get groups n = Some g \<and> p = snd (pg_processor g)" if "en \<in> set ens" "en_processor en = Some (ref, p)" "pv_name p = n" for en ref p n
  proof (cases "map_get groups n")
    case None
    then show ?thesis
      using groups_okD(1) [OF ok None] that by (force simp: filter_empty_conv names_processor_def)
  next
    case (Some g)
    then show ?thesis
      using groups_okD(2) [OF ok Some] that by (fastforce simp: group_ok_def names_processor_def)
  qed
  have all: "\<forall>en \<in> set ens. en_processor en \<noteq> None"
    using ok by (simp add: groups_ok_def)
  then have has: "\<exists>ref p. en_processor en = Some (ref, p)" if "en \<in> set ens" for en
    using that by fastforce
  have "snd (the (en_processor a)) = snd (the (en_processor b))"
    if ab: "a \<in> set ens" "b \<in> set ens" "pv_name (snd (the (en_processor a))) = pv_name (snd (the (en_processor b)))" for a b
  proof -
    obtain ra p rb q where pq: "en_processor a = Some (ra, p)" "en_processor b = Some (rb, q)"
      using has [OF ab(1)] has [OF ab(2)] by blast
    then have "pv_name q = pv_name p"
      using ab(3) by simp
    then have "p = q"
      using known [OF ab(1) pq(1) refl] known [OF ab(2) pq(2)] by fastforce
    with pq show ?thesis
      by simp
  qed
  with all show ?thesis
    unfolding processors_agree_def by blast
qed

lemma no_groups: "groups_ok [] []"
  by (simp add: groups_ok_def)

lemma check_chains_None: "check_chains ens = None \<longleftrightarrow> (\<forall>en \<in> set ens. chainError (labelOf en) (en_handler en) = None)"
  by (induction ens) (auto split: option.splits)

lemma subscribed_commands:
  "subscribe_commands refuses ens calls = (None, calls') \<Longrightarrow>
     (\<forall>en \<in> set ens. en_eventStore en \<noteq> None) \<and> calls' = calls @ map (\<lambda>en. SubscribeCommand en (the (en_eventStore en))) ens"
proof (induction ens arbitrary: calls)
  case (Cons en ens)
  then obtain s where "en_eventStore en = Some s"
    "subscribe_commands refuses ens (calls @ [SubscribeCommand en s]) = (None, calls')"
    by (auto simp: requireEventStore_def split: option.splits)
  with Cons.IH [of "calls @ [SubscribeCommand en s]"] show ?case by simp
qed simp

lemma subscribed_queries:
  "subscribe_queries refuses ens calls = (None, calls') \<Longrightarrow> calls' = calls @ map SubscribeQuery ens"
proof (induction ens arbitrary: calls)
  case (Cons en ens)
  then have "subscribe_queries refuses ens (calls @ [SubscribeQuery en]) = (None, calls')"
    by (auto split: option.splits)
  with Cons.IH [of "calls @ [SubscribeQuery en]"] show ?case by simp
qed simp

lemma subscribe_all:
  "\<forall>en \<in> set ens. en_eventStore en \<noteq> None \<Longrightarrow> \<exists>calls'. subscribe_commands (\<lambda>_ _. None) ens calls = (None, calls')"
  "\<exists>calls'. subscribe_queries (\<lambda>_ _. None) ens calls = (None, calls')"
  by (induction ens arbitrary: calls) (auto simp: requireEventStore_def)

lemma booted:
  assumes "kronos refuses opts = (Inr groups, calls)" "objects_ok (op_eventHandlers opts)"
  shows "groups_ok (op_eventHandlers opts) groups"
    and "calls = map (\<lambda>en. SubscribeCommand en (the (en_eventStore en))) (op_commandHandlers opts) @ map SubscribeQuery (op_queryHandlers opts) @
           map StartProcessor (map fst groups)"
    and "check_chains (op_commandHandlers opts @ op_queryHandlers opts @ op_eventHandlers opts) = None"
    and "\<forall>en \<in> set (op_commandHandlers opts). en_eventStore en \<noteq> None"
proof -
  obtain c1 c2 where run: "check_chains (op_commandHandlers opts @ op_queryHandlers opts @ op_eventHandlers opts) = None"
    "subscribe_commands refuses (op_commandHandlers opts) [] = (None, c1)" "subscribe_queries refuses (op_queryHandlers opts) c1 = (None, c2)"
    "group_handlers (op_eventHandlers opts) [] = Inr groups"
    "calls = c2 @ map (\<lambda>(_, g). StartProcessor (pv_name (snd (pg_processor g)))) groups"
    using assms(1) by (auto simp: kronos_def split: option.splits prod.splits sum.splits)
  show ok: "groups_ok (op_eventHandlers opts) groups"
    using grouped(1) [OF no_groups, of "op_eventHandlers opts" groups] run(4) assms(2) by simp
  have "pv_name (snd (pg_processor g)) = n" if "(n, g) \<in> set groups" for n g
    using groups_okD(2) [OF ok, of n g] ok that by (auto simp: groups_ok_def group_ok_def)
  then have "map (\<lambda>(_, g). StartProcessor (pv_name (snd (pg_processor g)))) groups = map StartProcessor (map fst groups)"
    by auto
  then show "calls = map (\<lambda>en. SubscribeCommand en (the (en_eventStore en))) (op_commandHandlers opts) @
      map SubscribeQuery (op_queryHandlers opts) @ map StartProcessor (map fst groups)"
    using run(5) subscribed_commands [OF run(2)] subscribed_queries [OF run(3)] by simp
  show "check_chains (op_commandHandlers opts @ op_queryHandlers opts @ op_eventHandlers opts) = None"
    by (rule run(1))
  show "\<forall>en \<in> set (op_commandHandlers opts). en_eventStore en \<noteq> None"
    using subscribed_commands [OF run(2)] by simp
qed

text \<open>
  C25: an application that boots has subscribed every command and query handler before it starts the first processor; it starts one processor
  per name, each with exactly the event handlers that name it, in their order, and they all configure it as it runs. On buses that
  refuse nobody it boots exactly when every chain of wrappers is accepted, every command handler has a log, every event handler has a
  processor, and processors of one name are configured alike.
\<close>

theorem app_runs_each_handler_in_its_processor:
  assumes "objects_ok (op_eventHandlers opts)"
  shows "(\<forall>groups calls. kronos refuses opts = (Inr groups, calls) \<longrightarrow>
      calls = map (\<lambda>en. SubscribeCommand en (the (en_eventStore en))) (op_commandHandlers opts) @ map SubscribeQuery (op_queryHandlers opts) @
        map StartProcessor (map fst groups) \<and>
      distinct (map fst groups) \<and> (\<forall>en \<in> set (op_eventHandlers opts). \<exists>(n, g) \<in> set groups. en \<in> set (pg_handlers g)) \<and>
      (\<forall>(n, g) \<in> set groups. pg_handlers g = filter (names_processor n) (op_eventHandlers opts) \<and>
        (\<forall>en \<in> set (pg_handlers g). map_option snd (en_processor en) = Some (snd (pg_processor g))))) \<and>
    ((\<exists>groups calls. kronos (\<lambda>_ _. None) opts = (Inr groups, calls)) \<longleftrightarrow>
      (\<forall>en \<in> set (op_commandHandlers opts @ op_queryHandlers opts @ op_eventHandlers opts). chainError (labelOf en) (en_handler en) = None) \<and>
      (\<forall>en \<in> set (op_commandHandlers opts). en_eventStore en \<noteq> None) \<and> processors_agree (op_eventHandlers opts))"
    (is "?runs \<and> (?boots \<longleftrightarrow> ?chains \<and> ?logs \<and> ?agree)")
proof
  show ?runs
  proof (intro allI impI conjI)
    fix groups calls
    assume run: "kronos refuses opts = (Inr groups, calls)"
    note ok = booted(1) [OF run assms]
    have entry: "map_get groups n = Some g" if "(n, g) \<in> set groups" for n g
      using ok that by (simp add: groups_ok_def)
    show "calls = map (\<lambda>en. SubscribeCommand en (the (en_eventStore en))) (op_commandHandlers opts) @
        map SubscribeQuery (op_queryHandlers opts) @ map StartProcessor (map fst groups)"
      by (rule booted(2) [OF run assms])
    show "distinct (map fst groups)"
      using ok by (simp add: groups_ok_def)
    show "\<forall>(n, g) \<in> set groups. pg_handlers g = filter (names_processor n) (op_eventHandlers opts) \<and>
        (\<forall>en \<in> set (pg_handlers g). map_option snd (en_processor en) = Some (snd (pg_processor g)))"
      using groups_okD(2) [OF ok entry] unfolding group_ok_def by blast
    show "\<forall>en \<in> set (op_eventHandlers opts). \<exists>(n, g) \<in> set groups. en \<in> set (pg_handlers g)"
    proof
      fix en
      assume en: "en \<in> set (op_eventHandlers opts)"
      then obtain ref p where p: "en_processor en = Some (ref, p)"
        using ok unfolding groups_ok_def by (metis option.exhaust surj_pair)
      then have mem: "en \<in> set (filter (names_processor (pv_name p)) (op_eventHandlers opts))"
        using en by (simp add: names_processor_def)
      then obtain g where g: "map_get groups (pv_name p) = Some g"
        using groups_okD(1) [OF ok, of "pv_name p"] by (cases "map_get groups (pv_name p)") auto
      then have "en \<in> set (pg_handlers g)"
        using groups_okD(2) [OF ok g] mem by (simp add: group_ok_def)
      then show "\<exists>(n, g) \<in> set groups. en \<in> set (pg_handlers g)"
        using map_get_Some_in [OF g] by blast
    qed
  qed
  show "?boots \<longleftrightarrow> ?chains \<and> ?logs \<and> ?agree"
  proof
    assume ?boots
    then show "?chains \<and> ?logs \<and> ?agree"
      using booted(1) [THEN grouped_agree] booted(3,4) assms unfolding check_chains_None by blast
  next
    assume wired: "?chains \<and> ?logs \<and> ?agree"
    then have "check_chains (op_commandHandlers opts @ op_queryHandlers opts @ op_eventHandlers opts) = None"
      by (simp add: check_chains_None)
    moreover obtain c1 c2 where "subscribe_commands (\<lambda>_ _. None) (op_commandHandlers opts) [] = (None, c1)"
      "subscribe_queries (\<lambda>_ _. None) (op_queryHandlers opts) c1 = (None, c2)"
      using subscribe_all wired by blast
    moreover obtain groups where "group_handlers (op_eventHandlers opts) [] = Inr groups"
      using grouped(2) [OF no_groups, of "op_eventHandlers opts"] assms wired by auto
    ultimately show ?boots
      by (simp add: kronos_def)
  qed
qed

text \<open>A command handler and two event handlers whose modules built equal processors of one name.\<close>

definition example_processor :: processor_value where
  "example_processor = \<lparr>pv_name = ''courses'', pv_eventStore = 1, pv_tokenStore = 2, pv_unitOfWork = 3, pv_sequence = None,
     pv_deadLetterQueue = None, pv_batchSize = None, pv_pollingIntervalMs = None, pv_concurrent = None, pv_segments = None\<rparr>"

definition example_entry :: "string \<Rightarrow> (nat \<times> processor_value) option \<Rightarrow> app_entry" where
  "example_entry name p = \<lparr>en_name = Some name, en_kind = None, en_descriptor = None, en_handler = PlainFn, en_eventStore = Some 1, en_processor = p\<rparr>"

definition example_app :: app_options where
  "example_app = \<lparr>op_commandHandlers = [example_entry ''enrol'' None], op_queryHandlers = [],
     op_eventHandlers = [example_entry ''list'' (Some (10, example_processor)), example_entry ''count'' (Some (11, example_processor))]\<rparr>"

theorem app_runs_each_handler_in_its_processor_witness:
  "\<exists>groups. kronos (\<lambda>_ _. None) example_app =
     (Inr groups, [SubscribeCommand (example_entry ''enrol'' None) 1, StartProcessor ''courses'']) \<and>
     (\<forall>(n, g) \<in> set groups. pg_handlers g = filter (names_processor n) (op_eventHandlers example_app))"
proof -
  have objects: "objects_ok (op_eventHandlers example_app)"
    by (simp add: objects_ok_def example_app_def example_entry_def)
  have all: "\<forall>(n, g) \<in> set groups. pg_handlers g = filter (names_processor n) (op_eventHandlers example_app)"
    if "kronos (\<lambda>_ _. None) example_app = (Inr groups, calls)" for groups calls
    using app_runs_each_handler_in_its_processor [OF objects, of "\<lambda>_ _. None"] that by blast
  have "\<exists>groups. kronos (\<lambda>_ _. None) example_app = (Inr groups, [SubscribeCommand (example_entry ''enrol'' None) 1, StartProcessor ''courses''])"
    by (simp add: kronos_def example_app_def example_entry_def labelOf_def nullish_def chainError_def chainOf_def chainProblems_def
        requireEventStore_def example_processor_def processorConflicts_def Let_def eval_nat_numeral)
  with all show ?thesis
    by blast
qed

end
