(* ===== verification/Subscriber_Registry.thy ===== *)
theory Subscriber_Registry
  imports Messages
begin

text \<open>
  The cluster-wide mirror of subscriptions over RabbitMQ (\<open>packages/rabbitmq/src/distributed-subscriber-registry.ts\<close>).

  An operation of a registry answers the gossip it publishes and the registry after it. The broker is not part of the repository: a fanout
  exchange puts what is published into the queue of every instance that is connected, and each queue hands out its messages in order. The
  text of an envelope is read back as what was written. Awaiting the connection and what follows is one step.
\<close>

section \<open>A registry\<close>

record subscriber_record =
  sr_subId :: string
  sr_queryName :: string
  sr_payload :: js
  sr_owner :: string

datatype gossip =
    GClaim string string string js
  | GRelease string string
  | GSync string

datatype delivery = DUpdate string js | DComplete string | DFail string string

fun delivery_subId :: "delivery \<Rightarrow> string" where
  "delivery_subId (DUpdate i _) = i"
| "delivery_subId (DComplete i) = i"
| "delivery_subId (DFail i _) = i"

datatype registry_error = RegistryClosed | RegistryFull | Disconnected string | ConnectFailed

datatype channel_state = NoChannel | HasChannel | ChannelFailed

text \<open>\<open>rg_delivered\<close> is what the installed handler was called with.\<close>

record registry =
  rg_instanceId :: string
  rg_channel :: channel_state
  rg_closed :: bool
  rg_failure :: "registry_error option"
  rg_handler :: bool
  rg_mirror :: "(string, subscriber_record) jsmap"
  rg_owned :: "string list"
  rg_delivered :: "delivery list"

definition CAPACITY :: nat where
  "CAPACITY = 16384"

definition new_registry :: "string \<Rightarrow> registry" where
  "new_registry i = \<lparr>rg_instanceId = i, rg_channel = NoChannel, rg_closed = False, rg_failure = None, rg_handler = False,
     rg_mirror = [], rg_owned = [], rg_delivered = []\<rparr>"

definition error_text :: "registry_error \<Rightarrow> string" where
  "error_text e = (case e of RegistryClosed \<Rightarrow> ''Subscription registry is closed'' | RegistryFull \<Rightarrow> ''Subscription registry capacity exhausted''
     | Disconnected t \<Rightarrow> t | ConnectFailed \<Rightarrow> ''connect'')"

definition call_handler :: "delivery list \<Rightarrow> registry \<Rightarrow> registry" where
  "call_handler ds r = (if rg_handler r then r\<lparr>rg_delivered := rg_delivered r @ ds\<rparr> else r)"

definition terminate :: "registry_error \<Rightarrow> registry \<Rightarrow> registry" where
  "terminate e r =
     (call_handler (map (\<lambda>i. DFail i (error_text e)) (rg_owned r)) r)
       \<lparr>rg_failure := (case rg_failure r of None \<Rightarrow> Some e | Some f \<Rightarrow> Some f), rg_mirror := [], rg_owned := []\<rparr>"

definition publishGossip :: "gossip list \<Rightarrow> registry \<Rightarrow> gossip list" where
  "publishGossip gs r = (if rg_closed r \<or> rg_channel r \<noteq> HasChannel then [] else gs)"

definition add_owned :: "string \<Rightarrow> string list \<Rightarrow> string list" where
  "add_owned i xs = (if i \<in> set xs then xs else xs @ [i])"

definition owned_claims :: "registry \<Rightarrow> gossip list" where
  "owned_claims r =
     concat (map (\<lambda>i. case map_get (rg_mirror r) i of None \<Rightarrow> [] | Some s \<Rightarrow> [GClaim (rg_instanceId r) (sr_subId s) (sr_queryName s) (sr_payload s)]) (rg_owned r))"

fun handleGossip :: "gossip \<Rightarrow> registry \<Rightarrow> gossip list \<times> registry" where
  "handleGossip (GClaim owner i q p) r =
     (if rg_closed r \<or> rg_failure r \<noteq> None then ([], r)
      else if owner = rg_instanceId r then ([], r)
      else if length (rg_mirror r) \<ge> CAPACITY \<and> map_get (rg_mirror r) i = None then ([], terminate RegistryFull r)
      else ([], r\<lparr>rg_mirror := map_set i \<lparr>sr_subId = i, sr_queryName = q, sr_payload = p, sr_owner = owner\<rparr> (rg_mirror r)\<rparr>))"
| "handleGossip (GRelease owner i) r =
     (if rg_closed r \<or> rg_failure r \<noteq> None then ([], r)
      else if owner = rg_instanceId r then ([], r)
      else ([], r\<lparr>rg_mirror := map_delete i (rg_mirror r)\<rparr>))"
| "handleGossip (GSync requester) r =
     (if rg_closed r \<or> rg_failure r \<noteq> None then ([], r)
      else if requester = rg_instanceId r then ([], r)
      else (publishGossip (owned_claims r) r, r))"

definition handleDirect :: "delivery \<Rightarrow> registry \<Rightarrow> registry" where
  "handleDirect d r = (if rg_closed r \<or> rg_failure r \<noteq> None then r else call_handler [d] r)"

text \<open>\<open>up\<close>: the broker gives out a channel. A connection that failed is not tried again.\<close>

definition registry_connect :: "bool \<Rightarrow> registry \<Rightarrow> registry_error option \<times> gossip list \<times> registry" where
  "registry_connect up r =
     (if rg_closed r then (Some RegistryClosed, [], r)
      else case rg_failure r of
             Some e \<Rightarrow> (Some e, [], r)
           | None \<Rightarrow>
               (case rg_channel r of
                  HasChannel \<Rightarrow> (None, [], r)
                | ChannelFailed \<Rightarrow> (Some ConnectFailed, [], r)
                | NoChannel \<Rightarrow>
                    if up then (let r' = r\<lparr>rg_channel := HasChannel\<rparr> in (None, publishGossip [GSync (rg_instanceId r)] r', r'))
                    else (Some ConnectFailed, [], r\<lparr>rg_channel := ChannelFailed\<rparr>)))"

definition registry_claim :: "bool \<Rightarrow> string \<Rightarrow> string \<Rightarrow> js \<Rightarrow> registry \<Rightarrow> registry_error option \<times> gossip list \<times> registry" where
  "registry_claim up i q p r =
     (if rg_closed r then (Some RegistryClosed, [], r)
      else if rg_failure r \<noteq> None then (rg_failure r, [], r)
      else if length (rg_mirror r) \<ge> CAPACITY \<and> map_get (rg_mirror r) i = None then (Some RegistryFull, [], r)
      else (let r1 = r\<lparr>rg_mirror := map_set i \<lparr>sr_subId = i, sr_queryName = q, sr_payload = p, sr_owner = rg_instanceId r\<rparr> (rg_mirror r),
                      rg_owned := add_owned i (rg_owned r)\<rparr>
            in case registry_connect up r1 of
                 (Some e, gs, r2) \<Rightarrow> (Some e, gs, r2)
               | (None, gs, r2) \<Rightarrow> (None, gs @ publishGossip [GClaim (rg_instanceId r) i q p] r2, r2)))"

definition registry_release :: "bool \<Rightarrow> string \<Rightarrow> registry \<Rightarrow> registry_error option \<times> gossip list \<times> registry" where
  "registry_release up i r =
     (let r1 = r\<lparr>rg_mirror := map_delete i (rg_mirror r), rg_owned := removeAll i (rg_owned r)\<rparr>
      in case registry_connect up r1 of
           (Some e, gs, r2) \<Rightarrow> (Some e, gs, r2)
         | (None, gs, r2) \<Rightarrow> (None, gs @ publishGossip [GRelease (rg_instanceId r) i] r2, r2))"

text \<open>\<open>deliver\<close>: to the handler of this instance, or to the queue of the owner.\<close>

definition registry_deliver :: "bool \<Rightarrow> delivery \<Rightarrow> registry \<Rightarrow> registry_error option \<times> gossip list \<times> (string \<times> delivery) option \<times> registry" where
  "registry_deliver up d r =
     (case map_get (rg_mirror r) (delivery_subId d) of
        None \<Rightarrow> (None, [], None, r)
      | Some s \<Rightarrow>
          if sr_owner s = rg_instanceId r then (None, [], None, call_handler [d] r)
          else (case registry_connect up r of
                  (Some e, gs, r2) \<Rightarrow> (Some e, gs, None, r2)
                | (None, gs, r2) \<Rightarrow> (None, gs, Some (sr_owner s, d), r2)))"

definition registry_records :: "registry \<Rightarrow> subscriber_record list" where
  "registry_records r = map snd (rg_mirror r)"

definition setDeliverHandler :: "registry \<Rightarrow> registry" where
  "setDeliverHandler r = r\<lparr>rg_handler := True\<rparr>"

definition registry_close :: "registry \<Rightarrow> registry" where
  "registry_close r = (if rg_closed r then r else terminate RegistryClosed (r\<lparr>rg_closed := True\<rparr>))"

section \<open>A cluster\<close>

text \<open>The registry and the gossip queue of each instance. An instance has a queue once it is connected.\<close>

record cluster =
  cl_registry :: "string \<Rightarrow> registry"
  cl_queue :: "string \<Rightarrow> gossip list"

definition new_cluster :: cluster where
  "new_cluster = \<lparr>cl_registry = new_registry, cl_queue = (\<lambda>_. [])\<rparr>"

definition broadcast :: "gossip list \<Rightarrow> cluster \<Rightarrow> cluster" where
  "broadcast gs c = c\<lparr>cl_queue := (\<lambda>i. if rg_channel (cl_registry c i) = HasChannel then cl_queue c i @ gs else cl_queue c i)\<rparr>"

definition put_registry :: "string \<Rightarrow> registry \<Rightarrow> cluster \<Rightarrow> cluster" where
  "put_registry a r c = c\<lparr>cl_registry := (cl_registry c)(a := r)\<rparr>"

definition after_op :: "string \<Rightarrow> registry_error option \<times> gossip list \<times> registry \<Rightarrow> cluster \<Rightarrow> cluster" where
  "after_op a res c = (case res of (_, gs, r) \<Rightarrow> broadcast gs (put_registry a r c))"

text \<open>
  Instances claim and release subscriptions of their own, connect, deliver, take the next message of their queue, and close or lose their
  channel. \<open>issuer\<close> says which instance made an identifier.
\<close>

inductive cluster_step :: "(string \<Rightarrow> string) \<Rightarrow> cluster \<Rightarrow> cluster \<Rightarrow> bool" for issuer where
  claim: "issuer i = a \<Longrightarrow> cluster_step issuer c (after_op a (registry_claim True i q p (cl_registry c a)) c)"
| release: "issuer i = a \<Longrightarrow> cluster_step issuer c (after_op a (registry_release True i (cl_registry c a)) c)"
| joins: "cluster_step issuer c (after_op a (registry_connect True (cl_registry c a)) c)"
| takes: "cl_queue c a = g # gs \<Longrightarrow>
    cluster_step issuer c (after_op a (None, handleGossip g (cl_registry c a)) (c\<lparr>cl_queue := (cl_queue c)(a := gs)\<rparr>))"
| delivers: "registry_deliver True d (cl_registry c a) = (e, gs, to, r) \<Longrightarrow> cluster_step issuer c (broadcast gs (put_registry a r c))"
| handed: "cluster_step issuer c (put_registry a (handleDirect d (cl_registry c a)) c)"
| lost: "cluster_step issuer c (put_registry a (terminate e (cl_registry c a)) c)"
| closes: "cluster_step issuer c (put_registry a (registry_close (cl_registry c a)) c)"

inductive cluster_reachable :: "(string \<Rightarrow> string) \<Rightarrow> cluster \<Rightarrow> bool" for issuer where
  start: "cluster_reachable issuer new_cluster"
| go: "cluster_reachable issuer c \<Longrightarrow> cluster_step issuer c c' \<Longrightarrow> cluster_reachable issuer c'"

section \<open>What an instance will know\<close>

text \<open>The effect of a message on a mirror that has room.\<close>

fun hear :: "string \<Rightarrow> gossip \<Rightarrow> (string \<Rightarrow> subscriber_record option) \<Rightarrow> string \<Rightarrow> subscriber_record option" where
  "hear b (GClaim owner i q p) m = (if owner = b then m else m(i \<mapsto> \<lparr>sr_subId = i, sr_queryName = q, sr_payload = p, sr_owner = owner\<rparr>))"
| "hear b (GRelease owner i) m = (if owner = b then m else m(i := None))"
| "hear b (GSync _) m = m"

definition will_know :: "string \<Rightarrow> cluster \<Rightarrow> string \<Rightarrow> subscriber_record option" where
  "will_know b c = fold (hear b) (cl_queue c b) (map_get (rg_mirror (cl_registry c b)))"

definition owns :: "registry \<Rightarrow> string \<Rightarrow> subscriber_record option" where
  "owns r i = (if i \<in> set (rg_owned r) then map_get (rg_mirror r) i else None)"

fun speaks_of_own :: "(string \<Rightarrow> string) \<Rightarrow> gossip \<Rightarrow> bool" where
  "speaks_of_own issuer (GClaim owner i _ _) = (issuer i = owner)"
| "speaks_of_own issuer (GRelease owner i) = (issuer i = owner)"
| "speaks_of_own issuer (GSync _) = True"

abbreviation connected :: "cluster \<Rightarrow> string \<Rightarrow> bool" where
  "connected c a \<equiv> rg_channel (cl_registry c a) = HasChannel"

definition registry_ok :: "(string \<Rightarrow> string) \<Rightarrow> string \<Rightarrow> registry \<Rightarrow> bool" where
  "registry_ok issuer a r =
     (rg_instanceId r = a \<and> \<not> rg_closed r \<and> rg_channel r \<noteq> ChannelFailed \<and>
      (rg_channel r = NoChannel \<longrightarrow> rg_owned r = [] \<and> rg_mirror r = []) \<and>
      (\<forall>i \<in> set (rg_owned r). issuer i = a \<and> (\<exists>s. map_get (rg_mirror r) i = Some s \<and> sr_subId s = i \<and> sr_owner s = a)) \<and>
      (\<forall>i s. map_get (rg_mirror r) i = Some s \<longrightarrow> issuer i = a \<longrightarrow> i \<in> set (rg_owned r)))"

definition knowledge_ok :: "(string \<Rightarrow> string) \<Rightarrow> cluster \<Rightarrow> bool" where
  "knowledge_ok issuer c =
     (\<forall>b i. connected c b \<longrightarrow> issuer i \<noteq> b \<longrightarrow>
        will_know b c i = owns (cl_registry c (issuer i)) i \<or> (will_know b c i = None \<and> GSync b \<in> set (cl_queue c (issuer i))))"

definition cluster_ok :: "(string \<Rightarrow> string) \<Rightarrow> cluster \<Rightarrow> bool" where
  "cluster_ok issuer c =
     ((\<forall>a. registry_ok issuer a (cl_registry c a)) \<and> (\<forall>a. \<forall>g \<in> set (cl_queue c a). speaks_of_own issuer g) \<and>
      (\<forall>a. \<not> connected c a \<longrightarrow> cl_queue c a = []) \<and> knowledge_ok issuer c)"

definition healthy :: "cluster \<Rightarrow> bool" where
  "healthy c = (\<forall>a. rg_failure (cl_registry c a) = None)"

lemma hear_local: "m i = m' i \<Longrightarrow> hear b g m i = hear b g m' i"
  by (cases g) auto

lemma hears_local: "m i = m' i \<Longrightarrow> fold (hear b) gs m i = fold (hear b) gs m' i"
proof (induction gs arbitrary: m m')
  case (Cons g gs)
  have "hear b g m i = hear b g m' i"
    by (rule hear_local) (rule Cons.prems)
  then show ?case
    using Cons.IH [of "hear b g m" "hear b g m'"] by simp
qed simp

fun gossip_owner :: "gossip \<Rightarrow> string" where
  "gossip_owner (GClaim owner _ _ _) = owner"
| "gossip_owner (GRelease owner _) = owner"
| "gossip_owner (GSync requester) = requester"

lemma hears_elsewhere:
  "\<forall>g \<in> set gs. speaks_of_own issuer g \<and> gossip_owner g = a \<Longrightarrow> issuer i \<noteq> a \<Longrightarrow> fold (hear b) gs m i = m i"
proof (induction gs arbitrary: m)
  case (Cons g gs)
  then have "hear b g m i = m i"
    by (cases g) auto
  moreover have "fold (hear b) gs (hear b g m) i = hear b g m i"
    by (rule Cons.IH) (use Cons.prems in auto)
  ultimately show ?case by simp
qed simp

lemma hears_self: "\<forall>g \<in> set gs. gossip_owner g = b \<Longrightarrow> fold (hear b) gs m = m"
proof (induction gs arbitrary: m)
  case (Cons g gs)
  then have "hear b g m = m"
    by (cases g) auto
  with Cons show ?case by simp
qed simp

lemma broadcast_nothing [simp]: "broadcast [] c = c"
proof -
  have "(\<lambda>i. if connected c i then cl_queue c i @ [] else cl_queue c i) = cl_queue c"
    by auto
  then show ?thesis by (simp add: broadcast_def)
qed

lemma broadcast_registry [simp]: "cl_registry (broadcast gs c) = cl_registry c"
  by (simp add: broadcast_def)

lemma put_registry_simps [simp]: "cl_registry (put_registry a r c) b = (if b = a then r else cl_registry c b)" "cl_queue (put_registry a r c) = cl_queue c"
  by (simp_all add: put_registry_def)

lemma broadcast_after_put:
  "rg_channel r = rg_channel r' \<Longrightarrow>
   broadcast gs (put_registry a r (broadcast hs (put_registry a r' c))) = broadcast (hs @ gs) (put_registry a r c)"
  by (auto simp: put_registry_def broadcast_def fun_eq_iff)

lemma put_same [simp]: "put_registry a (cl_registry c a) c = c"
  by (simp add: put_registry_def)

lemma broadcast_queue: "cl_queue (broadcast gs c) b = (if connected c b then cl_queue c b @ gs else cl_queue c b)"
  by (simp add: broadcast_def)

lemma will_know_broadcast:
  "will_know b (broadcast gs c) = (if connected c b then fold (hear b) gs (will_know b c) else will_know b c)"
  by (simp add: will_know_def broadcast_queue)

lemma will_know_put: "b \<noteq> a \<Longrightarrow> will_know b (put_registry a r c) = will_know b c"
  by (simp add: will_know_def)

lemma owned_claims_heard:
  assumes "rg_instanceId r = a" "b \<noteq> a"
    and "\<forall>i \<in> set is. \<exists>s. map_get (rg_mirror r) i = Some s \<and> sr_subId s = i \<and> sr_owner s = a"
  shows "fold (hear b) (concat (map (\<lambda>i. case map_get (rg_mirror r) i of None \<Rightarrow> [] | Some s \<Rightarrow>
           [GClaim (rg_instanceId r) (sr_subId s) (sr_queryName s) (sr_payload s)]) is)) m i =
         (if i \<in> set is then map_get (rg_mirror r) i else m i)"
  using assms(3)
proof (induction "is" arbitrary: m)
  case (Cons x xs)
  then obtain s where s: "map_get (rg_mirror r) x = Some s" "sr_subId s = x" "sr_owner s = a"
    by auto
  then have "\<lparr>sr_subId = x, sr_queryName = sr_queryName s, sr_payload = sr_payload s, sr_owner = a\<rparr> = s"
    by (cases s) simp
  with Cons s assms(1,2) show ?case by auto
qed simp

lemma owned_claims_own:
  assumes "registry_ok issuer a r" and "g \<in> set (owned_claims r)"
  shows "speaks_of_own issuer g \<and> gossip_owner g = a"
  using assms by (auto simp: owned_claims_def registry_ok_def split: option.splits)

section \<open>The mirrors agree\<close>

text \<open>An instance that is connected changes what it owns, and tells.\<close>

lemma announce_ok:
  assumes regs: "\<forall>b. b \<noteq> a \<longrightarrow> registry_ok issuer b (cl_registry c b)" "registry_ok issuer a r"
    and up: "connected c a" "rg_channel r = HasChannel"
    and queues: "\<forall>b. \<forall>g \<in> set (cl_queue c b). speaks_of_own issuer g" "\<forall>b. \<not> connected c b \<longrightarrow> cl_queue c b = []"
    and gs: "\<forall>g \<in> set gs. speaks_of_own issuer g \<and> gossip_owner g = a"
    and keeps: "\<forall>i. issuer i \<noteq> a \<longrightarrow> map_get (rg_mirror r) i = map_get (rg_mirror (cl_registry c a)) i"
    and others: "\<forall>b i. connected c b \<longrightarrow> issuer i \<noteq> b \<longrightarrow> issuer i \<noteq> a \<longrightarrow>
        will_know b c i = owns (cl_registry c (issuer i)) i \<or> (will_know b c i = None \<and> GSync b \<in> set (cl_queue c (issuer i)))"
    and own: "\<forall>b i. b \<noteq> a \<longrightarrow> connected c b \<longrightarrow> issuer i = a \<longrightarrow>
        fold (hear b) gs (will_know b c) i = owns r i \<or>
        (fold (hear b) gs (will_know b c) i = None \<and> GSync b \<in> set (cl_queue c a))"
  shows "cluster_ok issuer (broadcast gs (put_registry a r c))"
proof -
  let ?c = "put_registry a r c" and ?c' = "broadcast gs (put_registry a r c)"
  have conn: "connected ?c b \<longleftrightarrow> connected c b" for b
    by (simp add: up)
  have grow: "set (cl_queue c b) \<subseteq> set (cl_queue ?c' b)" for b
    by (auto simp: broadcast_queue)
  have "will_know b ?c' i = owns (cl_registry ?c' (issuer i)) i \<or> (will_know b ?c' i = None \<and> GSync b \<in> set (cl_queue ?c' (issuer i)))"
    if b: "connected c b" and i: "issuer i \<noteq> b" for b i
  proof (cases "issuer i = a")
    case True
    with i have "b \<noteq> a" by auto
    then have "will_know b ?c' = fold (hear b) gs (will_know b c)"
      using b by (simp add: will_know_broadcast will_know_put)
    with own \<open>b \<noteq> a\<close> b True grow [of a] show ?thesis
      by auto
  next
    case False
    have "will_know b ?c' i = will_know b c i"
    proof (cases "b = a")
      case True
      have "will_know b ?c' i = fold (hear b) (cl_queue c a) (map_get (rg_mirror r)) i"
        using gs True b up by (simp add: will_know_broadcast hears_self) (simp add: will_know_def)
      also have "\<dots> = will_know b c i"
        unfolding will_know_def True by (rule hears_local) (use keeps False in simp)
      finally show ?thesis .
    next
      case b': False
      then show ?thesis
        using b hears_elsewhere [OF gs False] by (simp add: will_know_broadcast will_know_put)
    qed
    with others b i False grow [of "issuer i"] show ?thesis
      by auto
  qed
  then have "knowledge_ok issuer ?c'"
    unfolding knowledge_ok_def using conn by simp
  moreover have "\<forall>b. registry_ok issuer b (cl_registry ?c' b)"
    using regs by simp
  moreover have "\<forall>b. \<forall>g \<in> set (cl_queue ?c' b). speaks_of_own issuer g"
    using queues(1) gs by (auto simp: broadcast_queue)
  moreover have "\<forall>b. \<not> connected ?c' b \<longrightarrow> cl_queue ?c' b = []"
    using queues(2) up by (simp add: broadcast_queue)
  ultimately show ?thesis
    by (simp add: cluster_ok_def)
qed

lemma knows:
  assumes "cluster_ok issuer c" "connected c b" "issuer i \<noteq> b"
  shows "will_know b c i = owns (cl_registry c (issuer i)) i \<or> (will_know b c i = None \<and> GSync b \<in> set (cl_queue c (issuer i)))"
  using assms by (simp add: cluster_ok_def knowledge_ok_def)

lemma cluster_okD:
  assumes "cluster_ok issuer c"
  shows "registry_ok issuer a (cl_registry c a)" "\<forall>b. \<forall>g \<in> set (cl_queue c b). speaks_of_own issuer g"
    "\<forall>b. \<not> connected c b \<longrightarrow> cl_queue c b = []"
  using assms by (simp_all add: cluster_ok_def)

text \<open>A change of what an instance owns, told with a message about that one identifier.\<close>

lemma change_ok:
  assumes ok: "cluster_ok issuer c" and up: "connected c a"
    and r: "registry_ok issuer a r" "rg_channel r = HasChannel" and k: "issuer k = a"
    and g: "speaks_of_own issuer g" "gossip_owner g = a" "\<And>b m. b \<noteq> a \<Longrightarrow> hear b g m = m(k := owns r k)"
    and keeps: "\<And>i. i \<noteq> k \<Longrightarrow> map_get (rg_mirror r) i = map_get (rg_mirror (cl_registry c a)) i"
      "\<And>i. i \<noteq> k \<Longrightarrow> i \<in> set (rg_owned r) \<longleftrightarrow> i \<in> set (rg_owned (cl_registry c a))"
  shows "cluster_ok issuer (broadcast [g] (put_registry a r c))"
proof (rule announce_ok)
  have same: "owns r i = owns (cl_registry c a) i" if "i \<noteq> k" for i
    using keeps that by (simp add: owns_def)
  show "\<forall>b i. b \<noteq> a \<longrightarrow> connected c b \<longrightarrow> issuer i = a \<longrightarrow>
      fold (hear b) [g] (will_know b c) i = owns r i \<or> (fold (hear b) [g] (will_know b c) i = None \<and> GSync b \<in> set (cl_queue c a))"
  proof (intro allI impI)
    fix b i
    assume "b \<noteq> a" "connected c b" "issuer i = a"
    with knows [OF ok, of b i] g(3) [of b] same [of i] show "fold (hear b) [g] (will_know b c) i = owns r i \<or> (fold (hear b) [g] (will_know b c) i = None \<and> GSync b \<in> set (cl_queue c a))"
      by (cases "i = k") auto
  qed
  show "\<forall>b i. connected c b \<longrightarrow> issuer i \<noteq> b \<longrightarrow> issuer i \<noteq> a \<longrightarrow>
      will_know b c i = owns (cl_registry c (issuer i)) i \<or> (will_know b c i = None \<and> GSync b \<in> set (cl_queue c (issuer i)))"
    using knows [OF ok] by simp
  show "\<forall>i. issuer i \<noteq> a \<longrightarrow> map_get (rg_mirror r) i = map_get (rg_mirror (cl_registry c a)) i"
    by (metis keeps(1) k)
qed (use assms cluster_okD [OF ok] in auto)

text \<open>Answering a newcomer: what is owned is told again.\<close>

lemma answer_ok:
  assumes ok: "cluster_ok issuer c" and q: "cl_queue c a = GSync x # gs" and r: "r = cl_registry c a"
  shows "cluster_ok issuer (broadcast (owned_claims r) (put_registry a r (c\<lparr>cl_queue := (cl_queue c)(a := gs)\<rparr>)))"
    (is "cluster_ok _ (broadcast _ (put_registry _ _ ?c))")
proof (rule announce_ok)
  note rok = cluster_okD(1) [OF ok, of a]
  have up: "connected c a"
    using cluster_okD(3) [OF ok] q by (metis list.distinct(1))
  have know: "will_know b ?c = will_know b c" for b
    using q by (simp add: will_know_def)
  have heard: "fold (hear b) (owned_claims r) m i = (if i \<in> set (rg_owned r) then map_get (rg_mirror r) i else m i)" if "b \<noteq> a" for b m i
    unfolding owned_claims_def by (rule owned_claims_heard) (use rok that r in \<open>auto simp: registry_ok_def\<close>)
  show "\<forall>b i. b \<noteq> a \<longrightarrow> connected ?c b \<longrightarrow> issuer i = a \<longrightarrow>
      fold (hear b) (owned_claims r) (will_know b ?c) i = owns r i \<or>
      (fold (hear b) (owned_claims r) (will_know b ?c) i = None \<and> GSync b \<in> set (cl_queue ?c a))"
  proof (intro allI impI)
    fix b i
    assume "b \<noteq> a" "connected ?c b" "issuer i = a"
    with knows [OF ok, of b i] heard [of b "will_know b c" i]
    have "fold (hear b) (owned_claims r) (will_know b ?c) i = owns r i"
      by (auto simp: know owns_def r)
    then show "fold (hear b) (owned_claims r) (will_know b ?c) i = owns r i \<or>
        (fold (hear b) (owned_claims r) (will_know b ?c) i = None \<and> GSync b \<in> set (cl_queue ?c a))" ..
  qed
  show "\<forall>b i. connected ?c b \<longrightarrow> issuer i \<noteq> b \<longrightarrow> issuer i \<noteq> a \<longrightarrow>
      will_know b ?c i = owns (cl_registry ?c (issuer i)) i \<or> (will_know b ?c i = None \<and> GSync b \<in> set (cl_queue ?c (issuer i)))"
    using knows [OF ok] by (simp add: know)
  show "\<forall>g \<in> set (owned_claims r). speaks_of_own issuer g \<and> gossip_owner g = a"
    using owned_claims_own [OF rok] r by simp
  show "\<forall>b. \<forall>g \<in> set (cl_queue ?c b). speaks_of_own issuer g"
    using cluster_okD(2) [OF ok] q by (metis (no_types, lifting) cluster.select_convs(2) cluster.surjective cluster.update_convs(2) fun_upd_apply list.set_intros(2))
  show "\<forall>b. \<not> connected ?c b \<longrightarrow> cl_queue ?c b = []"
    using cluster_okD(3) [OF ok] up by simp
qed (use cluster_okD(1) [OF ok] cluster_okD(3) [OF ok] q r in \<open>auto dest: spec [of _ a]\<close>)

text \<open>Hearing of what another instance owns.\<close>

lemma heard_ok:
  assumes ok: "cluster_ok issuer c" and q: "cl_queue c a = g # gs" and no_sync: "\<And>x. g = GSync x \<Longrightarrow> x = a"
    and r: "rg_channel r = rg_channel (cl_registry c a)" "rg_owned r = rg_owned (cl_registry c a)" "rg_instanceId r = a" "\<not> rg_closed r"
    and mirror: "map_get (rg_mirror r) = hear a g (map_get (rg_mirror (cl_registry c a)))"
  shows "cluster_ok issuer (put_registry a r (c\<lparr>cl_queue := (cl_queue c)(a := gs)\<rparr>))" (is "cluster_ok _ ?c")
proof -
  note rok = cluster_okD(1) [OF ok, of a]
  have up: "connected c a"
    using cluster_okD(3) [OF ok] q by (metis list.distinct(1))
  have "speaks_of_own issuer g"
    using cluster_okD(2) [OF ok] q by (metis list.set_intros(1))
  then have same: "map_get (rg_mirror r) i = map_get (rg_mirror (cl_registry c a)) i" if "issuer i = a" for i
    unfolding mirror using that by (cases g) auto
  have owns: "owns r i = owns (cl_registry c a) i" if "issuer i = a" for i
    using r same that by (simp add: owns_def)
  have know: "will_know b ?c = will_know b c" for b
    using q mirror by (simp add: will_know_def)
  have "registry_ok issuer a r"
    using rok r same up unfolding registry_ok_def by auto
  moreover have "GSync b \<in> set (cl_queue ?c x) \<longleftrightarrow> GSync b \<in> set (cl_queue c x)" if "x \<noteq> b" for b x
    using q no_sync [of b] that by auto
  moreover have "connected ?c b \<longleftrightarrow> connected c b" for b
    by (simp add: r)
  moreover have "owns (cl_registry ?c (issuer i)) i = owns (cl_registry c (issuer i)) i" for i
    using owns by simp
  moreover have "\<forall>b. \<forall>g \<in> set (cl_queue ?c b). speaks_of_own issuer g"
    using cluster_okD(2) [OF ok] q by (metis (no_types, lifting) cluster.select_convs(2) cluster.surjective cluster.update_convs(2) fun_upd_apply list.set_intros(2) put_registry_simps(2))
  moreover have "\<forall>b. \<not> connected c b \<longrightarrow> cl_queue ?c b = []"
    using cluster_okD(3) [OF ok] up by simp
  ultimately show ?thesis
    unfolding cluster_ok_def knowledge_ok_def know using knows [OF ok] cluster_okD(1) [OF ok] by simp
qed

text \<open>Joining, and what changes nothing that counts.\<close>

lemma join_ok:
  assumes ok: "cluster_ok issuer c" and down: "\<not> connected c a"
  shows "cluster_ok issuer (broadcast [GSync a] (put_registry a ((cl_registry c a)\<lparr>rg_channel := HasChannel\<rparr>) c))" (is "cluster_ok _ ?c")
proof -
  have empty: "rg_owned (cl_registry c b) = []" "cl_queue c b = []" if "\<not> connected c b" for b
    using cluster_okD(1) [OF ok, of b] cluster_okD(3) [OF ok] that
    by (auto simp: registry_ok_def intro: channel_state.exhaust [of "rg_channel (cl_registry c b)"])
  have mine: "map_get (rg_mirror (cl_registry c a)) = (\<lambda>_. None)"
    using cluster_okD(1) [OF ok, of a] down
    by (auto simp: registry_ok_def intro: channel_state.exhaust [of "rg_channel (cl_registry c a)"])
  have queue: "cl_queue ?c b = (if b = a then [GSync a] else if connected c b then cl_queue c b @ [GSync a] else [])" for b
    using empty down by (simp add: broadcast_queue)
  have owns: "owns (cl_registry ?c b) i = owns (cl_registry c b) i" for b i
    by (simp add: owns_def)
  have know: "will_know b ?c = (if b = a then (\<lambda>_. None) else will_know b c)" for b
    using empty mine by (simp add: will_know_def queue)
  have "will_know b ?c i = owns (cl_registry ?c (issuer i)) i \<or> (will_know b ?c i = None \<and> GSync b \<in> set (cl_queue ?c (issuer i)))"
    if "connected ?c b" "issuer i \<noteq> b" for b i
  proof (cases "b = a")
    case True
    then show ?thesis
      using that empty [of "issuer i"] unfolding know owns queue by (cases "connected c (issuer i)") (simp_all add: owns_def)
  next
    case False
    then have "connected c b"
      using that by simp
    then show ?thesis
      using knows [OF ok, of b i] that False down empty [of "issuer i"] unfolding know owns queue
      by (cases "connected c (issuer i)") auto
  qed
  then have "knowledge_ok issuer ?c"
    by (simp add: knowledge_ok_def)
  moreover have "registry_ok issuer b (cl_registry ?c b)" for b
    using cluster_okD(1) [OF ok, of b] by (auto simp: registry_ok_def)
  moreover have "\<forall>b. \<forall>g \<in> set (cl_queue ?c b). speaks_of_own issuer g"
    using cluster_okD(2) [OF ok] by (auto simp: queue)
  moreover have "\<forall>b. \<not> connected ?c b \<longrightarrow> cl_queue ?c b = []"
    by (simp add: queue)
  ultimately show ?thesis
    by (simp add: cluster_ok_def)
qed

lemma unchanged_ok:
  assumes ok: "cluster_ok issuer c" and "rg_channel r = rg_channel (cl_registry c a)" "rg_mirror r = rg_mirror (cl_registry c a)"
    "rg_owned r = rg_owned (cl_registry c a)" "rg_instanceId r = rg_instanceId (cl_registry c a)" "rg_closed r = rg_closed (cl_registry c a)"
  shows "cluster_ok issuer (put_registry a r c)" (is "cluster_ok _ ?c")
proof -
  have know: "will_know b ?c = will_know b c" for b
    using assms by (simp add: will_know_def)
  have owns: "owns (cl_registry ?c b) i = owns (cl_registry c b) i" for b i
    using assms by (simp add: owns_def)
  have conn: "connected ?c b \<longleftrightarrow> connected c b" for b
    using assms(2) by simp
  have regs: "registry_ok issuer b (cl_registry ?c b)" for b
    using cluster_okD(1) [OF ok, of b] assms by (cases "b = a") (simp_all add: registry_ok_def)
  show ?thesis
    unfolding cluster_ok_def knowledge_ok_def know owns conn
    using ok regs by (simp add: cluster_ok_def knowledge_ok_def)
qed

lemma connected_after:
  assumes ok: "cluster_ok issuer c" and fine: "rg_failure (cl_registry c a) = None"
  shows "cluster_ok issuer (after_op a (registry_connect True (cl_registry c a)) c)" (is "cluster_ok _ ?c")
    and "cl_registry (after_op a (registry_connect True (cl_registry c a)) c) a = (cl_registry c a)\<lparr>rg_channel := HasChannel\<rparr>"
proof -
  have id: "rg_instanceId (cl_registry c a) = a" "\<not> rg_closed (cl_registry c a)" "rg_channel (cl_registry c a) \<noteq> ChannelFailed"
    using cluster_okD(1) [OF ok, of a] by (simp_all add: registry_ok_def)
  have "?c = (if connected c a then c else broadcast [GSync a] (put_registry a ((cl_registry c a)\<lparr>rg_channel := HasChannel\<rparr>) c))"
    using id fine by (auto simp: after_op_def registry_connect_def publishGossip_def Let_def split: channel_state.splits)
  then show "cluster_ok issuer ?c" "cl_registry ?c a = (cl_registry c a)\<lparr>rg_channel := HasChannel\<rparr>"
    using ok join_ok [OF ok] by simp_all
qed

definition claimed :: "string \<Rightarrow> string \<Rightarrow> js \<Rightarrow> registry \<Rightarrow> registry" where
  "claimed i q p r =
     r\<lparr>rg_mirror := map_set i \<lparr>sr_subId = i, sr_queryName = q, sr_payload = p, sr_owner = rg_instanceId r\<rparr> (rg_mirror r),
       rg_owned := add_owned i (rg_owned r)\<rparr>"

definition released :: "string \<Rightarrow> registry \<Rightarrow> registry" where
  "released i r = r\<lparr>rg_mirror := map_delete i (rg_mirror r), rg_owned := removeAll i (rg_owned r)\<rparr>"

lemma connect_then_tell:
  assumes "rg_instanceId r = a" "\<not> rg_closed r" "rg_failure r = None" "rg_channel r \<noteq> ChannelFailed" "r = cl_registry c a"
    and "\<And>r. rg_closed (f r) = rg_closed r \<and> rg_failure (f r) = rg_failure r \<and> rg_instanceId (f r) = rg_instanceId r \<and> rg_channel (f r) = rg_channel r"
    and "f (r\<lparr>rg_channel := HasChannel\<rparr>) = (f r)\<lparr>rg_channel := HasChannel\<rparr>"
  shows "after_op a (case registry_connect True (f r) of (Some e, gs, r2) \<Rightarrow> (Some e, gs, r2)
           | (None, gs, r2) \<Rightarrow> (None, gs @ publishGossip [g] r2, r2)) c =
         (let c1 = after_op a (registry_connect True (cl_registry c a)) c in broadcast [g] (put_registry a (f (cl_registry c1 a)) c1))"
  using assms by (cases "rg_channel r")
    (simp_all add: after_op_def registry_connect_def publishGossip_def Let_def broadcast_after_put)

lemma claim_ok:
  assumes ok: "cluster_ok issuer c" and fine: "rg_failure (cl_registry c a) = None" and own: "issuer i = a"
  shows "cluster_ok issuer (after_op a (registry_claim True i q p (cl_registry c a)) c)"
proof (cases "CAPACITY \<le> length (rg_mirror (cl_registry c a)) \<and> map_get (rg_mirror (cl_registry c a)) i = None")
  case True
  then show ?thesis
    using ok fine by (simp add: registry_claim_def after_op_def)
next
  case False
  let ?r = "cl_registry c a"
  define c1 where "c1 = after_op a (registry_connect True ?r) c"
  have r: "rg_instanceId ?r = a" "\<not> rg_closed ?r" "rg_channel ?r \<noteq> ChannelFailed"
    using cluster_okD(1) [OF ok, of a] by (simp_all add: registry_ok_def)
  have c1: "cluster_ok issuer c1" "cl_registry c1 a = ?r\<lparr>rg_channel := HasChannel\<rparr>"
    unfolding c1_def using connected_after [OF ok fine] by blast+
  have claim: "registry_claim True i q p ?r = (case registry_connect True (claimed i q p ?r) of (Some e, gs, r2) \<Rightarrow> (Some e, gs, r2)
       | (None, gs, r2) \<Rightarrow> (None, gs @ publishGossip [GClaim a i q p] r2, r2))"
    unfolding registry_claim_def Let_def if_not_P [OF False] claimed_def r(1) using r(2) fine by simp
  have "after_op a (registry_claim True i q p ?r) c = broadcast [GClaim a i q p] (put_registry a (claimed i q p (cl_registry c1 a)) c1)"
    unfolding claim c1_def by (subst connect_then_tell [OF r(1,2) fine r(3) refl]) (simp_all add: claimed_def Let_def)
  also have "cluster_ok issuer \<dots>"
  proof (rule change_ok [where k = i])
    show "registry_ok issuer a (claimed i q p (cl_registry c1 a))"
      using cluster_okD(1) [OF c1(1), of a] own by (auto simp: registry_ok_def claimed_def add_owned_def c1)
  qed (use c1 own r in \<open>auto simp: claimed_def add_owned_def owns_def\<close>)
  finally show ?thesis .
qed

lemma release_ok:
  assumes ok: "cluster_ok issuer c" and fine: "rg_failure (cl_registry c a) = None" and own: "issuer i = a"
  shows "cluster_ok issuer (after_op a (registry_release True i (cl_registry c a)) c)"
proof -
  let ?r = "cl_registry c a"
  define c1 where "c1 = after_op a (registry_connect True ?r) c"
  have r: "rg_instanceId ?r = a" "\<not> rg_closed ?r" "rg_channel ?r \<noteq> ChannelFailed"
    using cluster_okD(1) [OF ok, of a] by (simp_all add: registry_ok_def)
  have c1: "cluster_ok issuer c1" "cl_registry c1 a = ?r\<lparr>rg_channel := HasChannel\<rparr>"
    unfolding c1_def using connected_after [OF ok fine] by blast+
  have "after_op a (registry_release True i ?r) c = broadcast [GRelease a i] (put_registry a (released i (cl_registry c1 a)) c1)"
    unfolding registry_release_def Let_def c1_def r(1) released_def [symmetric]
    by (subst connect_then_tell [OF r(1,2) fine r(3) refl]) (simp_all add: released_def Let_def)
  also have "cluster_ok issuer \<dots>"
  proof (rule change_ok [where k = i])
    show "registry_ok issuer a (released i (cl_registry c1 a))"
      using cluster_okD(1) [OF c1(1), of a] own by (auto simp: registry_ok_def released_def c1)
  qed (use c1 own r in \<open>auto simp: released_def owns_def\<close>)
  finally show ?thesis .
qed

lemma take_ok:
  assumes ok: "cluster_ok issuer c" and fine: "rg_failure (cl_registry c a) = None" and q: "cl_queue c a = g # gs"
    and still: "rg_failure (snd (handleGossip g (cl_registry c a))) = None"
  shows "cluster_ok issuer (after_op a (None, handleGossip g (cl_registry c a)) (c\<lparr>cl_queue := (cl_queue c)(a := gs)\<rparr>))"
proof -
  let ?r = "cl_registry c a"
  have r: "rg_instanceId ?r = a" "\<not> rg_closed ?r"
    using cluster_okD(1) [OF ok, of a] by (simp_all add: registry_ok_def)
  have up: "connected c a"
    using cluster_okD(3) [OF ok] q by (metis list.distinct(1))
  show ?thesis
  proof (cases g)
    case (GSync x)
    show ?thesis
    proof (cases "x = a")
      case True
      have "cluster_ok issuer (put_registry a ?r (c\<lparr>cl_queue := (cl_queue c)(a := gs)\<rparr>))"
        by (rule heard_ok [OF ok q]) (use GSync True r in simp_all)
      with GSync True r fine show ?thesis
        by (simp add: after_op_def)
    next
      case False
      with answer_ok [OF ok q [unfolded GSync] refl] show ?thesis
        using GSync r fine up by (simp add: after_op_def publishGossip_def)
    qed
  next
    case (GClaim owner i qn p)
    let ?r' = "snd (handleGossip g ?r)"
    have "?r' = (if owner = a then ?r
        else ?r\<lparr>rg_mirror := map_set i \<lparr>sr_subId = i, sr_queryName = qn, sr_payload = p, sr_owner = owner\<rparr> (rg_mirror ?r)\<rparr>)"
      using GClaim still r fine by (auto simp: terminate_def split: if_splits)
    moreover have "fst (handleGossip g ?r) = []"
      using GClaim by simp
    moreover from calculation have "cluster_ok issuer (put_registry a ?r' (c\<lparr>cl_queue := (cl_queue c)(a := gs)\<rparr>))"
      by (intro heard_ok [OF ok q]) (use GClaim r in \<open>auto simp: fun_eq_iff\<close>)
    ultimately show ?thesis
      by (cases "handleGossip g ?r") (simp add: after_op_def)
  next
    case (GRelease owner i)
    have "cluster_ok issuer (put_registry a (snd (handleGossip g ?r)) (c\<lparr>cl_queue := (cl_queue c)(a := gs)\<rparr>))"
      by (rule heard_ok [OF ok q]) (use GRelease r fine in \<open>auto simp: fun_eq_iff\<close>)
    then show ?thesis
      using GRelease by (auto simp: after_op_def)
  qed
qed

definition failed :: "registry \<Rightarrow> bool" where
  "failed r = (rg_failure r \<noteq> None)"

lemma connect_failed: "failed r \<Longrightarrow> registry_connect up r = (e, gs, r') \<Longrightarrow> e \<noteq> None \<and> r' = r"
  by (cases "rg_closed r") (auto simp: failed_def registry_connect_def, metis)

lemma connect_succeeds: "registry_connect up r = (None, gs, r') \<Longrightarrow> \<not> failed r"
  using connect_failed by blast

lemma failed_update [simp]:
  "failed (r\<lparr>rg_mirror := m\<rparr>) = failed r" "failed (r\<lparr>rg_owned := ow\<rparr>) = failed r" "failed (r\<lparr>rg_delivered := ds\<rparr>) = failed r"
  by (simp_all add: failed_def)

lemma failed_stays:
  assumes "failed r"
  shows "registry_claim up i q p r = (e, gs, r') \<Longrightarrow> failed r'"
    and "registry_release up i r = (e, gs, r') \<Longrightarrow> failed r'"
    and "registry_connect up r = (e, gs, r') \<Longrightarrow> failed r'"
    and "registry_deliver up d r = (e, gs, to, r') \<Longrightarrow> failed r'"
    and "handleGossip g r = (gs, r') \<Longrightarrow> failed r'"
    and "failed (handleDirect d r)"
proof -
  show "registry_claim up i q p r = (e, gs, r') \<Longrightarrow> failed r'"
    using assms by (auto simp: registry_claim_def failed_def simp del: not_None_eq split: if_splits)
  show "registry_release up i r = (e, gs, r') \<Longrightarrow> failed r'"
    using assms by (auto simp: registry_release_def Let_def split: prod.splits option.splits dest!: connect_failed [rotated])
  show "registry_connect up r = (e, gs, r') \<Longrightarrow> failed r'"
    using assms connect_failed by blast
  show "registry_deliver up d r = (e, gs, to, r') \<Longrightarrow> failed r'"
    using assms by (auto simp: registry_deliver_def call_handler_def split: prod.splits option.splits if_splits dest: connect_failed)
  show "handleGossip g r = (gs, r') \<Longrightarrow> failed r'"
    using assms by (cases g) (auto simp: failed_def split: if_splits)
  show "failed (handleDirect d r)"
    using assms by (simp add: handleDirect_def failed_def)
qed

lemma terminate_fails: "failed (terminate e r)" "failed r \<or> \<not> rg_closed r \<Longrightarrow> failed (registry_close r)"
  by (auto simp: failed_def terminate_def registry_close_def split: option.splits)

lemma failed_step:
  assumes "cluster_step issuer c c'" "failed (cl_registry c b)"
  shows "failed (cl_registry c' b)"
  using assms
  by (cases rule: cluster_step.cases) (auto simp: after_op_def terminate_fails split: prod.splits intro: failed_stays)

lemma healthy_before: "cluster_step issuer c c' \<Longrightarrow> healthy c' \<Longrightarrow> healthy c"
  unfolding healthy_def by (metis failed_def failed_step)

lemma cluster_step_ok:
  assumes "cluster_step issuer c c'" "healthy c'" "cluster_ok issuer c"
  shows "cluster_ok issuer c'"
proof -
  note ok = \<open>cluster_ok issuer c\<close>
  have fine: "rg_failure (cl_registry c b) = None" for b
    using healthy_before [OF assms(1,2)] by (simp add: healthy_def)
  have opened: "\<not> rg_closed (cl_registry c b)" for b
    using cluster_okD(1) [OF ok, of b] by (simp add: registry_ok_def)
  from assms(1) show ?thesis
  proof cases
    case (takes a g gs)
    moreover have "rg_failure (snd (handleGossip g (cl_registry c a))) = None"
      using assms(2) takes by (auto simp: healthy_def after_op_def split: prod.splits dest: spec [of _ a])
    ultimately show ?thesis
      using take_ok [OF ok fine] by simp
  next
    case (delivers d a e gs to r)
    show ?thesis
    proof (cases "connected c a \<or> gs = [] \<and> rg_channel r = rg_channel (cl_registry c a)")
      case True
      then have "gs = []" "rg_channel r = rg_channel (cl_registry c a)" "rg_mirror r = rg_mirror (cl_registry c a)"
        "rg_owned r = rg_owned (cl_registry c a)" "rg_instanceId r = rg_instanceId (cl_registry c a)" "rg_closed r = rg_closed (cl_registry c a)"
        using delivers(2) opened [of a] fine [of a]
        by (auto simp: registry_deliver_def registry_connect_def call_handler_def Let_def split: option.splits if_splits channel_state.splits)
      then show ?thesis
        unfolding delivers(1) by (simp add: unchanged_ok [OF ok])
    next
      case False
      then show ?thesis
        using delivers(2) cluster_okD(1) [OF ok, of a]
        by (cases "rg_channel (cl_registry c a)") (auto simp: registry_deliver_def registry_ok_def)
    qed
  next
    case (handed a d)
    show ?thesis
      unfolding handed by (rule unchanged_ok [OF ok]) (simp_all add: handleDirect_def call_handler_def)
  next
    case (lost a e)
    with assms(2) terminate_fails(1) [of e "cl_registry c a"] show ?thesis
      by (auto simp: healthy_def failed_def dest: spec [of _ a])
  next
    case (closes a)
    with assms(2) terminate_fails(2) [of "cl_registry c a"] opened [of a] show ?thesis
      by (auto simp: healthy_def failed_def dest: spec [of _ a])
  qed (use claim_ok [OF ok fine] release_ok [OF ok fine] connected_after(1) [OF ok fine] in blast)+
qed

lemma new_cluster_ok: "cluster_ok issuer new_cluster"
  by (simp add: cluster_ok_def knowledge_ok_def registry_ok_def new_cluster_def new_registry_def)

lemma reachable_ok: "cluster_reachable issuer c \<Longrightarrow> healthy c \<Longrightarrow> cluster_ok issuer c"
  by (induction rule: cluster_reachable.induct) (auto intro: new_cluster_ok cluster_step_ok healthy_before)

text \<open>
  C27: once the gossip of a cluster has been taken by everyone, every connected instance has in its mirror exactly the subscriptions that
  their owners hold, whatever instances joined, claimed, released, delivered and answered before, in any order; provided no registry
  failed or was closed, and an identifier is only claimed by the instance that made it.
\<close>

theorem mirrors_agree_when_quiet:
  assumes "cluster_reachable issuer c" "healthy c" "\<forall>a. cl_queue c a = []" "connected c b"
  shows "map_get (rg_mirror (cl_registry c b)) k = owns (cl_registry c (issuer k)) k"
proof -
  note ok = reachable_ok [OF assms(1,2)]
  have "will_know b c = map_get (rg_mirror (cl_registry c b))"
    using assms(3) by (simp add: will_know_def)
  moreover have "map_get (rg_mirror (cl_registry c b)) k = owns (cl_registry c b) k" if "issuer k = b"
    using cluster_okD(1) [OF ok, of b] that unfolding owns_def registry_ok_def by (metis not_None_eq)
  ultimately show ?thesis
    using knows [OF ok assms(4), of k] assms(3) by (cases "issuer k = b") simp_all
qed

text \<open>An instance joins, takes its own announcement, and another claims a subscription; both then take what was said.\<close>

definition take_next :: "string \<Rightarrow> cluster \<Rightarrow> cluster" where
  "take_next a c = (case cl_queue c a of [] \<Rightarrow> c
     | g # gs \<Rightarrow> after_op a (None, handleGossip g (cl_registry c a)) (c\<lparr>cl_queue := (cl_queue c)(a := gs)\<rparr>))"

definition example_asked :: cluster where
  "example_asked = take_next ''b'' (after_op ''b'' (registry_connect True (cl_registry new_cluster ''b'')) new_cluster)"

definition example_told :: cluster where
  "example_told = after_op ''a'' (registry_claim True ''k'' ''count'' JNull (cl_registry example_asked ''a'')) example_asked"

definition example_cluster :: cluster where
  "example_cluster = take_next ''b'' (take_next ''b'' (take_next ''a'' (take_next ''a'' example_told)))"

lemma take_next_reachable: "cluster_reachable issuer c \<Longrightarrow> cluster_reachable issuer (take_next a c)"
  by (auto simp: take_next_def split: list.splits intro: cluster_reachable.go cluster_step.takes)

lemma example_reachable: "cluster_reachable (\<lambda>_. ''a'') example_cluster"
  unfolding example_cluster_def example_told_def example_asked_def
  by (intro take_next_reachable cluster_reachable.go [OF _ cluster_step.claim] cluster_reachable.go [OF _ cluster_step.joins]
      cluster_reachable.start refl)

definition example_record :: subscriber_record where
  "example_record = \<lparr>sr_subId = ''k'', sr_queryName = ''count'', sr_payload = JNull, sr_owner = ''a''\<rparr>"

lemma example_asked_is:
  "example_asked = \<lparr>cl_registry = new_registry(''b'' := (new_registry ''b'')\<lparr>rg_channel := HasChannel\<rparr>), cl_queue = (\<lambda>_. [])\<rparr>"
  by (simp add: example_asked_def take_next_def after_op_def registry_connect_def new_cluster_def new_registry_def publishGossip_def
      broadcast_def put_registry_def fun_eq_iff)

lemma example_told_is:
  "example_told = \<lparr>cl_registry = new_registry(
       ''a'' := (new_registry ''a'')\<lparr>rg_channel := HasChannel, rg_mirror := [(''k'', example_record)], rg_owned := [''k'']\<rparr>,
       ''b'' := (new_registry ''b'')\<lparr>rg_channel := HasChannel\<rparr>),
     cl_queue = (\<lambda>i. if i = ''a'' \<or> i = ''b'' then [GSync ''a'', GClaim ''a'' ''k'' ''count'' JNull] else [])\<rparr>"
  by (simp add: example_told_def example_asked_is registry_claim_def after_op_def registry_connect_def new_registry_def publishGossip_def
      broadcast_def put_registry_def CAPACITY_def add_owned_def example_record_def fun_eq_iff)

lemma example_cluster_is:
  "example_cluster = \<lparr>cl_registry = new_registry(
       ''a'' := (new_registry ''a'')\<lparr>rg_channel := HasChannel, rg_mirror := [(''k'', example_record)], rg_owned := [''k'']\<rparr>,
       ''b'' := (new_registry ''b'')\<lparr>rg_channel := HasChannel, rg_mirror := [(''k'', example_record)]\<rparr>),
     cl_queue = (\<lambda>_. [])\<rparr>"
  by (simp add: example_cluster_def example_told_is take_next_def after_op_def new_registry_def publishGossip_def owned_claims_def
      broadcast_def put_registry_def CAPACITY_def example_record_def fun_eq_iff)

theorem mirrors_agree_when_quiet_witness:
  "owns (cl_registry example_cluster ''a'') ''k'' = Some example_record \<and>
   map_get (rg_mirror (cl_registry example_cluster ''b'')) ''k'' = Some example_record"
proof -
  have "healthy example_cluster" "\<forall>a. cl_queue example_cluster a = []" "connected example_cluster ''b''"
    by (simp_all add: example_cluster_is healthy_def new_registry_def)
  from mirrors_agree_when_quiet [OF example_reachable this, of "''k''"] show ?thesis
    by (simp add: owns_def example_cluster_is)
qed

section \<open>Owners that are gone\<close>

text \<open>The owner has failed or is closed, another instance knows of the subscription, and is not about to hear of its release.\<close>

definition left_behind :: "string \<Rightarrow> string \<Rightarrow> string \<Rightarrow> cluster \<Rightarrow> bool" where
  "left_behind a b k c =
     (failed (cl_registry c a) \<and> map_get (rg_mirror (cl_registry c b)) k \<noteq> None \<and> (\<forall>x. GRelease x k \<notin> set (cl_queue c b)))"

lemma connect_effect:
  assumes "registry_connect up r = (e, gs, r')"
  shows "rg_mirror r' = rg_mirror r" "GRelease x k \<notin> set gs"
  using assms by (auto simp: registry_connect_def publishGossip_def Let_def split: if_splits option.splits channel_state.splits)

lemma claim_effect:
  assumes "registry_claim up i q p r = (e, gs, r')"
  shows "map_get (rg_mirror r) k \<noteq> None \<Longrightarrow> map_get (rg_mirror r') k \<noteq> None" "GRelease x k \<notin> set gs"
  using assms connect_effect
  by (auto simp: registry_claim_def publishGossip_def Let_def split: if_splits prod.splits option.splits)

lemma release_effect:
  assumes "registry_release up i r = (e, gs, r')" "i \<noteq> k \<or> failed r"
  shows "i \<noteq> k \<Longrightarrow> map_get (rg_mirror r') k = map_get (rg_mirror r) k" "GRelease x k \<notin> set gs"
  using assms connect_effect
  by (auto simp: registry_release_def publishGossip_def Let_def split: if_splits prod.splits option.splits dest: connect_succeeds)

lemma hearing_effect:
  assumes "handleGossip g r = (gs, r')" "\<not> failed r'" "\<And>x. g \<noteq> GRelease x k"
  shows "map_get (rg_mirror r) k \<noteq> None \<Longrightarrow> map_get (rg_mirror r') k \<noteq> None" "GRelease x k \<notin> set gs"
  using assms terminate_fails(1)
  by (cases g; auto simp: publishGossip_def owned_claims_def split: if_splits option.splits)+

lemma deliver_effect:
  assumes "registry_deliver up d r = (e, gs, to, r')"
  shows "rg_mirror r' = rg_mirror r" "GRelease x k \<notin> set gs"
  using assms connect_effect
  by (auto simp: registry_deliver_def call_handler_def split: if_splits prod.splits option.splits)

lemma left_behind_broadcast:
  assumes "failed (cl_registry c a)" "map_get (rg_mirror (cl_registry c b)) k \<noteq> None" "\<forall>x. GRelease x k \<notin> set (cl_queue c b)"
    "\<And>x. GRelease x k \<notin> set gs"
  shows "left_behind a b k (broadcast gs c)"
  using assms by (auto simp: left_behind_def broadcast_queue)

lemma left_behind_step:
  assumes "cluster_step issuer c c'" and k: "issuer k = a" "b \<noteq> a" and left: "left_behind a b k c" and alive: "\<not> failed (cl_registry c' b)"
  shows "left_behind a b k c'"
proof -
  have gone: "failed (cl_registry c' a)" and known: "map_get (rg_mirror (cl_registry c b)) k \<noteq> None"
    and quiet: "\<And>x. GRelease x k \<notin> set (cl_queue c b)"
    using left failed_step [OF assms(1)] by (auto simp: left_behind_def)
  have told: "left_behind a b k (broadcast gs (put_registry d r (c\<lparr>cl_queue := q\<rparr>)))"
    if "c' = broadcast gs (put_registry d r (c\<lparr>cl_queue := q\<rparr>))" "set (q b) \<subseteq> set (cl_queue c b)"
      "d = b \<Longrightarrow> map_get (rg_mirror r) k \<noteq> None" "\<And>x. GRelease x k \<notin> set gs" for gs d r q
    by (rule left_behind_broadcast) (use that gone known quiet in \<open>auto split: if_splits\<close>)
  note told' = told [of _ _ _ "cl_queue c", simplified]
  from assms(1) show ?thesis
  proof cases
    case (claim i d q p)
    obtain e gs r where op: "registry_claim True i q p (cl_registry c d) = (e, gs, r)"
      by (metis prod_cases3)
    show ?thesis
      unfolding claim op after_op_def using told' [of gs d r] claim op claim_effect [OF op] known by (auto simp: after_op_def)
  next
    case (release i d)
    obtain e gs r where op: "registry_release True i (cl_registry c d) = (e, gs, r)"
      by (metis prod_cases3)
    have "i \<noteq> k \<or> failed (cl_registry c d)"
      using left k release by (auto simp: left_behind_def)
    then have "GRelease x k \<notin> set gs" for x
      using release_effect(2) [OF op] by blast
    moreover have "map_get (rg_mirror r) k \<noteq> None" if "d = b"
    proof -
      have "i \<noteq> k"
        using that k release(2) by auto
      with release_effect(1) [OF op] that known show ?thesis
        by simp
    qed
    ultimately show ?thesis
      using told' [of gs d r] release op by (auto simp: after_op_def)
  next
    case (joins d)
    obtain e gs r where op: "registry_connect True (cl_registry c d) = (e, gs, r)"
      by (metis prod_cases3)
    show ?thesis
      using told' [of gs d r] joins op connect_effect [OF op] known by (auto simp: after_op_def)
  next
    case (takes d g gs)
    obtain hs r where op: "handleGossip g (cl_registry c d) = (hs, r)"
      by fastforce
    have "GRelease x k \<notin> set hs" for x
      using op by (cases g) (auto simp: publishGossip_def owned_claims_def split: if_splits option.splits)
    moreover have "map_get (rg_mirror r) k \<noteq> None" if "d = b"
      by (rule hearing_effect(1) [OF op]) (use that takes quiet known alive op in \<open>auto simp: after_op_def\<close>)
    moreover have "set (((cl_queue c)(d := gs)) b) \<subseteq> set (cl_queue c b)"
      using takes by auto
    ultimately show ?thesis
      using told [of hs d r "(cl_queue c)(d := gs)"] takes op by (simp add: after_op_def)
  next
    case (delivers x d e gs to r)
    show ?thesis
      using told' [of gs d r] delivers deliver_effect [OF delivers(2)] known by auto
  next
    case (handed d x)
    show ?thesis
      using told' [of "[]" d "handleDirect x (cl_registry c d)"] handed known by (auto simp: handleDirect_def call_handler_def)
  next
    case (lost d e)
    show ?thesis
      using told' [of "[]" d "terminate e (cl_registry c d)"] lost alive terminate_fails(1) [of e "cl_registry c d"]
      by (cases "d = b") auto
  next
    case (closes d)
    show ?thesis
      using told' [of "[]" d "registry_close (cl_registry c d)"] closes alive terminate_fails(2) [of "cl_registry c d"] known
      by (cases "d = b"; cases "rg_closed (cl_registry c d)") (auto simp: registry_close_def)
  qed
qed

text \<open>
  C39: a registry that is closed or has failed never releases what it owned: an instance that knows of one of its subscriptions, and is not
  about to hear of its release, keeps the record for as long as it is up itself, whatever happens in the cluster, new announcements
  included. Such records count towards the capacity of the mirror.
\<close>

theorem gone_owner_is_never_forgotten:
  assumes "left_behind a b k c" "issuer k = a" "b \<noteq> a" "(cluster_step issuer)\<^sup>*\<^sup>* c c'" "\<not> failed (cl_registry c' b)"
  shows "map_get (rg_mirror (cl_registry c' b)) k \<noteq> None"
proof -
  have "left_behind a b k c'"
    using assms(4,5)
  proof (induction rule: rtranclp_induct)
    case (step c1 c2)
    with failed_step [OF step.hyps(2), of b] left_behind_step [OF step.hyps(2) assms(2,3)] show ?case
      by blast
  qed (rule assms(1))
  then show ?thesis
    by (simp add: left_behind_def)
qed

theorem gone_owner_is_never_forgotten_witness:
  "let c = put_registry ''a'' (registry_close (cl_registry example_cluster ''a'')) example_cluster;
       c' = after_op ''d'' (registry_connect True (cl_registry c ''d'')) c
   in \<not> failed (cl_registry c' ''b'') \<and> map_get (rg_mirror (cl_registry c' ''b'')) ''k'' \<noteq> None"
proof -
  let ?c = "put_registry ''a'' (registry_close (cl_registry example_cluster ''a'')) example_cluster"
  let ?c' = "after_op ''d'' (registry_connect True (cl_registry ?c ''d'')) ?c"
  have "left_behind ''a'' ''b'' ''k'' ?c"
    by (simp add: left_behind_def example_cluster_is terminate_fails(2) new_registry_def)
  moreover have "(cluster_step (\<lambda>_. ''a''))\<^sup>*\<^sup>* ?c ?c'"
    by (intro r_into_rtranclp cluster_step.joins)
  moreover have "\<not> failed (cl_registry ?c' ''b'')"
    by (simp add: after_op_def registry_connect_def example_cluster_is new_registry_def failed_def publishGossip_def)
  ultimately show ?thesis
    using gone_owner_is_never_forgotten [of "''a''" "''b''" "''k''" ?c "\<lambda>_. ''a''" ?c'] by (simp add: Let_def)
qed

end
