(* ===== verification/Log_Subscription.thy ===== *)
theory Log_Subscription
  imports Event_Store "HOL-Library.Sublist"
begin

text \<open>
  A live read of the log of a KronosDB server (\<open>packages/kronosdb/src/kronosdb-subscription.ts\<close>), with the batches and criteria of
  \<open>native-events.ts\<close>.

  A batch is the list of its records, each as reading its bytes turns out: an event, a record to step over, or bytes that cannot be read.
  \<open>ls_out\<close> is what was sent on the stream, \<open>ls_calls\<close> how often the callback was called. The server is not part of the repository;
  that it never sends more records than it has credits for is a condition of the step in which a frame arrives.
\<close>

section \<open>Criteria and batches\<close>

record wire_criterion =
  wc_names :: "string list"
  wc_tags :: "tag list"

fun criteriaToWire :: "event_criteria \<Rightarrow> wire_criterion list" where
  "criteriaToWire (TagCriteria ts) = [\<lparr>wc_names = [], wc_tags = ts\<rparr>]"
| "criteriaToWire (TypeRestrictedCriteria inner tys) =
     [\<lparr>wc_names = tys, wc_tags = (case inner of TagCriteria ts \<Rightarrow> ts | _ \<Rightarrow> [])\<rparr>]"
| "criteriaToWire (EitherCriteria cs) = concat (map criteriaToWire cs)"
| "criteriaToWire AnyTagCriteria = [\<lparr>wc_names = [], wc_tags = []\<rparr>]"

datatype wire_record = EventRecord sequenced_event | OtherRecord | BadRecord js_error

fun batch_take :: "wire_record list \<Rightarrow> js_error + (sequenced_event option \<times> wire_record list)" where
  "batch_take [] = Inr (None, [])"
| "batch_take (EventRecord e # rs) = Inr (Some e, rs)"
| "batch_take (OtherRecord # rs) = batch_take rs"
| "batch_take (BadRecord e # rs) = Inl e"

section \<open>The subscription\<close>

datatype subscription_error = BadCredits | BadQuery query_error | UnexpectedFrame nat

record subscription_options =
  so_credits :: "int option"
  so_progressIntervalMs :: "nat option"
  so_excludeNames :: "string list option"

record subscribe_request =
  sq_from :: int
  sq_criteria :: "wire_criterion list"
  sq_exclude :: "string list"
  sq_credits :: nat
  sq_perFrame :: nat
  sq_progressIntervalMs :: nat

datatype sent = SentCredit nat | SentCancel

record log_subscription =
  ls_credits :: nat
  ls_batches :: "wire_record list list"
  ls_queued :: int
  ls_peeked :: "sequenced_event option"
  ls_completed :: bool
  ls_error :: "js_error option"
  ls_callback :: bool
  ls_calls :: nat
  ls_outstanding :: int
  ls_held :: "(int \<times> nat) list"
  ls_settled :: "int option"
  ls_received :: nat
  ls_taken :: nat
  ls_open :: bool
  ls_out :: "sent list"

definition DEFAULT_CREDITS :: int where
  "DEFAULT_CREDITS = 500"

text \<open>\<open>subscription\<close>: the request that is written, and the state it starts in.\<close>

definition new_subscription :: "nat \<Rightarrow> log_subscription" where
  "new_subscription n = \<lparr>ls_credits = n, ls_batches = [], ls_queued = 0, ls_peeked = None, ls_completed = False, ls_error = None,
     ls_callback = False, ls_calls = 0, ls_outstanding = int n, ls_held = [], ls_settled = None, ls_received = 0, ls_taken = 0,
     ls_open = False, ls_out = []\<rparr>"

definition log_subscribe :: "streaming_condition \<Rightarrow> subscription_options \<Rightarrow> subscription_error + (subscribe_request \<times> log_subscription)" where
  "log_subscribe cond opts =
     (let credits = (case so_credits opts of None \<Rightarrow> DEFAULT_CREDITS | Some n \<Rightarrow> n)
      in if credits < 1 \<or> 4294967295 < credits then Inl BadCredits
         else case (case str_query cond of None \<Rightarrow> Inr [] | Some q \<Rightarrow> map_sum id criteriaToWire (compileQuery q)) of
                Inl e \<Rightarrow> Inl (BadQuery e)
              | Inr criteria \<Rightarrow>
                  Inr (\<lparr>sq_from = (if str_position cond < 0 then 0 else str_position cond), sq_criteria = criteria,
                        sq_exclude = (case so_excludeNames opts of None \<Rightarrow> [] | Some ns \<Rightarrow> ns), sq_credits = nat credits, sq_perFrame = 0,
                        sq_progressIntervalMs = (case so_progressIntervalMs opts of None \<Rightarrow> 0 | Some n \<Rightarrow> n)\<rparr>,
                       new_subscription (nat credits)))"

definition ls_notify :: "log_subscription \<Rightarrow> log_subscription" where
  "ls_notify s = (if ls_callback s then s\<lparr>ls_calls := Suc (ls_calls s)\<rparr> else s)"

definition finish :: "js_error option \<Rightarrow> log_subscription \<Rightarrow> log_subscription" where
  "finish err s =
     (if ls_completed s then s
      else ls_notify (s\<lparr>ls_error := (case err of None \<Rightarrow> ls_error s | Some e \<Rightarrow> Some e), ls_completed := True\<rparr>))"

definition discard :: "log_subscription \<Rightarrow> log_subscription" where
  "discard s = s\<lparr>ls_batches := [], ls_queued := 0, ls_peeked := None, ls_held := []\<rparr>"

definition stream_send :: "sent \<Rightarrow> log_subscription \<Rightarrow> log_subscription" where
  "stream_send m s = (if ls_open s then s\<lparr>ls_out := ls_out s @ [m]\<rparr> else s)"

fun settle_held :: "nat \<Rightarrow> (int \<times> nat) list \<Rightarrow> int option \<Rightarrow> (int \<times> nat) list \<times> int option" where
  "settle_held taken [] settled = ([], settled)"
| "settle_held taken ((p, after) # held) settled =
     (if after \<le> taken then settle_held taken held (Some p) else ((p, after) # held, settled))"

definition reached :: "log_subscription \<Rightarrow> int option \<times> log_subscription" where
  "reached s = (case settle_held (ls_taken s) (ls_held s) (ls_settled s) of (held, settled) \<Rightarrow> (settled, s\<lparr>ls_held := held, ls_settled := settled\<rparr>))"

fun pull_batches :: "wire_record list list \<Rightarrow> js_error + (sequenced_event option \<times> wire_record list list)" where
  "pull_batches [] = Inr (None, [])"
| "pull_batches (b # bs) =
     (case batch_take b of
        Inl e \<Rightarrow> Inl e
      | Inr (Some item, b') \<Rightarrow> Inr (Some item, b' # bs)
      | Inr (None, _) \<Rightarrow> pull_batches bs)"

definition pull :: "log_subscription \<Rightarrow> sequenced_event option \<times> log_subscription" where
  "pull s =
     (case pull_batches (ls_batches s) of
        Inl e \<Rightarrow> (None, finish (Some e) (stream_send SentCancel (discard s)))
      | Inr (Some item, bs) \<Rightarrow> (Some item, s\<lparr>ls_batches := bs, ls_queued := ls_queued s - 1\<rparr>)
      | Inr (None, bs) \<Rightarrow> (None, s\<lparr>ls_batches := bs\<rparr>))"

datatype log_frame = EventsFrame "wire_record list" | ProgressFrame int | OtherFrame nat

definition onFrame :: "log_frame \<Rightarrow> bool \<Rightarrow> log_subscription \<Rightarrow> subscription_error + log_subscription" where
  "onFrame f ends s =
     (if ls_completed s then Inr s
      else case (case f of
                   EventsFrame rs \<Rightarrow>
                     Inr (if rs \<noteq> [] then ls_notify (s\<lparr>ls_batches := ls_batches s @ [rs], ls_queued := ls_queued s + int (length rs),
                                                       ls_received := ls_received s + length rs\<rparr>) else s)
                 | ProgressFrame p \<Rightarrow> Inr (ls_notify (s\<lparr>ls_held := ls_held s @ [(p, ls_received s)]\<rparr>))
                 | OtherFrame k \<Rightarrow> Inl (UnexpectedFrame k)) of
             Inl e \<Rightarrow> Inl e
           | Inr s' \<Rightarrow> Inr (if ends then finish None s' else s'))"

text \<open>The promise of the stream: a subscription that has ended meanwhile cancels it.\<close>

definition log_opened :: "log_subscription \<Rightarrow> log_subscription" where
  "log_opened s = (if ls_completed s then s\<lparr>ls_out := ls_out s @ [SentCancel]\<rparr> else s\<lparr>ls_open := True\<rparr>)"

text \<open>A quarter of the credits is exact in binary floating point, so its floor is a division.\<close>

definition onConsumed :: "log_subscription \<Rightarrow> log_subscription" where
  "onConsumed s =
     (let s1 = s\<lparr>ls_outstanding := ls_outstanding s - 1\<rparr>
      in if ls_outstanding s1 \<le> int (ls_credits s div 4) \<and> \<not> ls_completed s
         then (let grant = int (ls_credits s) - ls_outstanding s1
               in stream_send (SentCredit (nat grant)) (s1\<lparr>ls_outstanding := ls_outstanding s1 + grant\<rparr>))
         else s1)"

definition log_next :: "log_subscription \<Rightarrow> sequenced_event option \<times> log_subscription" where
  "log_next s =
     (case (case ls_peeked s of None \<Rightarrow> pull s | Some item \<Rightarrow> (Some item, s\<lparr>ls_peeked := None\<rparr>)) of
        (None, s1) \<Rightarrow> (None, s1)
      | (Some item, s1) \<Rightarrow> (Some item, onConsumed (s1\<lparr>ls_taken := Suc (ls_taken s1)\<rparr>)))"

definition log_peek :: "log_subscription \<Rightarrow> sequenced_event option \<times> log_subscription" where
  "log_peek s =
     (case ls_peeked s of
        Some item \<Rightarrow> (Some item, s)
      | None \<Rightarrow> (case pull s of (item, s1) \<Rightarrow> (item, s1\<lparr>ls_peeked := item\<rparr>)))"

definition log_hasNextAvailable :: "log_subscription \<Rightarrow> bool" where
  "log_hasNextAvailable s = (ls_peeked s \<noteq> None \<or> ls_queued s > 0)"

definition log_isCompleted :: "log_subscription \<Rightarrow> bool" where
  "log_isCompleted s = (ls_completed s \<and> ls_peeked s = None \<and> ls_queued s = 0)"

definition log_setCallback :: "log_subscription \<Rightarrow> log_subscription" where
  "log_setCallback s = s\<lparr>ls_callback := True\<rparr>"

definition log_close :: "log_subscription \<Rightarrow> log_subscription" where
  "log_close s = (discard ((stream_send SentCancel (s\<lparr>ls_completed := True\<rparr>))\<lparr>ls_open := False\<rparr>))\<lparr>ls_callback := False\<rparr>"

definition log_progressToken :: "log_subscription \<Rightarrow> tracking_token option \<times> log_subscription" where
  "log_progressToken s = (case reached s of (p, s1) \<Rightarrow> (map_option GlobalSequenceToken p, s1))"

section \<open>A reader and a server\<close>

fun sent_credit :: "sent \<Rightarrow> nat" where
  "sent_credit (SentCredit n) = n"
| "sent_credit SentCancel = 0"

definition granted :: "log_subscription \<Rightarrow> nat" where
  "granted s = ls_credits s + sum_list (map sent_credit (ls_out s))"

text \<open>
  The subscription with what happened to it: the records that arrived while it was open, the progress reported with how many records had
  arrived by then, and the events its reader took.
\<close>

record sub_world =
  sw_sub :: log_subscription
  sw_arrived :: "wire_record list"
  sw_reports :: "(int \<times> nat) list"
  sw_read :: "sequenced_event list"

definition sub_start :: "nat \<Rightarrow> sub_world" where
  "sub_start n = \<lparr>sw_sub = new_subscription n, sw_arrived = [], sw_reports = [], sw_read = []\<rparr>"

fun frame_records :: "log_frame \<Rightarrow> wire_record list" where
  "frame_records (EventsFrame rs) = rs"
| "frame_records _ = []"

definition frame_arrives :: "log_frame \<Rightarrow> log_subscription \<Rightarrow> sub_world \<Rightarrow> sub_world" where
  "frame_arrives f s' w =
     (if ls_completed (sw_sub w) then w
      else w\<lparr>sw_sub := s', sw_arrived := sw_arrived w @ frame_records f,
             sw_reports := sw_reports w @ (case f of ProgressFrame p \<Rightarrow> [(p, ls_received (sw_sub w))] | _ \<Rightarrow> [])\<rparr>)"

inductive sub_step :: "sub_world \<Rightarrow> sub_world \<Rightarrow> bool" where
  opens: "sub_step w (w\<lparr>sw_sub := log_opened (sw_sub w)\<rparr>)"
| arrives: "ls_open (sw_sub w) \<Longrightarrow> ls_received (sw_sub w) + length (frame_records f) \<le> granted (sw_sub w) \<Longrightarrow>
    onFrame f ends (sw_sub w) = Inr s' \<Longrightarrow> sub_step w (frame_arrives f s' w)"
| takes: "log_next (sw_sub w) = (item, s') \<Longrightarrow>
    sub_step w (w\<lparr>sw_sub := s', sw_read := sw_read w @ (case item of None \<Rightarrow> [] | Some e \<Rightarrow> [e])\<rparr>)"
| peeks: "sub_step w (w\<lparr>sw_sub := snd (log_peek (sw_sub w))\<rparr>)"
| asks: "sub_step w (w\<lparr>sw_sub := snd (reached (sw_sub w))\<rparr>)"
| listens: "sub_step w (w\<lparr>sw_sub := log_setCallback (sw_sub w)\<rparr>)"
| fails: "sub_step w (w\<lparr>sw_sub := finish err (sw_sub w)\<rparr>)"
| closed: "sub_step w (w\<lparr>sw_sub := log_close (sw_sub w)\<rparr>)"

inductive sub_reachable :: "nat \<Rightarrow> sub_world \<Rightarrow> bool" for n where
  begins: "0 < n \<Longrightarrow> sub_reachable n (sub_start n)"
| goes: "sub_reachable n w \<Longrightarrow> sub_step w w' \<Longrightarrow> sub_reachable n w'"

section \<open>Accounts\<close>

fun events_of :: "wire_record list \<Rightarrow> sequenced_event list" where
  "events_of [] = []"
| "events_of (EventRecord e # rs) = e # events_of rs"
| "events_of (_ # rs) = events_of rs"

text \<open>What \<open>next\<close> can still answer before bytes that cannot be read.\<close>

definition waiting :: "log_subscription \<Rightarrow> sequenced_event list" where
  "waiting s = (case ls_peeked s of None \<Rightarrow> [] | Some e \<Rightarrow> [e]) @ events_of (concat (ls_batches s))"

definition dropped :: "log_subscription \<Rightarrow> bool" where
  "dropped s = (ls_completed s \<and> ls_batches s = [] \<and> ls_queued s = 0 \<and> ls_peeked s = None \<and> ls_held s = [])"

definition accounts_ok :: "log_subscription \<Rightarrow> wire_record list \<Rightarrow> (int \<times> nat) list \<Rightarrow> sequenced_event list \<Rightarrow> bool" where
  "accounts_ok s arrived reports readers =
     (events_of arrived = readers @ waiting s \<and>
      ls_queued s = int (ls_received s) - int (ls_taken s) - (if ls_peeked s = None then 0 else 1) \<and> set (ls_held s) \<subseteq> set reports)"

definition credits_ok :: "log_subscription \<Rightarrow> bool" where
  "credits_ok s =
     (0 < ls_credits s \<and> ls_outstanding s = int (granted s) - int (ls_taken s) \<and> ls_outstanding s \<le> int (ls_credits s) \<and>
      (\<not> ls_completed s \<longrightarrow> int (ls_credits s div 4) < ls_outstanding s) \<and> ls_received s \<le> granted s \<and>
      (ls_received s = 0 \<or> ls_open s \<or> ls_completed s))"

definition sub_ok :: "sub_world \<Rightarrow> bool" where
  "sub_ok w =
     (credits_ok (sw_sub w) \<and> ls_received (sw_sub w) = length (sw_arrived w) \<and> ls_taken (sw_sub w) = length (sw_read w) \<and>
      prefix (sw_read w) (events_of (sw_arrived w)) \<and>
      (dropped (sw_sub w) \<or> accounts_ok (sw_sub w) (sw_arrived w) (sw_reports w) (sw_read w)) \<and>
      (\<forall>p. ls_settled (sw_sub w) = Some p \<longrightarrow> (\<exists>n \<le> length (sw_read w). (p, n) \<in> set (sw_reports w))))"

lemma events_of_append [simp]: "events_of (rs @ qs) = events_of rs @ events_of qs"
  by (induction rs rule: events_of.induct) auto

lemma length_events_of: "length (events_of rs) \<le> length rs" "OtherRecord \<in> set rs \<Longrightarrow> length (events_of rs) < length rs"
proof -
  show le: "length (events_of rs) \<le> length rs" for rs
    by (induction rs rule: events_of.induct) auto
  show "OtherRecord \<in> set rs \<Longrightarrow> length (events_of rs) < length rs"
    by (induction rs rule: events_of.induct) (use le in \<open>auto simp: less_Suc_eq_le\<close>)
qed

lemma batch_take_events:
  "batch_take b = Inr (Some e, b') \<Longrightarrow> events_of b = e # events_of b'"
  "batch_take b = Inr (None, b') \<Longrightarrow> events_of b = []"
  by (induction b rule: batch_take.induct) auto

lemma pull_batches_events:
  "pull_batches bs = Inr (Some e, bs') \<Longrightarrow> events_of (concat bs) = e # events_of (concat bs')"
  "pull_batches bs = Inr (None, bs') \<Longrightarrow> events_of (concat bs) = [] \<and> bs' = []"
  by (induction bs) (auto split: sum.splits option.splits prod.splits dest: batch_take_events)

lemma granted_send:
  "granted (stream_send m s) = granted s + (if ls_open s then sent_credit m else 0)"
  by (simp add: granted_def stream_send_def)

lemma granted_cong: "ls_credits s' = ls_credits s \<Longrightarrow> ls_out s' = ls_out s \<Longrightarrow> granted s' = granted s"
  by (simp add: granted_def)

lemma credits_ok_cong:
  assumes "credits_ok s" "ls_credits s' = ls_credits s" "ls_outstanding s' = ls_outstanding s" "ls_taken s' = ls_taken s"
    "ls_received s' = ls_received s" "granted s' = granted s" "ls_completed s \<Longrightarrow> ls_completed s'" "ls_open s \<Longrightarrow> ls_open s' \<or> ls_completed s'"
  shows "credits_ok s'"
  using assms by (auto simp: credits_ok_def)

lemma consumed_credits:
  assumes ok: "credits_ok s" and more: "ls_taken s < ls_received s"
  shows "credits_ok (onConsumed (s\<lparr>ls_taken := Suc (ls_taken s)\<rparr>))"
proof (cases "ls_outstanding s - 1 \<le> int (ls_credits s div 4) \<and> \<not> ls_completed s")
  case True
  then have "ls_open s" and "ls_outstanding s \<le> int (ls_credits s)"
    using ok more by (auto simp: credits_ok_def)
  moreover have "ls_credits s div 4 < ls_credits s"
    using ok by (simp add: credits_ok_def)
  ultimately show ?thesis
    using ok True by (simp add: credits_ok_def onConsumed_def Let_def granted_send) (simp add: stream_send_def granted_def)
next
  case False
  then show ?thesis
    using ok by (auto simp: credits_ok_def onConsumed_def Let_def granted_def)
qed

lemma ls_notify_fields [simp]:
  "ls_credits (ls_notify s) = ls_credits s" "ls_batches (ls_notify s) = ls_batches s" "ls_queued (ls_notify s) = ls_queued s"
  "ls_peeked (ls_notify s) = ls_peeked s" "ls_completed (ls_notify s) = ls_completed s" "ls_outstanding (ls_notify s) = ls_outstanding s"
  "ls_held (ls_notify s) = ls_held s" "ls_settled (ls_notify s) = ls_settled s" "ls_received (ls_notify s) = ls_received s"
  "ls_taken (ls_notify s) = ls_taken s" "ls_open (ls_notify s) = ls_open s" "ls_out (ls_notify s) = ls_out s"
  by (simp_all add: ls_notify_def)

lemma finish_fields [simp]:
  "ls_credits (finish e s) = ls_credits s" "ls_batches (finish e s) = ls_batches s" "ls_queued (finish e s) = ls_queued s"
  "ls_peeked (finish e s) = ls_peeked s" "ls_completed (finish e s)" "ls_outstanding (finish e s) = ls_outstanding s"
  "ls_held (finish e s) = ls_held s" "ls_settled (finish e s) = ls_settled s" "ls_received (finish e s) = ls_received s"
  "ls_taken (finish e s) = ls_taken s" "ls_open (finish e s) = ls_open s" "ls_out (finish e s) = ls_out s"
  by (simp_all add: finish_def)

lemma send_fields [simp]:
  "ls_credits (stream_send m s) = ls_credits s" "ls_batches (stream_send m s) = ls_batches s" "ls_queued (stream_send m s) = ls_queued s"
  "ls_peeked (stream_send m s) = ls_peeked s" "ls_completed (stream_send m s) = ls_completed s"
  "ls_outstanding (stream_send m s) = ls_outstanding s" "ls_held (stream_send m s) = ls_held s" "ls_settled (stream_send m s) = ls_settled s"
  "ls_received (stream_send m s) = ls_received s" "ls_taken (stream_send m s) = ls_taken s" "ls_open (stream_send m s) = ls_open s"
  by (simp_all add: stream_send_def)

lemma consumed_fields [simp]:
  "ls_batches (onConsumed s) = ls_batches s" "ls_queued (onConsumed s) = ls_queued s" "ls_peeked (onConsumed s) = ls_peeked s"
  "ls_completed (onConsumed s) = ls_completed s" "ls_held (onConsumed s) = ls_held s" "ls_settled (onConsumed s) = ls_settled s"
  "ls_received (onConsumed s) = ls_received s" "ls_taken (onConsumed s) = ls_taken s"
  by (simp_all add: onConsumed_def Let_def)

lemma pull_cases:
  assumes "pull s = (item, s')"
  obtains (event) e bs where "item = Some e" "s' = s\<lparr>ls_batches := bs, ls_queued := ls_queued s - 1\<rparr>"
      "events_of (concat (ls_batches s)) = e # events_of (concat bs)"
    | (spent) "item = None" "s' = s\<lparr>ls_batches := []\<rparr>" "events_of (concat (ls_batches s)) = []"
    | (broken) e where "item = None" "s' = finish (Some e) (stream_send SentCancel (discard s))"
  using assms unfolding pull_def
  by (auto split: sum.splits prod.splits option.splits dest: pull_batches_events)

text \<open>Ending a subscription and throwing away what waits.\<close>

lemma ended_ok:
  assumes "sub_ok w" "dropped s'" "credits_ok s'" "ls_received s' = ls_received (sw_sub w)" "ls_taken s' = ls_taken (sw_sub w)"
    "ls_settled s' = ls_settled (sw_sub w)"
  shows "sub_ok (w\<lparr>sw_sub := s'\<rparr>)"
  using assms by (simp add: sub_ok_def)

lemma broken_ok:
  assumes "sub_ok w"
  shows "sub_ok (w\<lparr>sw_sub := finish (Some e) (stream_send SentCancel (discard (sw_sub w)))\<rparr>)"
proof (rule ended_ok [OF assms])
  have "credits_ok (sw_sub w)"
    using assms by (simp add: sub_ok_def)
  then show "credits_ok (finish (Some e) (stream_send SentCancel (discard (sw_sub w))))"
    by (rule credits_ok_cong) (simp_all add: discard_def granted_def stream_send_def)
qed (simp_all add: dropped_def discard_def)

lemma settle_sound:
  assumes "settle_held t held st = (held', st')" "set held \<subseteq> R" "\<forall>p. st = Some p \<longrightarrow> (\<exists>n \<le> t. (p, n) \<in> R)"
  shows "set held' \<subseteq> R \<and> (\<forall>p. st' = Some p \<longrightarrow> (\<exists>n \<le> t. (p, n) \<in> R))"
  using assms by (induction t held st rule: settle_held.induct) (auto split: if_splits)

lemma same_accounts:
  assumes ok: "sub_ok w" and "credits_ok s'"
    and "ls_received s' = ls_received (sw_sub w)" "ls_taken s' = ls_taken (sw_sub w)" "ls_settled s' = ls_settled (sw_sub w)"
    and "ls_batches s' = ls_batches (sw_sub w)" "ls_queued s' = ls_queued (sw_sub w)" "ls_peeked s' = ls_peeked (sw_sub w)"
      "ls_held s' = ls_held (sw_sub w)" "ls_completed (sw_sub w) \<Longrightarrow> ls_completed s'"
  shows "sub_ok (w\<lparr>sw_sub := s'\<rparr>)"
  using assms by (auto simp: sub_ok_def dropped_def accounts_ok_def waiting_def)

lemma take_step_ok:
  assumes ok: "sub_ok w" and item: "log_next (sw_sub w) = (item, s')"
  shows "sub_ok (w\<lparr>sw_sub := s', sw_read := sw_read w @ (case item of None \<Rightarrow> [] | Some e \<Rightarrow> [e])\<rparr>)"
proof -
  let ?s = "sw_sub w"
  have cr: "credits_ok ?s" and len: "ls_received ?s = length (sw_arrived w)" "ls_taken ?s = length (sw_read w)"
    and acc: "dropped ?s \<or> accounts_ok ?s (sw_arrived w) (sw_reports w) (sw_read w)"
    and settled: "\<And>p. ls_settled ?s = Some p \<Longrightarrow> \<exists>n \<le> length (sw_read w). (p, n) \<in> set (sw_reports w)"
    using ok by (auto simp: sub_ok_def)
  have taken: "sub_ok (w\<lparr>sw_sub := onConsumed (s1\<lparr>ls_taken := Suc (ls_taken s1)\<rparr>), sw_read := sw_read w @ [e]\<rparr>)"
    if s1: "credits_ok s1" "ls_received s1 = ls_received ?s" "ls_taken s1 = ls_taken ?s" "ls_settled s1 = ls_settled ?s"
      "ls_held s1 = ls_held ?s" "ls_peeked s1 = None" "ls_queued s1 = int (ls_received ?s) - int (ls_taken ?s) - 1"
      "set (ls_held ?s) \<subseteq> set (sw_reports w)" "events_of (sw_arrived w) = sw_read w @ e # events_of (concat (ls_batches s1))" for s1 e
  proof -
    have "length (sw_read w) < length (sw_arrived w)"
      using length_events_of(1) [of "sw_arrived w"] s1(9) by simp
    then have "credits_ok (onConsumed (s1\<lparr>ls_taken := Suc (ls_taken s1)\<rparr>))"
      using consumed_credits [OF s1(1)] s1 len by simp
    moreover have "accounts_ok (onConsumed (s1\<lparr>ls_taken := Suc (ls_taken s1)\<rparr>)) (sw_arrived w) (sw_reports w) (sw_read w @ [e])"
      using s1 by (simp add: accounts_ok_def waiting_def)
    moreover have "\<exists>n \<le> Suc (length (sw_read w)). (p, n) \<in> set (sw_reports w)" if "ls_settled ?s = Some p" for p
      using settled [OF that] le_SucI by blast
    ultimately show ?thesis
      using s1 len by (simp add: sub_ok_def)
  qed
  show ?thesis
  proof (cases "ls_peeked ?s")
    case (Some e)
    then have "accounts_ok ?s (sw_arrived w) (sw_reports w) (sw_read w)"
      using acc by (auto simp: dropped_def)
    moreover have "credits_ok (?s\<lparr>ls_peeked := None\<rparr>)"
      by (rule credits_ok_cong [OF cr]) (simp_all add: granted_def)
    moreover have "item = Some e" "s' = onConsumed (?s\<lparr>ls_peeked := None, ls_taken := Suc (ls_taken ?s)\<rparr>)"
      using item by (simp_all add: log_next_def Some)
    ultimately show ?thesis
      using taken [of "?s\<lparr>ls_peeked := None\<rparr>" e] Some by (simp add: accounts_ok_def waiting_def)
  next
    case None
    obtain item1 s1 where pulled: "pull ?s = (item1, s1)"
      by fastforce
    from pulled show ?thesis
    proof (cases rule: pull_cases)
      case (event e bs)
      then have "accounts_ok ?s (sw_arrived w) (sw_reports w) (sw_read w)"
        using acc by (auto simp: dropped_def)
      moreover have "credits_ok s1"
        by (rule credits_ok_cong [OF cr]) (simp_all add: event granted_def)
      ultimately show ?thesis
        using taken [of s1 e] item None pulled event by (auto simp: log_next_def accounts_ok_def waiting_def)
    next
      case spent
      have "credits_ok s1"
        by (rule credits_ok_cong [OF cr]) (simp_all add: spent granted_def)
      then show ?thesis
        using ok item None pulled spent by (auto simp: log_next_def sub_ok_def dropped_def accounts_ok_def waiting_def)
    next
      case (broken e)
      then show ?thesis
        using broken_ok [OF ok, of e] item None pulled by (auto simp: log_next_def)
    qed
  qed
qed

lemma peek_step_ok:
  assumes ok: "sub_ok w"
  shows "sub_ok (w\<lparr>sw_sub := snd (log_peek (sw_sub w))\<rparr>)"
proof (cases "ls_peeked (sw_sub w)")
  case (Some e)
  then show ?thesis
    using ok by (simp add: log_peek_def)
next
  case None
  have cr: "credits_ok (sw_sub w)"
    using ok by (simp add: sub_ok_def)
  obtain item s1 where pulled: "pull (sw_sub w) = (item, s1)"
    by fastforce
  from pulled show ?thesis
  proof (cases rule: pull_cases)
    case (event e bs)
    have "credits_ok (s1\<lparr>ls_peeked := item\<rparr>)"
      by (rule credits_ok_cong [OF cr]) (simp_all add: event granted_def)
    moreover have "\<not> dropped (sw_sub w)"
      using event by (auto simp: dropped_def)
    ultimately show ?thesis
      using ok None pulled event by (auto simp: log_peek_def sub_ok_def accounts_ok_def waiting_def)
  next
    case spent
    have "credits_ok (s1\<lparr>ls_peeked := item\<rparr>)"
      by (rule credits_ok_cong [OF cr]) (simp_all add: spent granted_def)
    then show ?thesis
      using ok None pulled spent by (auto simp: log_peek_def sub_ok_def dropped_def accounts_ok_def waiting_def)
  next
    case (broken e)
    have "s1\<lparr>ls_peeked := None\<rparr> = s1"
      using broken by (simp add: finish_def discard_def stream_send_def ls_notify_def)
    then show ?thesis
      using broken_ok [OF ok, of e] None pulled broken by (simp add: log_peek_def)
  qed
qed

lemma frame_step_ok:
  assumes ok: "sub_ok w" and up: "ls_open (sw_sub w)"
    and room: "ls_received (sw_sub w) + length (frame_records f) \<le> granted (sw_sub w)" and f: "onFrame f ends (sw_sub w) = Inr s'"
  shows "sub_ok (frame_arrives f s' w)"
proof (cases "ls_completed (sw_sub w)")
  case True
  then show ?thesis
    using ok by (simp add: frame_arrives_def)
next
  case False
  let ?s = "sw_sub w"
  have fields: "ls_credits s' = ls_credits ?s" "ls_outstanding s' = ls_outstanding ?s" "ls_taken s' = ls_taken ?s" "ls_out s' = ls_out ?s"
    "ls_settled s' = ls_settled ?s" "ls_peeked s' = ls_peeked ?s" "ls_open s' = ls_open ?s"
    "ls_received s' = ls_received ?s + length (frame_records f)" "ls_queued s' = ls_queued ?s + int (length (frame_records f))"
    "concat (ls_batches s') = concat (ls_batches ?s) @ frame_records f"
    "ls_held s' = ls_held ?s @ (case f of ProgressFrame p \<Rightarrow> [(p, ls_received ?s)] | _ \<Rightarrow> [])"
    using f False by (auto simp: onFrame_def split: log_frame.splits if_splits)
  have "credits_ok s'"
    using ok room up fields False by (auto simp: sub_ok_def credits_ok_def granted_def)
  moreover have "\<not> dropped ?s"
    using False by (simp add: dropped_def)
  then have "accounts_ok s' (sw_arrived w @ frame_records f)
      (sw_reports w @ (case f of ProgressFrame p \<Rightarrow> [(p, ls_received ?s)] | _ \<Rightarrow> [])) (sw_read w)"
    using ok fields by (auto simp: sub_ok_def accounts_ok_def waiting_def)
  ultimately show ?thesis
    using ok fields False by (fastforce simp: sub_ok_def frame_arrives_def)
qed

lemma asked_step_ok:
  assumes ok: "sub_ok w"
  shows "sub_ok (w\<lparr>sw_sub := snd (reached (sw_sub w))\<rparr>)"
proof -
  obtain held st where settled: "settle_held (ls_taken (sw_sub w)) (ls_held (sw_sub w)) (ls_settled (sw_sub w)) = (held, st)"
    by fastforce
  have "credits_ok ((sw_sub w)\<lparr>ls_held := held, ls_settled := st\<rparr>)"
    by (rule credits_ok_cong [of "sw_sub w"]) (use ok in \<open>simp_all add: sub_ok_def granted_def\<close>)
  then show ?thesis
    using ok settle_sound [OF settled, of "set (sw_reports w)"] settled
    by (auto simp: sub_ok_def reached_def accounts_ok_def waiting_def dropped_def)
qed

lemma sub_step_ok:
  assumes "sub_step w w'" and ok: "sub_ok w"
  shows "sub_ok w'"
  using assms(1)
proof cases
  case opens
  have "credits_ok (log_opened (sw_sub w))"
    by (rule credits_ok_cong [of "sw_sub w"]) (use ok in \<open>auto simp: sub_ok_def log_opened_def granted_def\<close>)
  then show ?thesis
    unfolding opens by (intro same_accounts [OF ok]) (simp_all add: log_opened_def)
next
  case listens
  have "credits_ok (log_setCallback (sw_sub w))"
    by (rule credits_ok_cong [of "sw_sub w"]) (use ok in \<open>auto simp: sub_ok_def log_setCallback_def granted_def\<close>)
  then show ?thesis
    unfolding listens by (intro same_accounts [OF ok]) (simp_all add: log_setCallback_def)
next
  case (fails err)
  have "credits_ok (finish err (sw_sub w))"
    by (rule credits_ok_cong [of "sw_sub w"]) (use ok in \<open>auto simp: sub_ok_def intro: granted_cong\<close>)
  then show ?thesis
    unfolding fails by (intro same_accounts [OF ok]) simp_all
next
  case closed
  have "credits_ok (log_close (sw_sub w))"
    by (rule credits_ok_cong [of "sw_sub w"])
      (use ok in \<open>auto simp: sub_ok_def log_close_def discard_def granted_def stream_send_def\<close>)
  then show ?thesis
    unfolding closed by (intro ended_ok [OF ok]) (simp_all add: dropped_def log_close_def discard_def)
qed (use frame_step_ok [OF ok] take_step_ok [OF ok] peek_step_ok [OF ok] asked_step_ok [OF ok] in auto)

lemma sub_reachable_ok: "sub_reachable n w \<Longrightarrow> sub_ok w"
proof (induction rule: sub_reachable.induct)
  case begins
  then show ?case
    by (simp add: sub_ok_def credits_ok_def accounts_ok_def waiting_def sub_start_def new_subscription_def granted_def)
qed (rule sub_step_ok)

lemma credits_fixed: "sub_reachable n w \<Longrightarrow> ls_credits (sw_sub w) = n"
proof (induction rule: sub_reachable.induct)
  case (goes w w')
  have same: "ls_credits (log_opened s) = ls_credits s" "ls_credits (snd (log_peek s)) = ls_credits s"
    "ls_credits (snd (reached s)) = ls_credits s" "ls_credits (log_setCallback s) = ls_credits s" "ls_credits (log_close s) = ls_credits s"
    "onFrame f ends s = Inr s' \<Longrightarrow> ls_credits s' = ls_credits s" "log_next s = (item, s') \<Longrightarrow> ls_credits s' = ls_credits s" for s s' f ends item
    by (auto simp: log_opened_def log_peek_def reached_def log_setCallback_def log_close_def discard_def onFrame_def log_next_def pull_def
        onConsumed_def Let_def split: option.splits sum.splits prod.splits log_frame.splits if_splits)
  from goes(2,3) show ?case
    by (cases rule: sub_step.cases) (auto simp: same frame_arrives_def)
qed (simp add: sub_start_def new_subscription_def)

lemma reached_answer: "fst (reached s) = snd (settle_held (ls_taken s) (ls_held s) (ls_settled s))"
  by (simp add: reached_def split: prod.splits)

section \<open>What a subscription promises\<close>

text \<open>
  C26: however frames arrive and the reader takes, peeks and asks, as long as the server sends no more than its credits: the reader takes the
  events in the order they arrived, each once, and what it has not taken is waiting unless the subscription was ended; never more events wait
  than the credits asked for; a position that progress answers was reported by the server, and every event that had arrived by then has been
  taken; and, as long as every record that arrived is an event, a reader that has taken every event leaves the server with a credit, so the
  stream cannot stall. A record the client steps over is the exception, and what it does is shown below.
\<close>

theorem subscription_hands_out_what_arrived:
  assumes "sub_reachable n w"
  shows "prefix (sw_read w) (events_of (sw_arrived w)) \<and>
    (dropped (sw_sub w) \<or> sw_read w @ waiting (sw_sub w) = events_of (sw_arrived w)) \<and>
    length (waiting (sw_sub w)) \<le> n \<and>
    (\<forall>p. fst (reached (sw_sub w)) = Some p \<longrightarrow>
       (\<exists>k. (p, k) \<in> set (sw_reports w) \<and> prefix (events_of (take k (sw_arrived w))) (sw_read w))) \<and>
    (\<not> ls_completed (sw_sub w) \<and> waiting (sw_sub w) = [] \<and> (\<forall>r \<in> set (sw_arrived w). \<exists>e. r = EventRecord e) \<longrightarrow>
       ls_received (sw_sub w) < granted (sw_sub w))"
proof (intro conjI allI impI)
  let ?s = "sw_sub w"
  have ok: "sub_ok w"
    by (rule sub_reachable_ok [OF assms])
  then have cr: "credits_ok ?s" and len: "ls_received ?s = length (sw_arrived w)" "ls_taken ?s = length (sw_read w)"
    and acc: "dropped ?s \<or> accounts_ok ?s (sw_arrived w) (sw_reports w) (sw_read w)"
    by (auto simp: sub_ok_def)
  show read: "prefix (sw_read w) (events_of (sw_arrived w))"
    using ok by (simp add: sub_ok_def)
  show kept: "dropped ?s \<or> sw_read w @ waiting ?s = events_of (sw_arrived w)"
    using acc by (auto simp: accounts_ok_def)
  have "length (sw_read w @ waiting ?s) \<le> length (sw_arrived w)" if "\<not> dropped ?s"
    using kept that length_events_of(1) [of "sw_arrived w"] by simp
  then show "length (waiting ?s) \<le> n"
    using cr len credits_fixed [OF assms] by (cases "dropped ?s") (auto simp: dropped_def waiting_def credits_ok_def)
  show "\<exists>k. (p, k) \<in> set (sw_reports w) \<and> prefix (events_of (take k (sw_arrived w))) (sw_read w)" if p: "fst (reached ?s) = Some p" for p
  proof -
    have "ls_settled (snd (reached ?s)) = fst (reached ?s)"
      by (simp add: reached_def split: prod.splits)
    then obtain k where k: "k \<le> length (sw_read w)" "(p, k) \<in> set (sw_reports w)"
      using asked_step_ok [OF ok] p by (auto simp: sub_ok_def)
    have "length (events_of (take k (sw_arrived w))) \<le> length (sw_read w)"
      using length_events_of(1) [of "take k (sw_arrived w)"] k(1) by simp
    moreover have "prefix (events_of (take k (sw_arrived w))) (events_of (sw_arrived w))"
      by (metis append_take_drop_id events_of_append prefixI)
    ultimately show ?thesis
      using k(2) read prefix_length_prefix by blast
  qed
  show "ls_received ?s < granted ?s"
    if idle: "\<not> ls_completed ?s \<and> waiting ?s = [] \<and> (\<forall>r \<in> set (sw_arrived w). \<exists>e. r = EventRecord e)"
  proof -
    have "length (events_of rs) = length rs" if "\<forall>r \<in> set rs. \<exists>e. r = EventRecord e" for rs
      using that by (induction rs rule: events_of.induct) auto
    then have "length (sw_arrived w) = length (sw_read w)"
      using kept idle by (auto simp: dropped_def)
    then show ?thesis
      using cr len idle by (simp add: credits_ok_def)
  qed
qed

text \<open>
  C40: a record that a client must step over is never taken off the count of what waits: from then on a subscription that was not closed
  claims to have an event even when the reader has taken all of them, is never completed although the server ended it, and does not answer
  progress that is reported now.
\<close>

theorem stepped_over_record_is_owed_forever:
  assumes "sub_reachable n w" "OtherRecord \<in> set (sw_arrived w)" "\<not> dropped (sw_sub w)" "waiting (sw_sub w) = []"
  shows "fst (log_next (sw_sub w)) = None \<and> log_hasNextAvailable (sw_sub w) \<and> \<not> log_isCompleted (sw_sub w) \<and>
    (onFrame (ProgressFrame p) ends (sw_sub w) = Inr s' \<longrightarrow> fst (reached s') = fst (reached (sw_sub w)))"
proof -
  let ?s = "sw_sub w"
  have ok: "sub_ok w"
    by (rule sub_reachable_ok [OF assms(1)])
  then have acc: "accounts_ok ?s (sw_arrived w) (sw_reports w) (sw_read w)"
    and len: "ls_received ?s = length (sw_arrived w)" "ls_taken ?s = length (sw_read w)"
    using assms(3) by (auto simp: sub_ok_def)
  have none: "ls_peeked ?s = None" "events_of (concat (ls_batches ?s)) = []"
    using assms(4) by (auto simp: waiting_def split: option.splits)
  have "events_of (sw_arrived w) = sw_read w"
    using acc assms(4) by (simp add: accounts_ok_def)
  then have less: "ls_taken ?s < ls_received ?s"
    using length_events_of(2) [OF assms(2)] len by simp
  then have "0 < ls_queued ?s"
    using acc none by (simp add: accounts_ok_def)
  moreover have "fst (pull ?s) = None"
    by (rule pull_cases [OF surjective_pairing, of ?s]) (use none in auto)
  moreover have "snd (settle_held t (held @ [(p, k)]) st) = snd (settle_held t held st)" if "t < k" for t k held st
    using that by (induction t held st rule: settle_held.induct) auto
  ultimately show ?thesis
    using none less
    by (auto simp: log_next_def log_hasNextAvailable_def log_isCompleted_def onFrame_def reached_answer split: prod.splits if_splits)
qed

text \<open>Four credits; an event, a report, a record to step over; the reader takes what it can.\<close>

definition taken_world :: "sub_world \<Rightarrow> sub_world" where
  "taken_world w = (case log_next (sw_sub w) of (item, s') \<Rightarrow>
     w\<lparr>sw_sub := s', sw_read := sw_read w @ (case item of None \<Rightarrow> [] | Some e \<Rightarrow> [e])\<rparr>)"

definition arrived_world :: "log_frame \<Rightarrow> sub_world \<Rightarrow> sub_world" where
  "arrived_world f w = (case onFrame f False (sw_sub w) of Inl _ \<Rightarrow> w | Inr s' \<Rightarrow> frame_arrives f s' w)"

definition example_sub :: sub_world where
  "example_sub =
     taken_world (arrived_world (ProgressFrame 7) (arrived_world (EventsFrame [EventRecord \<lparr>sq_sequence = 5, sq_event = order_event, sq_token = None\<rparr>])
       ((sub_start 4)\<lparr>sw_sub := log_opened (new_subscription 4)\<rparr>)))"

definition example_stuck :: sub_world where
  "example_stuck = arrived_world (EventsFrame [OtherRecord]) example_sub"

lemma arrived_reachable:
  assumes "sub_reachable n w" "ls_open (sw_sub w)" "ls_received (sw_sub w) + length (frame_records f) \<le> granted (sw_sub w)"
  shows "sub_reachable n (arrived_world f w)"
proof (cases "onFrame f False (sw_sub w)")
  case (Inr s')
  then show ?thesis
    using sub_reachable.goes [OF assms(1) sub_step.arrives [OF assms(2,3) Inr]] by (simp add: arrived_world_def)
qed (use assms in \<open>simp add: arrived_world_def\<close>)

lemma taken_reachable: "sub_reachable n w \<Longrightarrow> sub_reachable n (taken_world w)"
  unfolding taken_world_def by (auto split: prod.splits intro: sub_reachable.goes sub_step.takes)

lemma example_sub_reachable: "sub_reachable 4 example_sub"
proof -
  have start: "sub_reachable 4 ((sub_start 4)\<lparr>sw_sub := log_opened (new_subscription 4)\<rparr>)"
    using sub_reachable.goes [OF sub_reachable.begins sub_step.opens, of 4] by (simp add: sub_start_def)
  show ?thesis
    unfolding example_sub_def
    by (intro taken_reachable arrived_reachable start) code_simp+
qed

theorem subscription_hands_out_what_arrived_witness:
  "sub_reachable 4 example_sub \<and> map sq_sequence (sw_read example_sub) = [5] \<and> fst (reached (sw_sub example_sub)) = Some 7 \<and>
   (\<exists>k. (7, k) \<in> set (sw_reports example_sub) \<and> prefix (events_of (take k (sw_arrived example_sub))) (sw_read example_sub)) \<and>
   ls_received (sw_sub example_sub) < granted (sw_sub example_sub)"
proof -
  have "fst (reached (sw_sub example_sub)) = Some 7" "map sq_sequence (sw_read example_sub) = [5]"
    "\<not> ls_completed (sw_sub example_sub)" "waiting (sw_sub example_sub) = []"
    by code_simp+
  moreover have "\<forall>r \<in> set (sw_arrived example_sub). \<exists>e. r = EventRecord e"
    by (simp add: example_sub_def taken_world_def arrived_world_def frame_arrives_def sub_start_def onFrame_def log_opened_def
        new_subscription_def log_next_def pull_def split: prod.splits)
  ultimately show ?thesis
    using subscription_hands_out_what_arrived [OF example_sub_reachable] example_sub_reachable by simp
qed

theorem stepped_over_record_is_owed_forever_witness:
  "fst (log_next (sw_sub example_stuck)) = None \<and> log_hasNextAvailable (sw_sub example_stuck) \<and> \<not> log_isCompleted (sw_sub example_stuck)"
proof -
  have "sub_reachable 4 example_stuck"
    unfolding example_stuck_def by (intro arrived_reachable example_sub_reachable) code_simp+
  moreover have "OtherRecord \<in> set (sw_arrived example_stuck)" "\<not> dropped (sw_sub example_stuck)" "waiting (sw_sub example_stuck) = []"
    by code_simp+
  ultimately show ?thesis
    using stepped_over_record_is_owed_forever [of 4 example_stuck] by blast
qed

section \<open>Criteria on the wire\<close>

text \<open>What the comment in \<open>native-events.ts\<close> says a list of criteria selects.\<close>

definition wire_matches :: "event_message \<Rightarrow> wire_criterion list \<Rightarrow> bool" where
  "wire_matches e cs =
     list_ex (\<lambda>c. (wc_names c = [] \<or> List.member (wc_names c) (qualifiedNameToString (em_name e))) \<and> matchesTags e (wc_tags c)) cs"

lemma item_on_wire: "compileItem it = Inr c \<Longrightarrow> wire_matches e (criteriaToWire c) = matchesCriteria e c"
  by (auto simp: compileItem_def wire_matches_def split: sum.splits option.splits if_splits)

lemma wire_matches_append [simp]:
  "wire_matches e (cs @ ds) = (wire_matches e cs \<or> wire_matches e ds)" "\<not> wire_matches e []"
  by (simp_all add: wire_matches_def)

text \<open>The criteria a query is sent as select the events the in-memory store would.\<close>

lemma query_on_wire:
  assumes "compileQuery q = Inr c"
  shows "wire_matches e (criteriaToWire c) = matchesCriteria e c"
proof -
  have items: "wire_matches e (concat (map criteriaToWire cs)) = list_ex (matchesCriteria e) cs"
    if "map_result compileItem its = Inr cs" for its cs
    using that by (induction its arbitrary: cs) (auto simp: item_on_wire split: sum.splits)
  from assms show ?thesis
    by (auto simp: compileQuery_def item_on_wire dest: items split: sum.splits list.splits)
qed

end
