(* ===== verification/Wire_Format.thy ===== *)
theory Wire_Format
  imports Log_Subscription Handler_Wrappers "HOL-Library.Word"
begin

text \<open>
  Events and criteria as bytes (\<open>packages/kronosdb/src/native-events.ts\<close>, on the primitives of
  \<open>protocol/kronosdb-protocol.ts\<close>).

  What is written is a list of bytes, or the error that a limit throws; the buffer that grows under a writer is not modelled. A reader is the
  list of bytes from its position to its end. Texts are UTF-8 for the code points a character has here, 0 to 255. \<open>lenient\<close> is what a
  decoder that replaces malformed bytes makes of them, \<open>deserialize\<close> the serializer of the application.
\<close>

section \<open>Numbers and texts\<close>

type_synonym bytes = "8 word list"

datatype wire_error =
    Truncated nat
  | LimitExceeded nat
  | UnsafeMillis int
  | BadUtf8
  | BadFlag nat
  | ZeroLengthRecord
  | RecordPastFrame
  | TrailingBytes
  | DeserializeFailed js_error

primrec le_bytes :: "nat \<Rightarrow> nat \<Rightarrow> bytes" where
  "le_bytes 0 v = []"
| "le_bytes (Suc n) v = of_nat v # le_bytes n (v div 256)"

primrec le_value :: "bytes \<Rightarrow> nat" where
  "le_value [] = 0"
| "le_value (b # bs) = unat b + 256 * le_value bs"

definition read_need :: "nat \<Rightarrow> bytes \<Rightarrow> wire_error + (bytes \<times> bytes)" where
  "read_need n bs = (if length bs < n then Inl (Truncated n) else Inr (take n bs, drop n bs))"

definition rd_bind :: "wire_error + ('a \<times> bytes) \<Rightarrow> ('a \<Rightarrow> bytes \<Rightarrow> wire_error + 'b) \<Rightarrow> wire_error + 'b" where
  "rd_bind r f = (case r of Inl e \<Rightarrow> Inl e | Inr (x, rest) \<Rightarrow> f x rest)"

definition readU :: "nat \<Rightarrow> bytes \<Rightarrow> wire_error + (nat \<times> bytes)" where
  "readU n bs = rd_bind (read_need n bs) (\<lambda>b rest. Inr (le_value b, rest))"

text \<open>The low word unsigned and the high word signed.\<close>

definition readMillis :: "bytes \<Rightarrow> wire_error + (int \<times> bytes)" where
  "readMillis bs = rd_bind (read_need 8 bs) (\<lambda>b rest.
     let lo = int (le_value (take 4 b)); h = int (le_value (drop 4 b)); hi = (if h \<ge> 2147483648 then h - 4294967296 else h)
     in Inr (hi * 4294967296 + lo, rest))"

definition readPresent :: "bytes \<Rightarrow> wire_error + (bool \<times> bytes)" where
  "readPresent bs = rd_bind (readU 1 bs) (\<lambda>b rest. if b > 1 then Inl (BadFlag b) else Inr (b = 1, rest))"

definition utf8_char :: "char \<Rightarrow> bytes" where
  "utf8_char c = (let n = of_char c :: nat in if n < 128 then [of_nat n] else [of_nat (192 + n div 64), of_nat (128 + n mod 64)])"

definition utf8_encode :: "string \<Rightarrow> bytes" where
  "utf8_encode s = concat (map utf8_char s)"

text \<open>Two bytes are enough for the code points of a character; a shorter form of a longer one is malformed.\<close>

fun utf8_decode :: "bytes \<Rightarrow> string option" where
  "utf8_decode [] = Some []"
| "utf8_decode (b # bs) =
     (if unat b < 128 then map_option ((#) (char_of (unat b))) (utf8_decode bs)
      else case bs of
             [] \<Rightarrow> None
           | c # cs \<Rightarrow>
               if (unat b = 194 \<or> unat b = 195) \<and> 128 \<le> unat c \<and> unat c < 192
               then map_option ((#) (char_of ((unat b - 192) * 64 + (unat c - 128)))) (utf8_decode cs)
               else None)"

definition readStr16 :: "bytes \<Rightarrow> wire_error + (string \<times> bytes)" where
  "readStr16 bs = rd_bind (readU 2 bs) (\<lambda>len rest. rd_bind (read_need len rest) (\<lambda>b rest'.
     case utf8_decode b of None \<Rightarrow> Inl BadUtf8 | Some s \<Rightarrow> Inr (s, rest')))"

definition readBytes32 :: "bytes \<Rightarrow> wire_error + (bytes \<times> bytes)" where
  "readBytes32 bs = rd_bind (readU 4 bs) (\<lambda>len rest. read_need len rest)"

definition readTagText :: "(bytes \<Rightarrow> string) \<Rightarrow> bytes \<Rightarrow> wire_error + (string \<times> bytes)" where
  "readTagText lenient bs = rd_bind (readU 2 bs) (\<lambda>len rest. rd_bind (read_need len rest) (\<lambda>b rest'.
     Inr (case utf8_decode b of None \<Rightarrow> lenient b | Some s \<Rightarrow> s, rest')))"

fun read_times :: "nat \<Rightarrow> (bytes \<Rightarrow> wire_error + ('a \<times> bytes)) \<Rightarrow> bytes \<Rightarrow> wire_error + ('a list \<times> bytes)" where
  "read_times 0 item bs = Inr ([], bs)"
| "read_times (Suc n) item bs = rd_bind (item bs) (\<lambda>x rest. rd_bind (read_times n item rest) (\<lambda>xs rest'. Inr (x # xs, rest')))"

section \<open>Writing\<close>

definition wr_append :: "wire_error + bytes \<Rightarrow> wire_error + bytes \<Rightarrow> wire_error + bytes" where
  "wr_append a b = (case a of Inl e \<Rightarrow> Inl e | Inr x \<Rightarrow> (case b of Inl e \<Rightarrow> Inl e | Inr y \<Rightarrow> Inr (x @ y)))"

definition wr_all :: "(wire_error + bytes) list \<Rightarrow> wire_error + bytes" where
  "wr_all ws = foldr wr_append ws (Inr [])"

definition writeLen16 :: "nat \<Rightarrow> wire_error + bytes" where
  "writeLen16 n = (if n > 65535 then Inl (LimitExceeded n) else Inr (le_bytes 2 n))"

definition writeLen32 :: "nat \<Rightarrow> wire_error + bytes" where
  "writeLen32 n = (if n > 4294967295 then Inl (LimitExceeded n) else Inr (le_bytes 4 n))"

definition writeStr16 :: "string \<Rightarrow> wire_error + bytes" where
  "writeStr16 s = (let b = utf8_encode s in if length b > 65535 then Inl (LimitExceeded (length b)) else Inr (le_bytes 2 (length b) @ b))"

definition writeMillis :: "int \<Rightarrow> wire_error + bytes" where
  "writeMillis v =
     (if \<bar>v\<bar> > 9007199254740991 then Inl (UnsafeMillis v)
      else (let hi = v div 4294967296
            in Inr (le_bytes 4 (nat (v - hi * 4294967296)) @ le_bytes 4 (nat (hi mod 4294967296)))))"

definition write_tag :: "tag \<Rightarrow> wire_error + bytes" where
  "write_tag t = wr_append (writeStr16 (tag_key t)) (writeStr16 (tag_value t))"

definition write_criterion :: "wire_criterion \<Rightarrow> wire_error + bytes" where
  "write_criterion c =
     wr_all ([writeLen16 (length (wc_names c))] @ map writeStr16 (wc_names c) @ [writeLen16 (length (wc_tags c))] @ map write_tag (wc_tags c))"

definition writeCriteria :: "wire_criterion list \<Rightarrow> wire_error + bytes" where
  "writeCriteria cs = wr_append (writeLen16 (length cs)) (wr_all (map write_criterion cs))"

definition writeCondition :: "(nat \<times> wire_criterion list) option \<Rightarrow> wire_error + bytes" where
  "writeCondition condition =
     (case condition of
        None \<Rightarrow> Inr (le_bytes 1 0)
      | Some (marker, criteria) \<Rightarrow> wr_append (Inr (le_bytes 1 1 @ le_bytes 8 marker)) (writeCriteria criteria))"

text \<open>Metadata travels as text; null and undefined do not.\<close>

definition sent_metadata :: "metadata \<Rightarrow> (string \<times> string) list" where
  "sent_metadata m = map (\<lambda>(k, v). (k, js_String v)) (filter (\<lambda>(k, v). v \<noteq> JUndefined \<and> v \<noteq> JNull) m)"

definition write_entry :: "string \<times> string \<Rightarrow> wire_error + bytes" where
  "write_entry kv = wr_append (writeStr16 (fst kv)) (writeStr16 (snd kv))"

text \<open>
  The count of metadata entries is checked after they are written, and the length of the record is put in front at the end; a length that does not
  fit 32 bits wraps.
\<close>

definition write_body :: "event_message \<Rightarrow> bytes \<Rightarrow> wire_error + bytes" where
  "write_body e data =
     (let entries = sent_metadata (em_metadata e)
      in wr_all [Inr (le_bytes 1 0), Inr (le_bytes 8 0), writeStr16 (em_identifier e), writeStr16 (qualifiedNameToString (em_name e)),
           writeStr16 (em_version e), writeMillis (em_timestamp e),
           (case wr_all (map write_entry entries) of Inl x \<Rightarrow> Inl x | Inr b \<Rightarrow>
              if length entries > 65535 then Inl (LimitExceeded (length entries)) else Inr (le_bytes 2 (length entries) @ b)),
           wr_append (writeLen16 (length (em_tags e))) (wr_all (map write_tag (em_tags e))),
           wr_append (writeLen32 (length data)) (Inr data)])"

definition writeRecord :: "event_message \<Rightarrow> bytes \<Rightarrow> wire_error + bytes" where
  "writeRecord e data = (case write_body e data of Inl x \<Rightarrow> Inl x | Inr b \<Rightarrow> Inr (le_bytes 4 (length b) @ b))"

definition writeRecords :: "(event_message \<times> bytes) list \<Rightarrow> wire_error + bytes" where
  "writeRecords evs = wr_append (writeLen32 (length evs)) (wr_all (map (\<lambda>(e, data). writeRecord e data) evs))"

section \<open>Reading\<close>

type_synonym deserializer = "bytes \<Rightarrow> string \<Rightarrow> string \<Rightarrow> js_error + js"

definition read_entry :: "bytes \<Rightarrow> wire_error + ((string \<times> string) \<times> bytes)" where
  "read_entry bs = rd_bind (readStr16 bs) (\<lambda>k rest. rd_bind (readStr16 rest) (\<lambda>v rest'. Inr ((k, v), rest')))"

definition read_tag :: "(bytes \<Rightarrow> string) \<Rightarrow> bytes \<Rightarrow> wire_error + (tag \<times> bytes)" where
  "read_tag lenient bs = rd_bind (readTagText lenient bs) (\<lambda>k rest. rd_bind (readTagText lenient rest) (\<lambda>v rest'.
     Inr (\<lparr>tag_key = k, tag_value = v\<rparr>, rest')))"

definition readEventBody :: "(bytes \<Rightarrow> string) \<Rightarrow> deserializer \<Rightarrow> bytes \<Rightarrow> wire_error + (event_message \<times> bytes)" where
  "readEventBody lenient deserialize bs =
     rd_bind (readStr16 bs) (\<lambda>identifier r1.
     rd_bind (readStr16 r1) (\<lambda>name r2.
     rd_bind (readStr16 r2) (\<lambda>version r3.
     rd_bind (readMillis r3) (\<lambda>timestamp r4.
     rd_bind (rd_bind (readU 2 r4) (\<lambda>n. read_times n read_entry)) (\<lambda>entries r5.
     rd_bind (rd_bind (readU 2 r5) (\<lambda>n. read_times n (read_tag lenient))) (\<lambda>tags r6.
     rd_bind (readBytes32 r6) (\<lambda>data r7.
       case (if data \<noteq> [] then deserialize data name version else Inr (JObject [])) of
         Inl e \<Rightarrow> Inl (DeserializeFailed e)
       | Inr payload \<Rightarrow>
           Inr (\<lparr>em_identifier = identifier, em_name = qualifiedNameFromString name, em_payload = payload,
                 em_metadata = fold (\<lambda>(k, v). map_set k (JString v)) entries [], em_version = version, em_timestamp = timestamp,
                 em_tags = tags\<rparr>, r7))))))))"

text \<open>A body may be read past its record, up to the end of the frame; the position it stops at tells.\<close>

definition readRecordAt ::
  "(bytes \<Rightarrow> string) \<Rightarrow> deserializer \<Rightarrow> bool \<Rightarrow> nat option \<Rightarrow> bytes \<Rightarrow> wire_error + ((nat \<times> event_message) option \<times> bytes)" where
  "readRecordAt lenient deserialize numbered floor_at bs =
     rd_bind (readU 4 bs) (\<lambda>len r0.
       if len = 0 then Inl ZeroLengthRecord
       else if length r0 < len then Inl RecordPastFrame
       else rd_bind (readU 1 r0) (\<lambda>flags r1.
         if flags \<noteq> 0 then Inr (None, drop len r0)
         else rd_bind (if numbered \<or> floor_at \<noteq> None then readU 8 r1 else Inr (0, drop 8 r1)) (\<lambda>sequence r2.
           if (case floor_at of None \<Rightarrow> False | Some f \<Rightarrow> sequence < f) then Inr (None, drop len r0)
           else rd_bind (readEventBody lenient deserialize r2) (\<lambda>event r3.
             if length r3 + len \<noteq> length r0 then Inl TrailingBytes else Inr (Some (sequence, event), r3)))))"

fun read_records ::
  "(bytes \<Rightarrow> string) \<Rightarrow> deserializer \<Rightarrow> nat option \<Rightarrow> nat \<Rightarrow> bytes \<Rightarrow> wire_error + (event_message list \<times> bytes)" where
  "read_records lenient deserialize floor_at 0 bs = Inr ([], bs)"
| "read_records lenient deserialize floor_at (Suc n) bs =
     rd_bind (readRecordAt lenient deserialize False floor_at bs) (\<lambda>item rest.
     rd_bind (read_records lenient deserialize floor_at n rest) (\<lambda>events rest'.
       Inr ((case item of None \<Rightarrow> [] | Some (_, e) \<Rightarrow> [e]) @ events, rest')))"

definition readEvents :: "(bytes \<Rightarrow> string) \<Rightarrow> deserializer \<Rightarrow> nat option \<Rightarrow> bytes \<Rightarrow> wire_error + (event_message list \<times> nat option)" where
  "readEvents lenient deserialize floor_at bs =
     rd_bind (readU 4 bs) (\<lambda>n r1.
     rd_bind (read_records lenient deserialize floor_at n r1) (\<lambda>events r2.
     rd_bind (readPresent r2) (\<lambda>present r3.
       if present then rd_bind (readU 8 r3) (\<lambda>marker _. Inr (events, Some marker)) else Inr (events, None))))"

text \<open>\<open>take\<close> of a raw batch: what is left of it, and the reader.\<close>

fun raw_take ::
  "(bytes \<Rightarrow> string) \<Rightarrow> deserializer \<Rightarrow> nat \<Rightarrow> bytes \<Rightarrow> wire_error + ((nat \<times> event_message) option \<times> nat \<times> bytes)" where
  "raw_take lenient deserialize 0 bs = Inr (None, 0, bs)"
| "raw_take lenient deserialize (Suc left) bs =
     rd_bind (readRecordAt lenient deserialize True None bs) (\<lambda>item rest.
       case item of Some e \<Rightarrow> Inr (Some e, left, rest) | None \<Rightarrow> raw_take lenient deserialize left rest)"

section \<open>Reading back what was written\<close>

lemma length_le_bytes [simp]: "length (le_bytes n v) = n"
  by (induction n arbitrary: v) simp_all

lemma le_value_bytes [simp]: "le_value (le_bytes n v) = v mod 256 ^ n"
proof (induction n arbitrary: v)
  case (Suc n)
  have "unat (of_nat v :: 8 word) = v mod 256"
    by (simp add: unsigned_of_nat take_bit_eq_mod)
  then show ?case
    using Suc by (simp add: mod_mult2_eq)
qed simp

lemma rd_bind_simps [simp]: "rd_bind (Inr (x, rest)) f = f x rest" "rd_bind (Inl e) f = Inl e"
  by (simp_all add: rd_bind_def)

lemma read_need_append: "length b = n \<Longrightarrow> read_need n (b @ rest) = Inr (b, rest)"
  by (simp add: read_need_def)

lemma readU_bytes [simp]: "readU n (le_bytes n v @ rest) = Inr (v mod 256 ^ n, rest)"
  by (simp add: readU_def read_need_append)

lemma readU_small: "v < 256 ^ n \<Longrightarrow> readU n (le_bytes n v @ rest) = Inr (v, rest)"
  by simp

lemma unat_byte: "n < 256 \<Longrightarrow> unat (of_nat n :: 8 word) = n"
  by (simp add: unsigned_of_nat take_bit_eq_mod)

lemma utf8_two:
  assumes "unat b = 192 + q" "unat c = 128 + r" "q = 2 \<or> q = 3" "r < 64"
  shows "utf8_decode (b # c # cs) = map_option ((#) (char_of (q * 64 + r))) (utf8_decode cs)"
  using assms by auto

lemma utf8_roundtrip: "utf8_decode (utf8_encode s) = Some s"
proof (induction s)
  case (Cons c s)
  have c: "(of_char c :: nat) < 256"
    by simp
  show ?case
  proof (cases "(of_char c :: nat) < 128")
    case True
    then show ?thesis
      using Cons by (simp add: utf8_encode_def utf8_char_def unat_byte)
  next
    case False
    define q r where "q = (of_char c :: nat) div 64" and "r = (of_char c :: nat) mod 64"
    have q: "q = 2 \<or> q = 3"
      using c False unfolding q_def by linarith
    have r: "r < 64" "q * 64 + r = of_char c"
      by (simp_all add: q_def r_def)
    have "utf8_encode (c # s) = of_nat (192 + q) # of_nat (128 + r) # utf8_encode s"
      using False by (simp add: utf8_encode_def utf8_char_def Let_def q_def r_def)
    also have "utf8_decode \<dots> = map_option ((#) (char_of (q * 64 + r))) (utf8_decode (utf8_encode s))"
      by (rule utf8_two [OF unat_byte unat_byte q r(1)]) (use q r(1) in linarith)+
    finally show ?thesis
      by (simp only: Cons r(2) char_of_char option.map)
  qed
qed (simp add: utf8_encode_def)

lemma readStr16_written:
  assumes "writeStr16 s = Inr b"
  shows "readStr16 (b @ rest) = Inr (s, rest)" "readTagText lenient (b @ rest) = Inr (s, rest)"
  using assms
  by (auto simp: writeStr16_def readStr16_def readTagText_def Let_def readU_small read_need_append utf8_roundtrip split: if_splits)

lemma wr_append_Inr: "wr_append a b = Inr x \<longleftrightarrow> (\<exists>y z. a = Inr y \<and> b = Inr z \<and> x = y @ z)"
  by (auto simp: wr_append_def split: sum.splits)

lemma wr_append_ok [simp]: "wr_append (Inr x) (Inr y) = Inr (x @ y)"
  by (simp add: wr_append_def)

lemma wr_all_simps [simp]: "wr_all [] = Inr []" "wr_all (w # ws) = wr_append w (wr_all ws)"
  by (simp_all add: wr_all_def)

lemma read_times_written:
  assumes "\<And>x b rest. x \<in> set xs \<Longrightarrow> w x = Inr b \<Longrightarrow> item (b @ rest) = Inr (x, rest)" "wr_all (map w xs) = Inr b"
  shows "read_times (length xs) item (b @ rest) = Inr (xs, rest)"
  using assms
proof (induction xs arbitrary: b)
  case (Cons x xs)
  then obtain y z where b: "w x = Inr y" "wr_all (map w xs) = Inr z" "b = y @ z"
    by (auto simp: wr_append_Inr)
  have "item (y @ z @ rest) = Inr (x, z @ rest)"
    using Cons.prems(1) b(1) by simp
  then show ?case
    using Cons.IH [OF Cons.prems(1) b(2)] b(3) by simp
qed simp

lemma read_entry_written: "write_entry kv = Inr b \<Longrightarrow> read_entry (b @ rest) = Inr (kv, rest)"
  by (auto simp: write_entry_def read_entry_def wr_append_Inr readStr16_written)

lemma read_tag_written: "write_tag t = Inr b \<Longrightarrow> read_tag lenient (b @ rest) = Inr (t, rest)"
  by (auto simp: write_tag_def read_tag_def wr_append_Inr readStr16_written)

lemma readMillis_written:
  assumes "writeMillis v = Inr b"
  shows "readMillis (b @ rest) = Inr (v, rest)"
proof -
  define hi where "hi = v div 4294967296"
  have v: "\<bar>v\<bar> \<le> 9007199254740991" and b: "b = le_bytes 4 (nat (v - hi * 4294967296)) @ le_bytes 4 (nat (hi mod 4294967296))"
    using assms by (auto simp: writeMillis_def hi_def Let_def split: if_splits)
  have lo: "v - hi * 4294967296 = v mod 4294967296"
    by (simp add: hi_def minus_div_mult_eq_mod)
  have range: "- 2097152 \<le> hi" "hi < 2097152"
    using v by (auto simp: hi_def)
  have sign: "hi mod 4294967296 = (if hi < 0 then hi + 4294967296 else hi)"
  proof (cases "hi < 0")
    case True
    have "(hi + 4294967296) mod 4294967296 = hi + 4294967296"
      by (rule mod_pos_pos_trivial) (use range True in auto)
    moreover have "(hi + 4294967296) mod 4294967296 = hi mod 4294967296"
      by simp
    ultimately show ?thesis
      using True by presburger
  qed (use range in \<open>simp add: mod_pos_pos_trivial\<close>)
  have "int (nat (v mod 4294967296)) = v mod 4294967296" "nat (v mod 4294967296) mod 256 ^ 4 = nat (v mod 4294967296)"
    by (simp_all add: nat_less_iff)
  moreover have "int (nat (hi mod 4294967296)) = hi mod 4294967296" "nat (hi mod 4294967296) mod 256 ^ 4 = nat (hi mod 4294967296)"
    by (simp_all add: nat_less_iff)
  moreover have "hi * 4294967296 + v mod 4294967296 = v"
    by (simp add: hi_def)
  moreover have "read_need 8 ((le_bytes 4 x @ le_bytes 4 y) @ rest) = Inr (le_bytes 4 x @ le_bytes 4 y, rest)" for x y
    by (rule read_need_append) simp
  ultimately show ?thesis
    unfolding b lo readMillis_def using sign range by (cases "hi < 0") (simp_all add: Let_def le_nat_iff)
qed

text \<open>The event as it comes out: metadata as text, the payload as the serializer reads it.\<close>

definition received_metadata :: "(string \<times> string) list \<Rightarrow> metadata" where
  "received_metadata entries = fold (\<lambda>(k, v). map_set k (JString v)) entries []"

definition received_event :: "event_message \<Rightarrow> js \<Rightarrow> event_message" where
  "received_event e payload = e\<lparr>em_payload := payload, em_metadata := received_metadata (sent_metadata (em_metadata e))\<rparr>"

definition payload_read :: "deserializer \<Rightarrow> event_message \<Rightarrow> bytes \<Rightarrow> js_error + js" where
  "payload_read deserialize e data =
     (if data \<noteq> [] then deserialize data (qualifiedNameToString (em_name e)) (em_version e) else Inr (JObject []))"

lemma body_written:
  assumes "write_body e data = Inr b" "CHR ''.'' \<notin> set (qn_name (em_name e))" "payload_read deserialize e data = Inr payload"
  obtains body where "b = le_bytes 1 0 @ le_bytes 8 0 @ body"
    "\<And>rest. readEventBody lenient deserialize (body @ rest) = Inr (received_event e payload, rest)"
proof -
  let ?entries = "sent_metadata (em_metadata e)"
  obtain i n v t m ts where parts:
    "b = le_bytes 1 0 @ le_bytes 8 0 @ i @ n @ v @ t @ (le_bytes 2 (length ?entries) @ m) @ (le_bytes 2 (length (em_tags e)) @ ts) @
      le_bytes 4 (length data) @ data"
    "writeStr16 (em_identifier e) = Inr i" "writeStr16 (qualifiedNameToString (em_name e)) = Inr n" "writeStr16 (em_version e) = Inr v"
    "writeMillis (em_timestamp e) = Inr t" "wr_all (map write_entry ?entries) = Inr m" "wr_all (map write_tag (em_tags e)) = Inr ts"
    "length ?entries \<le> 65535" "length (em_tags e) \<le> 65535" "length data \<le> 4294967295"
    using assms(1)
    by (auto simp: write_body_def Let_def wr_append_Inr writeLen16_def writeLen32_def split: sum.splits if_splits)
  have entries: "read_times (length ?entries) read_entry (m @ rest) = Inr (?entries, rest)" for rest
    by (rule read_times_written [OF _ parts(6)]) (rule read_entry_written)
  have tags: "read_times (length (em_tags e)) (read_tag lenient) (ts @ rest) = Inr (em_tags e, rest)" for rest
    by (rule read_times_written [OF _ parts(7)]) (rule read_tag_written)
  have "readBytes32 (le_bytes 4 (length data) @ data @ rest) = Inr (data, rest)" for rest
    using parts(10) by (simp add: readBytes32_def readU_small read_need_append)
  then have "readEventBody lenient deserialize ((i @ n @ v @ t @ (le_bytes 2 (length ?entries) @ m) @ (le_bytes 2 (length (em_tags e)) @ ts) @
      le_bytes 4 (length data) @ data) @ rest) = Inr (received_event e payload, rest)" for rest
    using parts(8,9) assms(3)
    by (simp add: readEventBody_def readStr16_written [OF parts(2)] readStr16_written [OF parts(3)] readStr16_written [OF parts(4)]
        readMillis_written [OF parts(5)] readU_small entries tags payload_read_def received_event_def received_metadata_def
        parse_print_name [OF assms(2)])
  then show ?thesis
    using that parts(1) by blast
qed

lemma record_written:
  assumes "writeRecord e data = Inr b" "CHR ''.'' \<notin> set (qn_name (em_name e))" "payload_read deserialize e data = Inr payload"
    "length b < 4294967296"
  shows "readRecordAt lenient deserialize numbered None (b @ rest) = Inr (Some (0, received_event e payload), rest)"
proof -
  obtain w where w: "write_body e data = Inr w" "b = le_bytes 4 (length w) @ w"
    using assms(1) by (auto simp: writeRecord_def split: sum.splits)
  obtain body where body: "w = le_bytes 1 0 @ le_bytes 8 0 @ body"
    "\<And>rest. readEventBody lenient deserialize (body @ rest) = Inr (received_event e payload, rest)"
    using body_written [OF w(1) assms(2,3), of lenient] by blast
  have len: "readU 4 (le_bytes 4 (length w) @ r) = Inr (length w, r)" for r
    using assms(4) w(2) by (intro readU_small) simp
  have zero: "readU 1 (le_bytes 1 0 @ r) = Inr (0, r)" "readU 8 (le_bytes 8 0 @ r) = Inr (0, r)" "drop 8 (le_bytes 8 0 @ r) = r" for r
    by (simp_all del: One_nat_def)
  have "length w = 9 + length body"
    using body(1) by simp
  then show ?thesis
    unfolding readRecordAt_def w(2) append.assoc len rd_bind_simps
    using body(2) [of rest] by (simp add: body(1) zero del: One_nat_def le_bytes.simps)
qed

lemma records_written:
  assumes "wr_all (map (\<lambda>(e, data). writeRecord e data) evs) = Inr b"
    "\<forall>(e, data) \<in> set evs. CHR ''.'' \<notin> set (qn_name (em_name e)) \<and> (\<exists>p. payload_read deserialize e data = Inr p)" "length b < 4294967296"
  shows "read_records lenient deserialize None (length evs) (b @ rest) =
    Inr (map (\<lambda>(e, data). received_event e (projr (payload_read deserialize e data))) evs, rest)"
  using assms
proof (induction evs arbitrary: b)
  case (Cons ed evs)
  obtain e data where ed: "ed = (e, data)"
    by fastforce
  with Cons.prems obtain x y p where b: "writeRecord e data = Inr x" "wr_all (map (\<lambda>(e, data). writeRecord e data) evs) = Inr y" "b = x @ y"
    and p: "CHR ''.'' \<notin> set (qn_name (em_name e))" "payload_read deserialize e data = Inr p"
    by (auto simp: wr_append_Inr)
  have "readRecordAt lenient deserialize False None (x @ y @ rest) = Inr (Some (0, received_event e p), y @ rest)"
    by (rule record_written [OF b(1) p]) (use Cons.prems(3) b(3) in simp)
  moreover have "read_records lenient deserialize None (length evs) (y @ rest) =
      Inr (map (\<lambda>(e, data). received_event e (projr (payload_read deserialize e data))) evs, rest)"
    by (rule Cons.IH [OF b(2)]) (use Cons.prems(2,3) b(3) in auto)
  ultimately show ?case
    using b(3) p ed by simp
qed simp

lemma map_set_new: "k \<notin> fst ` set m \<Longrightarrow> map_set k v m = m @ [(k, v)]"
  by (induction m) auto

lemma text_metadata:
  assumes "distinct (map fst m)" "\<forall>(k, v) \<in> set m. \<exists>s. v = JString s"
  shows "received_metadata (sent_metadata m) = m"
proof -
  have sent: "sent_metadata m = map (\<lambda>(k, v). (k, js_String v)) m"
    unfolding sent_metadata_def by (subst filter_True) (use assms(2) in auto)
  have "fold (\<lambda>(k, v). map_set k (JString v)) (map (\<lambda>(k, v). (k, js_String v)) m) acc = acc @ m"
    if "distinct (map fst (acc @ m))" for acc
    using that assms(2)
  proof (induction m arbitrary: acc)
    case (Cons kv m)
    obtain k s where kv: "kv = (k, JString s)"
      using Cons.prems(2) by (cases kv) auto
    have "map_set k (JString s) acc = acc @ [(k, JString s)]"
      using Cons.prems(1) kv by (intro map_set_new) auto
    then show ?case
      using Cons.IH [of "acc @ [kv]"] Cons.prems kv by simp
  qed simp
  from this [of "[]"] show ?thesis
    using assms(1) sent by (simp add: received_metadata_def)
qed

lemma truncated_record:
  assumes "writeRecord e data = Inr b" "length b < 4294967296" "strict_prefix p b"
  shows "\<exists>x. readRecordAt lenient deserialize numbered floor_at p = Inl x"
proof -
  obtain w where w: "write_body e data = Inr w" "b = le_bytes 4 (length w) @ w"
    using assms(1) by (auto simp: writeRecord_def split: sum.splits)
  show ?thesis
  proof (cases "length p < 4")
    case True
    then show ?thesis
      by (simp add: readRecordAt_def readU_def read_need_def)
  next
    case False
    obtain zs where zs: "b = p @ zs" "zs \<noteq> []"
      using assms(3) by (auto simp: strict_prefix_def prefix_def)
    define q where "q = drop 4 p"
    have "take 4 p = le_bytes 4 (length w)"
      using arg_cong [OF trans [OF zs(1) [symmetric] w(2)], of "take 4"] False by simp
    then have p: "p = le_bytes 4 (length w) @ q"
      unfolding q_def by (metis append_take_drop_id)
    then have "length q < length w"
      using zs w(2) by simp
    moreover have "readU 4 p = Inr (length w, q)"
      unfolding p using assms(2) w(2) by (intro readU_small) simp
    ultimately show ?thesis
      by (cases "length w = 0") (simp_all add: readRecordAt_def)
  qed
qed

text \<open>
  C30: events that are written come out of a frame as they went in, in order: identifier, name, version, time and tags as they were, metadata as text
  without nulls, and so unchanged where it was text, the payload as the serializer reads its bytes; and a record of which bytes are missing is
  refused, never read as another event. This holds for local names without a dot, payloads the serializer can read, and records of less than
  2^32 bytes in all.
\<close>

theorem events_survive_the_wire:
  assumes "writeRecords evs = Inr b" "length b < 4294967296"
    "\<forall>(e, data) \<in> set evs. CHR ''.'' \<notin> set (qn_name (em_name e)) \<and> (\<exists>p. payload_read deserialize e data = Inr p)"
  shows "readEvents lenient deserialize None (b @ le_bytes 1 0) =
      Inr (map (\<lambda>(e, data). received_event e (projr (payload_read deserialize e data))) evs, None) \<and>
    readEvents lenient deserialize None (b @ le_bytes 1 1 @ le_bytes 8 marker) =
      Inr (map (\<lambda>(e, data). received_event e (projr (payload_read deserialize e data))) evs, Some (marker mod 2 ^ 64)) \<and>
    (\<forall>(e, data) \<in> set evs. distinct (map fst (em_metadata e)) \<and> (\<forall>(k, v) \<in> set (em_metadata e). \<exists>s. v = JString s) \<longrightarrow>
       received_event e (em_payload e) = e) \<and>
    (\<forall>(e, data) \<in> set evs. \<forall>r p. writeRecord e data = Inr r \<and> strict_prefix p r \<and> length r < 4294967296 \<longrightarrow>
       (\<exists>x. readRecordAt lenient deserialize numbered floor_at p = Inl x))"
proof (intro conjI)
  obtain rs where rs: "wr_all (map (\<lambda>(e, data). writeRecord e data) evs) = Inr rs" "b = le_bytes 4 (length evs) @ rs" "length evs < 256 ^ 4"
    using assms(1) by (auto simp: writeRecords_def wr_append_Inr writeLen32_def split: if_splits)
  have count: "readU 4 (le_bytes 4 (length evs) @ r) = Inr (length evs, r)" for r
    by (rule readU_small [OF rs(3)])
  have recs: "read_records lenient deserialize None (length evs) (rs @ rest) =
      Inr (map (\<lambda>(e, data). received_event e (projr (payload_read deserialize e data))) evs, rest)" for rest
    by (rule records_written [OF rs(1) assms(3)]) (use assms(2) rs(2) in simp)
  have flag: "readPresent (le_bytes 1 0) = Inr (False, [])" "readPresent (le_bytes 1 1 @ r) = Inr (True, r)" for r
    using readU_small [of 0 1 "[]"] readU_small [of 1 1 r] by (simp_all add: readPresent_def del: One_nat_def le_bytes.simps)
  show "readEvents lenient deserialize None (b @ le_bytes 1 0) =
      Inr (map (\<lambda>(e, data). received_event e (projr (payload_read deserialize e data))) evs, None)"
    unfolding readEvents_def rs(2) append.assoc count rd_bind_simps recs flag by simp
  show "readEvents lenient deserialize None (b @ le_bytes 1 1 @ le_bytes 8 marker) =
      Inr (map (\<lambda>(e, data). received_event e (projr (payload_read deserialize e data))) evs, Some (marker mod 2 ^ 64))"
    unfolding readEvents_def rs(2) append.assoc count rd_bind_simps recs flag
    using readU_bytes [of 8 marker "[]"] by (simp del: le_bytes.simps)
  show "\<forall>(e, data) \<in> set evs. distinct (map fst (em_metadata e)) \<and> (\<forall>(k, v) \<in> set (em_metadata e). \<exists>s. v = JString s) \<longrightarrow>
      received_event e (em_payload e) = e"
    by (auto simp: received_event_def text_metadata)
  show "\<forall>(e, data) \<in> set evs. \<forall>r p. writeRecord e data = Inr r \<and> strict_prefix p r \<and> length r < 4294967296 \<longrightarrow>
      (\<exists>x. readRecordAt lenient deserialize numbered floor_at p = Inl x)"
    using truncated_record by blast
qed

text \<open>Two events, one without payload.\<close>

definition wire_example :: "(event_message \<times> bytes) list" where
  "wire_example = [(order_event, [123, 125]), (order_event\<lparr>em_metadata := [(''by'', JString ''bob'')]\<rparr>, [])]"

definition example_deserialize :: deserializer where
  "example_deserialize data name version = Inr (JNumber (int (length data)))"

theorem events_survive_the_wire_witness:
  "\<exists>b. writeRecords wire_example = Inr b \<and>
     readEvents (\<lambda>_. '''') example_deserialize None (b @ le_bytes 1 0) =
       Inr (map (\<lambda>(e, data). received_event e (projr (payload_read example_deserialize e data))) wire_example, None)"
proof -
  obtain b where b: "writeRecords wire_example = Inr b" "length b < 4294967296"
    by (simp add: wire_example_def order_event_def writeRecords_def writeRecord_def write_body_def write_entry_def write_tag_def
        sent_metadata_def writeStr16_def writeLen16_def writeLen32_def writeMillis_def utf8_encode_def utf8_char_def Let_def
        tagged_event_def qualifiedNameToString_def qn_def del: le_bytes.simps)
  have "\<forall>(e, data) \<in> set wire_example. CHR ''.'' \<notin> set (qn_name (em_name e)) \<and> (\<exists>p. payload_read example_deserialize e data = Inr p)"
    by (simp add: wire_example_def payload_read_def example_deserialize_def order_event_def tagged_event_def qn_def)
  from events_survive_the_wire [OF b this] b(1) show ?thesis
    by blast
qed

section \<open>Raw batches\<close>

text \<open>The records of a raw batch as they turn out: what a subscription takes from it is what it takes from their list.\<close>

fun raw_records :: "(wire_error \<Rightarrow> js_error) \<Rightarrow> (bytes \<Rightarrow> string) \<Rightarrow> deserializer \<Rightarrow> nat \<Rightarrow> bytes \<Rightarrow> wire_record list" where
  "raw_records err lenient deserialize 0 bs = []"
| "raw_records err lenient deserialize (Suc left) bs =
     (case readRecordAt lenient deserialize True None bs of
        Inl e \<Rightarrow> replicate (Suc left) (BadRecord (err e))
      | Inr (None, rest) \<Rightarrow> OtherRecord # raw_records err lenient deserialize left rest
      | Inr (Some (n, e), rest) \<Rightarrow>
          EventRecord \<lparr>sq_sequence = int n, sq_event = e, sq_token = None\<rparr> # raw_records err lenient deserialize left rest)"

lemma length_raw_records [simp]: "length (raw_records err lenient deserialize left bs) = left"
  by (induction left arbitrary: bs) (auto split: sum.splits option.splits)

lemma raw_take_refines:
  "batch_take (raw_records err lenient deserialize left bs) =
     (case raw_take lenient deserialize left bs of
        Inl e \<Rightarrow> Inl (err e)
      | Inr (item, left', bs') \<Rightarrow>
          Inr (map_option (\<lambda>(n, e). \<lparr>sq_sequence = int n, sq_event = e, sq_token = None\<rparr>) item, raw_records err lenient deserialize left' bs'))"
  by (induction left arbitrary: bs) (auto simp: rd_bind_def split: sum.splits option.splits prod.splits)

end
