(* ===== verification/Client_Controls.thy ===== *)
theory Client_Controls
  imports Messages "HOL-Library.Sublist"
begin

text \<open>
  Two controls of the KronosDB client: the sender of updates that sends only what the receiver has asked for
  (\<open>packages/kronosdb/src/flow-controlled-sender.ts\<close>) and the latch that drains work before a shutdown
  (\<open>packages/kronosdb/src/shutdown-latch.ts\<close>).

  \<open>throws\<close> says whether sending a value throws, given what was sent before. The functions handed to a sender do not call it back.
\<close>

section \<open>The flow-controlled sender\<close>

record 'v sender =
  fs_maxBufferSize :: nat
  fs_buffer :: "'v list"
  fs_permits :: nat
  fs_active :: bool
  fs_completionRequested :: bool
  fs_sent :: "'v list"
  fs_completions :: nat
  fs_errors :: "js_error list"

datatype sender_error = BadMaxBufferSize | BadPermits | SendFailed js_error

type_synonym 'v sending = "'v list \<Rightarrow> 'v \<Rightarrow> js_error option"

definition MAX_SAFE :: int where
  "MAX_SAFE = 9007199254740991"

definition flowControlledSender :: "int option \<Rightarrow> sender_error + 'v sender" where
  "flowControlledSender maxBufferSize =
     (let m = (case maxBufferSize of None \<Rightarrow> 256 | Some n \<Rightarrow> n)
      in if \<bar>m\<bar> > MAX_SAFE \<or> m \<le> 0 then Inl BadMaxBufferSize
         else Inr \<lparr>fs_maxBufferSize = nat m, fs_buffer = [], fs_permits = 0, fs_active = True, fs_completionRequested = False, fs_sent = [],
                   fs_completions = 0, fs_errors = []\<rparr>)"

definition sender_fail :: "js_error \<Rightarrow> 'v sender \<Rightarrow> 'v sender" where
  "sender_fail e s = (if \<not> fs_active s then s else s\<lparr>fs_active := False, fs_buffer := [], fs_errors := fs_errors s @ [e]\<rparr>)"

definition sendOne :: "'v sending \<Rightarrow> 'v \<Rightarrow> 'v sender \<Rightarrow> sender_error option \<times> 'v sender" where
  "sendOne throws v s =
     (case throws (fs_sent s) v of
        Some e \<Rightarrow> (Some (SendFailed e), sender_fail e s)
      | None \<Rightarrow> (None, s\<lparr>fs_sent := fs_sent s @ [v]\<rparr>))"

definition finishIfDrained :: "'v sender \<Rightarrow> 'v sender" where
  "finishIfDrained s =
     (if fs_active s \<and> fs_completionRequested s \<and> fs_buffer s = [] then s\<lparr>fs_active := False, fs_completions := Suc (fs_completions s)\<rparr> else s)"

fun drain_loop :: "'v sending \<Rightarrow> 'v list \<Rightarrow> 'v sender \<Rightarrow> sender_error option \<times> 'v sender" where
  "drain_loop throws [] s = (None, s)"
| "drain_loop throws (v # vs) s =
     (if fs_permits s > 0 \<and> fs_active s
      then (case sendOne throws v (s\<lparr>fs_buffer := vs, fs_permits := fs_permits s - 1\<rparr>) of
              (Some e, s') \<Rightarrow> (Some e, s')
            | (None, s') \<Rightarrow> drain_loop throws vs s')
      else (None, s))"

definition sender_drain :: "'v sending \<Rightarrow> 'v sender \<Rightarrow> sender_error option \<times> 'v sender" where
  "sender_drain throws s =
     (case drain_loop throws (fs_buffer s) s of (Some e, s') \<Rightarrow> (Some e, s') | (None, s') \<Rightarrow> (None, finishIfDrained s'))"

definition sender_offer :: "'v sending \<Rightarrow> 'v \<Rightarrow> 'v sender \<Rightarrow> (sender_error + bool) \<times> 'v sender" where
  "sender_offer throws v s =
     (if \<not> fs_active s \<or> fs_completionRequested s then (Inr False, s)
      else if fs_permits s > 0 then
        (case sendOne throws v (s\<lparr>fs_permits := fs_permits s - 1\<rparr>) of
           (Some e, s') \<Rightarrow> (Inl e, s')
         | (None, s') \<Rightarrow> (Inr True, s'))
      else if length (fs_buffer s) \<ge> fs_maxBufferSize s then (Inr False, s)
      else (Inr True, s\<lparr>fs_buffer := fs_buffer s @ [v]\<rparr>))"

definition addPermits :: "'v sending \<Rightarrow> int \<Rightarrow> 'v sender \<Rightarrow> sender_error option \<times> 'v sender" where
  "addPermits throws count s =
     (if \<bar>count\<bar> > MAX_SAFE \<or> count \<le> 0 \<or> int (fs_permits s) + count > MAX_SAFE then (Some BadPermits, s)
      else if \<not> fs_active s then (None, s)
      else sender_drain throws (s\<lparr>fs_permits := fs_permits s + nat count\<rparr>))"

definition sender_complete :: "'v sender \<Rightarrow> 'v sender" where
  "sender_complete s = finishIfDrained (s\<lparr>fs_completionRequested := True\<rparr>)"

definition sender_completeExceptionally :: "js_error \<Rightarrow> 'v sender \<Rightarrow> 'v sender" where
  "sender_completeExceptionally e s = sender_fail e s"

definition sender_isActive :: "'v sender \<Rightarrow> bool" where
  "sender_isActive s = (fs_active s \<and> \<not> fs_completionRequested s)"

subsection \<open>Its life\<close>

datatype 'v sender_op = Offer 'v | AddPermits int | Complete | CompleteExceptionally js_error

text \<open>The sender with the values it accepted and the permits it was given while it was active.\<close>

record 'v sender_world =
  sn_sender :: "'v sender"
  sn_accepted :: "'v list"
  sn_granted :: nat

fun sender_step :: "'v sending \<Rightarrow> 'v sender_op \<Rightarrow> 'v sender_world \<Rightarrow> 'v sender_world" where
  "sender_step throws (Offer v) w =
     (case sender_offer throws v (sn_sender w) of (r, s) \<Rightarrow>
        w\<lparr>sn_sender := s, sn_accepted := sn_accepted w @ (if r = Inr True then [v] else [])\<rparr>)"
| "sender_step throws (AddPermits n) w =
     (case addPermits throws n (sn_sender w) of (e, s) \<Rightarrow>
        w\<lparr>sn_sender := s, sn_granted := sn_granted w + (if e = Some BadPermits \<or> \<not> fs_active (sn_sender w) then 0 else nat n)\<rparr>)"
| "sender_step throws Complete w = w\<lparr>sn_sender := sender_complete (sn_sender w)\<rparr>"
| "sender_step throws (CompleteExceptionally e) w = w\<lparr>sn_sender := sender_completeExceptionally e (sn_sender w)\<rparr>"

definition sender_ok :: "'v sender \<Rightarrow> 'v list \<Rightarrow> nat \<Rightarrow> bool" where
  "sender_ok s acc given =
     (prefix (fs_sent s) acc \<and> length (fs_sent s) + fs_permits s \<le> given \<and> length (fs_buffer s) \<le> fs_maxBufferSize s \<and>
      (fs_errors s = [] \<longrightarrow> fs_sent s @ fs_buffer s = acc \<and> length (fs_sent s) + fs_permits s = given) \<and>
      (fs_errors s \<noteq> [] \<longrightarrow> \<not> fs_active s \<and> fs_completions s = 0) \<and>
      (fs_active s \<longrightarrow> fs_completions s = 0 \<and> (fs_permits s > 0 \<longrightarrow> fs_buffer s = []) \<and> (fs_completionRequested s \<longrightarrow> fs_buffer s \<noteq> [])) \<and>
      (\<not> fs_active s \<longrightarrow> fs_buffer s = [] \<and> (fs_errors s = [] \<longrightarrow> fs_completionRequested s \<and> fs_completions s = 1)))"

lemma offer_ok:
  assumes "sender_ok s acc given" "sender_offer throws v s = (r, s')"
  shows "sender_ok s' (acc @ (if r = Inr True then [v] else [])) given"
  using assms by (auto simp: sender_ok_def sender_offer_def sendOne_def sender_fail_def split: if_splits option.splits)

lemma drain_loop_ok:
  assumes "drain_loop throws (fs_buffer s) s = (e, s')" "prefix (fs_sent s) acc" "length (fs_sent s) + fs_permits s = given"
    "length (fs_buffer s) \<le> fs_maxBufferSize s" "fs_errors s = []" "fs_active s" "fs_sent s @ fs_buffer s = acc" "fs_completions s = 0"
  shows "prefix (fs_sent s') acc \<and> length (fs_sent s') + fs_permits s' \<le> given \<and> length (fs_buffer s') \<le> fs_maxBufferSize s' \<and>
    fs_completions s' = 0 \<and> fs_completionRequested s' = fs_completionRequested s \<and>
    (case e of None \<Rightarrow> fs_active s' \<and> fs_errors s' = [] \<and> fs_sent s' @ fs_buffer s' = acc \<and> length (fs_sent s') + fs_permits s' = given \<and>
                       (fs_permits s' > 0 \<longrightarrow> fs_buffer s' = [])
             | Some _ \<Rightarrow> \<not> fs_active s' \<and> fs_errors s' \<noteq> [] \<and> fs_buffer s' = [])"
  using assms
proof (induction "fs_buffer s" arbitrary: s)
  case (Cons v vs)
  show ?case
  proof (cases "fs_permits s > 0")
    case True
    let ?s = "s\<lparr>fs_buffer := vs, fs_permits := fs_permits s - 1\<rparr>"
    show ?thesis
    proof (cases "throws (fs_sent s) v")
      case None
      let ?s1 = "?s\<lparr>fs_sent := fs_sent s @ [v]\<rparr>"
      have "drain_loop throws (fs_buffer ?s1) ?s1 = (e, s')"
        using Cons.prems(1,6) Cons.hyps(2) [symmetric] True None by (simp add: sendOne_def)
      from Cons.hyps(1) [of ?s1, OF _ this] show ?thesis
        using Cons.prems Cons.hyps(2) [symmetric] True by auto
    next
      case (Some x)
      then show ?thesis
        using Cons.prems Cons.hyps(2) [symmetric] True by (auto simp: sendOne_def sender_fail_def)
    qed
  qed (use Cons in \<open>auto simp flip: Cons.hyps(2)\<close>)
qed auto

lemma permits_ok:
  assumes ok: "sender_ok s acc given" and run: "addPermits throws n s = (e, s')"
  shows "sender_ok s' acc (given + (if e = Some BadPermits \<or> \<not> fs_active s then 0 else nat n))"
proof (cases "(\<bar>n\<bar> > MAX_SAFE \<or> n \<le> 0 \<or> int (fs_permits s) + n > MAX_SAFE) \<or> \<not> fs_active s")
  case True
  then show ?thesis
    using ok run by (auto simp: addPermits_def split: if_splits)
next
  case False
  let ?s = "s\<lparr>fs_permits := fs_permits s + nat n\<rparr>"
  obtain e1 s1 where loop: "drain_loop throws (fs_buffer ?s) ?s = (e1, s1)"
    by fastforce
  have after: "prefix (fs_sent s1) acc \<and> length (fs_sent s1) + fs_permits s1 \<le> given + nat n \<and> length (fs_buffer s1) \<le> fs_maxBufferSize s1 \<and>
    fs_completions s1 = 0 \<and> fs_completionRequested s1 = fs_completionRequested ?s \<and>
    (case e1 of None \<Rightarrow> fs_active s1 \<and> fs_errors s1 = [] \<and> fs_sent s1 @ fs_buffer s1 = acc \<and> length (fs_sent s1) + fs_permits s1 = given + nat n \<and>
                       (fs_permits s1 > 0 \<longrightarrow> fs_buffer s1 = [])
             | Some _ \<Rightarrow> \<not> fs_active s1 \<and> fs_errors s1 \<noteq> [] \<and> fs_buffer s1 = [])"
    by (rule drain_loop_ok [OF loop]) (use ok False in \<open>auto simp: sender_ok_def\<close>)
  have no_bad: "drain_loop throws vs q \<noteq> (Some BadPermits, q')" for vs and q q' :: "'a sender"
    by (induction vs arbitrary: q) (auto simp: sendOne_def split: option.splits)
  have result: "(e, s') = (case e1 of Some x \<Rightarrow> (Some x, s1) | None \<Rightarrow> (None, finishIfDrained s1))"
    using run False loop by (simp add: addPermits_def sender_drain_def split: option.splits)
  show ?thesis
  proof (cases e1)
    case None
    with result False after have "e = None" "s' = finishIfDrained s1" "fs_active s"
      by auto
    with None after show ?thesis
      by (cases "fs_completionRequested s1 \<and> fs_buffer s1 = []") (auto simp: finishIfDrained_def sender_ok_def)
  next
    case (Some x)
    with result False have "e = Some x" "s' = s1" "fs_active s"
      by auto
    moreover have "x \<noteq> BadPermits"
      using loop no_bad Some by blast
    ultimately show ?thesis
      using Some after by (simp add: sender_ok_def)
  qed
qed

lemma sender_step_ok:
  assumes "sender_ok (sn_sender w) (sn_accepted w) (sn_granted w)"
  shows "sender_ok (sn_sender (sender_step throws oper w)) (sn_accepted (sender_step throws oper w)) (sn_granted (sender_step throws oper w))"
proof (cases oper)
  case (Offer v)
  then show ?thesis
    using offer_ok [OF assms] by (auto split: prod.splits)
next
  case (AddPermits n)
  then show ?thesis
    using permits_ok [OF assms] by (auto split: prod.splits)
next
  case Complete
  then show ?thesis
    using assms by (auto simp: sender_complete_def finishIfDrained_def sender_ok_def)
next
  case (CompleteExceptionally e)
  then show ?thesis
    using assms by (auto simp: sender_completeExceptionally_def sender_fail_def sender_ok_def)
qed

lemma sender_steps_ok:
  "sender_ok (sn_sender w) (sn_accepted w) (sn_granted w) \<Longrightarrow>
   sender_ok (sn_sender (fold (sender_step throws) opers w)) (sn_accepted (fold (sender_step throws) opers w))
     (sn_granted (fold (sender_step throws) opers w))"
  by (induction opers arbitrary: w) (simp_all add: sender_step_ok)

text \<open>
  Whatever is offered, permitted and completed: the values sent are the accepted ones in order, never more than permitted, and what is not
  yet sent is buffered within the limit; with a permit for each of them nothing stays behind, and a requested completion has been signalled
  exactly once.
\<close>

theorem sender_sends_accepted_in_order:
  assumes "flowControlledSender m = Inr s" and "w = fold (sender_step throws) opers \<lparr>sn_sender = s, sn_accepted = [], sn_granted = 0\<rparr>"
  shows "prefix (fs_sent (sn_sender w)) (sn_accepted w) \<and> length (fs_sent (sn_sender w)) \<le> sn_granted w \<and>
    length (fs_buffer (sn_sender w)) \<le> fs_maxBufferSize (sn_sender w) \<and> fs_completions (sn_sender w) \<le> 1 \<and>
    (fs_errors (sn_sender w) = [] \<longrightarrow> fs_sent (sn_sender w) @ fs_buffer (sn_sender w) = sn_accepted w \<and>
       (length (sn_accepted w) \<le> sn_granted w \<longrightarrow> fs_sent (sn_sender w) = sn_accepted w \<and>
          (fs_completionRequested (sn_sender w) \<longrightarrow> fs_completions (sn_sender w) = 1)))"
proof -
  have "sender_ok s [] 0"
    using assms(1) by (auto simp: flowControlledSender_def sender_ok_def Let_def split: if_splits)
  then have ok: "sender_ok (sn_sender w) (sn_accepted w) (sn_granted w)"
    unfolding assms(2) by (intro sender_steps_ok) simp
  have "fs_buffer (sn_sender w) = []" if "fs_errors (sn_sender w) = []" "length (sn_accepted w) \<le> sn_granted w"
  proof (rule ccontr)
    assume rest: "fs_buffer (sn_sender w) \<noteq> []"
    have sent: "fs_sent (sn_sender w) @ fs_buffer (sn_sender w) = sn_accepted w"
        "length (fs_sent (sn_sender w)) + fs_permits (sn_sender w) = sn_granted w"
      and full: "fs_permits (sn_sender w) > 0 \<Longrightarrow> fs_buffer (sn_sender w) = []"
      using ok that(1) unfolding sender_ok_def by blast+
    have "length (sn_accepted w) = length (fs_sent (sn_sender w)) + length (fs_buffer (sn_sender w))"
      by (simp flip: sent(1))
    then have "fs_permits (sn_sender w) > 0"
      using sent(2) that(2) rest by (cases "fs_buffer (sn_sender w)") auto
    with full rest show False by blast
  qed
  then show ?thesis
    using ok unfolding sender_ok_def by (cases "fs_active (sn_sender w)") auto
qed

section \<open>The shutdown latch\<close>

text \<open>
  Activities are numbered in the order they were registered, \<open>True\<close> for one that has ended; callbacks are numbers. A shutdown answers a promise
  that is settled at once, or the one promise that \<open>end\<close> settles.
\<close>

datatype drain_promise = NoPromise | PendingPromise | SettledPromise

record latch =
  sl_callbacks :: "nat list"
  sl_called :: "nat list"
  sl_activeCount :: int
  sl_shuttingDown :: bool
  sl_drain :: drain_promise
  sl_activities :: "bool list"

definition shutdownLatch :: latch where
  "shutdownLatch = \<lparr>sl_callbacks = [], sl_called = [], sl_activeCount = 0, sl_shuttingDown = False, sl_drain = NoPromise, sl_activities = []\<rparr>"

definition checkDrained :: "latch \<Rightarrow> latch" where
  "checkDrained l = (if sl_shuttingDown l \<and> sl_activeCount l = 0 \<and> sl_drain l = PendingPromise then l\<lparr>sl_drain := SettledPromise\<rparr> else l)"

definition onShutdown :: "nat \<Rightarrow> latch \<Rightarrow> latch" where
  "onShutdown c l =
     (if sl_shuttingDown l then l\<lparr>sl_called := sl_called l @ [c]\<rparr>
      else l\<lparr>sl_callbacks := (if c \<in> set (sl_callbacks l) then sl_callbacks l else sl_callbacks l @ [c])\<rparr>)"

definition offShutdown :: "nat \<Rightarrow> latch \<Rightarrow> latch" where
  "offShutdown c l = l\<lparr>sl_callbacks := removeAll c (sl_callbacks l)\<rparr>"

text \<open>\<open>None\<close>: the latch throws that a shutdown is in progress.\<close>

definition registerActivity :: "latch \<Rightarrow> nat option \<times> latch" where
  "registerActivity l =
     (if sl_shuttingDown l then (None, l)
      else (Some (length (sl_activities l)), l\<lparr>sl_activeCount := sl_activeCount l + 1, sl_activities := sl_activities l @ [False]\<rparr>))"

definition end_activity :: "nat \<Rightarrow> latch \<Rightarrow> latch" where
  "end_activity t l =
     (if sl_activities l ! t then l
      else checkDrained (l\<lparr>sl_activities := (sl_activities l)[t := True], sl_activeCount := sl_activeCount l - 1\<rparr>))"

text \<open>The answer says whether the promise is settled.\<close>

definition initiateShutdown :: "latch \<Rightarrow> bool \<times> latch" where
  "initiateShutdown l =
     (let l1 = l\<lparr>sl_shuttingDown := True, sl_called := sl_called l @ sl_callbacks l, sl_callbacks := []\<rparr>
      in if sl_activeCount l1 = 0 then (True, l1)
         else (let l2 = (if sl_drain l1 = NoPromise then l1\<lparr>sl_drain := PendingPromise\<rparr> else l1) in (sl_drain l2 = SettledPromise, l2)))"

datatype latch_op = Register | EndActivity nat | Shutdown | On nat | Off nat

fun latch_step :: "latch_op \<Rightarrow> latch \<Rightarrow> latch" where
  "latch_step Register l = snd (registerActivity l)"
| "latch_step (EndActivity t) l = (if t < length (sl_activities l) then end_activity t l else l)"
| "latch_step Shutdown l = snd (initiateShutdown l)"
| "latch_step (On c) l = onShutdown c l"
| "latch_step (Off c) l = offShutdown c l"

definition in_flight :: "latch \<Rightarrow> nat" where
  "in_flight l = length (filter Not (sl_activities l))"

definition latch_ok :: "latch \<Rightarrow> bool" where
  "latch_ok l =
     (sl_activeCount l = int (in_flight l) \<and>
      (case sl_drain l of
         NoPromise \<Rightarrow> \<not> sl_shuttingDown l \<or> in_flight l = 0
       | PendingPromise \<Rightarrow> sl_shuttingDown l \<and> 0 < in_flight l
       | SettledPromise \<Rightarrow> sl_shuttingDown l \<and> in_flight l = 0) \<and>
      (sl_shuttingDown l \<longrightarrow> sl_callbacks l = []))"

lemma in_flight_end:
  "t < length bs \<Longrightarrow> \<not> bs ! t \<Longrightarrow> Suc (length (filter Not (bs[t := True]))) = length (filter Not bs)"
  by (induction bs arbitrary: t) (auto simp: less_Suc_eq_0_disj)

lemma end_activity_ok:
  assumes ok: "latch_ok l" and t: "t < length (sl_activities l)"
  shows "latch_ok (end_activity t l)"
proof (cases "sl_activities l ! t")
  case False
  let ?l = "l\<lparr>sl_activities := (sl_activities l)[t := True], sl_activeCount := sl_activeCount l - 1\<rparr>"
  have "Suc (in_flight ?l) = in_flight l"
    using in_flight_end [OF t False] by (simp add: in_flight_def)
  moreover have "in_flight (checkDrained ?l) = in_flight ?l"
    by (simp add: checkDrained_def in_flight_def)
  ultimately show ?thesis
    using ok False by (cases "sl_drain l") (auto simp: latch_ok_def end_activity_def checkDrained_def)
qed (use ok in \<open>simp add: end_activity_def\<close>)

lemma latch_step_ok: "latch_ok l \<Longrightarrow> latch_ok (latch_step oper l)"
proof (cases oper)
  assume ok: "latch_ok l"

  {
    case Register
    with ok show ?thesis
      by (cases "sl_shuttingDown l"; cases "sl_drain l") (simp_all add: registerActivity_def latch_ok_def in_flight_def)
  next
    case (EndActivity t)
    with ok end_activity_ok show ?thesis
      by simp
  next
    case Shutdown
    with ok show ?thesis
      by (cases "sl_drain l"; cases "in_flight l = 0") (simp_all add: initiateShutdown_def Let_def latch_ok_def in_flight_def)
  next
    case (On c)
    with ok show ?thesis
      by (cases "sl_shuttingDown l"; cases "sl_drain l") (simp_all add: onShutdown_def latch_ok_def in_flight_def)
  next
    case (Off c)
    with ok show ?thesis
      by (cases "sl_drain l") (simp_all add: offShutdown_def latch_ok_def in_flight_def)
  }
qed

text \<open>
  However a latch is used: it counts the activities that have not ended, a shutdown's promise is settled exactly when none is left, and once a
  shutdown has begun no activity is let in and no callback is left uncalled.
\<close>

theorem latch_drains_running_work:
  assumes "l = fold latch_step opers shutdownLatch"
  shows "sl_activeCount l = int (in_flight l) \<and> (fst (initiateShutdown l) \<longleftrightarrow> in_flight l = 0) \<and>
    (sl_drain l = SettledPromise \<longrightarrow> in_flight l = 0) \<and> (sl_drain l = PendingPromise \<longrightarrow> 0 < in_flight l) \<and>
    (sl_shuttingDown l \<longrightarrow> fst (registerActivity l) = None \<and> sl_callbacks l = [])"
proof -
  have "latch_ok (fold latch_step opers l)" if "latch_ok l" for l
    using that by (induction opers arbitrary: l) (simp_all add: latch_step_ok)
  from this [of shutdownLatch] have "latch_ok l"
    unfolding assms by (simp add: latch_ok_def in_flight_def shutdownLatch_def)
  then show ?thesis
    by (cases "sl_drain l"; cases "in_flight l = 0") (simp_all add: latch_ok_def initiateShutdown_def registerActivity_def Let_def)
qed

end
