(* ===== verification/Spec2Isabelle.thy ===== *)
theory Spec2Isabelle
  imports Handling Processor_Operations Upcasting Scheduling Subscription_Bus Messaging_Admission Handler_Wrappers
    Application Subscriber_Registry Wire_Format Client_Controls
begin

text \<open>
  This library models the core package of kronos-ts (\<^verbatim>\<open>src/packages/core/src\<close>) and parts of the packages for RabbitMQ and KronosDB, and proves what makes it correct.

  The program appends events to a log and derives everything else from it. A command runs in a unit of work: it loads
  states by folding the events that match their query, decides, and appends new events on the condition that
  nothing it read has changed. Event processors read the log in segments, each with a token that says how far it has got;
  nodes share the segments by claims on the rows of a token store, and park events that fail in a dead-letter queue.

  \<^bold>\<open>Theories and the code they model\<close> (paths under \<^verbatim>\<open>src/packages/core/src\<close>)

  \<^item> \<^verbatim>\<open>Prelude\<close>: results as sums, insertion-ordered maps (the laws as a locale, interpreted on association lists), texts of numbers.
  \<^item> \<^verbatim>\<open>Messages\<close>: \<^verbatim>\<open>messaging/messages.ts\<close>, \<^verbatim>\<open>messaging/tag.ts\<close>: qualified names, metadata, tags, event descriptors.
  \<^item> \<^verbatim>\<open>Dcb_Query\<close>: \<^verbatim>\<open>event-sourcing/dcb-query.ts\<close>: validation, compilation and matching of queries.
  \<^item> \<^verbatim>\<open>Event_Store\<close>: \<^verbatim>\<open>event-sourcing/in-memory.ts\<close> with the conditions and markers: sourcing, conditional append, staging with
    commit and rollback, streams.
  \<^item> \<^verbatim>\<open>State_Query\<close>, \<^verbatim>\<open>Snapshotting\<close>, \<^verbatim>\<open>Repository\<close>: \<^verbatim>\<open>event-sourcing/state.ts\<close>, \<^verbatim>\<open>snapshot.ts\<close>,
    \<^verbatim>\<open>structural-fitness.ts\<close>, \<^verbatim>\<open>repository.ts\<close>: the query a state derives, cached folds and the load.
  \<^item> \<^verbatim>\<open>Unit_Of_Work\<close>: \<^verbatim>\<open>unit-of-work/unit-of-work.ts\<close>: registration, phases, errors, completion.
  \<^item> \<^verbatim>\<open>Handling\<close>: \<^verbatim>\<open>event-sourcing/append.ts\<close>, \<^verbatim>\<open>load.ts\<close>, \<^verbatim>\<open>unit-of-work/event-flush.ts\<close>, \<^verbatim>\<open>command-handling\<close>:
    the verbs of a command's context, the flush and the local bus.
  \<^item> \<^verbatim>\<open>Upcasting\<close>: \<^verbatim>\<open>upcasting/upcasting-event-store.ts\<close>: the translated query, the sourced read, the lifted stream.
  \<^item> \<^verbatim>\<open>Scheduling\<close>: \<^verbatim>\<open>event-scheduling\<close>: the in-memory tier with its timers, and the verbs of a context.
  \<^item> \<^verbatim>\<open>Update_Buffer\<close>, \<^verbatim>\<open>Subscription_Bus\<close>: \<^verbatim>\<open>query-handling\<close>: the buffer of a subscriber and its iterator, the filters,
    the local query bus with its subscriptions, and updates that wait for the commit of a task.
  \<^item> \<^verbatim>\<open>Messaging_Admission\<close>: \<^verbatim>\<open>messaging-reliability.ts\<close>: the limit on concurrent work.
  \<^item> \<^verbatim>\<open>Handler_Wrappers\<close>: \<^verbatim>\<open>correlation\<close>, \<^verbatim>\<open>validation\<close>, \<^verbatim>\<open>interception\<close>, \<^verbatim>\<open>local-first\<close>: what hosts wrap around
    handlers and buses.
  \<^item> \<^verbatim>\<open>Wrapper_Chains\<close>: \<^verbatim>\<open>composition/describe.ts\<close>: the boot check of a chain of wrappers. \<^verbatim>\<open>Application\<close>: \<^verbatim>\<open>kronos.ts\<close>: boot checks,
    subscriptions, and the processors event handlers are grouped into.
  \<^item> \<^verbatim>\<open>Subscriber_Registry\<close>: \<^verbatim>\<open>src/packages/rabbitmq/src/distributed-subscriber-registry.ts\<close>: the mirror of subscriptions that the
    instances of a cluster keep by gossip.
  \<^item> \<^verbatim>\<open>Log_Subscription\<close>: \<^verbatim>\<open>src/packages/kronosdb/src/kronosdb-subscription.ts\<close>: a live read of the log of a server, with credits and
    progress. \<^verbatim>\<open>Wire_Format\<close>: \<^verbatim>\<open>native-events.ts\<close> on the primitives of \<^verbatim>\<open>protocol/kronosdb-protocol.ts\<close>: events and
    criteria as bytes. \<^verbatim>\<open>Client_Controls\<close>:
    \<^verbatim>\<open>flow-controlled-sender.ts\<close> and \<^verbatim>\<open>shutdown-latch.ts\<close> beside it.
  \<^item> \<^verbatim>\<open>Segment\<close>, \<^verbatim>\<open>Tracking_Token\<close>, \<^verbatim>\<open>Token_Store\<close>: the files of these names under \<^verbatim>\<open>event-processing\<close>.
  \<^item> \<^verbatim>\<open>Dead_Letter_Queue\<close>, \<^verbatim>\<open>Dead_Lettering\<close>: \<^verbatim>\<open>dead-letter-queue.ts\<close>, \<^verbatim>\<open>dead-lettering.ts\<close>,
    \<^verbatim>\<open>dead-letter-backoff.ts\<close>, \<^verbatim>\<open>dead-letter-reprocessor.ts\<close>.
  \<^item> \<^verbatim>\<open>Shared_Stream\<close>: \<^verbatim>\<open>shared-stream.ts\<close>: one read of the log for all segments of a node.
  \<^item> \<^verbatim>\<open>Event_Processor\<close>: \<^verbatim>\<open>processor.ts\<close> and the batch of \<^verbatim>\<open>running-processor.ts\<close>: builders, \<^verbatim>\<open>processBatch\<close>, delivery in
    order and side by side.
  \<^item> \<^verbatim>\<open>Running_Processor\<close>: the rest of \<^verbatim>\<open>running-processor.ts\<close>: workers, polls, claims, start, stop, reset, split, merge.
  \<^item> \<^verbatim>\<open>Processor_Runs\<close>: the invariant of a running processor and that every step of it, of other nodes and of the writers of
    the log keeps it. \<^verbatim>\<open>Processor_Guarantees\<close> and \<^verbatim>\<open>Processor_Operations\<close>: the properties over all reachable states.

  \<^bold>\<open>How the code is modelled\<close>

  Objects are records, unions datatypes, maps insertion-ordered association lists. A throw is a value of an error type,
  on the left of a sum. Numbers that are only counted are \<^typ>\<open>nat\<close> or \<^typ>\<open>int\<close>, bigint positions \<^typ>\<open>int\<close>; the sequence hash
  is computed on 32-bit words, bytes on the wire are 8-bit words, and the bit operations of segments are those of JavaScript on signed 32-bit numbers.
  An asynchronous operation is one atomic step, and what may happen at its awaits is a step or an environment between steps: the
  command's environment appends and stages between its awaits, the processor's environment is the other nodes, the writers and the clock,
  the scheduling tier's is the clock, its timers and callers without a task, and a registry's is the other
  instances and the broker, which puts what is published into the queue of every connected instance and keeps the order of each queue.
  A server of the log sends no more records than it was given credits for.
  Loops that need not end (phases whose handlers register more handlers) are partial functions into \<^typ>\<open>'a option\<close>, where
  \<^term>\<open>None\<close> is not returning; the theorems say that they return. The walk of the segment tree and the loop of the shared stream end by a
  measure. No fuel is used except for the digits of a number, where the number itself bounds it, and the
  256 links after which the code itself stops following a chain of wrappers.
  What an application supplies (handlers, evolvers, schemas' fields, the unit of work's host) is a parameter.

  \<^bold>\<open>What is shown\<close>

  \<^item> The log and commands: a conditional append succeeds exactly when its reads are current, rollbacks apart; a handled command
    appends what its handler appended, and only if every answer the handler got still holds; loads through a cache are full folds; derived
    queries match exactly what the fold needs; a unit of work runs its phases in order and tells its error handlers the phase that threw.
  \<^item> Claims and tokens: a write needs a claim that was not taken since; a takeover goes on where the last owner wrote; tokens survive
    storage, advance along a run and end a replay exactly where it began.
  \<^item> Processors: each segment's stream hands out the events it accepts once and in order; a batch and its token go together; a poll passes
    exactly what it delivers, in every reachable state; a failed batch is retried event by event; sequences keep their order side
    by side, each is cut short only by its own failed delivery, and the batch fails with the earliest; a reset replays what was reached;
    split and merge lose and repeat nothing.
  \<^item> Dead letters: a lane keeps its order, processing replays the oldest lane, caps hold, reprocessing drains.
  \<^item> Upcasting and scheduling: a stream through an upcaster misses nothing; a schedule fires at most once, not early within the range of a
    timer, never after a cancel, and lands in the log when its timer is due.
  \<^item> Queries: a subscriber reads the accepted updates in order; an update reaches the matching open subscriptions, after the commit of the
    task that emits it and not at all when that task fails.
  \<^item> Wrappers and limits: a chain of messages keeps its correlation and names its causes; correlation and validation may be wrapped in
    either order; the boot check refuses exactly the chains that break its rules; admitted work never exceeds its limit.
  \<^item> Clusters: once all gossip is taken, the mirrors of a healthy cluster agree with the owners of the subscriptions.
  \<^item> The client of the log: a subscription hands out what arrived, in order, within its credits, and answers no progress ahead of its
    reader; events come out of a frame as they were written and a truncated record is refused; a sender sends accepted values in order and within its permits; a latch drains running work.
  \<^item> Applications: everything is subscribed before a processor starts, and each event handler runs in the one processor it names.
  \<^item> Where the code does otherwise, in general: rolling back a staged append discards whatever was appended since; an append evolves
    cached states of other instances; a split by a node that has lost its claim leaves two nodes on the second half; a load through an
    upcaster misses exactly the events that match only once upcast; a schedule further ahead than a timer counts fires at once; closing
    an ended subscription cuts off a newer one of the same identifier for good; the subscriptions of an instance that is gone stay in the
    mirrors of the others; a record that a client steps over keeps its subscription from ending. By example: an empty lane name starves
    the other lanes; an event that arrives while a quiet stretch is written wakes nobody; after a lapsed claim and a split two nodes
    handle the same event.

  \<^bold>\<open>Not modelled\<close>

  Logging; serialization and the random delay of exponential backoff, which are the standard library's; the frames of the wire other than events; the race of a
  promise with a timer; the assembly of contexts, which put the modelled verbs together; and the rest of the packages for
  Postgres, KronosDB, Axon Server, RabbitMQ and OpenTelemetry, whose behaviour is that of a server outside the repository.
\<close>

end
